(* ===== verification/Noct_Prelude.thy ===== *)
theory Noct_Prelude
  imports Main "HOL-Library.Word"
begin

text \<open>
  Types, searches over fixed-size arrays and byte-buffer operations that every component of
  the firmware model shares.

  C++ arrays are lists of their fixed length; a machine integer is a word of its width, so
  that arithmetic wraps as the code's does; a \<open>size_t\<close> is a natural number bounded by the
  length of the buffer it measures. A C++ out-parameter is an argument and a component of the
  result.
\<close>

unbundle bit_operations_syntax

named_theorems slot_simps \<open>facts about scans over fixed-size slot arrays\<close>
named_theorems codec_simps \<open>byte-level encoders and decoders, unfolded by round-trip proofs\<close>
named_theorems frame_lens \<open>the constant lengths of the wire format\<close>

type_synonym u8 = "8 word"
type_synonym u16 = "16 word"
type_synonym u32 = "32 word"
type_synonym u64 = "64 word"
type_synonym bytes = "8 word list"

lemma unat_u8_le [simp]: "unat (x :: u8) \<le> 255"
  using unsigned_less [of x] by (simp add: less_Suc_eq_le [symmetric])

lemma unat_u16_less: "unat (x :: u16) < 65536"
  by (rule order.strict_trans2 [OF unsigned_less]) simp

lemma unat_u32_less: "unat (x :: u32) < 4294967296"
  by (rule order.strict_trans2 [OF unsigned_less]) simp

text \<open>A widening conversion keeps the value.\<close>

lemma unat_ucast_up:
  "LENGTH('a::len) \<le> LENGTH('b::len) \<Longrightarrow> unat (ucast (x :: 'a word) :: 'b word) = unat x"
  by (simp add: unsigned_ucast_eq take_bit_nat_eq_self_iff
      order.strict_trans2 [OF unsigned_less])

text \<open>The age of a time stamp, on clocks that wrap.\<close>

lemma word_age:
  assumes "q \<le> t" and "t - q < 2 ^ 32"
  shows "unat (of_nat t - of_nat q :: u32) = t - q"
proof -
  have "(of_nat t - of_nat q :: u32) = of_nat (t - q)" using assms(1) by (simp add: of_nat_diff)
  then show ?thesis using assms(2) by (simp add: unat_of_nat)
qed

text \<open>Incrementing a counter that is below some other value does not wrap.\<close>

lemma unat_Suc_below: "(x :: 'a::len word) < y \<Longrightarrow> unat (x + 1) = unat x + 1"
proof -
  assume lt: "x < y"
  have "unat y < 2 ^ LENGTH('a)" by (rule unsigned_less)
  moreover have "unat x < unat y" using lt by (simp only: word_less_nat_alt)
  ultimately have "unat x + 1 < 2 ^ LENGTH('a)" by linarith
  then show ?thesis by (simp add: unat_word_ariths)
qed

section \<open>Scans over arrays\<close>

text \<open>The first index whose element satisfies a test: the loop
  \<open>for (i = 0; i < n; ++i) if (p(a[i])) ...\<close> of the slot tables.\<close>

fun find_idx :: "('a \<Rightarrow> bool) \<Rightarrow> 'a list \<Rightarrow> nat option" where
  "find_idx p [] = None"
| "find_idx p (x # xs) = (if p x then Some 0 else map_option Suc (find_idx p xs))"

lemma find_idx_None [slot_simps]: "find_idx p xs = None \<longleftrightarrow> (\<forall>x \<in> set xs. \<not> p x)"
  by (induction xs) auto

lemma find_idx_SomeD:
  "find_idx p xs = Some i \<Longrightarrow> i < length xs \<and> p (xs ! i) \<and> (\<forall>j < i. \<not> p (xs ! j))"
proof (induction xs arbitrary: i)
  case Nil
  then show ?case by simp
next
  case (Cons x xs)
  show ?case
  proof (cases "p x")
    case True
    with Cons.prems show ?thesis by simp
  next
    case False
    with Cons.prems obtain k where k: "find_idx p xs = Some k" "i = Suc k" by auto
    from Cons.IH [OF k(1)] False k(2) show ?thesis
      by (auto simp: nth_Cons split: nat.splits)
  qed
qed

lemma find_idx_lessD: "find_idx p xs = Some i \<Longrightarrow> i < length xs"
  by (simp add: find_idx_SomeD)

lemma find_idx_nthD: "find_idx p xs = Some i \<Longrightarrow> p (xs ! i)"
  by (simp add: find_idx_SomeD)

lemma find_idx_exists: "i < length xs \<Longrightarrow> p (xs ! i) \<Longrightarrow> \<exists>j. find_idx p xs = Some j"
  using find_idx_None [of p xs] nth_mem [of i xs] by (cases "find_idx p xs") auto

lemma find_idx_unique:
  assumes "i < length xs" and "p (xs ! i)" and "\<And>j. j < length xs \<Longrightarrow> p (xs ! j) \<Longrightarrow> j = i"
  shows "find_idx p xs = Some i"
proof -
  from find_idx_exists [of i xs p] assms obtain j where j: "find_idx p xs = Some j" by blast
  from find_idx_SomeD [OF j] assms(3) [of j] have "j = i" by blast
  with j show ?thesis by simp
qed

text \<open>A list in which the entries of every key are distinct is distinct.\<close>

lemma distinct_by_key:
  "(\<And>k. distinct (filter (\<lambda>x. f x = k) xs)) \<Longrightarrow> distinct xs"
proof (induction xs)
  case Nil
  then show ?case by simp
next
  case (Cons x xs)
  have "distinct (filter (\<lambda>y. f y = k) xs)" for k
    using Cons.prems [of k] by (simp split: if_splits)
  then have "distinct xs" by (rule Cons.IH)
  with Cons.prems [of "f x"] show ?case by simp
qed

text \<open>The index of the first minimum: the loops that look for the oldest slot, with the key
  of element 0 as the starting value and a strict comparison.\<close>

fun scan_min :: "('a \<Rightarrow> 'k::linorder) \<Rightarrow> 'a list \<Rightarrow> nat \<Rightarrow> nat \<Rightarrow> 'k \<Rightarrow> nat" where
  "scan_min key [] i best oldest = best"
| "scan_min key (x # xs) i best oldest =
     (if key x < oldest then scan_min key xs (Suc i) i (key x)
      else scan_min key xs (Suc i) best oldest)"

definition oldest_idx :: "('a \<Rightarrow> 'k::linorder) \<Rightarrow> 'a list \<Rightarrow> nat" where
  "oldest_idx key xs = scan_min key (tl xs) 1 0 (key (hd xs))"

lemma scan_min_bound: "best < i \<Longrightarrow> scan_min key xs i best old < i + length xs"
proof (induction xs arbitrary: i best old)
  case Nil
  then show ?case by simp
next
  case (Cons x xs)
  then show ?case
    using Cons.IH [of i "Suc i" "key x"] Cons.IH [of best "Suc i" old] by simp
qed

lemma scan_min_least:
  assumes "best < length pre" and "old = key (pre ! best)" and "\<forall>j < length pre. old \<le> key (pre ! j)"
  shows "\<forall>j < length (pre @ xs).
           key ((pre @ xs) ! scan_min key xs (length pre) best old) \<le> key ((pre @ xs) ! j)"
  using assms
proof (induction xs arbitrary: pre best old)
  case Nil
  then show ?case by simp
next
  case (Cons x xs)
  show ?case
  proof (cases "key x < old")
    case True
    have "\<forall>j < length (pre @ [x]). key x \<le> key ((pre @ [x]) ! j)"
      using True Cons.prems(3) by (auto simp: nth_append less_Suc_eq intro: less_imp_le less_le_trans)
    then show ?thesis
      using Cons.IH [of "length pre" "pre @ [x]" "key x"] True by (simp add: nth_append)
  next
    case False
    have "\<forall>j < length (pre @ [x]). old \<le> key ((pre @ [x]) ! j)"
      using False Cons.prems(3) by (auto simp: nth_append less_Suc_eq)
    then show ?thesis
      using Cons.IH [of best "pre @ [x]" old] False Cons.prems(1,2) by (simp add: nth_append)
  qed
qed

lemma oldest_idx_less: "xs \<noteq> [] \<Longrightarrow> oldest_idx key xs < length xs"
  using scan_min_bound [of 0 1 key "tl xs" "key (hd xs)"] by (cases xs) (auto simp: oldest_idx_def)

lemma oldest_idx_least:
  "j < length xs \<Longrightarrow> key (xs ! oldest_idx key xs) \<le> key (xs ! j)"
  using scan_min_least [of 0 "[hd xs]" "key (hd xs)" key "tl xs"]
  by (cases xs) (auto simp: oldest_idx_def)

section \<open>Byte buffers\<close>

text \<open>Writing a run of bytes at the start of a caller-owned buffer; the rest of the buffer is
  not touched.\<close>

definition poke :: "bytes \<Rightarrow> bytes \<Rightarrow> bytes" where
  "poke buf bs = bs @ drop (length bs) buf"

lemma length_poke [simp]: "length bs \<le> length buf \<Longrightarrow> length (poke buf bs) = length buf"
  by (simp add: poke_def)

lemma take_poke [simp]: "take (length bs) (poke buf bs) = bs"
  by (simp add: poke_def)

text \<open>Writing a run of bytes at an offset.\<close>

definition poke_at :: "bytes \<Rightarrow> nat \<Rightarrow> bytes \<Rightarrow> bytes" where
  "poke_at buf off bs = take off buf @ bs @ drop (off + length bs) buf"

lemma length_poke_at [simp]: "off + length bs \<le> length buf \<Longrightarrow> length (poke_at buf off bs) = length buf"
  by (simp add: poke_at_def)

lemma poke_at_append:
  "length pre = off \<Longrightarrow> poke_at (pre @ rest) off bs = pre @ bs @ drop (length bs) rest"
  by (simp add: poke_at_def)

text \<open>\<open>memcpy\<close> of \<open>n\<close> bytes into the start of an array: the tail of the array keeps what it
  held.\<close>

definition copy_into :: "bytes \<Rightarrow> bytes \<Rightarrow> bytes" where
  "copy_into arr bs = poke arr bs"

lemma take_copy_into [simp]: "n = length bs \<Longrightarrow> take n (copy_into arr bs) = bs"
  by (simp add: copy_into_def)

lemma length_copy_into [simp]: "length bs \<le> length arr \<Longrightarrow> length (copy_into arr bs) = length arr"
  by (simp add: copy_into_def)

text \<open>A list whose length is a numeral, taken apart into its elements: decoders of fixed layouts
  read every byte of such a list.\<close>

lemma length_numeral_conv:
  "length xs = numeral n \<longleftrightarrow> (\<exists>y ys. xs = y # ys \<and> length ys = pred_numeral n)"
  by (simp add: numeral_eq_Suc length_Suc_conv)

lemma length_one_conv: "length xs = Suc 0 \<longleftrightarrow> (\<exists>y. xs = [y])"
  by (auto simp: length_Suc_conv)

lemmas length_convs = length_numeral_conv length_one_conv

lemma numeral_le_length_conv:
  "numeral n \<le> length xs \<longleftrightarrow> (\<exists>y ys. xs = y # ys \<and> pred_numeral n \<le> length ys)"
  by (cases xs) (simp_all add: numeral_eq_Suc)

lemma one_le_length_conv: "Suc 0 \<le> length xs \<longleftrightarrow> (\<exists>y ys. xs = y # ys)"
  by (cases xs) simp_all

lemmas le_length_convs = numeral_le_length_conv one_le_length_conv

section \<open>Little-endian fields\<close>

definition write_u16_le :: "u16 \<Rightarrow> bytes" where
  "write_u16_le v = [ucast (v AND 0xFF), ucast (drop_bit 8 v AND 0xFF)]"

definition write_u24_le :: "u32 \<Rightarrow> bytes" where
  "write_u24_le v = [ucast (v AND 0xFF), ucast (drop_bit 8 v AND 0xFF),
                     ucast (drop_bit 16 v AND 0xFF)]"

definition write_u32_le :: "u32 \<Rightarrow> bytes" where
  "write_u32_le v = [ucast (v AND 0xFF), ucast (drop_bit 8 v AND 0xFF),
                     ucast (drop_bit 16 v AND 0xFF), ucast (drop_bit 24 v AND 0xFF)]"

definition read_u16_le :: "bytes \<Rightarrow> u16" where
  "read_u16_le s = ucast (s ! 0) OR push_bit 8 (ucast (s ! 1))"

definition read_u24_le :: "bytes \<Rightarrow> u32" where
  "read_u24_le s = ucast (s ! 0) OR push_bit 8 (ucast (s ! 1)) OR push_bit 16 (ucast (s ! 2))"

definition read_u32_le :: "bytes \<Rightarrow> u32" where
  "read_u32_le s = ucast (s ! 0) OR push_bit 8 (ucast (s ! 1)) OR push_bit 16 (ucast (s ! 2))
                   OR push_bit 24 (ucast (s ! 3))"

lemma length_write_le [simp, frame_lens]:
  "length (write_u16_le v) = 2" "length (write_u24_le w) = 3" "length (write_u32_le w) = 4"
  by (simp_all add: write_u16_le_def write_u24_le_def write_u32_le_def)

text \<open>Masking with \<open>0xFF\<close> before the narrowing cast does not change the byte written.\<close>

lemma low_byte [codec_simps]: "(ucast (v AND 0xFF) :: u8) = ucast (v :: 'a::len word)"
proof -
  have m: "(0xFF :: 'a word) = mask 8" by (simp add: mask_eq_exp_minus_1)
  show ?thesis
    unfolding m by (rule bit_word_eqI) (auto simp: bit_simps dest: bit_imp_le_length)
qed

lemma join_u16:
  "(ucast (ucast v :: u8) :: u16) OR push_bit 8 (ucast (ucast (drop_bit 8 v) :: u8)) = v"
  by (rule bit_word_eqI) (auto simp: bit_simps)

lemma join_u32:
  "(ucast (ucast v :: u8) :: u32) OR push_bit 8 (ucast (ucast (drop_bit 8 v) :: u8))
     OR push_bit 16 (ucast (ucast (drop_bit 16 v) :: u8))
     OR push_bit 24 (ucast (ucast (drop_bit 24 v) :: u8)) = v" (is "?l = v")
proof (rule bit_word_eqI)
  fix n assume "n < LENGTH(32)"
  then consider "n < 8" | "8 \<le> n" "n < 16" | "16 \<le> n" "n < 24" | "24 \<le> n" "n < 32" by fastforce
  then show "bit ?l n = bit v n" by cases (auto simp: bit_simps)
qed

lemma join_u24:
  "(ucast (ucast v :: u8) :: u32) OR push_bit 8 (ucast (ucast (drop_bit 8 v) :: u8))
     OR push_bit 16 (ucast (ucast (drop_bit 16 v) :: u8)) = take_bit 24 v" (is "?l = _")
proof (rule bit_word_eqI)
  fix n assume "n < LENGTH(32)"
  then consider "n < 8" | "8 \<le> n" "n < 16" | "16 \<le> n" "n < 24" | "24 \<le> n" "n < 32" by fastforce
  then show "bit ?l n = bit (take_bit 24 v) n" by cases (auto simp: bit_simps)
qed

lemma split_u16:
  "(ucast ((ucast (x :: u8) :: u16) OR push_bit 8 (ucast (y :: u8))) :: u8) = x"
  "(ucast (drop_bit 8 ((ucast x :: u16) OR push_bit 8 (ucast y))) :: u8) = y"
  by (rule bit_word_eqI, (auto simp: bit_simps not_less dest: bit_imp_le_length)[1])+

lemma split_u24:
  fixes x y z :: u8
  defines "w \<equiv> (ucast x :: u32) OR push_bit 8 (ucast y) OR push_bit 16 (ucast z)"
  shows "(ucast w :: u8) = x" "(ucast (drop_bit 8 w) :: u8) = y" "(ucast (drop_bit 16 w) :: u8) = z"
  unfolding w_def
  by (rule bit_word_eqI, (auto simp: bit_simps not_less dest: bit_imp_le_length)[1])+

lemma split_u32:
  fixes x y z t :: u8
  defines "w \<equiv> (ucast x :: u32) OR push_bit 8 (ucast y) OR push_bit 16 (ucast z)
                  OR push_bit 24 (ucast t)"
  shows "(ucast w :: u8) = x" "(ucast (drop_bit 8 w) :: u8) = y" "(ucast (drop_bit 16 w) :: u8) = z"
    "(ucast (drop_bit 24 w) :: u8) = t"
  unfolding w_def
  by (rule bit_word_eqI, (auto simp: bit_simps not_less dest: bit_imp_le_length)[1])+

lemma read_write_u16_le [simp]: "read_u16_le (write_u16_le v @ rest) = v"
  by (simp add: read_u16_le_def write_u16_le_def low_byte join_u16)

lemma read_write_u32_le [simp]: "read_u32_le (write_u32_le v @ rest) = v"
  by (simp add: read_u32_le_def write_u32_le_def low_byte join_u32)

lemma read_write_u24_le [simp]: "read_u24_le (write_u24_le v @ rest) = take_bit 24 v"
  by (simp add: read_u24_le_def write_u24_le_def low_byte join_u24)

lemma read_write_le_end [simp]:
  "read_u16_le (write_u16_le a) = a" "read_u24_le (write_u24_le b) = take_bit 24 b"
  "read_u32_le (write_u32_le c) = c"
  using read_write_u16_le [of a "[]"] read_write_u24_le [of b "[]"] read_write_u32_le [of c "[]"]
  by simp_all

lemma write_read_u16_le [simp]: "write_u16_le (read_u16_le (x # y # rest)) = [x, y]"
  using split_u16 by (simp add: read_u16_le_def write_u16_le_def low_byte)

lemma write_read_u24_le [simp]: "write_u24_le (read_u24_le (x # y # z # rest)) = [x, y, z]"
  using split_u24 [of x y z] by (simp add: read_u24_le_def write_u24_le_def low_byte)

lemma write_read_u32_le [simp]: "write_u32_le (read_u32_le (x # y # z # t # rest)) = [x, y, z, t]"
  using split_u32 [of x y z t] by (simp add: read_u32_le_def write_u32_le_def low_byte)

end
