(* ===== verification/Wire.thy ===== *)
theory Wire
  imports Noct_Prelude
begin

text \<open>
  The frame header of the ESP-NOW protocol, from \<open>include/transport/espnow/frame.h\<close> and
  \<open>src/transport/espnow/frame.cpp\<close>: message types, source-id ranges, the nine header bytes and
  their decoder, the in-place hop counter, the LED repeat mask and the capability that a message
  type needs. The locale \<open>payload_codec\<close> states what the thirteen per-payload encoders and
  decoders promise each other; theory Frames discharges it for each of them.

  An encoder receives the whole buffer and returns the number of bytes it reports (0 for a
  refusal) with the new contents of the buffer. A decoder receives the out-parameter and returns
  it as the code leaves it, on the failing paths too.
\<close>

section \<open>Constants and enumerations\<close>

abbreviation kMagic0 :: u8 where "kMagic0 \<equiv> 0x4E"
abbreviation kMagic1 :: u8 where "kMagic1 \<equiv> 0x4E"
abbreviation kProtocolVersion :: u8 where "kProtocolVersion \<equiv> 4"
abbreviation kBroadcastSourceId :: u16 where "kBroadcastSourceId \<equiv> 0xFFFF"
abbreviation kSourceIdCommunityMin :: u16 where "kSourceIdCommunityMin \<equiv> 0"
abbreviation kSourceIdCommunityMax :: u16 where "kSourceIdCommunityMax \<equiv> 0x003F"
abbreviation kSourceIdPerformanceMin :: u16 where "kSourceIdPerformanceMin \<equiv> 0x0040"
abbreviation kSourceIdPerformanceMax :: u16 where "kSourceIdPerformanceMax \<equiv> 0x00FE"
abbreviation kHeaderSize :: nat where "kHeaderSize \<equiv> 9"
abbreviation kMaxHopCount :: u8 where "kMaxHopCount \<equiv> 3"
abbreviation kHopCountOffset :: nat where "kHopCountOffset \<equiv> 6"
abbreviation kMaxFrameSize :: nat where "kMaxFrameSize \<equiv> 250"
abbreviation kMaxPayloadSize :: nat where "kMaxPayloadSize \<equiv> 241"

definition is_community_range :: "u16 \<Rightarrow> bool" where
  "is_community_range source_id \<longleftrightarrow> source_id \<le> kSourceIdCommunityMax"

definition is_performance_range :: "u16 \<Rightarrow> bool" where
  "is_performance_range source_id \<longleftrightarrow>
     source_id \<ge> kSourceIdPerformanceMin \<and> source_id \<le> kSourceIdPerformanceMax"

datatype MessageType =
    Heartbeat | LightPulse | LightWash | LightWashEnd | LightWashPulse
  | TextDisplay | BitmapHeader | BitmapPlane | ClearScreen
  | RepeaterHeartbeat | UidAnnounce | ConfigWrite | ConfigAck | Extension

text \<open>\<open>static_cast<uint8_t>(MessageType)\<close>.\<close>

fun mt_code :: "MessageType \<Rightarrow> u8" where
  "mt_code Heartbeat = 0x00"
| "mt_code LightPulse = 0x03"
| "mt_code LightWash = 0x06"
| "mt_code LightWashEnd = 0x07"
| "mt_code LightWashPulse = 0x08"
| "mt_code TextDisplay = 0x09"
| "mt_code BitmapHeader = 0x0A"
| "mt_code BitmapPlane = 0x0B"
| "mt_code ClearScreen = 0x0C"
| "mt_code RepeaterHeartbeat = 0x0D"
| "mt_code UidAnnounce = 0x0E"
| "mt_code ConfigWrite = 0x0F"
| "mt_code ConfigAck = 0x10"
| "mt_code Extension = 0xFF"

definition all_message_types :: "MessageType list" where
  "all_message_types = [Heartbeat, LightPulse, LightWash, LightWashEnd, LightWashPulse,
     TextDisplay, BitmapHeader, BitmapPlane, ClearScreen, RepeaterHeartbeat, UidAnnounce,
     ConfigWrite, ConfigAck, Extension]"

definition is_known_message_type :: "u8 \<Rightarrow> bool" where
  "is_known_message_type raw \<longleftrightarrow> raw \<in> set (map mt_code all_message_types)"

text \<open>\<open>static_cast<MessageType>(raw)\<close>; \<open>None\<close> is a value outside the enumerators, which the code
  only casts after \<open>is_known_message_type\<close> has accepted it.\<close>

definition message_type_of :: "u8 \<Rightarrow> MessageType option" where
  "message_type_of raw = find (\<lambda>t. mt_code t = raw) all_message_types"

lemma mt_code_inj [simp]: "mt_code s = mt_code t \<longleftrightarrow> s = t"
  by (cases s; cases t) simp_all

lemma message_type_of_code [simp]: "message_type_of (mt_code t) = Some t"
  by (cases t) (simp_all add: message_type_of_def all_message_types_def)

lemma is_known_code [simp]: "is_known_message_type (mt_code t)"
  by (cases t) (simp_all add: is_known_message_type_def all_message_types_def)

lemma is_known_iff: "is_known_message_type raw \<longleftrightarrow> (\<exists>t. raw = mt_code t)"
  by (metis (no_types, lifting) imageE is_known_code is_known_message_type_def list.set_map)

datatype DecodeResult =
    Ok | BufferTooShort | InvalidMagic | InvalidProtocolVersion | InvalidMessageType
  | PayloadLenMismatch

section \<open>The capability a message type needs\<close>

text \<open>\<open>hal::Capability\<close>, in the order of its enumerators.\<close>

datatype Capability =
    CapMic | CapIRTx | CapIRRx | CapESPNow | CapDisplay | CapButtons | CapIMU | CapBattery
  | CapBluetooth | CapAnalyserBeatDetection | CapAnalyserDropDetection | CapAnalyserSpectrumFrame
  | CapAnalyserBandSummary | CapAnalyserMultiBandOnset | CapAnalyserSpectralCentroid
  | CapAnalyserEnergyEnvelope | CapAnalyserSectionDetection | CapImuTap | CapImuMotion
  | CapDmxInput | CapAddressableLeds | CapDisplayText | CapDisplayBitmap

text \<open>\<open>None\<close> is \<open>kNoSpecificCapability\<close>, the cast of 0xFF.\<close>

fun message_type_required_capability :: "MessageType \<Rightarrow> Capability option" where
  "message_type_required_capability TextDisplay = Some CapDisplayText"
| "message_type_required_capability BitmapHeader = Some CapDisplayBitmap"
| "message_type_required_capability BitmapPlane = Some CapDisplayBitmap"
| "message_type_required_capability ClearScreen = Some CapDisplayText"
| "message_type_required_capability _ = None"

section \<open>LED repeat mask\<close>

definition pack_repeat_mask :: "u8 \<Rightarrow> u8 \<Rightarrow> u16" where
  "pack_repeat_mask modifier1 modifier2 =
     ucast modifier1 OR push_bit 8 (ucast (modifier2 AND 0x0F))"

definition unpack_repeat_mask :: "u16 \<Rightarrow> u8 \<times> u8" where
  "unpack_repeat_mask m =
     (ucast (m AND 0xFF), ucast (drop_bit 8 m AND 0x0F))"

text \<open>The mask has twelve bits: unpacking and packing again is truncation to 12 bits.\<close>

lemma pack_unpack_repeat_mask:
  "(case unpack_repeat_mask m of (a, b) \<Rightarrow> pack_repeat_mask a b) = take_bit 12 m"
proof -
  have m4: "(0x0F :: u8) = mask 4" "(0x0F :: u16) = mask 4"
    by (simp_all add: mask_eq_exp_minus_1)
  have "pack_repeat_mask (ucast (m AND 0xFF)) (ucast (drop_bit 8 m AND 0x0F)) = take_bit 12 m"
    unfolding pack_repeat_mask_def low_byte m4
    by (rule bit_word_eqI) (auto simp: bit_simps)
  then show ?thesis by (simp add: unpack_repeat_mask_def)
qed

section \<open>The header\<close>

record header =
  h_protocol_version :: u8
  h_source_id :: u16
  h_sequence_number :: u8
  h_hop_count :: u8
  h_message_type :: MessageType
  h_payload_len :: u8

definition write_header :: "header \<Rightarrow> MessageType \<Rightarrow> u8 \<Rightarrow> bytes" where
  "write_header hdr message_type payload_len =
     [kMagic0, kMagic1, kProtocolVersion] @ write_u16_le (h_source_id hdr)
     @ [h_sequence_number hdr, h_hop_count hdr, mt_code message_type, payload_len]"

definition decode_header :: "bytes \<Rightarrow> header \<Rightarrow> DecodeResult \<times> header" where
  "decode_header buf out_hdr =
     (if length buf < kHeaderSize then (BufferTooShort, out_hdr)
      else if buf ! 0 \<noteq> kMagic0 \<or> buf ! 1 \<noteq> kMagic1 then (InvalidMagic, out_hdr)
      else if buf ! 2 \<noteq> kProtocolVersion then (InvalidProtocolVersion, out_hdr)
      else if \<not> is_known_message_type (buf ! 7) then (InvalidMessageType, out_hdr)
      else if kHeaderSize + unat (buf ! 8) > length buf then (BufferTooShort, out_hdr)
      else (Ok, \<lparr> h_protocol_version = buf ! 2,
                  h_source_id = read_u16_le (drop 3 buf),
                  h_sequence_number = buf ! 5,
                  h_hop_count = buf ! 6,
                  h_message_type = the (message_type_of (buf ! 7)),
                  h_payload_len = buf ! 8 \<rparr>))"

definition set_hop_count :: "bytes \<Rightarrow> u8 \<Rightarrow> bytes" where
  "set_hop_count buf new_hops =
     (if length buf < kHeaderSize then buf else buf[kHopCountOffset := new_hops])"

text \<open>The header a receiver recovers from a frame that \<open>write_header\<close> began.\<close>

definition sent_header :: "header \<Rightarrow> MessageType \<Rightarrow> u8 \<Rightarrow> header" where
  "sent_header hdr t len = hdr\<lparr> h_protocol_version := kProtocolVersion,
                                h_message_type := t, h_payload_len := len \<rparr>"

lemma sent_header_sel [simp]:
  "h_protocol_version (sent_header hdr t len) = kProtocolVersion"
  "h_source_id (sent_header hdr t len) = h_source_id hdr"
  "h_sequence_number (sent_header hdr t len) = h_sequence_number hdr"
  "h_hop_count (sent_header hdr t len) = h_hop_count hdr"
  "h_message_type (sent_header hdr t len) = t"
  "h_payload_len (sent_header hdr t len) = len"
  by (simp_all add: sent_header_def)

lemma length_write_header [simp, frame_lens]: "length (write_header hdr t len) = kHeaderSize"
  by (simp add: write_header_def write_u16_le_def)

lemma decode_write_header:
  assumes "unat len \<le> length rest"
  shows "decode_header (write_header hdr t len @ rest) out = (Ok, sent_header hdr t len)"
proof -
  have "read_u16_le (write_u16_le (h_source_id hdr) @ xs) = h_source_id hdr" for xs by simp
  then show ?thesis
    using assms by (simp add: decode_header_def sent_header_def write_header_def write_u16_le_def)
qed

text \<open>What \<open>decode_header\<close> establishes when it accepts, for arbitrary bytes off the radio.\<close>

lemma decode_header_OkD:
  assumes "decode_header buf out = (Ok, h)"
  shows "kHeaderSize + unat (h_payload_len h) \<le> length buf"
    and "h_protocol_version h = kProtocolVersion"
    and "take kHeaderSize buf = write_header h (h_message_type h) (h_payload_len h)"
proof -
  have len: "kHeaderSize \<le> length buf" and known: "is_known_message_type (buf ! 7)"
    and mg: "buf ! 0 = kMagic0" "buf ! 1 = kMagic1" "buf ! 2 = kProtocolVersion"
    and h: "h = \<lparr> h_protocol_version = buf ! 2, h_source_id = read_u16_le (drop 3 buf),
                  h_sequence_number = buf ! 5, h_hop_count = buf ! 6,
                  h_message_type = the (message_type_of (buf ! 7)), h_payload_len = buf ! 8 \<rparr>"
    and pl: "kHeaderSize + unat (buf ! 8) \<le> length buf"
    using assms by (auto simp: decode_header_def not_less split: if_splits)
  show "kHeaderSize + unat (h_payload_len h) \<le> length buf" using pl h by simp
  show "h_protocol_version h = kProtocolVersion" using h mg by simp
  obtain t where t: "buf ! 7 = mt_code t" using known is_known_iff by blast
  have "drop 3 buf = buf ! 3 # buf ! 4 # drop 5 buf"
    using len Cons_nth_drop_Suc [of 3 buf] Cons_nth_drop_Suc [of 4 buf] by simp
  then have src: "write_u16_le (read_u16_le (drop 3 buf)) = [buf ! 3, buf ! 4]" by simp
  have tk: "take 9 buf = map (nth buf) [0, 1, 2, 3, 4, 5, 6, 7, 8]"
    using len by (intro nth_equalityI) (auto simp: less_Suc_eq numeral_eq_Suc)
  show "take kHeaderSize buf = write_header h (h_message_type h) (h_payload_len h)"
    using h src mg t tk by (simp add: write_header_def)
qed

lemma decode_header_failD:
  assumes "decode_header buf out = (r, h)" and "r \<noteq> Ok"
  shows "h = out"
  using assms by (auto simp: decode_header_def split: if_splits)

lemma set_hop_count_decode:
  assumes "decode_header buf out = (Ok, h)"
  shows "decode_header (set_hop_count buf n) out' = (Ok, h\<lparr> h_hop_count := n \<rparr>)"
proof -
  have len: "kHeaderSize + unat (h_payload_len h) \<le> length buf" using assms by (rule decode_header_OkD)
  have "drop 9 (buf[6 := n]) = drop 9 buf" by simp
  then have "set_hop_count buf n = (take 9 buf)[6 := n] @ drop 9 buf"
    using len append_take_drop_id [of 9 "buf[6 := n]"] by (simp add: set_hop_count_def take_update_swap)
  also have "(take 9 buf)[6 := n]
      = write_header (h\<lparr> h_hop_count := n \<rparr>) (h_message_type h) (h_payload_len h)"
    unfolding decode_header_OkD (3) [OF assms]
    by (simp add: write_header_def write_u16_le_def list_update_append)
  finally show ?thesis
    using decode_write_header [of "h_payload_len h" "drop 9 buf" "h\<lparr> h_hop_count := n \<rparr>" "h_message_type h" out']
      len decode_header_OkD (2) [OF assms]
    by (simp add: sent_header_def)
qed

end
