(* ===== verification/Codec.thy ===== *)
theory Codec
  imports Wire
begin

text \<open>
  The contract between a payload encoder and its decoder. A sender that has a well-formed payload
  (\<open>ok\<close>) gets a complete frame of at most 250 bytes or a refusal that leaves its buffer alone; a
  receiver that takes that frame through \<open>decode_header\<close> and then through the payload decoder
  recovers the payload, seen through \<open>view\<close> (which forgets only what the wire does not carry,
  such as the unused tail of a fixed-size array). \<open>shape\<close> says that the arrays of a C++ struct
  have their declared lengths. The extension \<open>canonical_codec\<close> adds that the decoder accepts
  nothing but what the encoder could have sent.
\<close>

locale payload_codec =
  fixes mtype :: MessageType
    and shape :: "'p \<Rightarrow> bool"
    and ok :: "'p \<Rightarrow> bool"
    and wire :: "'p \<Rightarrow> bytes"
    and view :: "'p \<Rightarrow> 'v"
    and encode :: "bytes \<Rightarrow> header \<Rightarrow> 'p \<Rightarrow> nat \<times> bytes"
    and decode :: "header \<Rightarrow> bytes \<Rightarrow> 'p \<Rightarrow> DecodeResult \<times> 'p"
  assumes wire_len: "ok p \<Longrightarrow> length (wire p) \<le> kMaxPayloadSize"
    and encode_fits: "ok p \<Longrightarrow> kHeaderSize + length (wire p) \<le> length buf \<Longrightarrow>
      encode buf hdr p = (kHeaderSize + length (wire p),
        poke buf (write_header hdr mtype (of_nat (length (wire p))) @ wire p))"
    and encode_short: "ok p \<Longrightarrow> length buf < kHeaderSize + length (wire p) \<Longrightarrow>
      encode buf hdr p = (0, buf)"
    and decode_wire: "ok p \<Longrightarrow> shape out \<Longrightarrow> h_message_type h = mtype \<Longrightarrow>
      unat (h_payload_len h) = length (wire p) \<Longrightarrow>
      \<exists>q. decode h (wire p) out = (Ok, q) \<and> view q = view p"
    and decode_shape: "shape out \<Longrightarrow> shape (snd (decode h pl out))"
    and decode_type: "h_message_type h \<noteq> mtype \<Longrightarrow> decode h pl out = (InvalidMessageType, out)"
begin

lemma unat_wire_len: "ok p \<Longrightarrow> unat (of_nat (length (wire p)) :: u8) = length (wire p)"
  using wire_len [of p] by (simp add: unat_of_nat)

lemma encode_cases:
  assumes "ok p"
  shows "encode buf hdr p = (0, buf)
    \<or> (\<exists>n buf'. encode buf hdr p = (n, buf') \<and> kHeaderSize \<le> n \<and> n \<le> kMaxFrameSize
         \<and> n \<le> length buf \<and> length buf' = length buf \<and> drop n buf' = drop n buf
         \<and> take n buf' = write_header hdr mtype (of_nat (n - kHeaderSize)) @ wire p)"
proof (cases "kHeaderSize + length (wire p) \<le> length buf")
  case True
  then show ?thesis
    using encode_fits [OF assms True, of hdr] wire_len [OF assms] by (simp add: poke_def)
next
  case False
  then show ?thesis using encode_short [OF assms, of buf hdr] by simp
qed

lemma roundtrip:
  assumes "ok p" and "shape out" and "encode buf hdr p = (n, buf')" and "n \<noteq> 0"
  shows "\<exists>h q. decode_header (take n buf') h0 = (Ok, h)
      \<and> h_message_type h = mtype \<and> h_source_id h = h_source_id hdr
      \<and> h_sequence_number h = h_sequence_number hdr \<and> h_hop_count h = h_hop_count hdr
      \<and> n = kHeaderSize + unat (h_payload_len h) \<and> n \<le> kMaxFrameSize
      \<and> decode h (drop kHeaderSize (take n buf')) out = (Ok, q) \<and> view q = view p"
proof -
  have fits: "kHeaderSize + length (wire p) \<le> length buf"
    using assms(3,4) encode_short [OF assms(1), of buf hdr] by (cases "length buf < kHeaderSize + length (wire p)") auto
  then have n: "n = kHeaderSize + length (wire p)"
    and buf': "take n buf' = write_header hdr mtype (of_nat (length (wire p))) @ wire p"
    using assms(3) encode_fits [OF assms(1) fits, of hdr] by (auto simp: poke_def)
  let ?h = "sent_header hdr mtype (of_nat (length (wire p)))"
  have len: "unat (h_payload_len ?h) = length (wire p)"
    using unat_wire_len [OF assms(1)] by simp
  obtain q where "decode ?h (wire p) out = (Ok, q)" "view q = view p"
    using decode_wire [OF assms(1,2), of ?h] len by auto
  moreover have "decode_header (take n buf') h0 = (Ok, ?h)"
    using unat_wire_len [OF assms(1)] buf' by (simp add: decode_write_header)
  moreover have "drop kHeaderSize (take n buf') = wire p" using buf' by simp
  ultimately show ?thesis
    using n len wire_len [OF assms(1)] by (intro exI [of _ ?h] exI [of _ q]) simp
qed

text \<open>A frame of one type is never taken for a payload of another.\<close>

lemma no_confusion: "decode h pl out = (Ok, q) \<Longrightarrow> h_message_type h = mtype"
  using decode_type [of h pl out] by auto

end

locale canonical_codec = payload_codec +
  assumes decode_canon: "shape out \<Longrightarrow> decode h pl out = (Ok, q) \<Longrightarrow>
    ok q \<and> wire q = pl \<and> unat (h_payload_len h) = length pl"
begin

text \<open>What a receiver accepted can be sent again, and is the same frame byte for byte.\<close>

lemma reencode:
  assumes "decode_header buf h0 = (Ok, h)" and "shape out"
    and "decode h (take (unat (h_payload_len h)) (drop kHeaderSize buf)) out = (Ok, q)"
    and "kHeaderSize + unat (h_payload_len h) \<le> length buf2"
  shows "encode buf2 h q =
    (kHeaderSize + unat (h_payload_len h),
     poke buf2 (take (kHeaderSize + unat (h_payload_len h)) buf))"
proof -
  let ?pl = "take (unat (h_payload_len h)) (drop kHeaderSize buf)"
  have q: "ok q" "wire q = ?pl" "unat (h_payload_len h) = length ?pl"
    using decode_canon [OF assms(2,3)] by blast+
  have t: "h_message_type h = mtype" using assms(3) by (rule no_confusion)
  have "of_nat (length (wire q)) = h_payload_len h"
    using q unat_wire_len [OF q(1)] by (simp add: word_unat_eq_iff)
  then have "encode buf2 h q = (kHeaderSize + unat (h_payload_len h),
      poke buf2 (write_header h (h_message_type h) (h_payload_len h) @ ?pl))"
    using encode_fits [OF q(1), of buf2 h] q(2,3) assms(4) t by simp
  also have "write_header h (h_message_type h) (h_payload_len h) @ ?pl
      = take (kHeaderSize + unat (h_payload_len h)) buf"
    unfolding decode_header_OkD (3) [OF assms(1), symmetric] by (simp add: take_add)
  finally show ?thesis .
qed

end

end
