(* ===== verification/Frames.thy ===== *)
theory Frames
  imports Codec
begin

text \<open>
  The thirteen payloads of the protocol with their encoders and decoders, from
  \<open>include/transport/espnow/frame.h\<close> (structs and lengths) and
  \<open>src/transport/espnow/frame.cpp\<close> (functions of the same names). \<open>X_wire p\<close> is the run of payload
  bytes that \<open>encode_X\<close> writes behind the header. Each codec is an interpretation of
  \<open>payload_codec\<close>, and of \<open>canonical_codec\<close> except for ClearScreen, whose encoder normalises its
  two flags.
\<close>

section \<open>Fixed-length payloads\<close>

record heartbeat_payload =
  hb_tick :: u32
  hb_days_since_2026 :: u16
  hb_centiseconds_today :: u32

abbreviation kHeartbeatPayloadLen :: nat where "kHeartbeatPayloadLen \<equiv> 9"

definition heartbeat_wire :: "heartbeat_payload \<Rightarrow> bytes" where
  "heartbeat_wire p =
     write_u32_le (hb_tick p)
     @ write_u16_le (hb_days_since_2026 p)
     @ write_u24_le (hb_centiseconds_today p)"

definition encode_heartbeat :: "bytes \<Rightarrow> header \<Rightarrow> heartbeat_payload \<Rightarrow> nat \<times> bytes" where
  "encode_heartbeat buf hdr p =
     (let total = kHeaderSize + kHeartbeatPayloadLen in
      if length buf < total then (0, buf)
      else (total, poke buf (write_header hdr Heartbeat (of_nat kHeartbeatPayloadLen) @ heartbeat_wire p)))"

definition decode_heartbeat ::
  "header \<Rightarrow> bytes \<Rightarrow> heartbeat_payload \<Rightarrow> DecodeResult \<times> heartbeat_payload" where
  "decode_heartbeat hdr payload out =
     (if h_message_type hdr \<noteq> Heartbeat then (InvalidMessageType, out)
      else if unat (h_payload_len hdr) \<noteq> kHeartbeatPayloadLen \<or> length payload \<noteq> kHeartbeatPayloadLen
      then (PayloadLenMismatch, out)
      else (Ok, \<lparr> hb_tick = read_u32_le payload,
                  hb_days_since_2026 = read_u16_le (drop 4 payload),
                  hb_centiseconds_today = read_u24_le (drop 6 payload) \<rparr>))"

record repeater_heartbeat_payload =
  rh_uid :: bytes
  rh_channel :: u8
  rh_uptime_s :: u16
  rh_relayed_count :: u32

abbreviation kRepeaterHeartbeatPayloadLen :: nat where "kRepeaterHeartbeatPayloadLen \<equiv> 10"

definition repeater_heartbeat_shape :: "repeater_heartbeat_payload \<Rightarrow> bool" where
  "repeater_heartbeat_shape p \<longleftrightarrow> length (rh_uid p) = 3"

definition repeater_heartbeat_wire :: "repeater_heartbeat_payload \<Rightarrow> bytes" where
  "repeater_heartbeat_wire p =
     take 3 (rh_uid p)
     @ [rh_channel p]
     @ write_u16_le (rh_uptime_s p)
     @ write_u32_le (rh_relayed_count p)"

definition encode_repeater_heartbeat :: "bytes \<Rightarrow> header \<Rightarrow> repeater_heartbeat_payload \<Rightarrow> nat \<times> bytes" where
  "encode_repeater_heartbeat buf hdr p =
     (let total = kHeaderSize + kRepeaterHeartbeatPayloadLen in
      if length buf < total then (0, buf)
      else (total, poke buf (write_header hdr RepeaterHeartbeat (of_nat kRepeaterHeartbeatPayloadLen) @ repeater_heartbeat_wire p)))"

definition decode_repeater_heartbeat ::
  "header \<Rightarrow> bytes \<Rightarrow> repeater_heartbeat_payload \<Rightarrow> DecodeResult \<times> repeater_heartbeat_payload" where
  "decode_repeater_heartbeat hdr payload out =
     (if h_message_type hdr \<noteq> RepeaterHeartbeat then (InvalidMessageType, out)
      else if unat (h_payload_len hdr) \<noteq> kRepeaterHeartbeatPayloadLen \<or> length payload \<noteq> kRepeaterHeartbeatPayloadLen
      then (PayloadLenMismatch, out)
      else (Ok, \<lparr> rh_uid = take 3 payload,
                  rh_channel = payload ! 3,
                  rh_uptime_s = read_u16_le (drop 4 payload),
                  rh_relayed_count = read_u32_le (drop 6 payload) \<rparr>))"

record light_pulse_payload =
  lp_target_class :: u8
  lp_target_group :: u16
  lp_r :: u8
  lp_g :: u8
  lp_b :: u8
  lp_attack :: u8
  lp_sustain :: u8
  lp_release :: u8
  lp_chance :: u8
  lp_led_mode :: u8
  lp_led_modifier1 :: u8
  lp_led_modifier2 :: u8

abbreviation kLightPulsePayloadLen :: nat where "kLightPulsePayloadLen \<equiv> 13"

definition light_pulse_wire :: "light_pulse_payload \<Rightarrow> bytes" where
  "light_pulse_wire p =
     [lp_target_class p]
     @ write_u16_le (lp_target_group p)
     @ [lp_r p, lp_g p, lp_b p, lp_attack p, lp_sustain p, lp_release p, lp_chance p, lp_led_mode p, lp_led_modifier1 p, lp_led_modifier2 p]"

definition encode_light_pulse :: "bytes \<Rightarrow> header \<Rightarrow> light_pulse_payload \<Rightarrow> nat \<times> bytes" where
  "encode_light_pulse buf hdr p =
     (let total = kHeaderSize + kLightPulsePayloadLen in
      if length buf < total then (0, buf)
      else (total, poke buf (write_header hdr LightPulse (of_nat kLightPulsePayloadLen) @ light_pulse_wire p)))"

definition decode_light_pulse ::
  "header \<Rightarrow> bytes \<Rightarrow> light_pulse_payload \<Rightarrow> DecodeResult \<times> light_pulse_payload" where
  "decode_light_pulse hdr payload out =
     (if h_message_type hdr \<noteq> LightPulse then (InvalidMessageType, out)
      else if unat (h_payload_len hdr) \<noteq> kLightPulsePayloadLen \<or> length payload \<noteq> kLightPulsePayloadLen
      then (PayloadLenMismatch, out)
      else (Ok, \<lparr> lp_target_class = payload ! 0,
                  lp_target_group = read_u16_le (drop 1 payload),
                  lp_r = payload ! 3,
                  lp_g = payload ! 4,
                  lp_b = payload ! 5,
                  lp_attack = payload ! 6,
                  lp_sustain = payload ! 7,
                  lp_release = payload ! 8,
                  lp_chance = payload ! 9,
                  lp_led_mode = payload ! 10,
                  lp_led_modifier1 = payload ! 11,
                  lp_led_modifier2 = payload ! 12 \<rparr>))"

record light_wash_payload =
  lw_target_class :: u8
  lw_target_group :: u16
  lw_r1 :: u8
  lw_g1 :: u8
  lw_b1 :: u8
  lw_r2 :: u8
  lw_g2 :: u8
  lw_b2 :: u8
  lw_attack :: u8
  lw_release :: u8
  lw_intensity :: u8
  lw_cycle_ms :: u16
  lw_ttl_seconds :: u16
  lw_pulse_response :: u8
  lw_led_mode :: u8
  lw_led_modifier1 :: u8
  lw_led_modifier2 :: u8

abbreviation kLightWashPayloadLen :: nat where "kLightWashPayloadLen \<equiv> 20"

definition light_wash_wire :: "light_wash_payload \<Rightarrow> bytes" where
  "light_wash_wire p =
     [lw_target_class p]
     @ write_u16_le (lw_target_group p)
     @ [lw_r1 p, lw_g1 p, lw_b1 p, lw_r2 p, lw_g2 p, lw_b2 p, lw_attack p, lw_release p, lw_intensity p]
     @ write_u16_le (lw_cycle_ms p)
     @ write_u16_le (lw_ttl_seconds p)
     @ [lw_pulse_response p, lw_led_mode p, lw_led_modifier1 p, lw_led_modifier2 p]"

definition encode_light_wash :: "bytes \<Rightarrow> header \<Rightarrow> light_wash_payload \<Rightarrow> nat \<times> bytes" where
  "encode_light_wash buf hdr p =
     (let total = kHeaderSize + kLightWashPayloadLen in
      if length buf < total then (0, buf)
      else (total, poke buf (write_header hdr LightWash (of_nat kLightWashPayloadLen) @ light_wash_wire p)))"

definition decode_light_wash ::
  "header \<Rightarrow> bytes \<Rightarrow> light_wash_payload \<Rightarrow> DecodeResult \<times> light_wash_payload" where
  "decode_light_wash hdr payload out =
     (if h_message_type hdr \<noteq> LightWash then (InvalidMessageType, out)
      else if unat (h_payload_len hdr) \<noteq> kLightWashPayloadLen \<or> length payload \<noteq> kLightWashPayloadLen
      then (PayloadLenMismatch, out)
      else (Ok, \<lparr> lw_target_class = payload ! 0,
                  lw_target_group = read_u16_le (drop 1 payload),
                  lw_r1 = payload ! 3,
                  lw_g1 = payload ! 4,
                  lw_b1 = payload ! 5,
                  lw_r2 = payload ! 6,
                  lw_g2 = payload ! 7,
                  lw_b2 = payload ! 8,
                  lw_attack = payload ! 9,
                  lw_release = payload ! 10,
                  lw_intensity = payload ! 11,
                  lw_cycle_ms = read_u16_le (drop 12 payload),
                  lw_ttl_seconds = read_u16_le (drop 14 payload),
                  lw_pulse_response = payload ! 16,
                  lw_led_mode = payload ! 17,
                  lw_led_modifier1 = payload ! 18,
                  lw_led_modifier2 = payload ! 19 \<rparr>))"

record light_wash_end_payload =
  we_target_class :: u8
  we_target_group :: u16
  we_release_time :: u8
  we_led_mode :: u8
  we_led_modifier1 :: u8
  we_led_modifier2 :: u8

abbreviation kLightWashEndPayloadLen :: nat where "kLightWashEndPayloadLen \<equiv> 7"

definition light_wash_end_wire :: "light_wash_end_payload \<Rightarrow> bytes" where
  "light_wash_end_wire p =
     [we_target_class p]
     @ write_u16_le (we_target_group p)
     @ [we_release_time p, we_led_mode p, we_led_modifier1 p, we_led_modifier2 p]"

definition encode_light_wash_end :: "bytes \<Rightarrow> header \<Rightarrow> light_wash_end_payload \<Rightarrow> nat \<times> bytes" where
  "encode_light_wash_end buf hdr p =
     (let total = kHeaderSize + kLightWashEndPayloadLen in
      if length buf < total then (0, buf)
      else (total, poke buf (write_header hdr LightWashEnd (of_nat kLightWashEndPayloadLen) @ light_wash_end_wire p)))"

definition decode_light_wash_end ::
  "header \<Rightarrow> bytes \<Rightarrow> light_wash_end_payload \<Rightarrow> DecodeResult \<times> light_wash_end_payload" where
  "decode_light_wash_end hdr payload out =
     (if h_message_type hdr \<noteq> LightWashEnd then (InvalidMessageType, out)
      else if unat (h_payload_len hdr) \<noteq> kLightWashEndPayloadLen \<or> length payload \<noteq> kLightWashEndPayloadLen
      then (PayloadLenMismatch, out)
      else (Ok, \<lparr> we_target_class = payload ! 0,
                  we_target_group = read_u16_le (drop 1 payload),
                  we_release_time = payload ! 3,
                  we_led_mode = payload ! 4,
                  we_led_modifier1 = payload ! 5,
                  we_led_modifier2 = payload ! 6 \<rparr>))"

record light_wash_pulse_payload =
  wp_target_class :: u8
  wp_target_group :: u16
  wp_r :: u8
  wp_g :: u8
  wp_b :: u8
  wp_attack :: u8
  wp_sustain :: u8
  wp_release :: u8
  wp_chance :: u8
  wp_led_mode :: u8
  wp_led_modifier1 :: u8
  wp_led_modifier2 :: u8

abbreviation kLightWashPulsePayloadLen :: nat where "kLightWashPulsePayloadLen \<equiv> 13"

definition light_wash_pulse_wire :: "light_wash_pulse_payload \<Rightarrow> bytes" where
  "light_wash_pulse_wire p =
     [wp_target_class p]
     @ write_u16_le (wp_target_group p)
     @ [wp_r p, wp_g p, wp_b p, wp_attack p, wp_sustain p, wp_release p, wp_chance p, wp_led_mode p, wp_led_modifier1 p, wp_led_modifier2 p]"

definition encode_light_wash_pulse :: "bytes \<Rightarrow> header \<Rightarrow> light_wash_pulse_payload \<Rightarrow> nat \<times> bytes" where
  "encode_light_wash_pulse buf hdr p =
     (let total = kHeaderSize + kLightWashPulsePayloadLen in
      if length buf < total then (0, buf)
      else (total, poke buf (write_header hdr LightWashPulse (of_nat kLightWashPulsePayloadLen) @ light_wash_pulse_wire p)))"

definition decode_light_wash_pulse ::
  "header \<Rightarrow> bytes \<Rightarrow> light_wash_pulse_payload \<Rightarrow> DecodeResult \<times> light_wash_pulse_payload" where
  "decode_light_wash_pulse hdr payload out =
     (if h_message_type hdr \<noteq> LightWashPulse then (InvalidMessageType, out)
      else if unat (h_payload_len hdr) \<noteq> kLightWashPulsePayloadLen \<or> length payload \<noteq> kLightWashPulsePayloadLen
      then (PayloadLenMismatch, out)
      else (Ok, \<lparr> wp_target_class = payload ! 0,
                  wp_target_group = read_u16_le (drop 1 payload),
                  wp_r = payload ! 3,
                  wp_g = payload ! 4,
                  wp_b = payload ! 5,
                  wp_attack = payload ! 6,
                  wp_sustain = payload ! 7,
                  wp_release = payload ! 8,
                  wp_chance = payload ! 9,
                  wp_led_mode = payload ! 10,
                  wp_led_modifier1 = payload ! 11,
                  wp_led_modifier2 = payload ! 12 \<rparr>))"

record config_ack_payload =
  ca_responder_uid :: u32
  ca_responder_numonce :: bytes
  ca_status :: u8
  ca_applied_keys :: u8

abbreviation kConfigAckPayloadLen :: nat where "kConfigAckPayloadLen \<equiv> 14"

definition config_ack_shape :: "config_ack_payload \<Rightarrow> bool" where
  "config_ack_shape p \<longleftrightarrow> length (ca_responder_numonce p) = 8"

definition config_ack_wire :: "config_ack_payload \<Rightarrow> bytes" where
  "config_ack_wire p =
     write_u32_le (ca_responder_uid p)
     @ take 8 (ca_responder_numonce p)
     @ [ca_status p, ca_applied_keys p]"

definition encode_config_ack :: "bytes \<Rightarrow> header \<Rightarrow> config_ack_payload \<Rightarrow> nat \<times> bytes" where
  "encode_config_ack buf hdr p =
     (let total = kHeaderSize + kConfigAckPayloadLen in
      if length buf < total then (0, buf)
      else (total, poke buf (write_header hdr ConfigAck (of_nat kConfigAckPayloadLen) @ config_ack_wire p)))"

definition decode_config_ack ::
  "header \<Rightarrow> bytes \<Rightarrow> config_ack_payload \<Rightarrow> DecodeResult \<times> config_ack_payload" where
  "decode_config_ack hdr payload out =
     (if h_message_type hdr \<noteq> ConfigAck then (InvalidMessageType, out)
      else if unat (h_payload_len hdr) \<noteq> kConfigAckPayloadLen \<or> length payload \<noteq> kConfigAckPayloadLen
      then (PayloadLenMismatch, out)
      else (Ok, \<lparr> ca_responder_uid = read_u32_le payload,
                  ca_responder_numonce = take 8 (drop 4 payload),
                  ca_status = payload ! 12,
                  ca_applied_keys = payload ! 13 \<rparr>))"

section \<open>Clear-screen: normalised flags\<close>

record clear_screen_payload =
  cs_target_group :: u16
  cs_clear_text :: u8
  cs_clear_bitmap :: u8

abbreviation kClearScreenPayloadLen :: nat where "kClearScreenPayloadLen \<equiv> 4"

definition clear_screen_wire :: "clear_screen_payload \<Rightarrow> bytes" where
  "clear_screen_wire p =
     write_u16_le (cs_target_group p)
     @ [if cs_clear_text p \<noteq> 0 then 1 else 0, if cs_clear_bitmap p \<noteq> 0 then 1 else 0]"

definition encode_clear_screen :: "bytes \<Rightarrow> header \<Rightarrow> clear_screen_payload \<Rightarrow> nat \<times> bytes" where
  "encode_clear_screen buf hdr p =
     (let total = kHeaderSize + kClearScreenPayloadLen in
      if length buf < total then (0, buf)
      else (total, poke buf (write_header hdr ClearScreen (of_nat kClearScreenPayloadLen)
                             @ clear_screen_wire p)))"

definition decode_clear_screen ::
  "header \<Rightarrow> bytes \<Rightarrow> clear_screen_payload \<Rightarrow> DecodeResult \<times> clear_screen_payload" where
  "decode_clear_screen hdr payload out =
     (if h_message_type hdr \<noteq> ClearScreen then (InvalidMessageType, out)
      else if unat (h_payload_len hdr) \<noteq> kClearScreenPayloadLen \<or> length payload \<noteq> kClearScreenPayloadLen
      then (PayloadLenMismatch, out)
      else (Ok, \<lparr> cs_target_group = read_u16_le payload,
                  cs_clear_text = payload ! 2,
                  cs_clear_bitmap = payload ! 3 \<rparr>))"

section \<open>Bitmap header: an array of colours\<close>

record bitmap_header_payload =
  bh_target_group :: u16
  bh_width :: u8
  bh_height :: u8
  bh_plane_count :: u8
  bh_colours :: "(u8 \<times> u8 \<times> u8) list"
  bh_fit :: u8
  bh_zoom_pct :: u8
  bh_overwrite :: u8
  bh_checksum :: u32
  bh_ttl_ms :: u16

abbreviation kBitmapMaxPlanes :: u8 where "kBitmapMaxPlanes \<equiv> 8"
abbreviation kBitmapMaxDimension :: u8 where "kBitmapMaxDimension \<equiv> 64"
abbreviation kBitmapHeaderPayloadLen :: nat where "kBitmapHeaderPayloadLen \<equiv> 38"

definition bitmap_header_shape :: "bitmap_header_payload \<Rightarrow> bool" where
  "bitmap_header_shape p \<longleftrightarrow> length (bh_colours p) = 8"

definition bitmap_header_ok :: "bitmap_header_payload \<Rightarrow> bool" where
  "bitmap_header_ok p \<longleftrightarrow> bitmap_header_shape p
     \<and> bh_plane_count p \<noteq> 0 \<and> bh_plane_count p \<le> kBitmapMaxPlanes
     \<and> bh_width p \<noteq> 0 \<and> bh_width p \<le> kBitmapMaxDimension
     \<and> bh_height p \<noteq> 0 \<and> bh_height p \<le> kBitmapMaxDimension"

text \<open>The loops over \<open>colours[i][0..2]\<close> of the encoder and the decoder.\<close>

definition colour_bytes :: "(u8 \<times> u8 \<times> u8) list \<Rightarrow> bytes" where
  "colour_bytes cs = concat (map (\<lambda>(r, g, b). [r, g, b]) cs)"

definition read_colours :: "nat \<Rightarrow> bytes \<Rightarrow> (u8 \<times> u8 \<times> u8) list" where
  "read_colours n s = map (\<lambda>i. (s ! (3 * i), s ! (3 * i + 1), s ! (3 * i + 2))) [0..<n]"

lemma length_colour_bytes [simp]: "length (colour_bytes cs) = 3 * length cs"
  by (induction cs) (auto simp: colour_bytes_def)

lemma length_read_colours [simp]: "length (read_colours n s) = n"
  by (simp add: read_colours_def)

lemma read_colours_Suc:
  "read_colours (Suc n) s = (s ! 0, s ! 1, s ! 2) # read_colours n (drop 3 s)" if "3 \<le> length s"
  using that by (simp add: read_colours_def upt_conv_Cons map_Suc_upt [symmetric] comp_def
      del: upt_Suc) (simp add: numeral_eq_Suc)

lemma read_colour_bytes:
  "length cs = n \<Longrightarrow> read_colours n (colour_bytes cs @ rest) = cs"
proof (induction cs arbitrary: n)
  case Nil
  then show ?case by (simp add: read_colours_def)
next
  case (Cons c cs)
  then show ?case by (cases c) (auto simp: read_colours_Suc colour_bytes_def)
qed

lemma colour_bytes_read: "3 * n \<le> length s \<Longrightarrow> colour_bytes (read_colours n s) = take (3 * n) s"
proof (induction n arbitrary: s)
  case 0
  then show ?case by (simp add: read_colours_def colour_bytes_def)
next
  case (Suc n)
  then obtain x y z r where s: "s = x # y # z # r"
    by (cases s; cases "tl s"; cases "tl (tl s)") auto
  with Suc.prems have "3 * n \<le> length r" by simp
  from Suc.IH [OF this] show ?case
    using s by (simp add: read_colours_Suc) (simp add: colour_bytes_def numeral_eq_Suc)
qed

definition bitmap_header_wire :: "bitmap_header_payload \<Rightarrow> bytes" where
  "bitmap_header_wire p =
     write_u16_le (bh_target_group p)
     @ [bh_width p, bh_height p, bh_plane_count p]
     @ colour_bytes (bh_colours p)
     @ [bh_fit p, bh_zoom_pct p, bh_overwrite p]
     @ write_u32_le (bh_checksum p)
     @ write_u16_le (bh_ttl_ms p)"

definition encode_bitmap_header :: "bytes \<Rightarrow> header \<Rightarrow> bitmap_header_payload \<Rightarrow> nat \<times> bytes" where
  "encode_bitmap_header buf hdr p =
     (if bh_plane_count p = 0 \<or> bh_plane_count p > kBitmapMaxPlanes then (0, buf)
      else if bh_width p = 0 \<or> bh_width p > kBitmapMaxDimension then (0, buf)
      else if bh_height p = 0 \<or> bh_height p > kBitmapMaxDimension then (0, buf)
      else let total = kHeaderSize + kBitmapHeaderPayloadLen in
        if length buf < total then (0, buf)
        else (total, poke buf (write_header hdr BitmapHeader (of_nat kBitmapHeaderPayloadLen)
                               @ bitmap_header_wire p)))"

definition decode_bitmap_header ::
  "header \<Rightarrow> bytes \<Rightarrow> bitmap_header_payload \<Rightarrow> DecodeResult \<times> bitmap_header_payload" where
  "decode_bitmap_header hdr payload out =
     (if h_message_type hdr \<noteq> BitmapHeader then (InvalidMessageType, out)
      else if unat (h_payload_len hdr) \<noteq> kBitmapHeaderPayloadLen \<or> length payload \<noteq> kBitmapHeaderPayloadLen
      then (PayloadLenMismatch, out)
      else let out1 = out\<lparr> bh_target_group := read_u16_le payload,
                           bh_width := payload ! 2,
                           bh_height := payload ! 3,
                           bh_plane_count := payload ! 4 \<rparr> in
        if bh_plane_count out1 = 0 \<or> bh_plane_count out1 > kBitmapMaxPlanes
        then (PayloadLenMismatch, out1)
        else if bh_width out1 = 0 \<or> bh_width out1 > kBitmapMaxDimension
             \<or> bh_height out1 = 0 \<or> bh_height out1 > kBitmapMaxDimension
        then (PayloadLenMismatch, out1)
        else (Ok, out1\<lparr>
          bh_colours := read_colours 8 (drop 5 payload),
          bh_fit := payload ! 29,
          bh_zoom_pct := payload ! 30,
          bh_overwrite := payload ! 31,
          bh_checksum := read_u32_le (drop 32 payload),
          bh_ttl_ms := read_u16_le (drop 36 payload) \<rparr>))"

section \<open>Variable-length payloads\<close>

subsection \<open>Text\<close>

record text_display_payload =
  td_target_group :: u16
  td_r :: u8
  td_g :: u8
  td_b :: u8
  td_ttl_ms :: u16
  td_header_len :: u8
  td_header :: bytes
  td_body_len :: u8
  td_body :: bytes

abbreviation kTextDisplayMaxHeaderLen :: u8 where "kTextDisplayMaxHeaderLen \<equiv> 64"
abbreviation kTextDisplayMaxBodyLen :: u8 where "kTextDisplayMaxBodyLen \<equiv> 128"
abbreviation kTextDisplayMinPayloadLen :: nat where "kTextDisplayMinPayloadLen \<equiv> 9"

definition text_display_shape :: "text_display_payload \<Rightarrow> bool" where
  "text_display_shape p \<longleftrightarrow> length (td_header p) = 64 \<and> length (td_body p) = 128"

definition text_display_ok :: "text_display_payload \<Rightarrow> bool" where
  "text_display_ok p \<longleftrightarrow> text_display_shape p
     \<and> td_header_len p \<le> kTextDisplayMaxHeaderLen \<and> td_body_len p \<le> kTextDisplayMaxBodyLen"

definition text_display_wire :: "text_display_payload \<Rightarrow> bytes" where
  "text_display_wire p =
     write_u16_le (td_target_group p) @ [td_r p, td_g p, td_b p] @ write_u16_le (td_ttl_ms p)
     @ [td_header_len p] @ take (unat (td_header_len p)) (td_header p)
     @ [td_body_len p] @ take (unat (td_body_len p)) (td_body p)"

definition encode_text_display :: "bytes \<Rightarrow> header \<Rightarrow> text_display_payload \<Rightarrow> nat \<times> bytes" where
  "encode_text_display buf hdr p =
     (if td_header_len p > kTextDisplayMaxHeaderLen then (0, buf)
      else if td_body_len p > kTextDisplayMaxBodyLen then (0, buf)
      else let payload_len =
                 kTextDisplayMinPayloadLen + unat (td_header_len p) + unat (td_body_len p) in
        if payload_len > kMaxPayloadSize then (0, buf)
        else let total = kHeaderSize + payload_len in
          if length buf < total then (0, buf)
          else (total, poke buf (write_header hdr TextDisplay (of_nat payload_len)
                                 @ text_display_wire p)))"

definition decode_text_display ::
  "header \<Rightarrow> bytes \<Rightarrow> text_display_payload \<Rightarrow> DecodeResult \<times> text_display_payload" where
  "decode_text_display hdr payload out =
     (if h_message_type hdr \<noteq> TextDisplay then (InvalidMessageType, out)
      else if unat (h_payload_len hdr) \<noteq> length payload then (PayloadLenMismatch, out)
      else if length payload < kTextDisplayMinPayloadLen then (PayloadLenMismatch, out)
      else
        let out1 = out\<lparr> td_target_group := read_u16_le payload, td_r := payload ! 2,
                        td_g := payload ! 3, td_b := payload ! 4,
                        td_ttl_ms := read_u16_le (drop 5 payload) \<rparr>;
            header_len = payload ! 7
        in if header_len > kTextDisplayMaxHeaderLen then (PayloadLenMismatch, out1)
        else let body_len_offset = 8 + unat header_len in
          if length payload < body_len_offset + 1 then (PayloadLenMismatch, out1)
          else
            let out2 = out1\<lparr> td_header_len := header_len,
                             td_header := copy_into (td_header out1)
                                            (take (unat header_len) (drop 8 payload)) \<rparr>;
                body_len = payload ! body_len_offset
            in if body_len > kTextDisplayMaxBodyLen then (PayloadLenMismatch, out2)
            else let body_start = body_len_offset + 1 in
              if length payload \<noteq> body_start + unat body_len then (PayloadLenMismatch, out2)
              else (Ok, out2\<lparr> td_body_len := body_len,
                              td_body := copy_into (td_body out2)
                                           (take (unat body_len) (drop body_start payload)) \<rparr>))"

text \<open>What a receiver may read of the struct: the valid bytes of the two arrays.\<close>

definition text_display_view ::
  "text_display_payload \<Rightarrow> u16 \<times> u8 \<times> u8 \<times> u8 \<times> u16 \<times> u8 \<times> bytes \<times> u8 \<times> bytes" where
  "text_display_view p = (td_target_group p, td_r p, td_g p, td_b p, td_ttl_ms p,
     td_header_len p, take (unat (td_header_len p)) (td_header p),
     td_body_len p, take (unat (td_body_len p)) (td_body p))"

subsection \<open>Bitmap plane\<close>

record bitmap_plane_payload =
  bp_target_group :: u16
  bp_plane_index :: u8
  bp_byte_offset :: u16
  bp_data_len :: u8
  bp_data :: bytes

abbreviation kBitmapPlaneFixedPrefixLen :: nat where "kBitmapPlaneFixedPrefixLen \<equiv> 6"
abbreviation kBitmapPlaneMinPayloadLen :: nat where "kBitmapPlaneMinPayloadLen \<equiv> 6"
abbreviation kBitmapPlaneMaxDataLen :: nat where "kBitmapPlaneMaxDataLen \<equiv> 235"

definition bitmap_plane_shape :: "bitmap_plane_payload \<Rightarrow> bool" where
  "bitmap_plane_shape p \<longleftrightarrow> length (bp_data p) = kBitmapPlaneMaxDataLen"

definition bitmap_plane_ok :: "bitmap_plane_payload \<Rightarrow> bool" where
  "bitmap_plane_ok p \<longleftrightarrow> bitmap_plane_shape p \<and> unat (bp_data_len p) \<le> kBitmapPlaneMaxDataLen"

definition bitmap_plane_wire :: "bitmap_plane_payload \<Rightarrow> bytes" where
  "bitmap_plane_wire p =
     write_u16_le (bp_target_group p) @ [bp_plane_index p] @ write_u16_le (bp_byte_offset p)
     @ [bp_data_len p] @ take (unat (bp_data_len p)) (bp_data p)"

definition encode_bitmap_plane :: "bytes \<Rightarrow> header \<Rightarrow> bitmap_plane_payload \<Rightarrow> nat \<times> bytes" where
  "encode_bitmap_plane buf hdr p =
     (if unat (bp_data_len p) > kBitmapPlaneMaxDataLen then (0, buf)
      else let payload_len = kBitmapPlaneFixedPrefixLen + unat (bp_data_len p) in
        if payload_len > kMaxPayloadSize then (0, buf)
        else let total = kHeaderSize + payload_len in
          if length buf < total then (0, buf)
          else (total, poke buf (write_header hdr BitmapPlane (of_nat payload_len)
                                 @ bitmap_plane_wire p)))"

definition decode_bitmap_plane ::
  "header \<Rightarrow> bytes \<Rightarrow> bitmap_plane_payload \<Rightarrow> DecodeResult \<times> bitmap_plane_payload" where
  "decode_bitmap_plane hdr payload out =
     (if h_message_type hdr \<noteq> BitmapPlane then (InvalidMessageType, out)
      else if unat (h_payload_len hdr) \<noteq> length payload then (PayloadLenMismatch, out)
      else if length payload < kBitmapPlaneMinPayloadLen then (PayloadLenMismatch, out)
      else
        let out1 = out\<lparr> bp_target_group := read_u16_le payload, bp_plane_index := payload ! 2,
                        bp_byte_offset := read_u16_le (drop 3 payload) \<rparr>;
            data_len = payload ! 5
        in if unat data_len > kBitmapPlaneMaxDataLen then (PayloadLenMismatch, out1)
        else if length payload \<noteq> kBitmapPlaneFixedPrefixLen + unat data_len
        then (PayloadLenMismatch, out1)
        else (Ok, out1\<lparr> bp_data_len := data_len,
                        bp_data := copy_into (bp_data out1)
                                     (take (unat data_len) (drop 6 payload)) \<rparr>))"

definition bitmap_plane_view :: "bitmap_plane_payload \<Rightarrow> u16 \<times> u8 \<times> u16 \<times> u8 \<times> bytes" where
  "bitmap_plane_view p = (bp_target_group p, bp_plane_index p, bp_byte_offset p, bp_data_len p,
     take (unat (bp_data_len p)) (bp_data p))"

subsection \<open>Announcing a device\<close>

record uid_announce_payload =
  ua_uid :: u32
  ua_secret :: bytes
  ua_role :: u8
  ua_host :: u8
  ua_friendly_name_len :: u8
  ua_friendly_name :: bytes

abbreviation kUidAnnounceMaxFriendlyNameLen :: u8 where "kUidAnnounceMaxFriendlyNameLen \<equiv> 20"
abbreviation kUidAnnounceFixedPrefixLen :: nat where "kUidAnnounceFixedPrefixLen \<equiv> 23"
abbreviation kUidAnnounceMinPayloadLen :: nat where "kUidAnnounceMinPayloadLen \<equiv> 23"
abbreviation kUidAnnounceMaxPayloadLen :: nat where "kUidAnnounceMaxPayloadLen \<equiv> 43"

definition uid_announce_shape :: "uid_announce_payload \<Rightarrow> bool" where
  "uid_announce_shape p \<longleftrightarrow> length (ua_secret p) = 16 \<and> length (ua_friendly_name p) = 20"

text \<open>The encoder clamps an over-long name.\<close>

definition uid_announce_fn_len :: "uid_announce_payload \<Rightarrow> u8" where
  "uid_announce_fn_len p =
     (if ua_friendly_name_len p > kUidAnnounceMaxFriendlyNameLen
      then kUidAnnounceMaxFriendlyNameLen else ua_friendly_name_len p)"

definition uid_announce_wire :: "uid_announce_payload \<Rightarrow> bytes" where
  "uid_announce_wire p =
     write_u32_le (ua_uid p) @ take 16 (ua_secret p)
     @ [ua_role p, ua_host p, uid_announce_fn_len p]
     @ take (unat (uid_announce_fn_len p)) (ua_friendly_name p)"

definition encode_uid_announce :: "bytes \<Rightarrow> header \<Rightarrow> uid_announce_payload \<Rightarrow> nat \<times> bytes" where
  "encode_uid_announce buf hdr p =
     (let fn_len = uid_announce_fn_len p;
          payload_len = of_nat kUidAnnounceFixedPrefixLen + fn_len;
          total = kHeaderSize + unat payload_len
      in if length buf < total then (0, buf)
         else (total, poke buf (write_header hdr UidAnnounce payload_len @ uid_announce_wire p)))"

definition decode_uid_announce ::
  "header \<Rightarrow> bytes \<Rightarrow> uid_announce_payload \<Rightarrow> DecodeResult \<times> uid_announce_payload" where
  "decode_uid_announce hdr payload out =
     (if h_message_type hdr \<noteq> UidAnnounce then (InvalidMessageType, out)
      else if unat (h_payload_len hdr) \<noteq> length payload then (PayloadLenMismatch, out)
      else if length payload < kUidAnnounceMinPayloadLen
           \<or> length payload > kUidAnnounceMaxPayloadLen then (PayloadLenMismatch, out)
      else let fn_len = payload ! 22 in
        if fn_len > kUidAnnounceMaxFriendlyNameLen then (PayloadLenMismatch, out)
        else if length payload \<noteq> kUidAnnounceFixedPrefixLen + unat fn_len
        then (PayloadLenMismatch, out)
        else (Ok, \<lparr> ua_uid = read_u32_le payload,
                    ua_secret = take 16 (drop 4 payload),
                    ua_role = payload ! 20,
                    ua_host = payload ! 21,
                    ua_friendly_name_len = fn_len,
                    ua_friendly_name = copy_into (replicate 20 0)
                                         (take (unat fn_len) (drop 23 payload)) \<rparr>))"

definition uid_announce_view :: "uid_announce_payload \<Rightarrow> u32 \<times> bytes \<times> u8 \<times> u8 \<times> u8 \<times> bytes" where
  "uid_announce_view p = (ua_uid p, ua_secret p, ua_role p, ua_host p, uid_announce_fn_len p,
     take (unat (uid_announce_fn_len p)) (ua_friendly_name p))"

subsection \<open>Configuration writes\<close>

record config_write_payload =
  cw_target_uid :: u32
  cw_numonce :: bytes
  cw_bag_len :: u8
  cw_bag_tlv :: bytes
  cw_hmac :: bytes

abbreviation kConfigWriteHmacLen :: nat where "kConfigWriteHmacLen \<equiv> 8"
abbreviation kConfigWriteMaxBagLen :: u8 where "kConfigWriteMaxBagLen \<equiv> 220"
abbreviation kConfigWriteFixedOverhead :: nat where "kConfigWriteFixedOverhead \<equiv> 21"
abbreviation kConfigWriteMinPayloadLen :: nat where "kConfigWriteMinPayloadLen \<equiv> 21"
abbreviation kConfigWriteMaxPayloadLen :: nat where "kConfigWriteMaxPayloadLen \<equiv> 241"

definition config_write_shape :: "config_write_payload \<Rightarrow> bool" where
  "config_write_shape p \<longleftrightarrow> length (cw_numonce p) = 8 \<and> length (cw_bag_tlv p) = 220
     \<and> length (cw_hmac p) = 8"

definition config_write_bag_len :: "config_write_payload \<Rightarrow> u8" where
  "config_write_bag_len p =
     (if cw_bag_len p > kConfigWriteMaxBagLen then kConfigWriteMaxBagLen else cw_bag_len p)"

definition config_write_wire :: "config_write_payload \<Rightarrow> bytes" where
  "config_write_wire p =
     write_u32_le (cw_target_uid p) @ take 8 (cw_numonce p) @ [config_write_bag_len p]
     @ take (unat (config_write_bag_len p)) (cw_bag_tlv p) @ take kConfigWriteHmacLen (cw_hmac p)"

definition encode_config_write :: "bytes \<Rightarrow> header \<Rightarrow> config_write_payload \<Rightarrow> nat \<times> bytes" where
  "encode_config_write buf hdr p =
     (let bag_len = config_write_bag_len p;
          payload_len = (of_nat (kConfigWriteFixedOverhead + unat bag_len) :: u16);
          total = kHeaderSize + unat payload_len
      in if length buf < total then (0, buf)
         else (total, poke buf (write_header hdr ConfigWrite (ucast payload_len)
                                @ config_write_wire p)))"

definition decode_config_write ::
  "header \<Rightarrow> bytes \<Rightarrow> config_write_payload \<Rightarrow> DecodeResult \<times> config_write_payload" where
  "decode_config_write hdr payload out =
     (if h_message_type hdr \<noteq> ConfigWrite then (InvalidMessageType, out)
      else if unat (h_payload_len hdr) \<noteq> length payload then (PayloadLenMismatch, out)
      else if length payload < kConfigWriteMinPayloadLen
           \<or> length payload > kConfigWriteMaxPayloadLen then (PayloadLenMismatch, out)
      else let bag_len = payload ! 12 in
        if bag_len > kConfigWriteMaxBagLen then (PayloadLenMismatch, out)
        else if length payload \<noteq> kConfigWriteFixedOverhead + unat bag_len
        then (PayloadLenMismatch, out)
        else (Ok, \<lparr> cw_target_uid = read_u32_le payload,
                    cw_numonce = take 8 (drop 4 payload),
                    cw_bag_len = bag_len,
                    cw_bag_tlv = copy_into (replicate 220 0)
                                   (take (unat bag_len) (drop 13 payload)),
                    cw_hmac = take kConfigWriteHmacLen (drop (13 + unat bag_len) payload) \<rparr>))"

definition config_write_view :: "config_write_payload \<Rightarrow> u32 \<times> bytes \<times> u8 \<times> bytes \<times> bytes" where
  "config_write_view p = (cw_target_uid p, cw_numonce p, config_write_bag_len p,
     take (unat (config_write_bag_len p)) (cw_bag_tlv p), cw_hmac p)"

section \<open>Contracts of the fixed-length codecs\<close>

text \<open>Every contract follows by taking the payload bytes apart (\<open>length_convs\<close>).\<close>

interpretation heartbeat: canonical_codec Heartbeat "\<lambda>_. True" "\<lambda>_. True" heartbeat_wire
  "\<lambda>p. (hb_tick p, hb_days_since_2026 p, take_bit 24 (hb_centiseconds_today p))"
  encode_heartbeat decode_heartbeat
  by unfold_locales
    (auto simp: heartbeat_wire_def encode_heartbeat_def decode_heartbeat_def
      length_convs nth_append split: if_splits)

interpretation repeater_heartbeat: canonical_codec RepeaterHeartbeat repeater_heartbeat_shape
  repeater_heartbeat_shape repeater_heartbeat_wire "\<lambda>p. p"
  encode_repeater_heartbeat decode_repeater_heartbeat
  by unfold_locales
    (auto simp: repeater_heartbeat_shape_def repeater_heartbeat_wire_def
      encode_repeater_heartbeat_def decode_repeater_heartbeat_def
      length_convs nth_append split: if_splits)

interpretation light_pulse: canonical_codec LightPulse "\<lambda>_. True" "\<lambda>_. True" light_pulse_wire
  "\<lambda>p. p" encode_light_pulse decode_light_pulse
  by unfold_locales
    (auto simp: light_pulse_wire_def encode_light_pulse_def decode_light_pulse_def
      length_convs nth_append split: if_splits)

interpretation light_wash: canonical_codec LightWash "\<lambda>_. True" "\<lambda>_. True" light_wash_wire
  "\<lambda>p. p" encode_light_wash decode_light_wash
  by unfold_locales
    (auto simp: light_wash_wire_def encode_light_wash_def decode_light_wash_def
      length_convs nth_append split: if_splits)

interpretation light_wash_end: canonical_codec LightWashEnd "\<lambda>_. True" "\<lambda>_. True"
  light_wash_end_wire "\<lambda>p. p" encode_light_wash_end decode_light_wash_end
  by unfold_locales
    (auto simp: light_wash_end_wire_def encode_light_wash_end_def decode_light_wash_end_def
      length_convs nth_append split: if_splits)

interpretation light_wash_pulse: canonical_codec LightWashPulse "\<lambda>_. True" "\<lambda>_. True"
  light_wash_pulse_wire "\<lambda>p. p" encode_light_wash_pulse decode_light_wash_pulse
  by unfold_locales
    (auto simp: light_wash_pulse_wire_def encode_light_wash_pulse_def decode_light_wash_pulse_def
      length_convs nth_append split: if_splits)

interpretation config_ack: canonical_codec ConfigAck config_ack_shape config_ack_shape
  config_ack_wire "\<lambda>p. p" encode_config_ack decode_config_ack
  by unfold_locales
    (auto simp: config_ack_shape_def config_ack_wire_def encode_config_ack_def
      decode_config_ack_def length_convs nth_append split: if_splits)

interpretation clear_screen: payload_codec ClearScreen "\<lambda>_. True" "\<lambda>_. True" clear_screen_wire
  "\<lambda>p. (cs_target_group p, cs_clear_text p \<noteq> 0, cs_clear_bitmap p \<noteq> 0)"
  encode_clear_screen decode_clear_screen
  by unfold_locales
    (auto simp: clear_screen_wire_def encode_clear_screen_def decode_clear_screen_def nth_append)

lemma bitmap_header_canon:
  assumes "decode_bitmap_header h pl out = (Ok, q)"
  shows "bitmap_header_ok q \<and> bitmap_header_wire q = pl \<and> unat (h_payload_len h) = length pl"
proof -
  have len: "length pl = 38" "unat (h_payload_len h) = 38"
    using assms by (auto simp: decode_bitmap_header_def split: if_splits)
  have ok: "bitmap_header_ok q"
    using assms by (auto simp: decode_bitmap_header_def bitmap_header_ok_def
        bitmap_header_shape_def Let_def not_less split: if_splits)
  have hd: "take 5 pl = [pl ! 0, pl ! 1, pl ! 2, pl ! 3, pl ! 4]"
    and tl: "drop 29 pl = pl ! 29 # pl ! 30 # pl ! 31 # drop 32 pl"
    and ck: "drop 32 pl = [pl ! 32, pl ! 33, pl ! 34, pl ! 35] @ drop 36 pl"
    and ttl: "drop 36 pl = [pl ! 36, pl ! 37]"
    using len by (auto simp: list_eq_iff_nth_eq nth_Cons' numeral_eq_Suc less_Suc_eq)
  have u16: "write_u16_le (read_u16_le pl) = [pl ! 0, pl ! 1]"
    using write_read_u16_le [of "pl ! 0" "pl ! 1" "drop 2 pl"] len
    by (simp add: Cons_nth_drop_Suc numeral_2_eq_2)
  have u32: "write_u32_le (read_u32_le (drop 32 pl)) = [pl ! 32, pl ! 33, pl ! 34, pl ! 35]"
    unfolding ck by simp
  have u16': "write_u16_le (read_u16_le (drop 36 pl)) = [pl ! 36, pl ! 37]"
    unfolding ttl by simp
  have cs: "colour_bytes (read_colours 8 (drop 5 pl)) = take 24 (drop 5 pl)"
    using colour_bytes_read [of 8 "drop 5 pl"] len by simp
  have "pl = take 5 pl @ take 24 (drop 5 pl) @ drop 29 pl"
    using append_take_drop_id [of 5 pl] append_take_drop_id [of 24 "drop 5 pl"] by simp
  also have "\<dots> = bitmap_header_wire q"
    using assms len unfolding tl ck ttl hd
    by (auto simp: decode_bitmap_header_def bitmap_header_wire_def Let_def u16 u32 u16' cs
        split: if_splits)
  finally show ?thesis using ok len by simp
qed

lemma bitmap_header_decode_wire:
  assumes "bitmap_header_ok p" and "h_message_type h = BitmapHeader"
    and "unat (h_payload_len h) = length (bitmap_header_wire p)"
  shows "decode_bitmap_header h (bitmap_header_wire p) out = (Ok, p)"
proof -
  let ?w = "bitmap_header_wire p"
  have len: "length ?w = 38" and n8: "length (bh_colours p) = 8"
    using assms(1) by (auto simp: bitmap_header_wire_def bitmap_header_ok_def bitmap_header_shape_def)
  have d5: "drop 5 ?w = colour_bytes (bh_colours p) @ drop 29 ?w"
    and d32: "drop 32 ?w = write_u32_le (bh_checksum p) @ write_u16_le (bh_ttl_ms p)"
    and d36: "drop 36 ?w = write_u16_le (bh_ttl_ms p)"
    using n8 by (simp_all add: bitmap_header_wire_def)
  have at: "?w ! 2 = bh_width p" "?w ! 3 = bh_height p" "?w ! 4 = bh_plane_count p"
    "?w ! 29 = bh_fit p" "?w ! 30 = bh_zoom_pct p" "?w ! 31 = bh_overwrite p"
    "read_u16_le ?w = bh_target_group p"
    using n8 by (simp_all add: bitmap_header_wire_def nth_append)
  show ?thesis
    using assms len at d5 d32 d36 read_colour_bytes [OF n8]
    by (simp add: decode_bitmap_header_def bitmap_header_ok_def Let_def not_less)
qed

lemma encode_bitmap_header_ok:
  assumes "bitmap_header_ok p"
  shows "length (bitmap_header_wire p) = kBitmapHeaderPayloadLen"
    and "encode_bitmap_header buf hdr p =
      (let total = kHeaderSize + kBitmapHeaderPayloadLen in
        if length buf < total then (0, buf)
        else (total, poke buf (write_header hdr BitmapHeader (of_nat kBitmapHeaderPayloadLen)
                               @ bitmap_header_wire p)))"
  using assms
  by (simp_all add: bitmap_header_wire_def bitmap_header_ok_def bitmap_header_shape_def
      encode_bitmap_header_def not_less [symmetric])

interpretation bitmap_header: canonical_codec BitmapHeader bitmap_header_shape bitmap_header_ok
  bitmap_header_wire "\<lambda>p. p" encode_bitmap_header decode_bitmap_header
proof unfold_locales
  show "bitmap_header_shape out \<Longrightarrow> bitmap_header_shape (snd (decode_bitmap_header h pl out))"
    for out h pl
    by (simp add: decode_bitmap_header_def bitmap_header_shape_def Let_def)
  show "h_message_type h \<noteq> BitmapHeader \<Longrightarrow> decode_bitmap_header h pl out = (InvalidMessageType, out)"
    for h pl out
    by (simp add: decode_bitmap_header_def)
qed (use bitmap_header_canon in \<open>auto simp: encode_bitmap_header_ok bitmap_header_decode_wire\<close>)

section \<open>Contracts of the variable-length codecs\<close>

lemma unat_le_iff: "x \<le> y \<longleftrightarrow> unat x \<le> unat (y :: 'a::len word)"
  by (simp add: word_le_nat_alt)

lemma uid_announce_fn_len_bound: "unat (uid_announce_fn_len p) \<le> 20"
  by (auto simp: uid_announce_fn_len_def word_le_nat_alt word_less_nat_alt not_less)

lemma config_write_bag_len_bound: "unat (config_write_bag_len p) \<le> 220"
  by (auto simp: config_write_bag_len_def word_le_nat_alt word_less_nat_alt not_less)

lemma length_text_display_wire:
  "text_display_ok p \<Longrightarrow>
     length (text_display_wire p) = 9 + unat (td_header_len p) + unat (td_body_len p)"
  by (simp add: text_display_wire_def text_display_ok_def text_display_shape_def word_le_nat_alt)

lemma length_bitmap_plane_wire:
  "bitmap_plane_ok p \<Longrightarrow> length (bitmap_plane_wire p) = 6 + unat (bp_data_len p)"
  by (simp add: bitmap_plane_wire_def bitmap_plane_ok_def bitmap_plane_shape_def)

lemma length_uid_announce_wire:
  "uid_announce_shape p \<Longrightarrow> length (uid_announce_wire p) = 23 + unat (uid_announce_fn_len p)"
  using uid_announce_fn_len_bound [of p] by (simp add: uid_announce_wire_def uid_announce_shape_def)

lemma length_config_write_wire:
  "config_write_shape p \<Longrightarrow> length (config_write_wire p) = 21 + unat (config_write_bag_len p)"
  using config_write_bag_len_bound [of p] by (simp add: config_write_wire_def config_write_shape_def)

lemma text_display_decode_wire:
  assumes "text_display_ok p" and "text_display_shape out" and "h_message_type h = TextDisplay"
    and "unat (h_payload_len h) = length (text_display_wire p)"
  shows "\<exists>q. decode_text_display h (text_display_wire p) out = (Ok, q)
    \<and> text_display_view q = text_display_view p"
proof -
  let ?w = "text_display_wire p"
  let ?hl = "unat (td_header_len p)" and ?bl = "unat (td_body_len p)"
  have len: "length ?w = 9 + ?hl + ?bl" by (rule length_text_display_wire [OF assms(1)])
  have arr: "?hl \<le> length (td_header p)" "?bl \<le> length (td_body p)"
    using assms(1) by (simp_all add: text_display_ok_def text_display_shape_def word_le_nat_alt)
  have at: "?w ! 2 = td_r p" "?w ! 3 = td_g p" "?w ! 4 = td_b p" "?w ! 7 = td_header_len p"
    "?w ! (8 + ?hl) = td_body_len p"
    using arr by (simp_all add: text_display_wire_def nth_append min_def)
  have d8: "drop 8 ?w = take ?hl (td_header p) @ td_body_len p # take ?bl (td_body p)"
    by (simp add: text_display_wire_def)
  have d9: "drop (8 + ?hl + 1) ?w = drop (?hl + 1) (drop 8 ?w)"
    by (simp add: add.commute)
  have rd: "read_u16_le ?w = td_target_group p" "read_u16_le (drop 5 ?w) = td_ttl_ms p"
    by (simp_all add: text_display_wire_def)
  have tk: "take ?hl (drop 8 ?w) = take ?hl (td_header p)"
    "take ?bl (drop (8 + ?hl + 1) ?w) = take ?bl (td_body p)"
    unfolding d9 d8 using arr by (simp_all add: min_def)
  show ?thesis
    using assms len at rd tk arr
    by (auto simp: decode_text_display_def text_display_ok_def text_display_view_def Let_def
        not_less min_def)
qed

lemma text_display_canon:
  assumes "decode_text_display h pl out = (Ok, q)" and "text_display_shape out"
  shows "text_display_ok q \<and> text_display_wire q = pl \<and> unat (h_payload_len h) = length pl"
proof -
  have len: "unat (h_payload_len h) = length pl" "9 \<le> length pl"
    using assms(1) by (auto simp: decode_text_display_def split: if_splits)
  let ?hl = "unat (pl ! 7)"
  let ?bl = "unat (pl ! (8 + ?hl))"
  from len(2) have pl: "pl = take 7 pl @ [pl ! 7] @ drop 8 pl" and
    pre: "take 7 pl = [pl ! 0, pl ! 1, pl ! 2, pl ! 3, pl ! 4, pl ! 5, pl ! 6]"
    and u16: "write_u16_le (read_u16_le pl) = [pl ! 0, pl ! 1]"
      "write_u16_le (read_u16_le (drop 5 pl)) = [pl ! 5, pl ! 6]"
    by (auto simp: le_length_convs)
  have bnd: "pl ! 7 \<le> 64" "pl ! (8 + ?hl) \<le> 128" "length pl = 9 + ?hl + ?bl"
    using assms(1) by (auto simp: decode_text_display_def Let_def not_less split: if_splits)
  then have bnd': "?hl \<le> 64" "?bl \<le> 128" by (simp_all add: word_le_nat_alt)
  have q: "td_target_group q = read_u16_le pl" "td_r q = pl ! 2" "td_g q = pl ! 3" "td_b q = pl ! 4"
    "td_ttl_ms q = read_u16_le (drop 5 pl)" "td_header_len q = pl ! 7"
    "td_header q = copy_into (td_header out) (take ?hl (drop 8 pl))"
    "td_body_len q = pl ! (8 + ?hl)"
    "td_body q = copy_into (td_body out) (take ?bl (drop (9 + ?hl) pl))"
    using assms(1) by (auto simp: decode_text_display_def Let_def split: if_splits)
  have "drop 8 pl = take ?hl (drop 8 pl) @ pl ! (8 + ?hl) # drop (9 + ?hl) pl"
    using id_take_nth_drop [of ?hl "drop 8 pl"] bnd by (simp add: add.commute)
  then have "text_display_wire q = pl"
    using bnd bnd' pl pre u16 len by (simp add: text_display_wire_def q min_def)
  moreover have "text_display_ok q"
    using bnd bnd' assms(2) by (simp add: text_display_ok_def text_display_shape_def q)
  ultimately show ?thesis using len by simp
qed


lemma bitmap_plane_canon:
  assumes "decode_bitmap_plane h pl out = (Ok, q)" and "bitmap_plane_shape out"
  shows "bitmap_plane_ok q \<and> bitmap_plane_wire q = pl \<and> unat (h_payload_len h) = length pl"
proof -
  have len: "unat (h_payload_len h) = length pl" "6 \<le> length pl"
      "unat (pl ! 5) \<le> 235" "length pl = 6 + unat (pl ! 5)"
    using assms(1) by (auto simp: decode_bitmap_plane_def Let_def split: if_splits)
  from len(2) have "pl = [pl ! 0, pl ! 1, pl ! 2, pl ! 3, pl ! 4, pl ! 5] @ drop 6 pl"
    and "write_u16_le (read_u16_le pl) = [pl ! 0, pl ! 1]"
      "write_u16_le (read_u16_le (drop 3 pl)) = [pl ! 3, pl ! 4]"
    by (auto simp: le_length_convs)
  then show ?thesis
    using assms len
    by (auto simp: decode_bitmap_plane_def bitmap_plane_ok_def bitmap_plane_shape_def
        bitmap_plane_wire_def Let_def split: if_splits)
qed

lemma uid_announce_canon:
  assumes "decode_uid_announce h pl out = (Ok, q)"
  shows "uid_announce_shape q \<and> uid_announce_wire q = pl \<and> unat (h_payload_len h) = length pl"
proof -
  let ?n = "unat (pl ! 22)"
  have len: "unat (h_payload_len h) = length pl" "23 \<le> length pl"
      "pl ! 22 \<le> 20" "length pl = 23 + ?n"
    using assms(1) by (auto simp: decode_uid_announce_def Let_def not_less split: if_splits)
  then have n: "?n \<le> 20" by (simp add: word_le_nat_alt)
  have q: "uid_announce_shape q" "ua_uid q = read_u32_le pl" "ua_secret q = take 16 (drop 4 pl)"
    "ua_role q = pl ! 20" "ua_host q = pl ! 21" "uid_announce_fn_len q = pl ! 22"
    "ua_friendly_name q = copy_into (replicate 20 0) (take ?n (drop 23 pl))"
    using assms(1) n
    by (auto simp: decode_uid_announce_def uid_announce_fn_len_def uid_announce_shape_def Let_def
        split: if_splits)
  have u32: "write_u32_le (read_u32_le pl) = take 4 pl"
    using len(2) by (auto simp: le_length_convs)
  have p3: "[pl ! 20, pl ! 21, pl ! 22] = take 3 (drop 20 pl)"
    using len(2) by (auto simp: le_length_convs)
  have "pl = take 4 pl @ take 16 (drop 4 pl) @ take 3 (drop 20 pl) @ drop 23 pl"
    using append_take_drop_id [of 4 pl] append_take_drop_id [of 16 "drop 4 pl"]
      append_take_drop_id [of 3 "drop 20 pl"] by simp
  also have "\<dots> = uid_announce_wire q"
    using len n by (simp add: uid_announce_wire_def q u32 p3 [symmetric])
  finally show ?thesis using q len by simp
qed

lemma config_write_canon:
  assumes "decode_config_write h pl out = (Ok, q)"
  shows "config_write_shape q \<and> config_write_wire q = pl \<and> unat (h_payload_len h) = length pl"
proof -
  let ?n = "unat (pl ! 12)"
  have len: "unat (h_payload_len h) = length pl" "21 \<le> length pl"
      "pl ! 12 \<le> 220" "length pl = 21 + ?n"
    using assms(1) by (auto simp: decode_config_write_def Let_def not_less split: if_splits)
  then have n: "?n \<le> 220" by (simp add: word_le_nat_alt)
  have q: "config_write_shape q" "cw_target_uid q = read_u32_le pl" "cw_numonce q = take 8 (drop 4 pl)"
    "config_write_bag_len q = pl ! 12"
    "cw_bag_tlv q = copy_into (replicate 220 0) (take ?n (drop 13 pl))"
    "cw_hmac q = take 8 (drop (13 + ?n) pl)"
    using assms(1) n len
    by (auto simp: decode_config_write_def config_write_bag_len_def config_write_shape_def Let_def
        split: if_splits)
  have u32: "write_u32_le (read_u32_le pl) = take 4 pl"
    using len(2) by (auto simp: le_length_convs)
  have p1: "take (Suc 0) (drop 12 pl) = [pl ! 12]"
    using len(2) by (auto simp: le_length_convs)
  have "pl = take 4 pl @ take 8 (drop 4 pl) @ take 1 (drop 12 pl) @ take ?n (drop 13 pl)
      @ drop (13 + ?n) pl"
    using append_take_drop_id [of 4 pl] append_take_drop_id [of 8 "drop 4 pl"]
      append_take_drop_id [of 1 "drop 12 pl"] append_take_drop_id [of ?n "drop 13 pl"]
    by (simp add: add.commute)
  also have "\<dots> = config_write_wire q"
    using len n by (simp add: config_write_wire_def q u32 p1)
  finally show ?thesis using q len by simp
qed

lemma config_write_decode_wire:
  assumes "config_write_shape p" and "h_message_type h = ConfigWrite"
    and "unat (h_payload_len h) = length (config_write_wire p)"
  shows "\<exists>q. decode_config_write h (config_write_wire p) out = (Ok, q)
    \<and> config_write_view q = config_write_view p \<and> cw_bag_len q = config_write_bag_len p"
proof -
  let ?w = "config_write_wire p"
  let ?n = "unat (config_write_bag_len p)"
  have n: "?n \<le> 220" by (rule config_write_bag_len_bound)
  have len: "length ?w = 21 + ?n" by (rule length_config_write_wire [OF assms(1)])
  have sh: "length (cw_numonce p) = 8" "length (cw_bag_tlv p) = 220" "length (cw_hmac p) = 8"
    using assms(1) by (simp_all add: config_write_shape_def)
  have at: "?w ! 12 = config_write_bag_len p" "read_u32_le ?w = cw_target_uid p"
    "take 8 (drop 4 ?w) = cw_numonce p" "take ?n (drop 13 ?w) = take ?n (cw_bag_tlv p)"
    "drop (13 + ?n) ?w = cw_hmac p"
    using n sh by (simp_all add: config_write_wire_def nth_append)
  have le: "\<not> 220 < config_write_bag_len p" using n by (simp add: word_less_nat_alt)
  show ?thesis
    using assms len at n le sh
    by (simp add: decode_config_write_def config_write_view_def config_write_bag_len_def Let_def)
qed

lemma uid_announce_decode_wire:
  assumes "uid_announce_shape p" and "h_message_type h = UidAnnounce"
    and "unat (h_payload_len h) = length (uid_announce_wire p)"
  shows "\<exists>q. decode_uid_announce h (uid_announce_wire p) out = (Ok, q)
    \<and> uid_announce_view q = uid_announce_view p"
proof -
  let ?w = "uid_announce_wire p"
  let ?n = "unat (uid_announce_fn_len p)"
  have n: "?n \<le> 20" by (rule uid_announce_fn_len_bound)
  have len: "length ?w = 23 + ?n" by (rule length_uid_announce_wire [OF assms(1)])
  have sh: "length (ua_secret p) = 16" "length (ua_friendly_name p) = 20"
    using assms(1) by (simp_all add: uid_announce_shape_def)
  have at: "?w ! 22 = uid_announce_fn_len p" "?w ! 20 = ua_role p" "?w ! 21 = ua_host p"
    "read_u32_le ?w = ua_uid p" "take 16 (drop 4 ?w) = ua_secret p"
    "drop 23 ?w = take ?n (ua_friendly_name p)"
    using n sh by (simp_all add: uid_announce_wire_def nth_append)
  have le: "\<not> 20 < uid_announce_fn_len p" using n by (simp add: word_less_nat_alt)
  show ?thesis
    using assms len at n le sh
    by (simp add: decode_uid_announce_def uid_announce_view_def uid_announce_fn_len_def Let_def)
qed

lemma text_display_decode_shape:
  "text_display_shape out \<Longrightarrow> text_display_shape (snd (decode_text_display h pl out))"
  by (auto simp: decode_text_display_def text_display_shape_def Let_def word_le_nat_alt not_less min_def)

lemma text_display_decode_type:
  "h_message_type h \<noteq> TextDisplay \<Longrightarrow> decode_text_display h pl out = (InvalidMessageType, out)"
  by (simp add: decode_text_display_def)

interpretation text_display: canonical_codec TextDisplay text_display_shape text_display_ok
  text_display_wire text_display_view encode_text_display decode_text_display
proof unfold_locales
  fix p :: text_display_payload and buf :: bytes and hdr :: header
  assume ok: "text_display_ok p"
  note len = length_text_display_wire [OF ok]
  have b: "unat (td_header_len p) \<le> 64" "unat (td_body_len p) \<le> 128"
    "\<not> 64 < td_header_len p" "\<not> 128 < td_body_len p"
    using ok by (simp_all add: text_display_ok_def word_le_nat_alt word_less_nat_alt)
  show "length (text_display_wire p) \<le> kMaxPayloadSize" using len b by simp
  show "encode_text_display buf hdr p = (kHeaderSize + length (text_display_wire p),
      poke buf (write_header hdr TextDisplay (of_nat (length (text_display_wire p))) @ text_display_wire p))"
    if "kHeaderSize + length (text_display_wire p) \<le> length buf"
    using len b that by (simp add: encode_text_display_def Let_def)
  show "encode_text_display buf hdr p = (0, buf)"
    if "length buf < kHeaderSize + length (text_display_wire p)"
    using len b that by (simp add: encode_text_display_def Let_def)
qed (use text_display_canon text_display_decode_wire text_display_decode_shape text_display_decode_type in \<open>blast+\<close>)

lemma bitmap_plane_decode_wire:
  assumes "bitmap_plane_ok p" and "h_message_type h = BitmapPlane"
    and "unat (h_payload_len h) = length (bitmap_plane_wire p)"
    and "bitmap_plane_shape out"
  shows "\<exists>q. decode_bitmap_plane h (bitmap_plane_wire p) out = (Ok, q)
      \<and> bitmap_plane_view q = bitmap_plane_view p"
proof -
  have "read_u16_le (drop 3 (bitmap_plane_wire p)) = bp_byte_offset p"
    by (simp add: bitmap_plane_wire_def)
  then show ?thesis
    using assms length_bitmap_plane_wire [OF assms(1)]
    by (auto simp: decode_bitmap_plane_def bitmap_plane_view_def bitmap_plane_wire_def
        bitmap_plane_ok_def bitmap_plane_shape_def nth_append Let_def)
qed

lemma bitmap_plane_decode_shape:
  "bitmap_plane_shape out \<Longrightarrow> bitmap_plane_shape (snd (decode_bitmap_plane h pl out))"
  by (auto simp: decode_bitmap_plane_def bitmap_plane_shape_def Let_def word_le_nat_alt not_less min_def)

lemma bitmap_plane_decode_type:
  "h_message_type h \<noteq> BitmapPlane \<Longrightarrow> decode_bitmap_plane h pl out = (InvalidMessageType, out)"
  by (simp add: decode_bitmap_plane_def)

interpretation bitmap_plane: canonical_codec BitmapPlane bitmap_plane_shape bitmap_plane_ok
  bitmap_plane_wire bitmap_plane_view encode_bitmap_plane decode_bitmap_plane
proof unfold_locales
  fix p :: bitmap_plane_payload and buf :: bytes and hdr :: header
  assume ok: "bitmap_plane_ok p"
  note len = length_bitmap_plane_wire [OF ok]
  have n: "unat (bp_data_len p) \<le> 235" using ok by (simp add: bitmap_plane_ok_def)
  show "length (bitmap_plane_wire p) \<le> kMaxPayloadSize" using len n by simp
  show "encode_bitmap_plane buf hdr p = (kHeaderSize + length (bitmap_plane_wire p),
      poke buf (write_header hdr BitmapPlane (of_nat (length (bitmap_plane_wire p))) @ bitmap_plane_wire p))"
    if "kHeaderSize + length (bitmap_plane_wire p) \<le> length buf"
    using len n that by (simp add: encode_bitmap_plane_def Let_def)
  show "encode_bitmap_plane buf hdr p = (0, buf)"
    if "length buf < kHeaderSize + length (bitmap_plane_wire p)"
    using len n that by (simp add: encode_bitmap_plane_def Let_def)
qed (use bitmap_plane_canon bitmap_plane_decode_wire bitmap_plane_decode_shape bitmap_plane_decode_type in \<open>blast+\<close>)

lemma uid_announce_decode_shape:
  "uid_announce_shape out \<Longrightarrow> uid_announce_shape (snd (decode_uid_announce h pl out))"
  by (auto simp: decode_uid_announce_def uid_announce_shape_def Let_def word_le_nat_alt not_less min_def)

lemma uid_announce_decode_type:
  "h_message_type h \<noteq> UidAnnounce \<Longrightarrow> decode_uid_announce h pl out = (InvalidMessageType, out)"
  by (simp add: decode_uid_announce_def)

interpretation uid_announce: canonical_codec UidAnnounce uid_announce_shape uid_announce_shape
  uid_announce_wire uid_announce_view encode_uid_announce decode_uid_announce
proof unfold_locales
  fix p :: uid_announce_payload and buf :: bytes and hdr :: header
  assume ok: "uid_announce_shape p"
  note len = length_uid_announce_wire [OF ok] and n = uid_announce_fn_len_bound [of p]
  have u: "unat (of_nat kUidAnnounceFixedPrefixLen + uid_announce_fn_len p :: u8)
      = 23 + unat (uid_announce_fn_len p)"
    using n by (simp add: unat_plus_if_size word_size)
  show "length (uid_announce_wire p) \<le> kMaxPayloadSize" using len n by simp
  show "encode_uid_announce buf hdr p = (kHeaderSize + length (uid_announce_wire p),
      poke buf (write_header hdr UidAnnounce (of_nat (length (uid_announce_wire p))) @ uid_announce_wire p))"
    if "kHeaderSize + length (uid_announce_wire p) \<le> length buf"
    using len u that by (simp add: encode_uid_announce_def Let_def)
  show "encode_uid_announce buf hdr p = (0, buf)"
    if "length buf < kHeaderSize + length (uid_announce_wire p)"
    using len u that by (simp add: encode_uid_announce_def Let_def)
qed (use uid_announce_canon uid_announce_decode_wire uid_announce_decode_shape uid_announce_decode_type in \<open>blast+\<close>)

lemma config_write_decode_shape:
  "config_write_shape out \<Longrightarrow> config_write_shape (snd (decode_config_write h pl out))"
  by (auto simp: decode_config_write_def config_write_shape_def Let_def word_le_nat_alt not_less min_def)

lemma config_write_decode_type:
  "h_message_type h \<noteq> ConfigWrite \<Longrightarrow> decode_config_write h pl out = (InvalidMessageType, out)"
  by (simp add: decode_config_write_def)

interpretation config_write: canonical_codec ConfigWrite config_write_shape config_write_shape
  config_write_wire config_write_view encode_config_write decode_config_write
proof unfold_locales
  fix p :: config_write_payload and buf :: bytes and hdr :: header
  assume ok: "config_write_shape p"
  note len = length_config_write_wire [OF ok] and n = config_write_bag_len_bound [of p]
  have u: "unat (of_nat (kConfigWriteFixedOverhead + unat (config_write_bag_len p)) :: u16)
      = 21 + unat (config_write_bag_len p)"
    using n by (simp add: unat_of_nat del: of_nat_add)
  have uc: "(ucast (of_nat (kConfigWriteFixedOverhead + unat (config_write_bag_len p)) :: u16) :: u8)
      = of_nat (length (config_write_wire p))"
    using len n by (simp add: word_unat_eq_iff unat_of_nat unsigned_ucast_eq take_bit_eq_mod del: of_nat_add)
  show "length (config_write_wire p) \<le> kMaxPayloadSize" using len n by simp
  show "encode_config_write buf hdr p = (kHeaderSize + length (config_write_wire p),
      poke buf (write_header hdr ConfigWrite (of_nat (length (config_write_wire p))) @ config_write_wire p))"
    if "kHeaderSize + length (config_write_wire p) \<le> length buf"
    using len u uc that by (simp add: encode_config_write_def Let_def del: of_nat_add)
  show "encode_config_write buf hdr p = (0, buf)"
    if "length buf < kHeaderSize + length (config_write_wire p)"
    using len u that by (simp add: encode_config_write_def Let_def del: of_nat_add)
qed (use config_write_canon config_write_decode_wire config_write_decode_shape config_write_decode_type in \<open>blast+\<close>)

section \<open>Properties of the wire format\<close>

text \<open>Concrete frames for the witnesses.\<close>

definition sample_header :: header where
  "sample_header = \<lparr> h_protocol_version = 0, h_source_id = 0x41, h_sequence_number = 9,
     h_hop_count = 1, h_message_type = Heartbeat, h_payload_len = 0 \<rparr>"

definition sample_config_write :: config_write_payload where
  "sample_config_write = \<lparr> cw_target_uid = 0x2A, cw_numonce = [1, 2, 3, 4, 5, 6, 7, 8],
     cw_bag_len = 1, cw_bag_tlv = 9 # replicate 219 0, cw_hmac = [8, 7, 6, 5, 4, 3, 2, 1] \<rparr>"

definition sample_wash :: light_wash_payload where
  "sample_wash = \<lparr> lw_target_class = 1, lw_target_group = 300, lw_r1 = 1, lw_g1 = 2, lw_b1 = 3,
     lw_r2 = 4, lw_g2 = 5, lw_b2 = 6, lw_attack = 7, lw_release = 8, lw_intensity = 255,
     lw_cycle_ms = 4000, lw_ttl_seconds = 600, lw_pulse_response = 1, lw_led_mode = 2,
     lw_led_modifier1 = 0xAA, lw_led_modifier2 = 0x0A \<rparr>"

definition sample_text :: text_display_payload where
  "sample_text = \<lparr> td_target_group = 7, td_r = 1, td_g = 2, td_b = 3, td_ttl_ms = 500,
     td_header_len = 2, td_header = [72, 73] @ replicate 62 0,
     td_body_len = 3, td_body = [97, 98, 99] @ replicate 125 0 \<rparr>"

text \<open>A LIGHT_WASH frame survives the radio. Given a buffer of at least 29 bytes the encoder
  writes exactly 29 of them and leaves the rest alone, and a receiver that decodes the header and
  then the payload of what was written recovers the source, the sequence number, the hop count and
  every field of the wash.\<close>

theorem light_wash_frame_roundtrip:
  assumes "kHeaderSize + kLightWashPayloadLen \<le> length buf"
  shows "\<exists>buf' h. encode_light_wash buf hdr p = (29, buf')
    \<and> length buf' = length buf \<and> drop 29 buf' = drop 29 buf
    \<and> decode_header (take 29 buf') h0 = (Ok, h)
    \<and> h_source_id h = h_source_id hdr \<and> h_sequence_number h = h_sequence_number hdr
    \<and> h_hop_count h = h_hop_count hdr
    \<and> decode_light_wash h (drop kHeaderSize (take 29 buf')) out = (Ok, p)"
proof -
  have len: "length (light_wash_wire p) = 20" by (simp add: light_wash_wire_def)
  obtain buf' where enc: "encode_light_wash buf hdr p = (29, buf')"
    and buf': "length buf' = length buf" "drop 29 buf' = drop 29 buf"
    using assms len by (simp add: encode_light_wash_def poke_def)
  from light_wash.roundtrip [of buf hdr p 29 buf' h0 out] buf' enc show ?thesis by auto
qed

theorem light_wash_frame_roundtrip_witness:
  "\<exists>buf' h. encode_light_wash (replicate 32 7) sample_header sample_wash = (29, buf')
    \<and> decode_header (take 29 buf') sample_header = (Ok, h)
    \<and> decode_light_wash h (drop 9 (take 29 buf')) sample_wash = (Ok, sample_wash)"
  using light_wash_frame_roundtrip [of "replicate 32 7" sample_header sample_wash sample_header
      sample_wash] by auto

text \<open>A TEXT_DISPLAY frame round trip, with both strings of any length the struct allows: if the
  encoder does not refuse, the receiver of the bytes it reports recovers the group, the colour, the
  time to live and exactly the valid bytes of both strings, whatever the receiving struct held
  before.\<close>

theorem text_display_frame_roundtrip:
  assumes "text_display_ok p" and "text_display_shape out"
    and "encode_text_display buf hdr p = (n, buf')" and "n \<noteq> 0"
  shows "\<exists>h q. decode_header (take n buf') h0 = (Ok, h)
    \<and> h_source_id h = h_source_id hdr \<and> h_sequence_number h = h_sequence_number hdr
    \<and> n = kHeaderSize + unat (h_payload_len h) \<and> n \<le> kMaxFrameSize
    \<and> decode_text_display h (drop kHeaderSize (take n buf')) out = (Ok, q)
    \<and> text_display_view q = text_display_view p"
  using text_display.roundtrip [OF assms, of h0] by blast

theorem text_display_frame_roundtrip_witness:
  "\<exists>h q. decode_header (take 23 (snd (encode_text_display (replicate 250 0) sample_header sample_text)))
           sample_header = (Ok, h)
    \<and> decode_text_display h
        (drop 9 (take 23 (snd (encode_text_display (replicate 250 0) sample_header sample_text))))
        sample_text = (Ok, q)
    \<and> text_display_view q = text_display_view sample_text"
proof -
  have ok: "text_display_ok sample_text" "text_display_shape sample_text"
    by (simp_all add: text_display_ok_def text_display_shape_def sample_text_def)
  have enc: "encode_text_display (replicate 250 0) sample_header sample_text
      = (23, snd (encode_text_display (replicate 250 0) sample_header sample_text))"
    by (simp add: encode_text_display_def sample_text_def Let_def)
  show ?thesis
    using text_display_frame_roundtrip [OF ok enc, of sample_header] by auto
qed

text \<open>Relaying by decode and re-encode loses nothing. Whatever bytes arrive, if the header and
  the CONFIG_WRITE payload are accepted, then encoding the decoded struct with the decoded header
  produces the accepted frame again, byte for byte (signature included): the decoder accepts no
  second spelling of a signed command.\<close>

theorem config_write_reencode:
  assumes "decode_header buf h0 = (Ok, h)" and "config_write_shape out"
    and "decode_config_write h (take (unat (h_payload_len h)) (drop kHeaderSize buf)) out = (Ok, q)"
    and "kHeaderSize + unat (h_payload_len h) \<le> length buf2"
  shows "encode_config_write buf2 h q =
    (kHeaderSize + unat (h_payload_len h),
     poke buf2 (take (kHeaderSize + unat (h_payload_len h)) buf))"
  by (rule config_write.reencode [OF assms])

theorem config_write_reencode_witness:
  "let f = write_header sample_header ConfigWrite 22 @ config_write_wire sample_config_write;
       h = sent_header sample_header ConfigWrite 22
   in decode_header f sample_header = (Ok, h)
     \<and> encode_config_write (replicate 40 0) h sample_config_write = (31, poke (replicate 40 0) f)"
proof -
  let ?f = "write_header sample_header ConfigWrite 22 @ config_write_wire sample_config_write"
  let ?h = "sent_header sample_header ConfigWrite 22"
  have sh: "config_write_shape sample_config_write"
    by (simp add: config_write_shape_def sample_config_write_def)
  have len: "length (config_write_wire sample_config_write) = 22"
    by (simp add: length_config_write_wire [OF sh])
      (simp add: config_write_bag_len_def sample_config_write_def)
  have dec: "decode_header ?f sample_header = (Ok, ?h)"
    using len by (simp add: decode_write_header)
  have pay: "decode_config_write ?h (take (unat (h_payload_len ?h)) (drop kHeaderSize ?f))
      sample_config_write = (Ok, sample_config_write)"
    using len by (simp, code_simp)
  show ?thesis
    using config_write_reencode [OF dec sh pay, of "replicate 40 0"] dec len by simp
qed

end
