(* ===== verification/Tlv.thy ===== *)
theory Tlv
  imports Noct_Prelude
begin

text \<open>
  The property-bag codec of \<open>src/ble/property_bag_tlv.h\<close> and \<open>.cpp\<close>: an encoder that appends
  (key, type, value) entries to a caller-owned buffer and keeps the entry count in byte 0, and a
  decoder that walks a bag of arbitrary bytes and hands every entry to a callback.

  A C string is the list of its bytes up to the NUL; a value pointer is an option. The encoder's
  buffer carries its length; its pointer is not null.
\<close>

datatype ValueType = VtU8 | VtU16 | VtU32 | VtBytes | VtUtf8 | VtBool

fun vt_code :: "ValueType \<Rightarrow> u8" where
  "vt_code VtU8 = 0"
| "vt_code VtU16 = 1"
| "vt_code VtU32 = 2"
| "vt_code VtBytes = 3"
| "vt_code VtUtf8 = 4"
| "vt_code VtBool = 5"

datatype DecodeError = TlvOk | TlvMalformed | TlvEmptyBuffer | TlvCallbackAbort

text \<open>An entry as the decoder hands it out; the type byte is cast without a check, so it can be any
  byte. The value pointer is null exactly when the value is empty.\<close>

record tlv_entry =
  te_key :: bytes
  te_type :: u8
  te_value :: bytes

section \<open>Encoder\<close>

record tlv_encoder =
  en_buf :: bytes
  en_len :: nat
  en_count :: u8

definition tlv_encoder_init :: "bytes \<Rightarrow> tlv_encoder" where
  "tlv_encoder_init buf =
     (if length buf \<ge> 1 then \<lparr> en_buf = buf[0 := 0], en_len = 1, en_count = 0 \<rparr>
      else \<lparr> en_buf = buf, en_len = 0, en_count = 0 \<rparr>)"

text \<open>\<open>strlen\<close> with the code's cut-off: \<open>None\<close> when the string is longer than 255 bytes.\<close>

definition c_strlen_u8 :: "bytes \<Rightarrow> nat option" where
  "c_strlen_u8 s = (let n = length (takeWhile (\<lambda>b. b \<noteq> 0) s) in if n > 0xFF then None else Some n)"

definition write_entry ::
  "tlv_encoder \<Rightarrow> bytes \<Rightarrow> ValueType \<Rightarrow> bytes option \<Rightarrow> u8 \<Rightarrow> bool \<times> tlv_encoder" where
  "write_entry s key type value value_len =
     (if en_buf s = [] then (False, s)
      else if en_count s = 0xFF then (False, s)
      else case c_strlen_u8 key of
        None \<Rightarrow> (False, s)
      | Some key_len \<Rightarrow>
          if key_len = 0 then (False, s)
          else let need = 1 + key_len + 1 + 1 + unat value_len in
            if en_len s + need > length (en_buf s) then (False, s)
            else
              let hd = [of_nat key_len] @ take key_len key @ [vt_code type, value_len];
                  b1 = poke_at (en_buf s) (en_len s) hd;
                  b2 = (case value of
                          Some v \<Rightarrow> poke_at b1 (en_len s + length hd) (take (unat value_len) v)
                        | None \<Rightarrow> b1);
                  count = en_count s + 1
              in (True, \<lparr> en_buf = b2[0 := count], en_len = en_len s + need, en_count = count \<rparr>))"

definition add_u8 :: "tlv_encoder \<Rightarrow> bytes \<Rightarrow> u8 \<Rightarrow> bool \<times> tlv_encoder" where
  "add_u8 s key v = write_entry s key VtU8 (Some [v]) 1"

definition add_u16 :: "tlv_encoder \<Rightarrow> bytes \<Rightarrow> u16 \<Rightarrow> bool \<times> tlv_encoder" where
  "add_u16 s key v = write_entry s key VtU16 (Some (write_u16_le v)) 2"

definition add_u32 :: "tlv_encoder \<Rightarrow> bytes \<Rightarrow> u32 \<Rightarrow> bool \<times> tlv_encoder" where
  "add_u32 s key v = write_entry s key VtU32 (Some (write_u32_le v)) 4"

definition add_bool :: "tlv_encoder \<Rightarrow> bytes \<Rightarrow> bool \<Rightarrow> bool \<times> tlv_encoder" where
  "add_bool s key v = write_entry s key VtBool (Some [if v then 1 else 0]) 1"

definition add_bytes :: "tlv_encoder \<Rightarrow> bytes \<Rightarrow> bytes option \<Rightarrow> u8 \<Rightarrow> bool \<times> tlv_encoder" where
  "add_bytes s key value value_len = write_entry s key VtBytes value value_len"

text \<open>The two overloads of \<open>add_utf8\<close>: NUL-terminated, and with an explicit length.\<close>

definition add_utf8_z :: "tlv_encoder \<Rightarrow> bytes \<Rightarrow> bytes option \<Rightarrow> bool \<times> tlv_encoder" where
  "add_utf8_z s key value =
     (case value of
        None \<Rightarrow> write_entry s key VtUtf8 None 0
      | Some v \<Rightarrow> (case c_strlen_u8 v of
          None \<Rightarrow> (False, s)
        | Some n \<Rightarrow> write_entry s key VtUtf8 value (of_nat n)))"

definition add_utf8_n :: "tlv_encoder \<Rightarrow> bytes \<Rightarrow> bytes option \<Rightarrow> u8 \<Rightarrow> bool \<times> tlv_encoder" where
  "add_utf8_n s key value value_len = write_entry s key VtUtf8 value value_len"

section \<open>Decoder\<close>

text \<open>The body of the loop up to the callback: the entry at offset \<open>off\<close> and the offset behind it,
  or \<open>None\<close> where the code returns Malformed.\<close>

definition parse_entry :: "bytes \<Rightarrow> nat \<Rightarrow> (tlv_entry \<times> nat) option" where
  "parse_entry buf off =
     (if off + 1 > length buf then None
      else let key_len = unat (buf ! off); o1 = off + 1 in
      if key_len = 0 then None
      else if o1 + key_len > length buf then None
      else let key = take key_len (drop o1 buf); o2 = o1 + key_len in
      if o2 + 1 > length buf then None
      else let type_byte = buf ! o2; o3 = o2 + 1 in
      if o3 + 1 > length buf then None
      else let value_len = unat (buf ! o3); o4 = o3 + 1 in
      if o4 + value_len > length buf then None
      else Some (\<lparr> te_key = key, te_type = type_byte, te_value = take value_len (drop o4 buf) \<rparr>,
                 o4 + value_len))"

text \<open>The loop over the announced number of entries, with the callback's context.\<close>

fun decode_entries ::
  "nat \<Rightarrow> bytes \<Rightarrow> nat \<Rightarrow> (tlv_entry \<Rightarrow> 'c \<Rightarrow> bool \<times> 'c) \<Rightarrow> 'c \<Rightarrow> DecodeError \<times> 'c" where
  "decode_entries 0 buf off cb ctx = (TlvOk, ctx)"
| "decode_entries (Suc n) buf off cb ctx =
     (case parse_entry buf off of
        None \<Rightarrow> (TlvMalformed, ctx)
      | Some (entry, off') \<Rightarrow>
          (case cb entry ctx of (go, ctx') \<Rightarrow>
             if \<not> go then (TlvCallbackAbort, ctx') else decode_entries n buf off' cb ctx'))"

definition decode_property_bag ::
  "bytes \<Rightarrow> (tlv_entry \<Rightarrow> 'c \<Rightarrow> bool \<times> 'c) option \<Rightarrow> 'c \<Rightarrow> DecodeError \<times> 'c" where
  "decode_property_bag buf cb ctx =
     (if buf = [] then (TlvEmptyBuffer, ctx)
      else case cb of
        None \<Rightarrow> (TlvMalformed, ctx)
      | Some f \<Rightarrow> decode_entries (unat (buf ! 0)) buf 1 f ctx)"

section \<open>The wire form of a bag\<close>

definition entry_wire :: "tlv_entry \<Rightarrow> bytes" where
  "entry_wire e = [of_nat (length (te_key e))] @ te_key e
     @ [te_type e, of_nat (length (te_value e))] @ te_value e"

definition entry_ok :: "tlv_entry \<Rightarrow> bool" where
  "entry_ok e \<longleftrightarrow> te_key e \<noteq> [] \<and> length (te_key e) \<le> 255 \<and> length (te_value e) \<le> 255"

text \<open>The abstract walk: the callback sees the entries in order until it refuses one.\<close>

fun walk_entries :: "tlv_entry list \<Rightarrow> (tlv_entry \<Rightarrow> 'c \<Rightarrow> bool \<times> 'c) \<Rightarrow> 'c \<Rightarrow> DecodeError \<times> 'c" where
  "walk_entries [] cb ctx = (TlvOk, ctx)"
| "walk_entries (e # es) cb ctx =
     (case cb e ctx of (go, ctx') \<Rightarrow> if go then walk_entries es cb ctx' else (TlvCallbackAbort, ctx'))"

lemma unat_len_u8: "n \<le> 255 \<Longrightarrow> unat (of_nat n :: u8) = n"
  by (simp add: unat_of_nat)

lemma parse_entry_wire:
  assumes "entry_ok e" and "length pre = off"
  shows "parse_entry (pre @ entry_wire e @ rest) off = Some (e, off + length (entry_wire e))"
  using assms
  by (simp add: parse_entry_def entry_wire_def entry_ok_def unat_len_u8 nth_append Let_def numeral_3_eq_3)

lemma parse_entry_SomeD:
  assumes "parse_entry buf off = Some (e, off')"
  shows "entry_ok e" and "off' = off + length (entry_wire e)"
    and "drop off buf = entry_wire e @ drop off' buf" and "off' \<le> length buf"
proof -
  let ?k = "unat (buf ! off)"
  let ?o2 = "Suc off + ?k"
  let ?v = "unat (buf ! Suc ?o2)"
  have len: "?o2 + 2 + ?v \<le> length buf" "?k \<noteq> 0"
    and e: "e = \<lparr> te_key = take ?k (drop (Suc off) buf), te_type = buf ! ?o2,
                 te_value = take ?v (drop (Suc (Suc ?o2)) buf) \<rparr>"
    and off': "off' = ?o2 + 2 + ?v"
    using assms by (auto simp: parse_entry_def Let_def not_less split: if_splits)
  have kv: "?k \<le> 255" "?v \<le> 255"
    by simp_all
  have lens: "length (te_key e) = ?k" "length (te_value e) = ?v"
    using e len by simp_all
  show ok: "entry_ok e" using lens len kv by (auto simp: entry_ok_def)
  show "off' = off + length (entry_wire e)" using off' lens by (simp add: entry_wire_def)
  show "off' \<le> length buf" using off' len by simp
  have "drop off buf = buf ! off # drop (Suc off) buf"
    using len by (simp add: Cons_nth_drop_Suc)
  also have "drop (Suc off) buf = te_key e @ drop ?o2 buf"
    using e append_take_drop_id [of ?k "drop (Suc off) buf"] by (simp add: add.commute)
  also have "drop ?o2 buf = te_type e # buf ! Suc ?o2 # drop (Suc (Suc ?o2)) buf"
    using len e by (simp add: Cons_nth_drop_Suc)
  also have "drop (Suc (Suc ?o2)) buf = te_value e @ drop off' buf"
    using e off' append_take_drop_id [of ?v "drop (Suc (Suc ?o2)) buf"] by (simp add: add.commute)
  finally show "drop off buf = entry_wire e @ drop off' buf"
    using lens by (simp add: entry_wire_def)
qed

lemma decode_entries_wire:
  assumes "\<forall>e \<in> set es. entry_ok e" and "length pre = off"
  shows "decode_entries (length es) (pre @ concat (map entry_wire es) @ rest) off cb ctx
    = walk_entries es cb ctx"
  using assms
proof (induction es arbitrary: pre off ctx)
  case Nil
  then show ?case by simp
next
  case (Cons e es)
  have "decode_entries (length es) ((pre @ entry_wire e) @ concat (map entry_wire es) @ rest)
      (off + length (entry_wire e)) cb c = walk_entries es cb c" for c
    using Cons.prems by (intro Cons.IH) auto
  with parse_entry_wire [of e pre off "concat (map entry_wire es) @ rest"] Cons.prems
  show ?case by (simp split: prod.split)
qed

lemma decode_entries_OkD:
  assumes "decode_entries n buf off (\<lambda>e es. (True, es @ [e])) acc = (TlvOk, res)"
    and "off \<le> length buf"
  shows "\<exists>es rest. res = acc @ es \<and> length es = n \<and> (\<forall>e \<in> set es. entry_ok e)
    \<and> drop off buf = concat (map entry_wire es) @ rest"
  using assms
proof (induction n arbitrary: off acc)
  case 0
  then show ?case by simp
next
  case (Suc n)
  then obtain e off' where p: "parse_entry buf off = Some (e, off')"
    and rec: "decode_entries n buf off' (\<lambda>e es. (True, es @ [e])) (acc @ [e]) = (TlvOk, res)"
    by (auto split: option.splits)
  note P = parse_entry_SomeD [OF p]
  from Suc.IH [OF rec P(4)] obtain es rest where "res = (acc @ [e]) @ es" "length es = n"
    "\<forall>e \<in> set es. entry_ok e" "drop off' buf = concat (map entry_wire es) @ rest" by blast
  with P show ?case by (intro exI [of _ "e # es"] exI [of _ rest]) auto
qed

section \<open>What the encoder builds\<close>

text \<open>The state of an encoder that has accepted the entries \<open>es\<close> into a buffer of length \<open>n\<close>.\<close>

definition enc_holds :: "nat \<Rightarrow> tlv_entry list \<Rightarrow> tlv_encoder \<Rightarrow> bool" where
  "enc_holds n es s \<longleftrightarrow> length (en_buf s) = n \<and> length es \<le> 255 \<and> en_count s = of_nat (length es)
     \<and> (\<forall>e \<in> set es. entry_ok e)
     \<and> en_len s = 1 + length (concat (map entry_wire es)) \<and> en_len s \<le> n
     \<and> take (en_len s) (en_buf s) = of_nat (length es) # concat (map entry_wire es)"

lemma enc_holdsD:
  assumes "enc_holds n es s"
  shows "length (en_buf s) = n" "length es \<le> 255" "en_count s = of_nat (length es)"
    "\<forall>e \<in> set es. entry_ok e" "en_len s = 1 + length (concat (map entry_wire es))" "en_len s \<le> n"
    "take (en_len s) (en_buf s) = of_nat (length es) # concat (map entry_wire es)"
  using assms unfolding enc_holds_def by blast+

lemma enc_holds_init: "buf \<noteq> [] \<Longrightarrow> enc_holds (length buf) [] (tlv_encoder_init buf)"
  by (cases buf) (auto simp: enc_holds_def tlv_encoder_init_def)

lemma c_strlen_entry:
  "entry_ok e \<Longrightarrow> 0 \<notin> set (te_key e) \<Longrightarrow> c_strlen_u8 (te_key e) = Some (length (te_key e))"
proof -
  assume "entry_ok e" and "0 \<notin> set (te_key e)"
  moreover from this(2) have "takeWhile (\<lambda>b. b \<noteq> 0) (te_key e) = te_key e"
    by (auto simp: takeWhile_eq_all_conv)
  ultimately show ?thesis
    by (simp add: c_strlen_u8_def entry_ok_def Let_def del: takeWhile_eq_all_conv)
qed

text \<open>Writing an entry appends it; it is refused exactly when it does not fit or the count is full.\<close>

lemma write_entry_holds:
  assumes h: "enc_holds n es s" and e: "entry_ok e" "0 \<notin> set (te_key e)" "te_type e = vt_code t"
    and w: "write_entry s (te_key e) t (Some (te_value e)) (of_nat (length (te_value e))) = (b, s')"
  shows "if length es < 255 \<and> en_len s + length (entry_wire e) \<le> n
     then b \<and> enc_holds n (es @ [e]) s' else \<not> b \<and> s' = s"
proof -
  let ?body = "concat (map entry_wire es)"
  obtain rest where buf: "en_buf s = of_nat (length es) # ?body @ rest"
  proof
    have "en_buf s = take (en_len s) (en_buf s) @ drop (en_len s) (en_buf s)" by simp
    also have "take (en_len s) (en_buf s) = of_nat (length es) # ?body"
      by (rule enc_holdsD [OF h])
    finally show "en_buf s = of_nat (length es) # ?body @ drop (en_len s) (en_buf s)" by simp
  qed
  have n: "length (en_buf s) = n" "length es \<le> 255" "en_len s = 1 + length ?body" "en_len s \<le> n"
    "en_count s = of_nat (length es)"
    using enc_holdsD [OF h] by blast+
  have full: "en_count s = 0xFF \<longleftrightarrow> length es = 255"
    using n(2,5) unat_len_u8 [OF n(2)] by (auto simp: word_unat_eq_iff)
  have kl: "c_strlen_u8 (te_key e) = Some (length (te_key e))" "te_key e \<noteq> []"
    "unat (of_nat (length (te_value e)) :: u8) = length (te_value e)"
    using e c_strlen_entry by (simp_all add: entry_ok_def unat_len_u8)
  have ew: "length (entry_wire e) = 1 + length (te_key e) + 1 + 1 + length (te_value e)"
    by (simp add: entry_wire_def)
  show ?thesis
  proof (cases "length es < 255 \<and> en_len s + length (entry_wire e) \<le> n")
    case False
    then show ?thesis
      using w n full kl ew buf by (auto simp: write_entry_def Let_def split: if_splits)
  next
    case True
    let ?hd = "[of_nat (length (te_key e))] @ te_key e @ [te_type e, of_nat (length (te_value e))]"
    let ?b1 = "poke_at (en_buf s) (en_len s) ?hd"
    let ?b2 = "poke_at ?b1 (en_len s + length ?hd) (te_value e)"
    have "?b1 = (of_nat (length es) # ?body) @ ?hd @ drop (length ?hd) rest"
      using poke_at_append [of "of_nat (length es) # ?body" "en_len s" rest ?hd] buf n by simp
    then have "?b2 = of_nat (length es) # ?body @ entry_wire e
        @ drop (length (te_value e)) (drop (length ?hd) rest)"
      using poke_at_append [of "(of_nat (length es) # ?body) @ ?hd" "en_len s + length ?hd"
          "drop (length ?hd) rest" "te_value e"] n
      by (simp add: entry_wire_def)
    moreover have "b" and "s' = \<lparr> en_buf = ?b2[0 := en_count s + 1],
        en_len = en_len s + length (entry_wire e), en_count = en_count s + 1 \<rparr>"
      using w True n full kl ew e(3) buf by (auto simp: write_entry_def Let_def split: if_splits)
    moreover have "length ?b2 = n" using True n ew by simp
    ultimately show ?thesis
      using True h e(1) n by (auto simp: enc_holds_def)
  qed
qed

text \<open>A bag built by a sequence of accepted writes; \<open>None\<close> when one is refused.\<close>

fun put_all :: "tlv_encoder \<Rightarrow> (bytes \<times> ValueType \<times> bytes) list \<Rightarrow> tlv_encoder option" where
  "put_all s [] = Some s"
| "put_all s ((k, t, v) # es) =
     (case write_entry s k t (Some v) (of_nat (length v)) of
        (b, s') \<Rightarrow> if b then put_all s' es else None)"

definition entry_of :: "bytes \<times> ValueType \<times> bytes \<Rightarrow> tlv_entry" where
  "entry_of x = (case x of (k, t, v) \<Rightarrow> \<lparr> te_key = k, te_type = vt_code t, te_value = v \<rparr>)"

definition key_ok :: "bytes \<times> ValueType \<times> bytes \<Rightarrow> bool" where
  "key_ok x \<longleftrightarrow> entry_ok (entry_of x) \<and> 0 \<notin> set (fst x)"

lemma put_all_holds:
  assumes "enc_holds n es s" and "\<forall>x \<in> set xs. key_ok x" and "put_all s xs = Some s'"
  shows "enc_holds n (es @ map entry_of xs) s'"
  using assms
proof (induction xs arbitrary: es s)
  case Nil
  then show ?case by simp
next
  case (Cons x xs)
  obtain k t v where x: "x = (k, t, v)" by (cases x) auto
  obtain s1 where w: "write_entry s k t (Some v) (of_nat (length v)) = (True, s1)"
    and rec: "put_all s1 xs = Some s'"
    using Cons.prems(3) x by (auto split: prod.splits if_splits)
  have e: "entry_ok (entry_of x)" "0 \<notin> set (te_key (entry_of x))" "te_type (entry_of x) = vt_code t"
    "write_entry s (te_key (entry_of x)) t (Some (te_value (entry_of x)))
       (of_nat (length (te_value (entry_of x)))) = (True, s1)"
    using Cons.prems(2) w x by (simp_all add: key_ok_def entry_of_def)
  from write_entry_holds [OF Cons.prems(1) e] have "enc_holds n (es @ [entry_of x]) s1"
    by (metis (full_types))
  from Cons.IH [OF this _ rec] Cons.prems(2) show ?case by simp
qed

section \<open>Properties\<close>

text \<open>A bag built by the encoder is read back exactly. If a sequence of entries (non-empty NUL-free
  keys, values of at most 255 bytes) is accepted into a buffer, then decoding the bytes the encoder
  reports, with any bytes behind them, calls the callback on exactly those entries in order, until
  the callback refuses one.\<close>

theorem tlv_roundtrip:
  assumes "buf \<noteq> []" and "\<forall>x \<in> set xs. key_ok x"
    and "put_all (tlv_encoder_init buf) xs = Some s"
  shows "decode_property_bag (take (en_len s) (en_buf s) @ rest) (Some cb) ctx
    = walk_entries (map entry_of xs) cb ctx"
proof -
  have h: "enc_holds (length buf) (map entry_of xs) s"
    using put_all_holds [OF enc_holds_init [OF assms(1)] assms(2,3)] by simp
  then have t: "take (en_len s) (en_buf s)
      = of_nat (length (map entry_of xs)) # concat (map entry_wire (map entry_of xs))"
    and ok: "\<forall>e \<in> set (map entry_of xs). entry_ok e" and len: "length (map entry_of xs) \<le> 255"
    by (rule enc_holdsD)+
  show ?thesis
    using decode_entries_wire [OF ok, of "[of_nat (length (map entry_of xs))]" 1 rest cb ctx]
      unat_len_u8 [OF len]
    by (simp add: decode_property_bag_def t)
qed

theorem tlv_roundtrip_witness:
  "decode_property_bag
     (take 16 (en_buf (the (put_all (tlv_encoder_init (replicate 40 0xAA))
        [([103, 114], VtU8, [7]), ([105, 100], VtU32, [1, 2, 3, 4])])))
      @ [0xFF]) (Some (\<lambda>e es. (True, es @ [e]))) []
   = (TlvOk, [\<lparr> te_key = [103, 114], te_type = 0, te_value = [7] \<rparr>,
              \<lparr> te_key = [105, 100], te_type = 2, te_value = [1, 2, 3, 4] \<rparr>])"
proof -
  let ?xs = "[([103, 114], VtU8, [7]), ([105, 100], VtU32, [1, 2, 3, 4])]"
  have "case put_all (tlv_encoder_init (replicate 40 0xAA)) ?xs of
      None \<Rightarrow> False | Some s \<Rightarrow> en_len s = 16" by code_simp
  then obtain s where s: "put_all (tlv_encoder_init (replicate 40 0xAA)) ?xs = Some s" "en_len s = 16"
    by (auto split: option.splits)
  have "\<forall>x \<in> set ?xs. key_ok x" by (simp add: key_ok_def entry_ok_def entry_of_def)
  from tlv_roundtrip [OF _ this s(1), of "[0xFF]" "\<lambda>e es. (True, es @ [e])" "[]"] s(2)
  show ?thesis unfolding s(1) by (simp add: entry_of_def)
qed

text \<open>The decoder accepts nothing else. For arbitrary bytes off the wire, a clean walk means that
  the buffer starts with the entry count and, back to back, the wire form of exactly the entries that
  were handed out, each with a non-empty key; so no key or value reaches outside the buffer.\<close>

theorem tlv_decode_sound:
  assumes "decode_property_bag buf (Some (\<lambda>e es. (True, es @ [e]))) [] = (TlvOk, es)"
  shows "\<exists>rest. buf = of_nat (length es) # concat (map entry_wire es) @ rest
    \<and> (\<forall>e \<in> set es. entry_ok e)"
proof -
  have ne: "buf \<noteq> []" and d: "decode_entries (unat (buf ! 0)) buf 1 (\<lambda>e es. (True, es @ [e])) [] = (TlvOk, es)"
    using assms by (auto simp: decode_property_bag_def split: if_splits)
  from decode_entries_OkD [OF d] ne obtain rest where
    "length es = unat (buf ! 0)" "\<forall>e \<in> set es. entry_ok e"
    "drop 1 buf = concat (map entry_wire es) @ rest" by (auto simp: Suc_le_eq)
  moreover have "buf = buf ! 0 # drop 1 buf" using ne by (cases buf) simp_all
  moreover have "of_nat (unat (buf ! 0)) = buf ! 0" by simp
  ultimately show ?thesis by (metis append_Cons)
qed

theorem tlv_decode_sound_witness:
  "\<exists>rest. [1, 2, 103, 114, 0, 1, 7, 9] = of_nat (length [\<lparr> te_key = [103, 114], te_type = 0, te_value = [7] \<rparr>])
     # concat (map entry_wire [\<lparr> te_key = [103, 114], te_type = 0, te_value = [7] \<rparr>]) @ rest"
  using tlv_decode_sound [of "[1, 2, 103, 114, 0, 1, 7, 9]"
      "[\<lparr> te_key = [103, 114], te_type = 0, te_value = [7] \<rparr>]"]
  by (simp add: decode_property_bag_def parse_entry_def Let_def)

end
