(* ===== verification/Crypto.thy ===== *)
theory Crypto
  imports Noct_Prelude
begin

text \<open>
  The truncated HMAC-SHA256 of the configuration channel, from
  \<open>src/crypto/hmac_sha256.cpp\<close>: SHA-256 over a one-shot message with its tail buffer, the HMAC
  construction with its bounded stack buffer, and the eight-byte sign and verify entry points. The
  code's SHA-256 is proved equal to the padding scheme of FIPS 180-4; the locale \<open>mac_scheme\<close> is
  what the configuration channel uses of the whole.
\<close>

section \<open>SHA-256\<close>

definition kK :: "u32 list" where
  "kK = concat [
    [0x428a2f98, 0x71374491, 0xb5c0fbcf, 0xe9b5dba5], [0x3956c25b, 0x59f111f1, 0x923f82a4, 0xab1c5ed5],
    [0xd807aa98, 0x12835b01, 0x243185be, 0x550c7dc3], [0x72be5d74, 0x80deb1fe, 0x9bdc06a7, 0xc19bf174],
    [0xe49b69c1, 0xefbe4786, 0x0fc19dc6, 0x240ca1cc], [0x2de92c6f, 0x4a7484aa, 0x5cb0a9dc, 0x76f988da],
    [0x983e5152, 0xa831c66d, 0xb00327c8, 0xbf597fc7], [0xc6e00bf3, 0xd5a79147, 0x06ca6351, 0x14292967],
    [0x27b70a85, 0x2e1b2138, 0x4d2c6dfc, 0x53380d13], [0x650a7354, 0x766a0abb, 0x81c2c92e, 0x92722c85],
    [0xa2bfe8a1, 0xa81a664b, 0xc24b8b70, 0xc76c51a3], [0xd192e819, 0xd6990624, 0xf40e3585, 0x106aa070],
    [0x19a4c116, 0x1e376c08, 0x2748774c, 0x34b0bcb5], [0x391c0cb3, 0x4ed8aa4a, 0x5b9cca4f, 0x682e6ff3],
    [0x748f82ee, 0x78a5636f, 0x84c87814, 0x8cc70208], [0x90befffa, 0xa4506ceb, 0xbef9a3f7, 0xc67178f2]]"

definition rotr :: "u32 \<Rightarrow> nat \<Rightarrow> u32" where
  "rotr x n = drop_bit n x OR push_bit (32 - n) x"

definition sha_ch :: "u32 \<Rightarrow> u32 \<Rightarrow> u32 \<Rightarrow> u32" where
  "sha_ch x y z = (x AND y) XOR (NOT x AND z)"

definition sha_maj :: "u32 \<Rightarrow> u32 \<Rightarrow> u32 \<Rightarrow> u32" where
  "sha_maj x y z = (x AND y) XOR (x AND z) XOR (y AND z)"

definition big_sigma0 :: "u32 \<Rightarrow> u32" where
  "big_sigma0 x = rotr x 2 XOR rotr x 13 XOR rotr x 22"

definition big_sigma1 :: "u32 \<Rightarrow> u32" where
  "big_sigma1 x = rotr x 6 XOR rotr x 11 XOR rotr x 25"

definition sml_sigma0 :: "u32 \<Rightarrow> u32" where
  "sml_sigma0 x = rotr x 7 XOR rotr x 18 XOR drop_bit 3 x"

definition sml_sigma1 :: "u32 \<Rightarrow> u32" where
  "sml_sigma1 x = rotr x 17 XOR rotr x 19 XOR drop_bit 10 x"

text \<open>The message schedule \<open>W[0..63]\<close>: sixteen big-endian words of the block, then the recurrence.\<close>

definition sha_w16 :: "bytes \<Rightarrow> u32 list" where
  "sha_w16 block = map (\<lambda>t. push_bit 24 (ucast (block ! (t * 4)))
      OR push_bit 16 (ucast (block ! (t * 4 + 1)))
      OR push_bit 8 (ucast (block ! (t * 4 + 2)))
      OR ucast (block ! (t * 4 + 3))) [0..<16]"

definition sha_extend :: "u32 list \<Rightarrow> u32 list" where
  "sha_extend W = (let t = length W in
     W @ [sml_sigma1 (W ! (t - 2)) + W ! (t - 7) + sml_sigma0 (W ! (t - 15)) + W ! (t - 16)])"

definition sha_schedule :: "bytes \<Rightarrow> u32 list" where
  "sha_schedule block = (sha_extend ^^ 48) (sha_w16 block)"

text \<open>The eight working variables, and one round with round constant \<open>k\<close> and schedule word \<open>w\<close>.\<close>

type_synonym sha_vars = "u32 \<times> u32 \<times> u32 \<times> u32 \<times> u32 \<times> u32 \<times> u32 \<times> u32"

fun sha_round :: "sha_vars \<Rightarrow> u32 \<times> u32 \<Rightarrow> sha_vars" where
  "sha_round (a, b, c, d, e, f, g, h) (k, w) =
     (let T1 = h + big_sigma1 e + sha_ch e f g + k + w;
          T2 = big_sigma0 a + sha_maj a b c
      in (T1 + T2, a, b, c, d + T1, e, f, g))"

fun sha_add :: "sha_vars \<Rightarrow> sha_vars \<Rightarrow> sha_vars" where
  "sha_add (a, b, c, d, e, f, g, h) (a', b', c', d', e', f', g', h') =
     (a + a', b + b', c + c', d + d', e + e', f + f', g + g', h + h')"

definition sha256_compress_block :: "sha_vars \<Rightarrow> bytes \<Rightarrow> sha_vars" where
  "sha256_compress_block H block = sha_add H (foldl sha_round H (zip kK (sha_schedule block)))"

definition sha_H0 :: sha_vars where
  "sha_H0 = (0x6a09e667, 0xbb67ae85, 0x3c6ef372, 0xa54ff53a,
             0x510e527f, 0x9b05688c, 0x1f83d9ab, 0x5be0cd19)"

text \<open>The loop over whole blocks: the state and the leftover.\<close>

function sha_blocks :: "sha_vars \<Rightarrow> bytes \<Rightarrow> sha_vars \<times> bytes" where
  "sha_blocks H msg =
     (if 64 \<le> length msg then sha_blocks (sha256_compress_block H (take 64 msg)) (drop 64 msg)
      else (H, msg))"
  by pat_completeness auto
termination by (relation "measure (\<lambda>(H, msg). length msg)") auto

declare sha_blocks.simps [simp del]

text \<open>The tail buffer: the leftover, 0x80, zeros and the bit length, big endian, at its end.\<close>

definition be_u64 :: "u64 \<Rightarrow> bytes" where
  "be_u64 v = map (\<lambda>i. ucast (drop_bit (8 * (7 - i)) v)) [0..<8]"

definition sha_tail :: "nat \<Rightarrow> bytes \<Rightarrow> bytes" where
  "sha_tail msg_len rest =
     (let leftover = length rest;
          tail_len = (if leftover < 56 then 64 else 128);
          bit_len = of_nat msg_len * 8 :: u64
      in rest @ [0x80] @ replicate (tail_len - leftover - 9) 0 @ be_u64 bit_len)"

definition word_be :: "u32 \<Rightarrow> bytes" where
  "word_be v = [ucast (drop_bit 24 v), ucast (drop_bit 16 v), ucast (drop_bit 8 v), ucast v]"

fun sha_out :: "sha_vars \<Rightarrow> bytes" where
  "sha_out (a, b, c, d, e, f, g, h) =
     word_be a @ word_be b @ word_be c @ word_be d @ word_be e @ word_be f @ word_be g @ word_be h"

definition sha256 :: "bytes \<Rightarrow> bytes" where
  "sha256 msg =
     (let (H, rest) = sha_blocks sha_H0 msg;
          tl = sha_tail (length msg) rest;
          H1 = sha256_compress_block H (take 64 tl);
          H2 = (if length tl = 128 then sha256_compress_block H1 (drop 64 tl) else H1)
      in sha_out H2)"

section \<open>HMAC\<close>

definition hmac_pad :: "u8 \<Rightarrow> bytes \<Rightarrow> bytes" where
  "hmac_pad x key = map (\<lambda>b. b XOR x) (take 16 key @ replicate 48 0)"

abbreviation kMaxInnerInput :: nat where "kMaxInnerInput \<equiv> 384"

definition hmac_sha256_full :: "bytes \<Rightarrow> bytes \<Rightarrow> bytes" where
  "hmac_sha256_full key msg =
     (if length msg > kMaxInnerInput - 64 then replicate 32 0
      else sha256 (hmac_pad 0x5c key @ sha256 (hmac_pad 0x36 key @ msg)))"

definition hmac_sha256_sign_t8 :: "bytes \<Rightarrow> bytes \<Rightarrow> bytes" where
  "hmac_sha256_sign_t8 key msg = take 8 (hmac_sha256_full key msg)"

text \<open>The constant-time comparison folds the differences of all eight bytes.\<close>

definition hmac_sha256_verify_t8 :: "bytes \<Rightarrow> bytes \<Rightarrow> bytes \<Rightarrow> bool" where
  "hmac_sha256_verify_t8 key msg mac8 =
     (let expected = hmac_sha256_sign_t8 key msg in
      foldl (\<lambda>diff i. diff OR (expected ! i XOR mac8 ! i)) (0 :: u8) [0..<8] = 0)"

section \<open>The padding of FIPS 180-4\<close>

text \<open>The reference: pad the message with 0x80, the least number of zeros that leaves room for the
  length in a whole number of blocks, and the length in bits; then compress the blocks in order.\<close>

definition fips_pad :: "bytes \<Rightarrow> bytes" where
  "fips_pad msg = msg @ [0x80] @ replicate ((119 - length msg mod 64) mod 64) 0
     @ be_u64 (of_nat (length msg) * 8)"

definition fips_sha256 :: "bytes \<Rightarrow> bytes" where
  "fips_sha256 msg = sha_out (fst (sha_blocks sha_H0 (fips_pad msg)))"

lemma length_be_u64 [simp]: "length (be_u64 v) = 8"
  by (simp add: be_u64_def)

lemma length_word_be [simp]: "length (word_be v) = 4"
  by (simp add: word_be_def)

lemma length_sha_out [simp]: "length (sha_out v) = 32"
  by (cases v rule: sha_out.cases) simp

lemma sha_blocks_rest: "snd (sha_blocks H msg) = drop (64 * (length msg div 64)) msg"
proof (induction H msg rule: sha_blocks.induct)
  case (1 H msg)
  show ?case
  proof (cases "64 \<le> length msg")
    case True
    then have "64 * (length msg div 64) = 64 + 64 * ((length msg - 64) div 64)"
      by (metis le_div_geq mult_Suc_right zero_less_numeral)
    with 1 True show ?thesis by (subst sha_blocks.simps) (simp add: add.commute)
  next
    case False
    then show ?thesis by (subst sha_blocks.simps) simp
  qed
qed

text \<open>Appending to a message continues from its leftover.\<close>

lemma sha_blocks_append:
  "sha_blocks H (msg @ xs) = (case sha_blocks H msg of (H', rest) \<Rightarrow> sha_blocks H' (rest @ xs))"
proof (induction H msg rule: sha_blocks.induct)
  case (1 H msg)
  show ?case
  proof (cases "64 \<le> length msg")
    case True
    with 1 show ?thesis
      by (subst sha_blocks.simps [of H msg], subst sha_blocks.simps [of H "msg @ xs"]) simp
  next
    case False
    then show ?thesis by (subst (2) sha_blocks.simps) simp
  qed
qed

lemma sha_blocks_one:
  "length b = 64 \<Longrightarrow> sha_blocks H b = (sha256_compress_block H b, [])"
  by (subst sha_blocks.simps, simp) (subst sha_blocks.simps, simp)

lemma sha_blocks_two:
  "length b = 128 \<Longrightarrow> sha_blocks H b =
     (sha256_compress_block (sha256_compress_block H (take 64 b)) (drop 64 b), [])"
  by (subst sha_blocks.simps) (simp add: sha_blocks_one)

lemma length_sha_tail:
  "length rest < 64 \<Longrightarrow> length (sha_tail n rest) = (if length rest < 56 then 64 else 128)"
  by (simp add: sha_tail_def Let_def)

lemma sha_tail_pad:
  assumes "rest = drop (64 * (length msg div 64)) msg"
  shows "rest @ drop (length msg) (fips_pad msg) = sha_tail (length msg) rest"
proof -
  have r: "length rest = length msg mod 64"
    using assms by (simp add: minus_mult_div_eq_mod)
  have lt: "length msg mod 64 < 64" by simp
  have "(119 - length msg mod 64) mod 64
      = (if length msg mod 64 < 56 then 55 - length msg mod 64 else 119 - length msg mod 64)"
  proof (cases "length msg mod 64 < 56")
    case True
    then have "119 - length msg mod 64 = (55 - length msg mod 64) + 64" by simp
    then have "(119 - length msg mod 64) mod 64 = (55 - length msg mod 64) mod 64"
      by (metis mod_add_self2)
    then show ?thesis using True by simp
  next
    case False
    then show ?thesis using lt by simp
  qed
  then show ?thesis
    using r lt by (simp add: fips_pad_def sha_tail_def Let_def)
qed

text \<open>C37: The one-shot routine with its tail buffer is SHA-256 of the standard: for every message the
  digest is that of the message padded as FIPS 180-4 prescribes and compressed block by block.\<close>

theorem sha256_is_fips: "sha256 msg = fips_sha256 msg"
proof -
  obtain H rest where b: "sha_blocks sha_H0 msg = (H, rest)" by fastforce
  let ?tl = "sha_tail (length msg) rest"
  have rest: "rest = drop (64 * (length msg div 64)) msg"
    using sha_blocks_rest [of sha_H0 msg] b by simp
  have lt: "length rest < 64"
    using rest by (simp add: minus_mult_div_eq_mod)
  have "fips_pad msg = msg @ drop (length msg) (fips_pad msg)" by (simp add: fips_pad_def)
  then have "sha_blocks sha_H0 (fips_pad msg) = sha_blocks H ?tl"
    using sha_blocks_append [of sha_H0 msg "drop (length msg) (fips_pad msg)"] b sha_tail_pad [OF rest]
    by simp
  moreover have "fst (sha_blocks H ?tl) =
      (let H1 = sha256_compress_block H (take 64 ?tl)
       in if length ?tl = 128 then sha256_compress_block H1 (drop 64 ?tl) else H1)"
    using length_sha_tail [OF lt, of "length msg"]
    by (auto simp: sha_blocks_one sha_blocks_two Let_def)
  ultimately show ?thesis
    by (simp add: sha256_def fips_sha256_def b Let_def)
qed

section \<open>Signing and verifying\<close>

lemma length_sha256 [simp]: "length (sha256 msg) = 32"
  by (simp add: sha256_def Let_def split: prod.split)

lemma length_sign [simp]: "length (hmac_sha256_sign_t8 key msg) = 8"
  by (simp add: hmac_sha256_sign_t8_def hmac_sha256_full_def)

lemma fold_or_zero:
  "foldl (\<lambda>diff i. diff OR f i) (d :: u8) xs = 0 \<longleftrightarrow> d = 0 \<and> (\<forall>i \<in> set xs. f i = 0)"
  by (induction xs arbitrary: d) (auto simp: or_eq_0_iff)

lemma xor_zero_iff: "(x :: u8) XOR y = 0 \<longleftrightarrow> y = x"
  by (auto simp: bit_eq_iff bit_xor_iff)

lemma verify_iff:
  assumes "length mac8 = 8"
  shows "hmac_sha256_verify_t8 key msg mac8 \<longleftrightarrow> mac8 = hmac_sha256_sign_t8 key msg"
proof -
  have "hmac_sha256_verify_t8 key msg mac8
      \<longleftrightarrow> (\<forall>i < 8. hmac_sha256_sign_t8 key msg ! i XOR mac8 ! i = 0)"
    by (auto simp: hmac_sha256_verify_t8_def fold_or_zero Let_def)
  also have "\<dots> \<longleftrightarrow> (\<forall>i < 8. mac8 ! i = hmac_sha256_sign_t8 key msg ! i)"
    by (auto simp: xor_zero_iff)
  also have "\<dots> \<longleftrightarrow> mac8 = hmac_sha256_sign_t8 key msg"
    using assms by (simp add: list_eq_iff_nth_eq)
  finally show ?thesis .
qed

text \<open>What the configuration channel uses: a tag of fixed length that only the signed bytes match.\<close>

locale mac_scheme =
  fixes sign :: "'k \<Rightarrow> bytes \<Rightarrow> bytes"
    and verify :: "'k \<Rightarrow> bytes \<Rightarrow> bytes \<Rightarrow> bool"
    and taglen :: nat
  assumes length_tag: "length (sign k m) = taglen"
    and verify_sign: "length t = taglen \<Longrightarrow> verify k m t \<longleftrightarrow> t = sign k m"
begin

lemma sealed_iff:
  assumes "taglen \<le> length f"
  shows "verify k (take (length f - taglen) f) (drop (length f - taglen) f)
    \<longleftrightarrow> (\<exists>m. f = m @ sign k m)"
proof
  assume "verify k (take (length f - taglen) f) (drop (length f - taglen) f)"
  then have "drop (length f - taglen) f = sign k (take (length f - taglen) f)"
    using assms by (simp add: verify_sign)
  then show "\<exists>m. f = m @ sign k m" by (metis append_take_drop_id)
next
  assume "\<exists>m. f = m @ sign k m"
  then obtain m where "f = m @ sign k m" by blast
  then show "verify k (take (length f - taglen) f) (drop (length f - taglen) f)"
    by (simp add: verify_sign length_tag)
qed

lemma seal_opens: "verify k m (sign k m)"
  by (simp add: verify_sign length_tag)

end

interpretation hmac8: mac_scheme hmac_sha256_sign_t8 hmac_sha256_verify_t8 8
  by unfold_locales (simp_all add: verify_iff)

end
