(* ===== verification/Numonce.thy ===== *)
theory Numonce
  imports Noct_Prelude
begin

text \<open>
  The replay guard of the configuration channel: class \<open>NumonceLru\<close> of
  \<open>src/transport/espnow/numonce_lru.h\<close> and \<open>.cpp\<close>, sixteen slots of the last number accepted per
  sender, the least recently used slot evicted for a new sender. The locale \<open>replay_guard\<close> is what
  a receiver relies on: while the senders it hears fit into the guard's capacity, the numbers it
  accepts from each sender strictly increase.
\<close>

section \<open>The contract\<close>

text \<open>A run of checks; the accepted pairs in order, and the final state.\<close>

fun check_all :: "('s \<Rightarrow> 'k \<Rightarrow> u64 \<Rightarrow> bool \<times> 's) \<Rightarrow> 's \<Rightarrow> ('k \<times> u64) list \<Rightarrow> ('k \<times> u64) list \<times> 's" where
  "check_all check s [] = ([], s)"
| "check_all check s ((k, v) # xs) =
     (let (b, s') = check s k v; (acc, s'') = check_all check s' xs
      in (if b then (k, v) # acc else acc, s''))"

locale replay_guard =
  fixes inv :: "'s \<Rightarrow> bool"
    and known :: "'s \<Rightarrow> 'k set"
    and last_seen :: "'s \<Rightarrow> 'k \<Rightarrow> u64"
    and check :: "'s \<Rightarrow> 'k \<Rightarrow> u64 \<Rightarrow> bool \<times> 's"
    and cap :: nat
  assumes inv_check: "inv s \<Longrightarrow> inv (snd (check s k v))"
    and accept: "inv s \<Longrightarrow> check s k v = (True, s') \<Longrightarrow>
      last_seen s' k = v \<and> k \<in> known s' \<and> (k \<in> known s \<longrightarrow> last_seen s k < v)"
    and reject: "inv s \<Longrightarrow> check s k v = (False, s') \<Longrightarrow>
      known s' = known s \<and> last_seen s' = last_seen s"
    and room: "inv s \<Longrightarrow> check s k v = (True, s') \<Longrightarrow> k \<in> known s \<or> card (known s) < cap \<Longrightarrow>
      known s' = insert k (known s) \<and> (\<forall>k'. k' \<noteq> k \<longrightarrow> last_seen s' k' = last_seen s k')"
begin

lemma accepted_increase:
  assumes "inv s" and "check_all check s xs = (acc, s')"
    and "finite K" and "card K \<le> cap" and "known s \<subseteq> K" and "fst ` set xs \<subseteq> K"
  shows "sorted_wrt (<) (map snd (filter (\<lambda>x. fst x = k) acc))
    \<and> (k \<in> known s \<longrightarrow> (\<forall>v. (k, v) \<in> set acc \<longrightarrow> last_seen s k < v))
    \<and> set acc \<subseteq> set xs"
  using assms
proof (induction xs arbitrary: s acc)
  case Nil
  then show ?case by simp
next
  case (Cons x xs)
  obtain j v where x: "x = (j, v)" by (cases x)
  obtain b s1 where st: "check s j v = (b, s1)" by fastforce
  obtain acc1 where run: "check_all check s1 xs = (acc1, s')" and acc: "acc = (if b then (j, v) # acc1 else acc1)"
    using Cons.prems(2) st x by (auto split: prod.splits)
  have inv1: "inv s1" using inv_check [OF Cons.prems(1), of j v] st by simp
  have jK: "j \<in> K" using Cons.prems(6) x by simp
  show ?case
  proof (cases b)
    case False
    with reject [OF Cons.prems(1)] st have same: "known s1 = known s" "last_seen s1 = last_seen s" by auto
    from Cons.IH [OF inv1 run Cons.prems(3,4)] Cons.prems(5,6) same False acc x
    show ?thesis by auto
  next
    case True
    have rm: "j \<in> known s \<or> card (known s) < cap"
    proof (cases "j \<in> known s")
      case False
      with jK Cons.prems(5) have "known s \<subset> K" by blast
      from psubset_card_mono [OF Cons.prems(3) this] Cons.prems(4) show ?thesis by simp
    qed simp
    note A = accept [OF Cons.prems(1), of j v s1] and R = room [OF Cons.prems(1), of j v s1]
    have A': "last_seen s1 j = v" "j \<in> known s1" "j \<in> known s \<longrightarrow> last_seen s j < v"
      using A st True by auto
    have R': "known s1 = insert j (known s)" "\<forall>k'. k' \<noteq> j \<longrightarrow> last_seen s1 k' = last_seen s k'"
      using R st True rm by auto
    have "known s1 \<subseteq> K" using R' jK Cons.prems(5) by auto
    from Cons.IH [OF inv1 run Cons.prems(3,4) this] Cons.prems(6) x
    have IH: "sorted_wrt (<) (map snd (filter (\<lambda>x. fst x = k) acc1))"
      "k \<in> known s1 \<longrightarrow> (\<forall>v. (k, v) \<in> set acc1 \<longrightarrow> last_seen s1 k < v)" "set acc1 \<subseteq> set xs"
      by auto
    show ?thesis
      using IH A' R' acc True x by (cases "k = j") (auto intro: less_trans)
  qed
qed

text \<open>While the keys fit, nobody's record is lost to another key.\<close>

lemma record_kept:
  assumes "inv s" and "k \<in> known s" and "known s \<subseteq> K" and "finite K" and "card K \<le> cap" and "j \<in> K"
    and "check s j v = (b, s')" and "j \<noteq> k \<or> \<not> b"
  shows "inv s' \<and> k \<in> known s' \<and> known s' \<subseteq> K \<and> last_seen s' k = last_seen s k"
proof (cases b)
  case False
  then show ?thesis using reject [OF assms(1), of j v s'] inv_check [OF assms(1), of j v] assms by simp
next
  case True
  have "j \<in> known s \<or> card (known s) < cap"
  proof (cases "j \<in> known s")
    case False
    with assms(3,6) have "known s \<subset> K" by blast
    from psubset_card_mono [OF assms(4) this] assms(5) show ?thesis by simp
  qed simp
  then show ?thesis using room [OF assms(1), of j v s'] inv_check [OF assms(1), of j v] True assms by auto
qed

lemma never_twice:
  assumes "inv s" and "check_all check s xs = (acc, s')"
    and "finite K" and "card K \<le> cap" and "known s \<subseteq> K" and "fst ` set xs \<subseteq> K"
  shows "distinct acc"
proof -
  have one: "distinct (filter (\<lambda>x. fst x = k) acc)" for k
    using accepted_increase [OF assms, of k] by (metis distinct_map strict_sorted_iff)
  then show ?thesis by (rule distinct_by_key)
qed

end

section \<open>The slots\<close>

record numonce_slot =
  ns_source_id :: u16
  ns_last_seen :: u64
  ns_last_accessed :: u32
  ns_valid :: bool

abbreviation kNumonceSlots :: nat where "kNumonceSlots \<equiv> 16"

record numonce_lru =
  nl_slots :: "numonce_slot list"
  nl_tick :: u32

definition numonce_init :: numonce_lru where
  "numonce_init = \<lparr> nl_slots = replicate kNumonceSlots
      \<lparr> ns_source_id = 0, ns_last_seen = 0, ns_last_accessed = 0, ns_valid = False \<rparr>,
     nl_tick = 0 \<rparr>"

definition slot_of :: "u16 \<Rightarrow> numonce_slot list \<Rightarrow> nat option" where
  "slot_of source_id slots = find_idx (\<lambda>s. ns_valid s \<and> ns_source_id s = source_id) slots"

text \<open>The slot a new sender takes: the first free one, else the least recently accessed.\<close>

definition numonce_target :: "numonce_slot list \<Rightarrow> nat" where
  "numonce_target slots =
     (case find_idx (\<lambda>s. \<not> ns_valid s) slots of
        Some i \<Rightarrow> i
      | None \<Rightarrow> oldest_idx ns_last_accessed slots)"

definition check_and_update :: "numonce_lru \<Rightarrow> u16 \<Rightarrow> u64 \<Rightarrow> bool \<times> numonce_lru" where
  "check_and_update s source_id numonce =
     (if numonce = 0 then (False, s)
      else
        let tick = nl_tick s + 1;
            slots = nl_slots s;
            s1 = s\<lparr> nl_tick := tick \<rparr>
        in case slot_of source_id slots of
             Some i \<Rightarrow>
               if numonce \<le> ns_last_seen (slots ! i) then (False, s1)
               else (True, s1\<lparr> nl_slots := slots[i := (slots ! i)\<lparr> ns_last_seen := numonce,
                                                           ns_last_accessed := tick \<rparr>] \<rparr>)
           | None \<Rightarrow>
               let target = numonce_target slots in
               (True, s1\<lparr> nl_slots := slots[target := \<lparr> ns_source_id = source_id,
                           ns_last_seen = numonce, ns_last_accessed = tick, ns_valid = True \<rparr>] \<rparr>))"

definition slots_in_use :: "numonce_lru \<Rightarrow> nat" where
  "slots_in_use s = length (filter ns_valid (nl_slots s))"

definition last_seen_for :: "numonce_lru \<Rightarrow> u16 \<Rightarrow> u64" where
  "last_seen_for s source_id =
     (case slot_of source_id (nl_slots s) of
        Some i \<Rightarrow> ns_last_seen (nl_slots s ! i)
      | None \<Rightarrow> 0)"

section \<open>Invariant\<close>

text \<open>Sixteen slots, at most one per sender.\<close>

definition numonce_inv :: "numonce_lru \<Rightarrow> bool" where
  "numonce_inv s \<longleftrightarrow> length (nl_slots s) = kNumonceSlots
     \<and> (\<forall>i < kNumonceSlots. \<forall>j < kNumonceSlots.
          ns_valid (nl_slots s ! i) \<and> ns_valid (nl_slots s ! j)
          \<and> ns_source_id (nl_slots s ! i) = ns_source_id (nl_slots s ! j) \<longrightarrow> i = j)"

definition known_sources :: "numonce_lru \<Rightarrow> u16 set" where
  "known_sources s = ns_source_id ` {x \<in> set (nl_slots s). ns_valid x}"

lemma numonce_invD:
  "numonce_inv s \<Longrightarrow> length (nl_slots s) = kNumonceSlots"
  "numonce_inv s \<Longrightarrow> i < kNumonceSlots \<Longrightarrow> j < kNumonceSlots \<Longrightarrow> ns_valid (nl_slots s ! i) \<Longrightarrow>
     ns_valid (nl_slots s ! j) \<Longrightarrow> ns_source_id (nl_slots s ! i) = ns_source_id (nl_slots s ! j) \<Longrightarrow> i = j"
  by (auto simp: numonce_inv_def)

lemma known_sources_nth:
  "k \<in> known_sources s \<longleftrightarrow>
     (\<exists>i < length (nl_slots s). ns_valid (nl_slots s ! i) \<and> ns_source_id (nl_slots s ! i) = k)"
  by (auto simp: known_sources_def in_set_conv_nth image_iff)

lemma numonce_init_inv: "numonce_inv numonce_init" "known_sources numonce_init = {}"
  by (auto simp: numonce_inv_def numonce_init_def known_sources_def)

lemma slot_of_SomeD:
  "slot_of k slots = Some i \<Longrightarrow> i < length slots \<and> ns_valid (slots ! i) \<and> ns_source_id (slots ! i) = k"
  unfolding slot_of_def by (drule find_idx_SomeD) simp

lemma slot_of_None: "slot_of k (nl_slots s) = None \<longleftrightarrow> k \<notin> known_sources s"
  by (auto simp: slot_of_def find_idx_None known_sources_def)

lemma slot_of_unique:
  assumes "numonce_inv s" and "i < kNumonceSlots" and "ns_valid (nl_slots s ! i)"
    and "ns_source_id (nl_slots s ! i) = k"
  shows "slot_of k (nl_slots s) = Some i"
  unfolding slot_of_def
  using assms by (intro find_idx_unique) (auto simp: numonce_invD)

lemma last_seen_for_at:
  assumes "numonce_inv s" and "i < kNumonceSlots" and "ns_valid (nl_slots s ! i)"
  shows "last_seen_for s (ns_source_id (nl_slots s ! i)) = ns_last_seen (nl_slots s ! i)"
  using slot_of_unique [OF assms refl] by (simp add: last_seen_for_def)

lemma last_seen_for_unknown: "k \<notin> known_sources s \<Longrightarrow> last_seen_for s k = 0"
  by (simp add: last_seen_for_def slot_of_None [symmetric])

text \<open>Both ways of accepting write one slot: that of the sender, or the target of a sender that has
  none.\<close>

lemma put_slot:
  assumes inv: "numonce_inv s" and i: "i < kNumonceSlots"
    and own: "ns_valid (nl_slots s ! i) \<and> ns_source_id (nl_slots s ! i) = k \<or> k \<notin> known_sources s"
    and x: "ns_valid x" "ns_source_id x = k"
    and s': "nl_slots s' = (nl_slots s)[i := x]"
  shows "numonce_inv s'" and "last_seen_for s' k = ns_last_seen x" and "k \<in> known_sources s'"
    and "ns_valid (nl_slots s ! i) \<longrightarrow> ns_source_id (nl_slots s ! i) = k \<Longrightarrow>
      known_sources s' = insert k (known_sources s)
      \<and> (\<forall>k'. k' \<noteq> k \<longrightarrow> last_seen_for s' k' = last_seen_for s k')"
proof -
  note len = numonce_invD (1) [OF inv]
  have other: "j = i" if "j < kNumonceSlots" "ns_valid (nl_slots s ! j)" "ns_source_id (nl_slots s ! j) = k" for j
    using own that numonce_invD (2) [OF inv i, of j] known_sources_nth [of k s] len by auto
  show inv': "numonce_inv s'"
    unfolding numonce_inv_def s'
    using len i x other numonce_invD (2) [OF inv] by (auto simp: nth_list_update)
  have at: "nl_slots s' ! i = x" using i len s' by simp
  show "last_seen_for s' k = ns_last_seen x"
    using last_seen_for_at [OF inv' i] at x by simp
  show kn: "k \<in> known_sources s'"
    using known_sources_nth [of k s'] s' at i len x by auto
  assume keep: "ns_valid (nl_slots s ! i) \<longrightarrow> ns_source_id (nl_slots s ! i) = k"
  have known: "known_sources s' = insert k (known_sources s)"
  proof (intro set_eqI iffI)
    fix j assume "j \<in> known_sources s'"
    then obtain a where "a < kNumonceSlots" "ns_valid (nl_slots s' ! a)" "ns_source_id (nl_slots s' ! a) = j"
      using known_sources_nth len s' by auto
    then show "j \<in> insert k (known_sources s)"
      using s' len x by (cases "a = i") (auto simp: known_sources_nth)
  next
    fix j assume "j \<in> insert k (known_sources s)"
    then show "j \<in> known_sources s'"
      using s' len i x keep kn
      by (cases "j = k") (auto simp: known_sources_nth nth_list_update)
  qed
  have "last_seen_for s' k' = last_seen_for s k'" if ne: "k' \<noteq> k" for k'
  proof (cases "k' \<in> known_sources s")
    case True
    then obtain j where j: "j < kNumonceSlots" "ns_valid (nl_slots s ! j)" "ns_source_id (nl_slots s ! j) = k'"
      using known_sources_nth len by auto
    with keep ne have "j \<noteq> i" by auto
    with j s' len have "nl_slots s' ! j = nl_slots s ! j" by simp
    with last_seen_for_at [OF inv j(1,2)] last_seen_for_at [OF inv' j(1)] j show ?thesis by auto
  next
    case False
    with known ne last_seen_for_unknown show ?thesis by auto
  qed
  with known show "known_sources s' = insert k (known_sources s)
      \<and> (\<forall>k'. k' \<noteq> k \<longrightarrow> last_seen_for s' k' = last_seen_for s k')" by blast
qed

lemma numonce_target_less: "length slots = kNumonceSlots \<Longrightarrow> numonce_target slots < kNumonceSlots"
  using find_idx_lessD [of _ slots] oldest_idx_less [of slots ns_last_accessed]
  by (cases "slots = []") (auto simp: numonce_target_def split: option.splits)

text \<open>While there is room, the target is a free slot.\<close>

lemma numonce_target_free:
  assumes "numonce_inv s" and "card (known_sources s) < kNumonceSlots"
  shows "\<not> ns_valid (nl_slots s ! numonce_target (nl_slots s))"
proof (cases "find_idx (\<lambda>x. \<not> ns_valid x) (nl_slots s)")
  case None
  then have all: "\<forall>i < kNumonceSlots. ns_valid (nl_slots s ! i)"
    using find_idx_None [of "\<lambda>x. \<not> ns_valid x" "nl_slots s"] numonce_invD (1) [OF assms(1)]
      nth_mem by fastforce
  then have "known_sources s = (\<lambda>i. ns_source_id (nl_slots s ! i)) ` {..<kNumonceSlots}"
    using known_sources_nth [of _ s] numonce_invD (1) [OF assms(1)] by auto
  moreover have "inj_on (\<lambda>i. ns_source_id (nl_slots s ! i)) {..<kNumonceSlots}"
    using numonce_invD (2) [OF assms(1)] all by (intro inj_onI) auto
  ultimately have "card (known_sources s) = kNumonceSlots" by (simp add: card_image)
  with assms(2) show ?thesis by simp
next
  case (Some i)
  then show ?thesis using find_idx_nthD [OF Some] by (simp add: numonce_target_def)
qed

text \<open>Eviction takes the slot accessed longest ago.\<close>

lemma numonce_target_oldest:
  assumes "numonce_inv s" and "\<forall>i < kNumonceSlots. ns_valid (nl_slots s ! i)" and "j < kNumonceSlots"
  shows "ns_last_accessed (nl_slots s ! numonce_target (nl_slots s)) \<le> ns_last_accessed (nl_slots s ! j)"
proof -
  have "find_idx (\<lambda>x. \<not> ns_valid x) (nl_slots s) = None"
    using assms(2) numonce_invD (1) [OF assms(1)] by (auto simp: find_idx_None in_set_conv_nth)
  then show ?thesis
    using oldest_idx_least [of j "nl_slots s" ns_last_accessed] assms(3) numonce_invD (1) [OF assms(1)]
    by (simp add: numonce_target_def)
qed

section \<open>The contract holds\<close>

lemma check_and_update_cases:
  assumes "numonce_inv s" and "check_and_update s k v = (b, s')"
  obtains (rejected) "\<not> b" and "nl_slots s' = nl_slots s"
      and "v = 0 \<or> k \<in> known_sources s \<and> v \<le> last_seen_for s k"
  | (updated) i x where "b" and "i < kNumonceSlots" and "v \<noteq> 0"
      and "ns_valid (nl_slots s ! i)" and "ns_source_id (nl_slots s ! i) = k"
      and "last_seen_for s k < v" and "k \<in> known_sources s"
      and "ns_valid x" and "ns_source_id x = k" and "ns_last_seen x = v"
      and "nl_slots s' = (nl_slots s)[i := x]"
  | (inserted) x where "b" and "v \<noteq> 0" and "k \<notin> known_sources s"
      and "ns_valid x" and "ns_source_id x = k" and "ns_last_seen x = v"
      and "nl_slots s' = (nl_slots s)[numonce_target (nl_slots s) := x]"
proof (cases "slot_of k (nl_slots s)")
  case None
  with slot_of_None have "k \<notin> known_sources s" by blast
  then show thesis
    using assms None rejected inserted [of "\<lparr> ns_source_id = k, ns_last_seen = v,
        ns_last_accessed = nl_tick s + 1, ns_valid = True \<rparr>"]
    by (auto simp: check_and_update_def Let_def split: if_splits)
next
  case (Some i)
  have kn: "k \<in> known_sources s" using Some slot_of_None [of k s] by force
  have ls: "last_seen_for s k = ns_last_seen (nl_slots s ! i)" by (simp add: last_seen_for_def Some)
  show thesis
    using assms Some rejected slot_of_SomeD [OF Some] updated [of i "(nl_slots s ! i)
        \<lparr> ns_last_seen := v, ns_last_accessed := nl_tick s + 1 \<rparr>"] numonce_invD (1) [OF assms(1)] kn ls
    by (auto simp: check_and_update_def Let_def not_le split: if_splits)
qed

interpretation numonce: replay_guard numonce_inv known_sources last_seen_for check_and_update
  kNumonceSlots
proof unfold_locales
  fix s :: numonce_lru and k v
  assume inv: "numonce_inv s"
  note len = numonce_invD (1) [OF inv]
  obtain b s1 where st: "check_and_update s k v = (b, s1)" by fastforce
  from inv st have "numonce_inv s1"
  proof (cases rule: check_and_update_cases)
    case rejected
    with inv show ?thesis by (simp add: numonce_inv_def)
  next
    case (updated i x)
    with put_slot (1) [OF inv, of i k x s1] show ?thesis by blast
  next
    case (inserted x)
    with put_slot (1) [OF inv numonce_target_less [OF len], of k x s1] show ?thesis by blast
  qed
  with st show "numonce_inv (snd (check_and_update s k v))" by simp
next
  fix s s' :: numonce_lru and k v
  assume inv: "numonce_inv s" and st: "check_and_update s k v = (True, s')"
  note len = numonce_invD (1) [OF inv]
  from inv st show "last_seen_for s' k = v \<and> k \<in> known_sources s'
      \<and> (k \<in> known_sources s \<longrightarrow> last_seen_for s k < v)"
  proof (cases rule: check_and_update_cases)
    case (updated i x)
    with put_slot (2,3) [OF inv, of i k x s'] show ?thesis by auto
  next
    case (inserted x)
    with put_slot (2,3) [OF inv numonce_target_less [OF len], of k x s'] show ?thesis by auto
  qed simp
  assume room: "k \<in> known_sources s \<or> card (known_sources s) < kNumonceSlots"
  from inv st show "known_sources s' = insert k (known_sources s)
      \<and> (\<forall>k'. k' \<noteq> k \<longrightarrow> last_seen_for s' k' = last_seen_for s k')"
  proof (cases rule: check_and_update_cases)
    case (updated i x)
    with put_slot (4) [OF inv, of i k x s'] show ?thesis by blast
  next
    case (inserted x)
    with room numonce_target_free [OF inv]
      put_slot (4) [OF inv numonce_target_less [OF len], of k x s'] show ?thesis by blast
  qed simp
next
  fix s s' :: numonce_lru and k v
  assume inv: "numonce_inv s" and st: "check_and_update s k v = (False, s')"
  from inv st have "nl_slots s' = nl_slots s"
    by (cases rule: check_and_update_cases) simp_all
  then show "known_sources s' = known_sources s \<and> last_seen_for s' = last_seen_for s"
    by (simp add: known_sources_def last_seen_for_def fun_eq_iff split: option.split)
qed

section \<open>Properties\<close>

text \<open>C31: No replay while the senders fit. Fed any sequence of (sender, number) pairs from at most
  sixteen different senders, a fresh guard accepts, for each sender, a strictly increasing sequence of
  numbers; so no pair is ever accepted twice.\<close>

theorem numonce_no_replay:
  assumes "check_all check_and_update numonce_init xs = (acc, s')"
    and "card (fst ` set xs) \<le> kNumonceSlots"
  shows "sorted_wrt (<) (map snd (filter (\<lambda>x. fst x = k) acc)) \<and> distinct acc \<and> set acc \<subseteq> set xs"
  using numonce.accepted_increase [OF numonce_init_inv (1) assms(1), of "fst ` set xs" k]
    numonce.never_twice [OF numonce_init_inv (1) assms(1), of "fst ` set xs"] assms(2)
    numonce_init_inv (2)
  by simp

theorem numonce_no_replay_witness:
  "sorted_wrt (<) (map snd (filter (\<lambda>x. fst x = 3)
     (fst (check_all check_and_update numonce_init [(3, 10), (4, 1), (3, 10), (3, 12)]))))"
proof -
  let ?xs = "[(3, 10), (4, 1), (3, 10), (3, 12)] :: (u16 \<times> u64) list"
  have "card (fst ` set ?xs) \<le> kNumonceSlots" by (simp add: card_insert_if)
  from numonce_no_replay [OF prod.collapse [symmetric] this, of 3] show ?thesis by blast
qed

text \<open>The capacity is a real bound. With seventeen senders the guard forgets: after one command
  from each of senders 1 to 17, the first command of sender 1 is accepted a second time, because its
  slot was the one evicted.\<close>

theorem numonce_replay_after_eviction:
  "fst (check_all check_and_update numonce_init
       (map (\<lambda>k. (of_nat k, 5)) [1..<18] @ [(1, 5)]))
     = map (\<lambda>k. (of_nat k, 5)) [1..<18] @ [(1, 5)]"
  by code_simp

end
