(* ===== verification/ConfigChannel.thy ===== *)
theory ConfigChannel
  imports Frames Tlv Crypto Numonce
begin

text \<open>
  The authenticated configuration channel: the sender \<open>build_signed_config_write\<close> and the ring of
  received acknowledgements (\<open>src/ble/config_tx.cpp\<close>), and the receiver \<open>process_config_write\<close>
  (\<open>src/ble/config_rx.cpp\<close>), over the frame codec, the replay guard, the truncated HMAC and the
  property-bag decoder. The callback that applies an entry is an argument, as in the code; its
  context is threaded through the walk.
\<close>

section \<open>Eight-byte numbers\<close>

definition write_u64_le :: "u64 \<Rightarrow> bytes" where
  "write_u64_le v = map (\<lambda>i. ucast (drop_bit (i * 8) v AND 0xFF)) [0..<8]"

definition read_u64_le :: "bytes \<Rightarrow> u64" where
  "read_u64_le src = foldl (\<lambda>v i. push_bit 8 v OR ucast (src ! i)) 0 [7, 6, 5, 4, 3, 2, 1, 0]"

lemma length_write_u64_le [simp]: "length (write_u64_le v) = 8"
  by (simp add: write_u64_le_def)

lemma join_byte:
  "push_bit 8 (drop_bit (k + 8) v) OR ucast (ucast (drop_bit k v) :: u8) = drop_bit k (v :: u64)"
  by (rule bit_word_eqI) (auto simp: bit_simps)

lemma read_write_u64_le [simp]: "read_u64_le (write_u64_le v) = v"
proof -
  have top: "(0 :: u64) = drop_bit (56 + 8) v" by (rule bit_word_eqI) (auto simp: bit_simps dest: bit_imp_le_length)
  have "write_u64_le v ! i = ucast (drop_bit (i * 8) v)" if "i < 8" for i
    using that by (simp add: write_u64_le_def low_byte)
  then show ?thesis
    using join_byte [of 56 v] join_byte [of 48 v] join_byte [of 40 v] join_byte [of 32 v]
      join_byte [of 24 v] join_byte [of 16 v] join_byte [of 8 v] join_byte [of 0 v] top
    by (simp add: read_u64_le_def)
qed

section \<open>Receiver\<close>

datatype ConfigRxResult = Accepted | BadTarget | Replay | BadHmac | MalformedFrame | MalformedBag

record config_rx_detail =
  rd_result :: ConfigRxResult
  rd_numonce :: u64
  rd_applied_keys :: u8
  rd_config_write_status :: u8

definition rx_detail :: "ConfigRxResult \<Rightarrow> config_rx_detail" where
  "rx_detail r = \<lparr> rd_result = r, rd_numonce = 0, rd_applied_keys = 0, rd_config_write_status = 0 \<rparr>"

text \<open>The value-initialised out-parameters.\<close>

definition zero_header :: header where
  "zero_header = \<lparr> h_protocol_version = 0, h_source_id = 0, h_sequence_number = 0, h_hop_count = 0,
     h_message_type = Heartbeat, h_payload_len = 0 \<rparr>"

definition zero_config_write :: config_write_payload where
  "zero_config_write = \<lparr> cw_target_uid = 0, cw_numonce = replicate 8 0, cw_bag_len = 0,
     cw_bag_tlv = replicate 220 0, cw_hmac = replicate 8 0 \<rparr>"

text \<open>The callback wrapped with the saturating counter of walked entries; a null callback accepts.\<close>

definition counting_cb ::
  "(tlv_entry \<Rightarrow> 'c \<Rightarrow> bool \<times> 'c) option \<Rightarrow> tlv_entry \<Rightarrow> 'c \<times> u8 \<Rightarrow> bool \<times> 'c \<times> u8" where
  "counting_cb user_fn e wc =
     (case wc of (user_ctx, walked) \<Rightarrow>
        let walked = (if walked < 0xFF then walked + 1 else walked) in
        case user_fn of
          None \<Rightarrow> (True, user_ctx, walked)
        | Some f \<Rightarrow> (case f e user_ctx of (go, ctx') \<Rightarrow> (go, ctx', walked)))"

definition process_config_write ::
  "bytes \<Rightarrow> u32 \<Rightarrow> bytes \<Rightarrow> (tlv_entry \<Rightarrow> 'c \<Rightarrow> bool \<times> 'c) option \<Rightarrow> numonce_lru \<Rightarrow> 'c \<Rightarrow>
     config_rx_detail \<times> numonce_lru \<times> 'c" where
  "process_config_write frame self_uid self_secret apply_fn numonces apply_ctx =
     (case decode_header frame zero_header of (r, hdr) \<Rightarrow>
      if r \<noteq> Ok then (rx_detail MalformedFrame, numonces, apply_ctx)
      else if h_message_type hdr \<noteq> ConfigWrite then (rx_detail MalformedFrame, numonces, apply_ctx)
      else
      (case decode_config_write hdr (take (unat (h_payload_len hdr)) (drop kHeaderSize frame))
              zero_config_write of (r, cw) \<Rightarrow>
      if r \<noteq> Ok then (rx_detail MalformedFrame, numonces, apply_ctx)
      else if cw_target_uid cw \<noteq> self_uid then (rx_detail BadTarget, numonces, apply_ctx)
      else let incoming = read_u64_le (cw_numonce cw) in
      (case check_and_update numonces (h_source_id hdr) incoming of (fresh, numonces) \<Rightarrow>
      if \<not> fresh then (rx_detail Replay, numonces, apply_ctx)
      else if length frame < kConfigWriteHmacLen then (rx_detail BadHmac, numonces, apply_ctx)
      else let signed_len = length frame - kConfigWriteHmacLen in
      if \<not> hmac_sha256_verify_t8 self_secret (take signed_len frame) (cw_hmac cw)
      then (rx_detail BadHmac, numonces, apply_ctx)
      else
      (case decode_property_bag (take (unat (cw_bag_len cw)) (cw_bag_tlv cw))
              (Some (counting_cb apply_fn)) (apply_ctx, 0) of (err, ctx', walked) \<Rightarrow>
      if err \<noteq> TlvOk then (rx_detail MalformedBag, numonces, ctx')
      else (\<lparr> rd_result = Accepted, rd_numonce = incoming, rd_applied_keys = walked,
              rd_config_write_status = 0 \<rparr>, numonces, ctx')))))"

section \<open>Sender\<close>

definition build_signed_config_write ::
  "bytes \<Rightarrow> u16 \<Rightarrow> u32 \<Rightarrow> bytes \<Rightarrow> bytes option \<Rightarrow> u8 \<Rightarrow> u64 \<Rightarrow> nat \<times> bytes" where
  "build_signed_config_write out_buf self_source_id target_uid target_secret bag_tlv bag_len numonce =
     (if out_buf = [] then (0, out_buf)
      else if bag_len > kConfigWriteMaxBagLen then (0, out_buf)
      else
        let p = \<lparr> cw_target_uid = target_uid,
                  cw_numonce = write_u64_le numonce,
                  cw_bag_len = bag_len,
                  cw_bag_tlv = (case bag_tlv of
                      Some bag \<Rightarrow> copy_into (replicate 220 0) (take (unat bag_len) bag)
                    | None \<Rightarrow> replicate 220 0),
                  cw_hmac = replicate 8 0 \<rparr>;
            hdr = zero_header\<lparr> h_source_id := self_source_id, h_sequence_number := 1,
                               h_hop_count := 0 \<rparr>;
            (total, buf1) = encode_config_write out_buf hdr p
        in if total = 0 then (0, buf1)
           else let signed_len = total - kConfigWriteHmacLen;
                    mac = hmac_sha256_sign_t8 target_secret (take signed_len buf1)
                in (total, poke_at buf1 signed_len mac))"

section \<open>What the sender builds\<close>

lemma zero_config_write_shape: "config_write_shape zero_config_write"
  by (simp add: config_write_shape_def zero_config_write_def)

text \<open>The encoded frame before signing, and its split into the signed part and the tag.\<close>

definition tx_payload :: "u32 \<Rightarrow> bytes option \<Rightarrow> u8 \<Rightarrow> u64 \<Rightarrow> bytes \<Rightarrow> config_write_payload" where
  "tx_payload uid bag_tlv bag_len numonce mac =
     \<lparr> cw_target_uid = uid, cw_numonce = write_u64_le numonce, cw_bag_len = bag_len,
       cw_bag_tlv = (case bag_tlv of
           Some bag \<Rightarrow> copy_into (replicate 220 0) (take (unat bag_len) bag)
         | None \<Rightarrow> replicate 220 0),
       cw_hmac = mac \<rparr>"

lemma tx_payload_shape:
  "bag_len \<le> kConfigWriteMaxBagLen \<Longrightarrow> length mac = 8 \<Longrightarrow>
     config_write_shape (tx_payload uid bag_tlv bag_len numonce mac)"
  by (auto simp: config_write_shape_def tx_payload_def word_le_nat_alt min_def split: option.split)

lemma tx_bag_len:
  "bag_len \<le> kConfigWriteMaxBagLen \<Longrightarrow>
     config_write_bag_len (tx_payload uid bag_tlv bag_len numonce mac) = bag_len"
  by (auto simp: config_write_bag_len_def tx_payload_def)

definition tx_body :: "header \<Rightarrow> u32 \<Rightarrow> bytes option \<Rightarrow> u8 \<Rightarrow> u64 \<Rightarrow> bytes" where
  "tx_body hdr uid bag_tlv bag_len numonce =
     write_header hdr ConfigWrite (of_nat (21 + unat bag_len))
     @ write_u32_le uid @ write_u64_le numonce @ [bag_len]
     @ take (unat bag_len) (cw_bag_tlv (tx_payload uid bag_tlv bag_len numonce []))"

lemma tx_frame_split:
  assumes "bag_len \<le> kConfigWriteMaxBagLen" and "length mac = 8"
  shows "write_header hdr ConfigWrite (of_nat (length (config_write_wire (tx_payload uid bag_tlv bag_len numonce mac))))
      @ config_write_wire (tx_payload uid bag_tlv bag_len numonce mac)
    = tx_body hdr uid bag_tlv bag_len numonce @ mac"
  using length_config_write_wire [OF tx_payload_shape [OF assms]] tx_bag_len [OF assms(1)] assms(2)
  by (simp add: config_write_wire_def tx_body_def tx_payload_def)

lemma length_tx_body:
  assumes "bag_len \<le> kConfigWriteMaxBagLen"
  shows "length (tx_body hdr uid bag_tlv bag_len numonce) = 22 + unat bag_len"
  using assms
  by (auto simp: tx_body_def tx_payload_def word_le_nat_alt min_def split: option.split)

definition tx_header :: "u16 \<Rightarrow> header" where
  "tx_header src = zero_header\<lparr> h_source_id := src, h_sequence_number := 1, h_hop_count := 0 \<rparr>"

lemma build_signed_eq:
  assumes "bag_len \<le> kConfigWriteMaxBagLen" and "30 + unat bag_len \<le> length buf"
  shows "build_signed_config_write buf src uid secret bag_tlv bag_len numonce =
    (30 + unat bag_len,
     poke buf (let body = tx_body (tx_header src) uid bag_tlv bag_len numonce
               in body @ hmac_sha256_sign_t8 secret body))"
proof -
  let ?p = "tx_payload uid bag_tlv bag_len numonce (replicate 8 0)"
  let ?body = "tx_body (tx_header src) uid bag_tlv bag_len numonce"
  have sh: "config_write_shape ?p" using assms(1) by (rule tx_payload_shape) simp
  have lw: "length (config_write_wire ?p) = 21 + unat bag_len"
    using length_config_write_wire [OF sh] tx_bag_len [OF assms(1)] by simp
  have fits: "kHeaderSize + length (config_write_wire ?p) \<le> length buf" using lw assms(2) by simp
  have enc: "encode_config_write buf (tx_header src) ?p
      = (30 + unat bag_len, poke buf (?body @ replicate 8 0))"
    using config_write.encode_fits [OF sh fits, of "tx_header src"]
    unfolding tx_frame_split [OF assms(1) length_replicate] unfolding lw by simp
  have lb: "length ?body = 22 + unat bag_len" by (rule length_tx_body [OF assms(1)])
  have tk: "take (22 + unat bag_len) (poke buf (?body @ replicate 8 0)) = ?body"
    using lb by (simp add: poke_def)
  have "poke_at (poke buf (?body @ replicate 8 0)) (22 + unat bag_len) mac = poke buf (?body @ mac)"
    if "length mac = 8" for mac
    using that lb poke_at_append [of ?body "22 + unat bag_len" "replicate 8 0 @ drop (30 + unat bag_len) buf" mac]
    by (simp add: poke_def)
  moreover have "buf \<noteq> []" using assms(2) by auto
  ultimately show ?thesis
    using enc tk assms(1)
    by (simp add: build_signed_config_write_def tx_header_def tx_payload_def Let_def not_less)
qed

lemma build_signed_refuses:
  assumes "build_signed_config_write buf src uid secret bag_tlv bag_len numonce = (n, buf')" and "n \<noteq> 0"
  shows "bag_len \<le> kConfigWriteMaxBagLen" and "30 + unat bag_len \<le> length buf"
proof -
  show b: "bag_len \<le> kConfigWriteMaxBagLen"
    using assms by (auto simp: build_signed_config_write_def Let_def not_less split: if_splits prod.splits)
  let ?p = "tx_payload uid bag_tlv bag_len numonce (replicate 8 0)"
  have sh: "config_write_shape ?p" using b by (rule tx_payload_shape) simp
  show "30 + unat bag_len \<le> length buf"
  proof (rule ccontr)
    assume "\<not> 30 + unat bag_len \<le> length buf"
    then have "encode_config_write buf (tx_header src) ?p = (0, buf)"
      using config_write.encode_short [OF sh, of buf "tx_header src"] length_config_write_wire [OF sh]
        tx_bag_len [OF b] by simp
    with assms show False
      by (auto simp: build_signed_config_write_def tx_header_def tx_payload_def Let_def split: if_splits)
  qed
qed

section \<open>What the receiver does with it\<close>

text \<open>The two gates in front of the replay check, for a frame as the sender builds it.\<close>

lemma rx_decodes_tx:
  assumes b: "bag_len \<le> kConfigWriteMaxBagLen" and m: "length mac = 8"
    and f: "frame = tx_body (tx_header src) uid bag_tlv bag_len numonce @ mac"
  shows "\<exists>h cw. decode_header frame zero_header = (Ok, h)
    \<and> h_message_type h = ConfigWrite \<and> h_source_id h = src
    \<and> decode_config_write h (take (unat (h_payload_len h)) (drop kHeaderSize frame))
        zero_config_write = (Ok, cw)
    \<and> cw_target_uid cw = uid \<and> read_u64_le (cw_numonce cw) = numonce \<and> cw_hmac cw = mac
    \<and> take (unat (cw_bag_len cw)) (cw_bag_tlv cw)
        = take (unat bag_len) (cw_bag_tlv (tx_payload uid bag_tlv bag_len numonce mac))
    \<and> length frame = 30 + unat bag_len"
proof -
  let ?p = "tx_payload uid bag_tlv bag_len numonce mac"
  have sh: "config_write_shape ?p" by (rule tx_payload_shape [OF b m])
  have lw: "length (config_write_wire ?p) = 21 + unat bag_len"
    using length_config_write_wire [OF sh] tx_bag_len [OF b] by simp
  have fr: "frame = write_header (tx_header src) ConfigWrite (of_nat (length (config_write_wire ?p)))
      @ config_write_wire ?p"
    using f tx_frame_split [OF b m] by simp
  let ?h = "sent_header (tx_header src) ConfigWrite (of_nat (length (config_write_wire ?p)))"
  have u: "unat (h_payload_len ?h) = length (config_write_wire ?p)"
    using config_write.unat_wire_len [OF sh] by simp
  have dh: "decode_header frame zero_header = (Ok, ?h)"
    unfolding fr by (rule decode_write_header) (use u in simp)
  have pl: "take (unat (h_payload_len ?h)) (drop kHeaderSize frame) = config_write_wire ?p"
    unfolding u fr by simp
  obtain cw where cw: "decode_config_write ?h (config_write_wire ?p) zero_config_write = (Ok, cw)"
    "config_write_view cw = config_write_view ?p" "cw_bag_len cw = config_write_bag_len ?p"
    using config_write_decode_wire [OF sh _ u] by auto
  then have "cw_target_uid cw = uid" "read_u64_le (cw_numonce cw) = numonce" "cw_hmac cw = mac"
    "take (unat (cw_bag_len cw)) (cw_bag_tlv cw) = take (unat bag_len) (cw_bag_tlv ?p)"
    using tx_bag_len [OF b]
    by (auto simp: config_write_view_def config_write_bag_len_def tx_payload_def split: if_splits)
  moreover have "h_source_id ?h = src" by (simp add: tx_header_def)
  moreover have "length frame = 30 + unat bag_len" using fr lw by simp
  ultimately show ?thesis using dh pl cw(1) by (intro exI [of _ ?h] exI [of _ cw]) simp
qed

text \<open>A frame the sender laid out, with an arbitrary tag: what the receiver does is decided by the
  address, the replay guard, the tag and the bag, in this order.\<close>

lemma rx_of_tx:
  assumes b: "bag_len \<le> kConfigWriteMaxBagLen" and m: "length mac = 8"
    and f: "frame = tx_body (tx_header src) uid bag_tlv bag_len numonce @ mac"
  shows "process_config_write frame self secret apply_fn nl ctx =
    (if uid \<noteq> self then (rx_detail BadTarget, nl, ctx)
     else case check_and_update nl src numonce of (fresh, nl') \<Rightarrow>
       if \<not> fresh then (rx_detail Replay, nl', ctx)
       else if mac \<noteq> hmac_sha256_sign_t8 secret (tx_body (tx_header src) uid bag_tlv bag_len numonce)
       then (rx_detail BadHmac, nl', ctx)
       else case decode_property_bag
           (take (unat bag_len) (cw_bag_tlv (tx_payload uid bag_tlv bag_len numonce mac)))
           (Some (counting_cb apply_fn)) (ctx, 0) of (err, ctx', walked) \<Rightarrow>
         if err \<noteq> TlvOk then (rx_detail MalformedBag, nl', ctx')
         else (\<lparr> rd_result = Accepted, rd_numonce = numonce, rd_applied_keys = walked,
                 rd_config_write_status = 0 \<rparr>, nl', ctx'))"
proof -
  obtain h cw where d: "decode_header frame zero_header = (Ok, h)" "h_message_type h = ConfigWrite"
    "h_source_id h = src"
    "decode_config_write h (take (unat (h_payload_len h)) (drop kHeaderSize frame))
        zero_config_write = (Ok, cw)"
    "cw_target_uid cw = uid" "read_u64_le (cw_numonce cw) = numonce" "cw_hmac cw = mac"
    "take (unat (cw_bag_len cw)) (cw_bag_tlv cw)
        = take (unat bag_len) (cw_bag_tlv (tx_payload uid bag_tlv bag_len numonce mac))"
    "length frame = 30 + unat bag_len"
    using rx_decodes_tx [OF assms] by blast
  have body: "take (22 + unat bag_len) frame = tx_body (tx_header src) uid bag_tlv bag_len numonce"
    using f m length_tx_body [OF b] by simp
  show ?thesis
    using d m by (simp add: process_config_write_def body verify_iff Let_def split: prod.split)
qed

text \<open>The frame of the sender itself.\<close>

lemma built_frame:
  assumes "build_signed_config_write buf src uid secret bag_tlv bag_len numonce = (n, buf')" and "n \<noteq> 0"
  shows "bag_len \<le> kConfigWriteMaxBagLen"
    and "take n buf' = tx_body (tx_header src) uid bag_tlv bag_len numonce
      @ hmac_sha256_sign_t8 secret (tx_body (tx_header src) uid bag_tlv bag_len numonce)"
proof -
  note b = build_signed_refuses [OF assms]
  show "bag_len \<le> kConfigWriteMaxBagLen" by (rule b)
  show "take n buf' = tx_body (tx_header src) uid bag_tlv bag_len numonce
      @ hmac_sha256_sign_t8 secret (tx_body (tx_header src) uid bag_tlv bag_len numonce)"
    using assms(1) length_tx_body [OF b(1)] unfolding build_signed_eq [OF b] poke_def Let_def by auto
qed

lemma rx_accepts_built:
  assumes "build_signed_config_write buf src uid secret (Some bag) bag_len numonce = (n, buf')"
    and "n \<noteq> 0" and "length bag = unat bag_len"
    and "check_and_update nl src numonce = (True, nl')"
    and "decode_property_bag bag (Some (counting_cb apply_fn)) (ctx, 0) = (TlvOk, ctx', walked)"
  shows "process_config_write (take n buf') uid secret apply_fn nl ctx =
    (\<lparr> rd_result = Accepted, rd_numonce = numonce, rd_applied_keys = walked,
       rd_config_write_status = 0 \<rparr>, nl', ctx')"
proof -
  note b = built_frame [OF assms(1,2)]
  have "take (unat bag_len) (cw_bag_tlv (tx_payload uid (Some bag) bag_len numonce mac)) = bag" for mac
    using assms(3) by (simp add: tx_payload_def)
  then show ?thesis
    unfolding rx_of_tx [OF b(1) length_sign b(2)] using assms(4,5) by simp
qed

text \<open>A concrete command and its frame, for the witnesses.\<close>

definition sample_bag :: bytes where
  "sample_bag = [1, 2, 103, 114, 0, 1, 9]"

definition sample_frame :: bytes where
  "sample_frame = take 37 (snd (build_signed_config_write (replicate 60 0) 7 0xCAFE (replicate 16 1)
     (Some sample_bag) 7 42))"

lemma sample_built:
  "build_signed_config_write (replicate 60 0) 7 0xCAFE (replicate 16 1) (Some sample_bag) 7 42
     = (37, snd (build_signed_config_write (replicate 60 0) 7 0xCAFE (replicate 16 1) (Some sample_bag) 7 42))"
  by (simp add: build_signed_eq)

lemma fresh_guard_accepts: "v \<noteq> 0 \<Longrightarrow> fst (check_and_update numonce_init src v)"
  using slot_of_None [of src numonce_init]
  by (simp add: check_and_update_def numonce_init_inv Let_def)

lemma sample_walk:
  "decode_property_bag sample_bag (Some (counting_cb None)) ((), 0) = (TlvOk, (), 1)"
  by (simp add: sample_bag_def decode_property_bag_def parse_entry_def counting_cb_def Let_def)

section \<open>Properties\<close>

text \<open>A signed command arrives and is obeyed. If the sender can build the frame (bag of at most 220
  bytes, room in the buffer) and the receiver with the addressed uid and the same secret has not yet
  seen the number from this sender, the receiver walks exactly the sender's bag with its callback and
  reports acceptance with the sender's number, provided the bag itself is well formed and the callback
  does not abort.\<close>

theorem config_write_end_to_end:
  assumes "build_signed_config_write buf src uid secret (Some bag) bag_len numonce = (n, buf')"
    and "n \<noteq> 0" and "length bag = unat bag_len"
    and "check_and_update nl src numonce = (True, nl')"
    and "decode_property_bag bag (Some (counting_cb apply_fn)) (ctx, 0) = (TlvOk, ctx', walked)"
  shows "process_config_write (take n buf') uid secret apply_fn nl ctx =
    (\<lparr> rd_result = Accepted, rd_numonce = numonce, rd_applied_keys = walked,
       rd_config_write_status = 0 \<rparr>, nl', ctx')"
  using assms by (rule rx_accepts_built)

theorem config_write_end_to_end_witness:
  "process_config_write sample_frame 0xCAFE (replicate 16 1) None numonce_init ()
    = (\<lparr> rd_result = Accepted, rd_numonce = 42, rd_applied_keys = 1, rd_config_write_status = 0 \<rparr>,
       snd (check_and_update numonce_init 7 42), ())"
proof -
  have "length sample_bag = unat (7 :: u8)" by (simp add: sample_bag_def)
  moreover have "check_and_update numonce_init 7 42 = (True, snd (check_and_update numonce_init 7 42))"
    using fresh_guard_accepts [of 42 7] by (simp add: prod_eq_iff)
  ultimately show ?thesis
    using config_write_end_to_end [OF sample_built _ _ _ sample_walk] by (simp add: sample_frame_def)
qed

text \<open>C1: Nothing unauthenticated is applied. For arbitrary bytes, if the receiver reports one of the two
  verdicts past authentication (accepted, or authentic with a malformed bag) or changes the context of its
  callback, then the frame decodes as a CONFIG_WRITE addressed to this device; the replay guard accepted its
  number for that sender, above the last one it still holds for it; and the tag, the eight bytes after the
  bag, is the one the shared secret gives to the frame without its last eight bytes. In a frame that ends
  with its payload the tag is those last eight bytes; with bytes after the payload it is not, and what is
  signed then reaches past the bag.\<close>

theorem config_write_authentic:
  assumes "process_config_write frame self secret apply_fn nl ctx = (d, nl', ctx')"
    and "rd_result d = Accepted \<or> rd_result d = MalformedBag \<or> ctx' \<noteq> ctx"
  shows "\<exists>h cw. decode_header frame zero_header = (Ok, h) \<and> h_message_type h = ConfigWrite
    \<and> decode_config_write h (take (unat (h_payload_len h)) (drop kHeaderSize frame))
        zero_config_write = (Ok, cw)
    \<and> cw_target_uid cw = self
    \<and> check_and_update nl (h_source_id h) (read_u64_le (cw_numonce cw)) = (True, nl')
    \<and> (numonce_inv nl \<and> h_source_id h \<in> known_sources nl \<longrightarrow>
         last_seen_for nl (h_source_id h) < read_u64_le (cw_numonce cw))
    \<and> cw_hmac cw = take 8 (drop (kHeaderSize + 13 + unat (cw_bag_len cw)) frame)
    \<and> cw_hmac cw = hmac_sha256_sign_t8 secret (take (length frame - kConfigWriteHmacLen) frame)
    \<and> (length frame = kHeaderSize + unat (h_payload_len h) \<longrightarrow> cw_hmac cw = drop (length frame - 8) frame)"
proof -
  obtain r h where dh: "decode_header frame zero_header = (r, h)" by fastforce
  define payload where "payload = take (unat (h_payload_len h)) (drop kHeaderSize frame)"
  obtain r2 cw where dc: "decode_config_write h payload zero_config_write = (r2, cw)" by fastforce
  obtain fresh nl1 where cu: "check_and_update nl (h_source_id h) (read_u64_le (cw_numonce cw)) = (fresh, nl1)"
    by fastforce
  have ok: "r = Ok" "h_message_type h = ConfigWrite" "r2 = Ok" "cw_target_uid cw = self" "fresh" "nl' = nl1"
    and v: "hmac_sha256_verify_t8 secret (take (length frame - kConfigWriteHmacLen) frame) (cw_hmac cw)"
    using assms
    by (auto simp: process_config_write_def dh dc [unfolded payload_def] cu rx_detail_def Let_def
        split: if_splits prod.splits)
  have dec: "unat (h_payload_len h) = kConfigWriteFixedOverhead + unat (cw_bag_len cw)"
    and tag: "cw_hmac cw = take 8 (drop (13 + unat (cw_bag_len cw)) payload)"
    using dc ok(3) by (auto simp: decode_config_write_def Let_def split: if_splits)
  have place: "cw_hmac cw = take 8 (drop (kHeaderSize + 13 + unat (cw_bag_len cw)) frame)"
    unfolding tag payload_def dec by (simp add: drop_take add.commute add.left_commute)
  have last: "cw_hmac cw = drop (length frame - 8) frame" if "length frame = kHeaderSize + unat (h_payload_len h)"
  proof -
    have "length frame - 8 = kHeaderSize + 13 + unat (cw_bag_len cw)" using that dec by simp
    then show ?thesis using place that dec by simp
  qed
  have "length (cw_hmac cw) = 8"
    using config_write.decode_shape [OF zero_config_write_shape, of h payload] dc
    by (simp add: config_write_shape_def)
  with v have "cw_hmac cw = hmac_sha256_sign_t8 secret (take (length frame - kConfigWriteHmacLen) frame)"
    by (simp add: hmac8.verify_sign)
  moreover have "last_seen_for nl (h_source_id h) < read_u64_le (cw_numonce cw)"
    if "numonce_inv nl" "h_source_id h \<in> known_sources nl"
    using numonce.accept [OF that(1), of "h_source_id h" "read_u64_le (cw_numonce cw)" nl1] cu ok(5) that(2) by simp
  ultimately show ?thesis
    using dh dc [unfolded payload_def] cu ok place last by (intro exI [of _ h] exI [of _ cw]) simp
qed

theorem config_write_authentic_witness:
  "\<exists>h cw. decode_header sample_frame zero_header = (Ok, h)
    \<and> decode_config_write h (take (unat (h_payload_len h)) (drop kHeaderSize sample_frame))
        zero_config_write = (Ok, cw)
    \<and> cw_target_uid cw = 0xCAFE
    \<and> cw_hmac cw = hmac_sha256_sign_t8 (replicate 16 1)
        (take (length sample_frame - kConfigWriteHmacLen) sample_frame)"
proof -
  have "length sample_bag = unat (7 :: u8)" by (simp add: sample_bag_def)
  moreover have "check_and_update numonce_init 7 42 = (True, snd (check_and_update numonce_init 7 42))"
    using fresh_guard_accepts [of 42 7] by (simp add: prod_eq_iff)
  ultimately have "process_config_write sample_frame 0xCAFE (replicate 16 1) None numonce_init ()
      = (\<lparr> rd_result = Accepted, rd_numonce = 42, rd_applied_keys = 1, rd_config_write_status = 0 \<rparr>,
         snd (check_and_update numonce_init 7 42), ())"
    using rx_accepts_built [OF sample_built _ _ _ sample_walk] by (simp add: sample_frame_def)
  from config_write_authentic [OF this] show ?thesis by auto
qed

text \<open>A receiver over a run of frames: its verdicts, in order. The sender of a frame is the one its header
  names.\<close>

fun rx_run ::
  "u32 \<Rightarrow> bytes \<Rightarrow> (tlv_entry \<Rightarrow> 'c \<Rightarrow> bool \<times> 'c) option \<Rightarrow> bytes list \<Rightarrow> numonce_lru \<Rightarrow> 'c \<Rightarrow> config_rx_detail list" where
  "rx_run self secret apply_fn [] nl ctx = []"
| "rx_run self secret apply_fn (f # fs) nl ctx =
     (case process_config_write f self secret apply_fn nl ctx of (d, nl, ctx) \<Rightarrow>
        d # rx_run self secret apply_fn fs nl ctx)"

definition rx_sender :: "bytes \<Rightarrow> u16" where
  "rx_sender frame = h_source_id (snd (decode_header frame zero_header))"

lemma rx_touches_guard:
  assumes "process_config_write frame self secret apply_fn nl ctx = (d, nl', ctx')"
  shows "nl' = nl \<or> (\<exists>v. nl' = snd (check_and_update nl (rx_sender frame) v)
    \<and> (rd_result d = Replay \<longleftrightarrow> \<not> fst (check_and_update nl (rx_sender frame) v)))"
proof -
  obtain r h where dh: "decode_header frame zero_header = (r, h)" by fastforce
  obtain r2 cw where dc: "decode_config_write h (take (unat (h_payload_len h)) (drop kHeaderSize frame))
      zero_config_write = (r2, cw)" by fastforce
  obtain fresh nl1 where cu: "check_and_update nl (h_source_id h) (read_u64_le (cw_numonce cw)) = (fresh, nl1)"
    by fastforce
  have s: "rx_sender frame = h_source_id h" by (simp add: rx_sender_def dh)
  consider "nl' = nl" | "nl' = nl1" "rd_result d = Replay \<longleftrightarrow> \<not> fresh"
    using assms by (auto simp: process_config_write_def dh dc cu rx_detail_def Let_def split: if_splits prod.splits)
  then show ?thesis
  proof cases
    case 2
    then have "nl' = snd (check_and_update nl (rx_sender frame) (read_u64_le (cw_numonce cw)))
        \<and> (rd_result d = Replay \<longleftrightarrow> \<not> fst (check_and_update nl (rx_sender frame) (read_u64_le (cw_numonce cw))))"
      using cu s by simp
    then show ?thesis by blast
  qed simp
qed

text \<open>A command of a sender: any bag, any number, with the right tag.\<close>

definition genuine :: "u16 \<Rightarrow> u32 \<Rightarrow> bytes \<Rightarrow> bytes \<Rightarrow> bool" where
  "genuine src uid secret frame \<longleftrightarrow> (\<exists>buf bag bag_len v n buf'.
     build_signed_config_write buf src uid secret bag bag_len v = (n, buf') \<and> n \<noteq> 0 \<and> frame = take n buf')"

text \<open>A guard whose record of a sender is the largest number refuses its every command, and keeps the record.\<close>

definition exhausted :: "u16 \<Rightarrow> numonce_lru \<Rightarrow> bool" where
  "exhausted src nl \<longleftrightarrow> numonce_inv nl \<and> src \<in> known_sources nl \<and> last_seen_for nl src = - 1"

lemma exhausted_rejects:
  assumes "exhausted src nl"
  shows "\<not> fst (check_and_update nl src v)"
proof
  assume "fst (check_and_update nl src v)"
  then have "check_and_update nl src v = (True, snd (check_and_update nl src v))" by (simp add: prod_eq_iff)
  from numonce.accept [OF _ this] assms have "- 1 < v" by (simp add: exhausted_def)
  then show False using word_n1_ge [of v] by simp
qed

lemma exhausted_genuine:
  assumes "exhausted src nl" and "genuine src uid secret frame"
  shows "fst (process_config_write frame uid secret apply_fn nl ctx) = rx_detail Replay"
proof -
  obtain buf bag bag_len v n buf' where g: "build_signed_config_write buf src uid secret bag bag_len v = (n, buf')"
    "n \<noteq> 0" "frame = take n buf'" using assms(2) unfolding genuine_def by blast
  note b = built_frame [OF g(1,2)]
  obtain nl2 where "check_and_update nl src v = (False, nl2)"
    using exhausted_rejects [OF assms(1), of v] by (metis prod.collapse)
  then show ?thesis unfolding g(3) rx_of_tx [OF b(1) length_sign b(2)] by simp
qed

lemma exhausted_step:
  assumes "exhausted src nl" and "known_sources nl \<subseteq> K" and "finite K" and "card K \<le> kNumonceSlots"
    and "rx_sender frame \<in> K" and "process_config_write frame uid secret apply_fn nl ctx = (d, nl', ctx')"
  shows "exhausted src nl' \<and> known_sources nl' \<subseteq> K"
  using rx_touches_guard [OF assms(6)]
proof (elim disjE exE conjE)
  fix v assume n: "nl' = snd (check_and_update nl (rx_sender frame) v)"
  have "rx_sender frame \<noteq> src \<or> \<not> fst (check_and_update nl (rx_sender frame) v)"
    using exhausted_rejects [OF assms(1)] by blast
  then show ?thesis using numonce.record_kept [OF _ _ assms(2-5) prod.collapse [symmetric], of src v] assms(1)
    by (auto simp: exhausted_def n)
qed (use assms in simp)

lemma exhausted_run:
  assumes "exhausted src nl" and "known_sources nl \<subseteq> K" and "finite K" and "card K \<le> kNumonceSlots"
    and "rx_sender ` set fs \<subseteq> K" and "i < length fs" and "genuine src uid secret (fs ! i)"
  shows "rx_run uid secret apply_fn fs nl ctx ! i = rx_detail Replay"
  using assms
proof (induction fs arbitrary: nl ctx i)
  case (Cons f fs)
  obtain d nl' ctx' where p: "process_config_write f uid secret apply_fn nl ctx = (d, nl', ctx')" by (metis prod.exhaust)
  show ?case
  proof (cases i)
    case 0
    then show ?thesis using exhausted_genuine [OF Cons.prems(1), of uid secret f apply_fn ctx] Cons.prems(7) p by simp
  next
    case (Suc i')
    have "exhausted src nl' \<and> known_sources nl' \<subseteq> K"
      using exhausted_step [OF Cons.prems(1-4) _ p] Cons.prems(5) by simp
    then show ?thesis using Cons.IH [of nl' i' ctx'] Cons.prems Suc p by simp
  qed
qed simp

text \<open>C40: A forged frame can lock a sender out. The replay guard is updated before the tag is checked, so a frame
  with the sender's id, a wrong tag and the largest number is refused as BadHmac but exhausts the sender: in any
  run of frames that follows, of whatever contents and numbers, every command the sender can build for this device,
  correctly signed, is refused as a replay, as long as the senders the guard knows after the forgery and those of
  the run together fit its sixteen slots, so that nobody is evicted. The comment in the receiver says that a retry
  with a fresh number is enough; there is no number left.\<close>

theorem forged_numonce_lockout:
  assumes "numonce_inv nl" and "bag_len \<le> kConfigWriteMaxBagLen" and "length mac = 8"
    and "mac \<noteq> hmac_sha256_sign_t8 secret (tx_body (tx_header src) uid bag bag_len (- 1))"
    and "fst (check_and_update nl src (- 1))"
  shows "\<exists>nl'. process_config_write (tx_body (tx_header src) uid bag bag_len (- 1) @ mac)
        uid secret apply_fn nl ctx = (rx_detail BadHmac, nl', ctx)
    \<and> (\<forall>fs i. card (known_sources nl' \<union> rx_sender ` set fs) \<le> kNumonceSlots \<and> i < length fs
          \<and> genuine src uid secret (fs ! i) \<longrightarrow>
        rx_run uid secret apply_fn fs nl' ctx ! i = rx_detail Replay)"
proof -
  obtain nl' where c: "check_and_update nl src (- 1) = (True, nl')"
    using assms(5) by (metis prod.collapse)
  have ex: "exhausted src nl'"
    using numonce.inv_check [OF assms(1), of src "- 1"] numonce.accept [OF assms(1) c] c by (simp add: exhausted_def)
  have "process_config_write (tx_body (tx_header src) uid bag bag_len (- 1) @ mac)
        uid secret apply_fn nl ctx = (rx_detail BadHmac, nl', ctx)"
    using rx_of_tx [OF assms(2,3) refl, of src uid bag "- 1" uid secret apply_fn nl ctx] c assms(4) by simp
  moreover have "rx_run uid secret apply_fn fs nl' ctx ! i = rx_detail Replay"
    if "card (known_sources nl' \<union> rx_sender ` set fs) \<le> kNumonceSlots" "i < length fs" "genuine src uid secret (fs ! i)" for fs i
    by (rule exhausted_run [OF ex _ _ that(1) _ that(2,3)]) (simp_all add: known_sources_def)
  ultimately show ?thesis by blast
qed

lemma first_known: "known_sources (snd (check_and_update numonce_init k v)) \<subseteq> {k}"
proof (cases "fst (check_and_update numonce_init k v)")
  case True
  then have "check_and_update numonce_init k v = (True, snd (check_and_update numonce_init k v))" by (simp add: prod_eq_iff)
  from numonce.room [OF numonce_init_inv(1) this] show ?thesis by (simp add: numonce_init_inv(2))
next
  case False
  then have "check_and_update numonce_init k v = (False, snd (check_and_update numonce_init k v))" by (simp add: prod_eq_iff)
  from numonce.reject [OF numonce_init_inv(1) this] show ?thesis by (simp add: numonce_init_inv(2))
qed

theorem forged_numonce_lockout_witness:
  "\<exists>mac nl'. process_config_write (tx_body (tx_header 7) 0xCAFE (Some sample_bag) 7 (- 1) @ mac)
        0xCAFE (replicate 16 1) None numonce_init () = (rx_detail BadHmac, nl', ())
    \<and> rx_run 0xCAFE (replicate 16 1) None [[], sample_frame, sample_frame] nl' () ! 2 = rx_detail Replay"
proof -
  let ?good = "hmac_sha256_sign_t8 (replicate 16 1) (tx_body (tx_header 7) 0xCAFE (Some sample_bag) 7 (- 1))"
  define mac where "mac = (if ?good = replicate 8 0 then replicate 8 1 else replicate 8 (0 :: u8))"
  have m: "mac \<noteq> ?good" "length mac = 8" by (simp_all add: mac_def)
  let ?fs = "[[], sample_frame, sample_frame]"
  let ?f = "tx_body (tx_header 7) 0xCAFE (Some sample_bag) 7 (- 1) @ mac"
  from forged_numonce_lockout [OF numonce_init_inv(1) _ m(2,1) fresh_guard_accepts, of None "()"]
  obtain nl' where n: "process_config_write ?f 0xCAFE (replicate 16 1) None numonce_init () = (rx_detail BadHmac, nl', ())"
    and run: "\<And>fs i. card (known_sources nl' \<union> rx_sender ` set fs) \<le> kNumonceSlots \<Longrightarrow> i < length fs \<Longrightarrow>
      genuine 7 0xCAFE (replicate 16 1) (fs ! i) \<Longrightarrow>
      rx_run 0xCAFE (replicate 16 1) None fs nl' () ! i = rx_detail Replay"
    by auto
  have "known_sources nl' \<subseteq> {rx_sender ?f}"
    using rx_touches_guard [OF n] first_known [of "rx_sender ?f"] by (auto simp: numonce_init_inv(2))
  then have "known_sources nl' \<union> rx_sender ` set ?fs \<subseteq> {rx_sender ?f, rx_sender [], rx_sender sample_frame}" by auto
  from card_mono [OF _ this] have "card (known_sources nl' \<union> rx_sender ` set ?fs) \<le> 3"
    by (simp add: card_insert_if split: if_splits)
  moreover have "genuine 7 0xCAFE (replicate 16 1) sample_frame"
    unfolding genuine_def sample_frame_def using sample_built by (metis snd_conv zero_neq_numeral)
  ultimately show ?thesis using n run [of ?fs 2] by auto
qed

section \<open>The ring of acknowledgements\<close>

record config_ack_info =
  ai_responder_uid :: u32
  ai_responder_numonce :: u64
  ai_status :: u8
  ai_applied_keys :: u8

record ack_slot =
  as_valid :: bool
  as_info :: config_ack_info
  as_received_ms :: u32

abbreviation kAckRingSize :: nat where "kAckRingSize \<equiv> 8"

record ack_ring =
  ar_slots :: "ack_slot list"
  ar_head :: nat

definition zero_ack :: config_ack_info where
  "zero_ack = \<lparr> ai_responder_uid = 0, ai_responder_numonce = 0, ai_status = 0, ai_applied_keys = 0 \<rparr>"

definition clear_ack_ring :: ack_ring where
  "clear_ack_ring = \<lparr> ar_slots = replicate kAckRingSize
      \<lparr> as_valid = False, as_info = zero_ack, as_received_ms = 0 \<rparr>, ar_head = 0 \<rparr>"

definition on_config_ack_received :: "u32 \<Rightarrow> config_ack_info \<Rightarrow> ack_ring \<Rightarrow> ack_ring" where
  "on_config_ack_received now ack s =
     (let slot = ar_head s mod kAckRingSize in
      \<lparr> ar_slots = (ar_slots s)[slot := \<lparr> as_valid = True, as_info = ack, as_received_ms = now \<rparr>],
        ar_head = (ar_head s + 1) mod kAckRingSize \<rparr>)"

text \<open>One scan of the ring: the first valid slot that matches is consumed.\<close>

definition ack_scan :: "u32 \<Rightarrow> u64 \<Rightarrow> ack_ring \<Rightarrow> (config_ack_info \<times> ack_ring) option" where
  "ack_scan uid numonce s =
     (case find_idx (\<lambda>x. as_valid x \<and> ai_responder_uid (as_info x) = uid
             \<and> ai_responder_numonce (as_info x) = numonce) (ar_slots s) of
        None \<Rightarrow> None
      | Some i \<Rightarrow> Some (as_info (ar_slots s ! i),
          s\<lparr> ar_slots := (ar_slots s)[i := (ar_slots s ! i)\<lparr> as_valid := False \<rparr>] \<rparr>))"

text \<open>The polling loop. Each poll is the reading of \<open>millis\<close> at the loop test and the
  acknowledgements that the radio task stores before the next test (during the 10 ms delay); the loop
  ends when the time is up, on a hit, or with the polls given.\<close>

fun wait_for_ack ::
  "u32 \<Rightarrow> u64 \<Rightarrow> u32 \<Rightarrow> u32 \<Rightarrow> (u32 \<times> (u32 \<times> config_ack_info) list) list \<Rightarrow> ack_ring \<Rightarrow>
     config_ack_info option \<times> ack_ring" where
  "wait_for_ack uid numonce timeout_ms start [] s = (None, s)"
| "wait_for_ack uid numonce timeout_ms start ((now, incoming) # polls) s =
     (if now - start < timeout_ms then
        (case ack_scan uid numonce s of
           Some (info, s') \<Rightarrow> (Some info, s')
         | None \<Rightarrow> wait_for_ack uid numonce timeout_ms start polls
             (foldl (\<lambda>r (t, a). on_config_ack_received t a r) s incoming))
      else (None, s))"

lemma wait_for_ack_sound:
  "wait_for_ack uid numonce timeout_ms start polls s = (Some info, s') \<Longrightarrow>
     ai_responder_uid info = uid \<and> ai_responder_numonce info = numonce"
proof (induction uid numonce timeout_ms start polls s rule: wait_for_ack.induct)
  case (2 uid numonce timeout_ms start now incoming polls s)
  then show ?case
    using find_idx_SomeD [of "\<lambda>x. as_valid x \<and> ai_responder_uid (as_info x) = uid
             \<and> ai_responder_numonce (as_info x) = numonce" "ar_slots s"]
    by (auto simp: ack_scan_def split: if_splits option.splits)
qed simp

text \<open>A slot keeps its acknowledgement until the head has gone round.\<close>

lemma ack_stores_keep:
  assumes "length (ar_slots s) = kAckRingSize" and "ar_head s < kAckRingSize"
    and "length acks \<le> (i + kAckRingSize - ar_head s) mod kAckRingSize" and "i < kAckRingSize"
  shows "length (ar_slots (foldl (\<lambda>r (t, a). on_config_ack_received t a r) s acks)) = kAckRingSize
    \<and> ar_slots (foldl (\<lambda>r (t, a). on_config_ack_received t a r) s acks) ! i = ar_slots s ! i"
  using assms
proof (induction acks arbitrary: s)
  case Nil
  then show ?case by simp
next
  case (Cons x acks)
  obtain t a where x: "x = (t, a)" by (cases x)
  let ?s1 = "on_config_ack_received t a s"
  have len: "length (ar_slots ?s1) = kAckRingSize" and hd: "ar_head ?s1 = (ar_head s + 1) mod kAckRingSize"
    using Cons.prems(1) by (simp_all add: on_config_ack_received_def Let_def)
  have ne: "ar_head s \<noteq> i" using Cons.prems(3) by auto
  then have at: "ar_slots ?s1 ! i = ar_slots s ! i"
    using Cons.prems(2) by (simp add: on_config_ack_received_def Let_def)
  have dist: "(i + kAckRingSize - (ar_head s + 1) mod kAckRingSize) mod kAckRingSize
      = (i + kAckRingSize - ar_head s) mod kAckRingSize - 1"
  proof (cases "ar_head s = 7")
    case True
    then show ?thesis using Cons.prems(4) ne by (simp add: mod_if)
  next
    case False
    then show ?thesis using Cons.prems(2,4) ne by (auto simp: mod_if)
  qed
  have "length acks \<le> (i + kAckRingSize - ar_head ?s1) mod kAckRingSize"
    using Cons.prems(3) unfolding hd dist by simp
  from Cons.IH [OF len _ this Cons.prems(4)] at hd x show ?case by simp
qed

text \<open>An acknowledgement is not lost to seven others. In a ring in any state, after an
  acknowledgement is stored and at most seven more arrive, a wait for its device and number that polls
  before its timeout returns an acknowledgement with that device and that number.\<close>

theorem ack_found_after_seven:
  assumes "length (ar_slots s) = kAckRingSize" and "ar_head s < kAckRingSize"
    and "length acks \<le> 7" and "now - start < timeout_ms"
  shows "\<exists>info s'. wait_for_ack (ai_responder_uid a) (ai_responder_numonce a) timeout_ms start
      ((now, incoming) # polls)
      (foldl (\<lambda>r (t, x). on_config_ack_received t x r) (on_config_ack_received t0 a s) acks)
    = (Some info, s') \<and> ai_responder_uid info = ai_responder_uid a
    \<and> ai_responder_numonce info = ai_responder_numonce a"
proof -
  let ?s1 = "on_config_ack_received t0 a s"
  let ?s2 = "foldl (\<lambda>r (t, x). on_config_ack_received t x r) ?s1 acks"
  let ?i = "ar_head s"
  have hd: "ar_head ?s1 = (?i + 1) mod kAckRingSize" and len: "length (ar_slots ?s1) = kAckRingSize"
    and at: "ar_slots ?s1 ! ?i = \<lparr> as_valid = True, as_info = a, as_received_ms = t0 \<rparr>"
    using assms(1,2) by (simp_all add: on_config_ack_received_def Let_def)
  have d: "(?i + kAckRingSize - ar_head ?s1) mod kAckRingSize = 7"
    unfolding hd using assms(2) by (cases "?i = 7") (simp_all add: mod_if)
  have keep: "length (ar_slots ?s2) = kAckRingSize \<and> ar_slots ?s2 ! ?i = ar_slots ?s1 ! ?i"
    using ack_stores_keep [OF len, of acks ?i] hd d assms(2,3) by simp
  let ?p = "\<lambda>x. as_valid x \<and> ai_responder_uid (as_info x) = ai_responder_uid a
             \<and> ai_responder_numonce (as_info x) = ai_responder_numonce a"
  obtain j where j: "find_idx ?p (ar_slots ?s2) = Some j"
    using find_idx_exists [of ?i "ar_slots ?s2" ?p] keep at assms(2) by auto
  show ?thesis
    using j find_idx_nthD [OF j] assms(4) by (simp add: ack_scan_def)
qed

theorem ack_found_after_seven_witness:
  "\<exists>info s'. wait_for_ack 5 9 100 1000 [(1050, [])]
      (foldl (\<lambda>r (t, x). on_config_ack_received t x r)
        (on_config_ack_received 1000 (zero_ack\<lparr> ai_responder_uid := 5, ai_responder_numonce := 9 \<rparr>) clear_ack_ring)
        (replicate 7 (1001, zero_ack)))
    = (Some info, s') \<and> ai_responder_uid info = 5"
  using ack_found_after_seven [of clear_ack_ring "replicate 7 (1001, zero_ack)" 1050 1000 100
      "zero_ack\<lparr> ai_responder_uid := 5, ai_responder_numonce := 9 \<rparr>" "[]" "[]" 1000]
  by (auto simp: clear_ack_ring_def)

end
