(* ===== verification/Settings.thy ===== *)
theory Settings
  imports Wire
begin

text \<open>
  The persisted settings that the configuration channel and the radio modes read and write, from
  \<open>src/modes/persistence.cpp\<close> (the device build's functions of the same names). The NVS namespace
  is a record of optional values, \<open>None\<close> an absent key; a put replaces a value, a get returns the
  default of an absent key. Build flags are the record \<open>build_cfg\<close>; \<open>esp_random\<close> is an argument.
\<close>

record nvs =
  nv_mst_pid :: "u8 option"
  nv_mst_src_id :: "u8 option"
  nv_retx_count :: "u8 option"
  nv_pair_win_s :: "u8 option"
  nv_friendly_name :: "bytes option"
  nv_dev_uid :: "u32 option"
  nv_dev_secret :: "bytes option"
  nv_cfg_numonce :: "u64 option"
  nv_mst_chan :: "u8 option"
  nv_slv_chan :: "u8 option"
  nv_rpt_chan :: "u8 option"
  nv_slv_group :: "u8 option"
  nv_strip_bri :: "u8 option"
  nv_strip_cnt :: "u16 option"
  nv_strip_grp :: "u8 option"
  nv_slv_repeat :: "bool option"
  nv_strip_en :: "u8 option"

definition nvs_empty :: nvs where
  "nvs_empty = \<lparr> nv_mst_pid = None, nv_mst_src_id = None, nv_retx_count = None,
     nv_pair_win_s = None, nv_friendly_name = None, nv_dev_uid = None, nv_dev_secret = None,
     nv_cfg_numonce = None, nv_mst_chan = None, nv_slv_chan = None, nv_rpt_chan = None,
     nv_slv_group = None, nv_strip_bri = None, nv_strip_cnt = None, nv_strip_grp = None,
     nv_slv_repeat = None, nv_strip_en = None \<rparr>"

text \<open>The defaults that the build flags set.\<close>

record build_cfg =
  bc_retransmits :: u8
  bc_pairing_window_s :: u8
  bc_repeater_channel :: u8
  bc_strip_brightness :: u8
  bc_strip_group_size :: u8
  bc_strip_chain_size :: u16

definition get_or :: "'a option \<Rightarrow> 'a \<Rightarrow> 'a" where
  "get_or v d = (case v of None \<Rightarrow> d | Some x \<Rightarrow> x)"

section \<open>Identity and numbers\<close>

text \<open>CRC-32 (reflected polynomial) of the six MAC bytes; \<open>-(crc & 1)\<close> is the unsigned negation.\<close>

definition crc_bit :: "u32 \<Rightarrow> u32" where
  "crc_bit crc = drop_bit 1 crc XOR (0xEDB88320 AND - (crc AND 1))"

definition crc_byte :: "u32 \<Rightarrow> u8 \<Rightarrow> u32" where
  "crc_byte crc b = (crc_bit ^^ 8) (crc XOR ucast b)"

definition compute_uid_from_mac :: "bytes \<Rightarrow> u32" where
  "compute_uid_from_mac mac = NOT (foldl crc_byte 0xFFFFFFFF (take 6 mac))"

definition load_device_uid :: "nvs \<Rightarrow> u32" where
  "load_device_uid n = get_or (nv_dev_uid n) 0"

definition load_device_secret :: "nvs \<Rightarrow> bytes" where
  "load_device_secret n =
     (case nv_dev_secret n of
        Some s \<Rightarrow> if length s = 16 then s else replicate 16 0
      | None \<Rightarrow> replicate 16 0)"

definition load_config_numonce :: "nvs \<Rightarrow> u64" where
  "load_config_numonce n = get_or (nv_cfg_numonce n) 0"

definition next_config_numonce :: "nvs \<Rightarrow> u64 \<times> nvs" where
  "next_config_numonce n =
     (let next = get_or (nv_cfg_numonce n) 0 + 1 in (next, n\<lparr> nv_cfg_numonce := Some next \<rparr>))"

text \<open>Four words of \<open>esp_random\<close>, least significant byte first.\<close>

definition ensure_identity :: "bytes \<Rightarrow> u32 list \<Rightarrow> nvs \<Rightarrow> nvs" where
  "ensure_identity mac rnd n =
     (let n1 = (if get_or (nv_dev_uid n) 0 = 0
                then n\<lparr> nv_dev_uid := Some (compute_uid_from_mac mac) \<rparr> else n)
      in if length (get_or (nv_dev_secret n1) []) \<noteq> 16
         then n1\<lparr> nv_dev_secret := Some (concat (map write_u32_le (take 4 rnd))) \<rparr> else n1)"

section \<open>Radio settings\<close>

definition load_director_channel :: "nvs \<Rightarrow> u8" where
  "load_director_channel n =
     (let c = get_or (nv_mst_chan n) 1 in if c \<noteq> 1 \<and> c \<noteq> 6 \<and> c \<noteq> 11 then 1 else c)"

definition save_director_channel :: "u8 \<Rightarrow> nvs \<Rightarrow> nvs" where
  "save_director_channel c n =
     n\<lparr> nv_mst_chan := Some (if c \<noteq> 1 \<and> c \<noteq> 6 \<and> c \<noteq> 11 then 1 else c) \<rparr>"

definition load_lume_channel :: "nvs \<Rightarrow> u8" where
  "load_lume_channel n =
     (let c = get_or (nv_slv_chan n) 0 in if c \<noteq> 0 \<and> c \<noteq> 1 \<and> c \<noteq> 6 \<and> c \<noteq> 11 then 0 else c)"

definition save_lume_channel :: "u8 \<Rightarrow> nvs \<Rightarrow> nvs" where
  "save_lume_channel c n =
     n\<lparr> nv_slv_chan := Some (if c \<noteq> 0 \<and> c \<noteq> 1 \<and> c \<noteq> 6 \<and> c \<noteq> 11 then 0 else c) \<rparr>"

definition load_repeater_channel :: "build_cfg \<Rightarrow> nvs \<Rightarrow> u8" where
  "load_repeater_channel cfg n =
     (let c = get_or (nv_rpt_chan n) (bc_repeater_channel cfg)
      in if c \<noteq> 0 \<and> c \<noteq> 1 \<and> c \<noteq> 6 \<and> c \<noteq> 11 then 0 else c)"

definition save_repeater_channel :: "u8 \<Rightarrow> nvs \<Rightarrow> nvs" where
  "save_repeater_channel c n =
     n\<lparr> nv_rpt_chan := Some (if c \<noteq> 0 \<and> c \<noteq> 1 \<and> c \<noteq> 6 \<and> c \<noteq> 11 then 0 else c) \<rparr>"

definition load_director_source_id :: "nvs \<Rightarrow> u8" where
  "load_director_source_id n =
     (let i = get_or (nv_mst_src_id n) 0 in if i > 0x3F then 0 else i)"

definition save_director_source_id :: "u8 \<Rightarrow> nvs \<Rightarrow> nvs" where
  "save_director_source_id i n = n\<lparr> nv_mst_src_id := Some (if i > 0x3F then 0 else i) \<rparr>"

definition roll_perf_id :: "u32 \<Rightarrow> u8" where
  "roll_perf_id rnd = ucast (0x40 + rnd mod 191)"

definition load_director_perf_source_id :: "u32 \<Rightarrow> nvs \<Rightarrow> u8 \<times> nvs" where
  "load_director_perf_source_id rnd n =
     (let i = get_or (nv_mst_pid n) 0 in
      if i < 0x40 \<or> i > 0xFE
      then (roll_perf_id rnd, n\<lparr> nv_mst_pid := Some (roll_perf_id rnd) \<rparr>)
      else (i, n))"

definition save_director_perf_source_id :: "u8 \<Rightarrow> nvs \<Rightarrow> nvs" where
  "save_director_perf_source_id i n =
     (if i < 0x40 \<or> i > 0xFE then n else n\<lparr> nv_mst_pid := Some i \<rparr>)"

definition reroll_director_perf_source_id :: "u32 \<Rightarrow> nvs \<Rightarrow> u8 \<times> nvs" where
  "reroll_director_perf_source_id rnd n =
     (roll_perf_id rnd, n\<lparr> nv_mst_pid := Some (roll_perf_id rnd) \<rparr>)"

definition clamp_retx :: "u8 \<Rightarrow> u8" where
  "clamp_retx v = (let v = (if v < 1 then 1 else v) in if v > 5 then 5 else v)"

definition load_retx_count :: "build_cfg \<Rightarrow> nvs \<Rightarrow> u8 \<times> nvs" where
  "load_retx_count cfg n =
     (case nv_retx_count n of
        Some v \<Rightarrow> (clamp_retx v, n)
      | None \<Rightarrow> (clamp_retx (bc_retransmits cfg), n\<lparr> nv_retx_count := Some (bc_retransmits cfg) \<rparr>))"

definition save_retx_count :: "u8 \<Rightarrow> nvs \<Rightarrow> nvs" where
  "save_retx_count v n = n\<lparr> nv_retx_count := Some (clamp_retx v) \<rparr>"

section \<open>Device settings\<close>

text \<open>The comparison with 255 never holds of a byte; it is in the code.\<close>

definition clamp_pair_win :: "u8 \<Rightarrow> u8" where
  "clamp_pair_win s = (let s = (if s < 5 then 5 else s) in if s > 255 then 255 else s)"

definition load_pair_win_s :: "build_cfg \<Rightarrow> nvs \<Rightarrow> u8" where
  "load_pair_win_s cfg n = clamp_pair_win (get_or (nv_pair_win_s n) (bc_pairing_window_s cfg))"

definition save_pair_win_s :: "u8 \<Rightarrow> nvs \<Rightarrow> nvs" where
  "save_pair_win_s s n = n\<lparr> nv_pair_win_s := Some (clamp_pair_win s) \<rparr>"

text \<open>A C string argument is the list of its bytes before the NUL.\<close>

definition save_friendly_name :: "bytes \<Rightarrow> nvs \<Rightarrow> nvs" where
  "save_friendly_name nm n =
     (let s = takeWhile (\<lambda>b. b \<noteq> 0) nm in
      n\<lparr> nv_friendly_name := (if s = [] then None else Some (take 20 s)) \<rparr>)"

text \<open>\<open>getString\<close> truncates what it reads to the caller's buffer, NUL included; 20 bytes at most are returned.\<close>

definition load_friendly_name :: "nat \<Rightarrow> nvs \<Rightarrow> bytes" where
  "load_friendly_name buflen n =
     (if buflen = 0 then [] else take 20 (take (buflen - 1) (get_or (nv_friendly_name n) [])))"

definition load_lume_repeat_enabled :: "nvs \<Rightarrow> bool" where
  "load_lume_repeat_enabled n = get_or (nv_slv_repeat n) False"

definition save_lume_repeat_enabled :: "bool \<Rightarrow> nvs \<Rightarrow> nvs" where
  "save_lume_repeat_enabled e n = n\<lparr> nv_slv_repeat := Some e \<rparr>"

definition load_strip_enabled :: "nvs \<Rightarrow> bool" where
  "load_strip_enabled n \<longleftrightarrow> get_or (nv_strip_en n) 1 \<noteq> 0"

definition save_strip_enabled :: "bool \<Rightarrow> nvs \<Rightarrow> nvs" where
  "save_strip_enabled e n = n\<lparr> nv_strip_en := Some (if e then 1 else 0) \<rparr>"

definition load_lume_group :: "u32 \<Rightarrow> nvs \<Rightarrow> u8 \<times> nvs" where
  "load_lume_group rnd n =
     (case nv_slv_group n of
        Some g \<Rightarrow> (g, n)
      | None \<Rightarrow> (ucast (1 + rnd mod 3), n\<lparr> nv_slv_group := Some (ucast (1 + rnd mod 3)) \<rparr>))"

definition save_lume_group :: "u8 \<Rightarrow> nvs \<Rightarrow> nvs" where
  "save_lume_group g n = n\<lparr> nv_slv_group := Some g \<rparr>"

definition load_strip_brightness :: "build_cfg \<Rightarrow> nvs \<Rightarrow> u8" where
  "load_strip_brightness cfg n =
     (let pct = get_or (nv_strip_bri n) (bc_strip_brightness cfg) in if pct > 100 then 100 else pct)"

definition save_strip_brightness :: "u8 \<Rightarrow> nvs \<Rightarrow> nvs" where
  "save_strip_brightness pct n = n\<lparr> nv_strip_bri := Some (if pct > 100 then 100 else pct) \<rparr>"

definition clamp_chain :: "build_cfg \<Rightarrow> u16 \<Rightarrow> u16" where
  "clamp_chain cfg v =
     (let v = (if v = 0 then bc_strip_chain_size cfg else v) in if v > 288 then 288 else v)"

definition load_strip_chain_size :: "build_cfg \<Rightarrow> nvs \<Rightarrow> u16" where
  "load_strip_chain_size cfg n = clamp_chain cfg (get_or (nv_strip_cnt n) (bc_strip_chain_size cfg))"

definition save_strip_chain_size :: "build_cfg \<Rightarrow> u16 \<Rightarrow> nvs \<Rightarrow> nvs" where
  "save_strip_chain_size cfg v n = n\<lparr> nv_strip_cnt := Some (clamp_chain cfg v) \<rparr>"

definition load_strip_group_size :: "build_cfg \<Rightarrow> nvs \<Rightarrow> u8" where
  "load_strip_group_size cfg n =
     (let v = get_or (nv_strip_grp n) (bc_strip_group_size cfg) in if v = 0 then 1 else v)"

definition save_strip_group_size :: "u8 \<Rightarrow> nvs \<Rightarrow> nvs" where
  "save_strip_group_size v n = n\<lparr> nv_strip_grp := Some (if v = 0 then 1 else v) \<rparr>"

section \<open>What a reader may rely on\<close>

lemma unat_mod_u32: "unat (x mod y) = unat x mod unat (y :: u32)"
  by (simp add: unat_mod)

lemma roll_perf_id_range: "0x40 \<le> roll_perf_id rnd \<and> roll_perf_id rnd \<le> 0xFE"
proof -
  have lt: "unat (rnd mod 191) < 191" by (simp add: unat_mod)
  then have s: "unat (0x40 + rnd mod 191) = 64 + unat (rnd mod 191)"
    by (simp add: unat_plus_if_size word_size)
  have "unat (roll_perf_id rnd) = 64 + unat (rnd mod 191)"
    using lt s by (simp add: roll_perf_id_def unsigned_ucast_eq take_bit_eq_mod)
  with lt show ?thesis by (simp add: word_le_nat_alt)
qed

lemma clamp_retx_range: "1 \<le> clamp_retx v \<and> clamp_retx v \<le> 5"
  by (auto simp: clamp_retx_def Let_def not_less word_le_nat_alt unat_gt_0 Suc_le_eq)

lemma clamp_chain_range: "bc_strip_chain_size cfg \<noteq> 0 \<Longrightarrow> 1 \<le> clamp_chain cfg v \<and> clamp_chain cfg v \<le> 288"
  by (auto simp: clamp_chain_def Let_def not_less word_le_nat_alt unat_gt_0 Suc_le_eq)

text \<open>Corrupt or foreign storage cannot push the radio out of its ranges. Whatever the stored
  bytes are, the loaded channels are 1, 6 or 11 (0 for auto on the receiving roles), the community id
  and the performance id lie in their disjoint ranges, the retransmit count is 1 to 5, and a performance
  id drawn at random is drawn once: every later load returns the same one.\<close>

theorem settings_loads_in_range:
  "load_director_channel n \<in> {1, 6, 11} \<and> load_lume_channel n \<in> {0, 1, 6, 11}
    \<and> load_repeater_channel cfg n \<in> {0, 1, 6, 11}
    \<and> is_community_range (ucast (load_director_source_id n))
    \<and> is_performance_range (ucast (fst (load_director_perf_source_id rnd n)))
    \<and> 1 \<le> fst (load_retx_count cfg n) \<and> fst (load_retx_count cfg n) \<le> 5
    \<and> fst (load_director_perf_source_id rnd' (snd (load_director_perf_source_id rnd n)))
        = fst (load_director_perf_source_id rnd n)"
proof -
  have c: "is_community_range (ucast (load_director_source_id n))"
    by (auto simp: load_director_source_id_def is_community_range_def word_le_nat_alt
        word_less_nat_alt not_less Let_def unsigned_ucast_eq take_bit_eq_mod)
  have r: "\<not> (roll_perf_id rnd < 0x40 \<or> roll_perf_id rnd > 0xFE)"
    using roll_perf_id_range [of rnd] by auto
  have "\<not> (i < 0x40 \<or> i > 0xFE) \<Longrightarrow> is_performance_range (ucast i)" for i :: u8
    by (auto simp: is_performance_range_def word_le_nat_alt word_less_nat_alt not_less
        unsigned_ucast_eq take_bit_eq_mod)
  then have p: "is_performance_range (ucast (fst (load_director_perf_source_id rnd n)))"
    using r by (auto simp: load_director_perf_source_id_def Let_def)
  have s: "fst (load_director_perf_source_id rnd' (snd (load_director_perf_source_id rnd n)))
        = fst (load_director_perf_source_id rnd n)"
    using r by (auto simp: load_director_perf_source_id_def get_or_def Let_def)
  show ?thesis
    using c p s clamp_retx_range
    by (auto simp: load_director_channel_def load_lume_channel_def load_repeater_channel_def
        load_retx_count_def Let_def split: option.splits)
qed

end
