(* ===== verification/ConfigApply.thy ===== *)
theory ConfigApply
  imports ConfigChannel Settings
begin

text \<open>
  What a recognised property-bag entry does: \<open>apply_config_entry\<close> of
  \<open>src/ble/config_apply.cpp\<close>, the callback that both the BLE service and the radio configuration
  channel hand to the bag decoder. Its context is the role, the out-of-range flag and the persisted
  settings. The keys are those of \<open>src/ble/property_bag_tlv.h\<close>, as bytes.
\<close>

text \<open>\<open>group, led_power, channel_pref, strip_chain, strip_group_size, dir_sid_perf, retx_count,
  pair_win_s, friendly_name\<close>.\<close>

definition kGroup :: bytes where
  "kGroup = [103, 114, 111, 117, 112]"

definition kLedPower :: bytes where
  "kLedPower = [108, 101, 100, 95, 112, 111, 119, 101, 114]"

definition kChannelPref :: bytes where
  "kChannelPref = [99, 104, 97, 110, 110, 101, 108, 95, 112, 114, 101, 102]"

definition kStripChain :: bytes where
  "kStripChain = [115, 116, 114, 105, 112, 95, 99, 104, 97, 105, 110]"

definition kStripGroupSize :: bytes where
  "kStripGroupSize = [115, 116, 114, 105, 112, 95, 103, 114, 111, 117, 112, 95, 115, 105, 122, 101]"

definition kDirSidPerf :: bytes where
  "kDirSidPerf = [100, 105, 114, 95, 115, 105, 100, 95, 112, 101, 114, 102]"

definition kRetxCount :: bytes where
  "kRetxCount = [114, 101, 116, 120, 95, 99, 111, 117, 110, 116]"

definition kPairWinS :: bytes where
  "kPairWinS = [112, 97, 105, 114, 95, 119, 105, 110, 95, 115]"

definition kFriendlyName :: bytes where
  "kFriendlyName = [102, 114, 105, 101, 110, 100, 108, 121, 95, 110, 97, 109, 101]"

datatype Role = Director | Lume

record apply_ctx =
  ac_role :: Role
  ac_value_out_of_range :: bool
  ac_nvs :: nvs

text \<open>The key as \<open>strcmp\<close> sees it: at most 31 bytes, up to the first NUL.\<close>

definition key_cstr :: "tlv_entry \<Rightarrow> bytes" where
  "key_cstr e = takeWhile (\<lambda>b. b \<noteq> 0) (take 31 (te_key e))"

definition read_u8 :: "tlv_entry \<Rightarrow> u8 option" where
  "read_u8 e = (if te_type e \<noteq> vt_code VtU8 \<or> length (te_value e) \<noteq> 1 then None
                else Some (te_value e ! 0))"

definition out_of_range :: "apply_ctx \<Rightarrow> apply_ctx" where
  "out_of_range ctx = ctx\<lparr> ac_value_out_of_range := True \<rparr>"

definition store :: "(nvs \<Rightarrow> nvs) \<Rightarrow> apply_ctx \<Rightarrow> apply_ctx" where
  "store f ctx = ctx\<lparr> ac_nvs := f (ac_nvs ctx) \<rparr>"

text \<open>A key whose value is one byte: out of range when the byte is not there.\<close>

definition store_u8 :: "tlv_entry \<Rightarrow> (u8 \<Rightarrow> nvs \<Rightarrow> nvs) \<Rightarrow> apply_ctx \<Rightarrow> apply_ctx" where
  "store_u8 e f ctx = (case read_u8 e of None \<Rightarrow> out_of_range ctx | Some v \<Rightarrow> store (f v) ctx)"

text \<open>The keys of one role; \<open>None\<close> falls through to the keys common to both.\<close>

definition apply_role_key :: "build_cfg \<Rightarrow> tlv_entry \<Rightarrow> apply_ctx \<Rightarrow> apply_ctx option" where
  "apply_role_key cfg e ctx =
     (let k = key_cstr e in
      if ac_role ctx = Director then
        (if k = kDirSidPerf then
           (case read_u8 e of
              None \<Rightarrow> Some (out_of_range ctx)
            | Some v \<Rightarrow> if v < 0x40 \<or> v > 0xFE then Some (out_of_range ctx)
                        else Some (store (save_director_perf_source_id v) ctx))
         else if k = kRetxCount then Some (store_u8 e save_retx_count ctx)
         else None)
      else
        (if k = kGroup then Some (store_u8 e save_lume_group ctx)
         else if k = kLedPower then Some (store_u8 e save_strip_brightness ctx)
         else if k = kChannelPref then Some (store_u8 e save_lume_channel ctx)
         else if k = kStripChain then
           (if te_type e \<noteq> vt_code VtU16 \<or> length (te_value e) \<noteq> 2 then Some (out_of_range ctx)
            else Some (store (save_strip_chain_size cfg (read_u16_le (te_value e))) ctx))
         else if k = kStripGroupSize then Some (store_u8 e save_strip_group_size ctx)
         else None))"

definition apply_config_entry :: "build_cfg \<Rightarrow> tlv_entry \<Rightarrow> apply_ctx \<Rightarrow> bool \<times> apply_ctx" where
  "apply_config_entry cfg e ctx =
     (case apply_role_key cfg e ctx of
        Some ctx' \<Rightarrow> (True, ctx')
      | None \<Rightarrow>
          if key_cstr e = kPairWinS then (True, store_u8 e save_pair_win_s ctx)
          else if key_cstr e = kFriendlyName then
            (if te_type e \<noteq> vt_code VtUtf8 then (True, out_of_range ctx)
             else (True, store (save_friendly_name (take 20 (te_value e))) ctx))
          else (True, ctx))"

section \<open>What a command can reach\<close>

text \<open>The settings no command touches: identity, secret, numbers, and the channels and community id of
  the other roles.\<close>

definition protected :: "nvs \<Rightarrow> u32 option \<times> bytes option \<times> u64 option \<times> u8 option \<times> u8 option \<times> u8 option"
  where "protected n = (nv_dev_uid n, nv_dev_secret n, nv_cfg_numonce n, nv_mst_chan n,
     nv_rpt_chan n, nv_mst_src_id n)"

lemmas save_defs = save_director_perf_source_id_def save_retx_count_def save_lume_group_def
  save_strip_brightness_def save_lume_channel_def save_strip_chain_size_def
  save_strip_group_size_def save_pair_win_s_def save_friendly_name_def

lemmas apply_defs = apply_config_entry_def apply_role_key_def store_u8_def store_def out_of_range_def

lemma protected_save [simp]:
  "protected (save_director_perf_source_id v n) = protected n"
  "protected (save_retx_count v n) = protected n"
  "protected (save_lume_group v n) = protected n"
  "protected (save_strip_brightness v n) = protected n"
  "protected (save_lume_channel v n) = protected n"
  "protected (save_strip_chain_size cfg w n) = protected n"
  "protected (save_strip_group_size v n) = protected n"
  "protected (save_pair_win_s v n) = protected n"
  "protected (save_friendly_name nm n) = protected n"
  by (simp_all add: protected_def save_defs Let_def)

text \<open>The writes that an entry can cause, by role.\<close>

inductive entry_write :: "build_cfg \<Rightarrow> Role \<Rightarrow> (nvs \<Rightarrow> nvs) \<Rightarrow> bool" for cfg where
  "entry_write cfg Director (save_director_perf_source_id v)"
| "entry_write cfg Director (save_retx_count v)"
| "entry_write cfg Lume (save_lume_group v)"
| "entry_write cfg Lume (save_strip_brightness v)"
| "entry_write cfg Lume (save_lume_channel v)"
| "entry_write cfg Lume (save_strip_chain_size cfg w)"
| "entry_write cfg Lume (save_strip_group_size v)"
| "entry_write cfg r (save_pair_win_s v)"
| "entry_write cfg r (save_friendly_name nm)"

inductive_cases entry_writeE: "entry_write cfg r f"

definition effect_ok :: "build_cfg \<Rightarrow> apply_ctx \<Rightarrow> apply_ctx \<Rightarrow> bool" where
  "effect_ok cfg ctx ctx' \<longleftrightarrow> ctx' = ctx \<or> ctx' = out_of_range ctx
     \<or> (\<exists>f. entry_write cfg (ac_role ctx) f \<and> ctx' = store f ctx)"

lemma effect_okI:
  "effect_ok cfg ctx ctx" "effect_ok cfg ctx (out_of_range ctx)"
  "entry_write cfg (ac_role ctx) f \<Longrightarrow> effect_ok cfg ctx (store f ctx)"
  by (auto simp: effect_ok_def)

lemma effect_ok_store_u8:
  "(\<And>v. entry_write cfg (ac_role ctx) (f v)) \<Longrightarrow> effect_ok cfg ctx (store_u8 e f ctx)"
  by (simp add: store_u8_def effect_okI split: option.split)

lemma apply_role_key_effect:
  "apply_role_key cfg e ctx = Some ctx' \<Longrightarrow> effect_ok cfg ctx ctx'"
  by (cases "ac_role ctx")
    (auto simp: apply_role_key_def Let_def intro!: effect_okI effect_ok_store_u8 entry_write.intros
      split: if_splits option.splits)

lemma apply_config_entry_effect:
  "\<exists>ctx'. apply_config_entry cfg e ctx = (True, ctx') \<and> effect_ok cfg ctx ctx'"
proof (cases "apply_role_key cfg e ctx")
  case (Some ctx')
  then show ?thesis using apply_role_key_effect [OF Some] by (simp add: apply_config_entry_def)
next
  case None
  then show ?thesis
    by (simp add: apply_config_entry_def effect_okI effect_ok_store_u8 entry_write.intros)
qed

lemma effect_ok_frame:
  assumes "effect_ok cfg ctx ctx'"
  shows "ac_role ctx' = ac_role ctx" and "protected (ac_nvs ctx') = protected (ac_nvs ctx)"
    and "ac_value_out_of_range ctx \<Longrightarrow> ac_value_out_of_range ctx'"
  using assms by (auto simp: effect_ok_def out_of_range_def store_def elim!: entry_writeE)

text \<open>The director's keys and the lights' keys, as stored.\<close>

definition director_keys :: "nvs \<Rightarrow> u8 option \<times> u8 option" where
  "director_keys n = (nv_mst_pid n, nv_retx_count n)"

definition lume_keys ::
  "nvs \<Rightarrow> u8 option \<times> u8 option \<times> u8 option \<times> u16 option \<times> u8 option" where
  "lume_keys n = (nv_slv_group n, nv_strip_bri n, nv_slv_chan n, nv_strip_cnt n, nv_strip_grp n)"

lemma effect_ok_role:
  assumes "effect_ok cfg ctx ctx'"
  shows "ac_role ctx = Lume \<Longrightarrow> director_keys (ac_nvs ctx') = director_keys (ac_nvs ctx)"
    and "ac_role ctx = Director \<Longrightarrow> lume_keys (ac_nvs ctx') = lume_keys (ac_nvs ctx)"
  using assms
  by (auto simp: effect_ok_def out_of_range_def store_def director_keys_def lume_keys_def
      save_defs Let_def elim!: entry_writeE)

section \<open>Walking a bag\<close>

lemma walk_inv:
  assumes "\<And>e c. P c \<Longrightarrow> fst (cb e c) \<and> P (snd (cb e c))" and "P ctx"
  shows "fst (decode_entries n buf off cb ctx) \<noteq> TlvCallbackAbort
    \<and> P (snd (decode_entries n buf off cb ctx))"
  using assms(2)
proof (induction n arbitrary: off ctx)
  case 0
  then show ?case by simp
next
  case (Suc n)
  show ?case
  proof (cases "parse_entry buf off")
    case None
    with Suc.prems show ?thesis by simp
  next
    case (Some p)
    obtain e off' where p: "p = (e, off')" by (cases p)
    obtain go c where cb: "cb e ctx = (go, c)" by fastforce
    have "go" "P c" using assms(1) [OF Suc.prems, of e] cb by auto
    with Suc.IH [of c off'] Some p cb show ?thesis by simp
  qed
qed

text \<open>C36: A configuration command cannot rewrite who the device is. Whatever bytes a bag holds, walking it
  with \<open>apply_config_entry\<close> never aborts, leaves the uid, the secret, the command numbers, the Director
  and repeater channels and the community id as they were, keeps the role, and writes none of the other
  role's settings; a value-out-of-range mark, once set, stays.\<close>

theorem apply_bag_confined:
  assumes "decode_property_bag bag (Some (apply_config_entry cfg)) ctx = (err, ctx')"
  shows "err \<noteq> TlvCallbackAbort \<and> ac_role ctx' = ac_role ctx
    \<and> protected (ac_nvs ctx') = protected (ac_nvs ctx)
    \<and> (ac_role ctx = Lume \<longrightarrow> director_keys (ac_nvs ctx') = director_keys (ac_nvs ctx))
    \<and> (ac_role ctx = Director \<longrightarrow> lume_keys (ac_nvs ctx') = lume_keys (ac_nvs ctx))
    \<and> (ac_value_out_of_range ctx \<longrightarrow> ac_value_out_of_range ctx')"
proof -
  let ?P = "\<lambda>c. ac_role c = ac_role ctx \<and> protected (ac_nvs c) = protected (ac_nvs ctx)
    \<and> (ac_role ctx = Lume \<longrightarrow> director_keys (ac_nvs c) = director_keys (ac_nvs ctx))
    \<and> (ac_role ctx = Director \<longrightarrow> lume_keys (ac_nvs c) = lume_keys (ac_nvs ctx))
    \<and> (ac_value_out_of_range ctx \<longrightarrow> ac_value_out_of_range c)"
  have step: "fst (apply_config_entry cfg e c) \<and> ?P (snd (apply_config_entry cfg e c))" if "?P c" for e c
  proof -
    obtain c' where c': "apply_config_entry cfg e c = (True, c')" and e: "effect_ok cfg c c'"
      using apply_config_entry_effect by blast
    from effect_ok_frame [OF e] effect_ok_role [OF e] that show ?thesis by (simp add: c')
  qed
  have W: "fst (decode_entries n bag off (apply_config_entry cfg) ctx) \<noteq> TlvCallbackAbort
      \<and> ?P (snd (decode_entries n bag off (apply_config_entry cfg) ctx))" for n off
    by (rule walk_inv [where P = ?P, OF step]) simp_all
  show ?thesis
    using assms W [of "unat (bag ! 0)" 1]
    by (auto simp: decode_property_bag_def split: if_splits)
qed

theorem apply_bag_confined_witness:
  "protected (ac_nvs (snd (decode_property_bag [1, 5, 103, 114, 111, 117, 112, 0, 1, 9]
      (Some (apply_config_entry \<lparr> bc_retransmits = 2, bc_pairing_window_s = 30,
          bc_repeater_channel = 0, bc_strip_brightness = 1, bc_strip_group_size = 12,
          bc_strip_chain_size = 29 \<rparr>))
      \<lparr> ac_role = Lume, ac_value_out_of_range = False, ac_nvs = nvs_empty \<rparr>)))
    = protected nvs_empty"
  using apply_bag_confined [OF prod.collapse [symmetric], of "[1, 5, 103, 114, 111, 117, 112, 0, 1, 9]"
      "\<lparr> bc_retransmits = 2, bc_pairing_window_s = 30,
          bc_repeater_channel = 0, bc_strip_brightness = 1, bc_strip_group_size = 12,
          bc_strip_chain_size = 29 \<rparr>"
      "\<lparr> ac_role = Lume, ac_value_out_of_range = False, ac_nvs = nvs_empty \<rparr>"]
  by (simp only: apply_ctx.select_convs simp_thms)

end
