(* ===== verification/PairRegister.thy ===== *)
theory PairRegister
  imports Noct_Prelude "HOL-Library.Multiset"
begin

text \<open>
  The register of paired devices: class \<open>PairRegister\<close> of \<open>src/ble/pair_register.h\<close> and
  \<open>.cpp\<close>, twenty entries ordered by a sequence number of insertion, the oldest evicted for a new
  device. The persisted blob is its six header bytes and the entries that \<open>memcpy\<close> copies behind
  them; reading back a struct that the same build wrote is the identity.
\<close>

record register_entry =
  re_uid :: u32
  re_secret :: bytes
  re_role :: u8
  re_host :: u8
  re_friendly_name :: bytes
  re_captured_at :: u32
  re_last_configured_at :: u32
  re_snap_group :: u8
  re_snap_led_power :: u8
  re_snap_channel_pref :: u8
  re_snap_strip_chain :: u16
  re_snap_strip_group_size :: u8
  re_snap_pair_win_s :: u8
  re_snap_valid :: u8

record config_snapshot =
  sn_group :: u8
  sn_led_power :: u8
  sn_channel_pref :: u8
  sn_strip_chain :: u16
  sn_strip_group_size :: u8
  sn_pair_win_s :: u8

abbreviation kMaxEntries :: nat where "kMaxEntries \<equiv> 20"

text \<open>The array, the count, the sequence counter, and the blob last written to storage.\<close>

record pair_register =
  pr_entries :: "register_entry list"
  pr_count :: nat
  pr_next_sequence :: u32
  pr_blob :: "(bytes \<times> register_entry list) option"

definition zero_entry :: register_entry where
  "zero_entry = \<lparr> re_uid = 0, re_secret = replicate 16 0, re_role = 0, re_host = 0,
     re_friendly_name = replicate 21 0, re_captured_at = 0, re_last_configured_at = 0,
     re_snap_group = 0, re_snap_led_power = 0, re_snap_channel_pref = 0, re_snap_strip_chain = 0,
     re_snap_strip_group_size = 0, re_snap_pair_win_s = 0, re_snap_valid = 0 \<rparr>"

section \<open>Storage\<close>

abbreviation kBlobVersion :: u8 where "kBlobVersion \<equiv> 2"

definition pr_clear_in_memory :: "pair_register \<Rightarrow> pair_register" where
  "pr_clear_in_memory s = s\<lparr> pr_entries := replicate kMaxEntries zero_entry, pr_count := 0,
     pr_next_sequence := 1 \<rparr>"

definition pr_save :: "pair_register \<Rightarrow> pair_register" where
  "pr_save s = s\<lparr> pr_blob := Some
     ([kBlobVersion, of_nat (pr_count s)] @ write_u32_le (pr_next_sequence s),
      take (pr_count s) (pr_entries s)) \<rparr>"

definition pr_load :: "pair_register \<Rightarrow> pair_register" where
  "pr_load s =
     (let s0 = pr_clear_in_memory s in
      case pr_blob s of
        None \<Rightarrow> s0
      | Some (raw, stored) \<Rightarrow>
          if length raw < 6 then s0
          else if raw ! 0 \<noteq> kBlobVersion then s0
          else let count = unat (raw ! 1); seq = read_u32_le (drop 2 raw) in
            if count > kMaxEntries \<or> length stored < count then s0
            else s0\<lparr> pr_count := count,
                     pr_next_sequence := (if seq \<noteq> 0 then seq else 1),
                     pr_entries := take count stored @ drop count (pr_entries s0) \<rparr>)"

definition pr_init :: pair_register where
  "pr_init = pr_load \<lparr> pr_entries = replicate kMaxEntries zero_entry, pr_count = 0,
     pr_next_sequence = 1, pr_blob = None \<rparr>"

section \<open>Operations\<close>

definition pr_next_sequence_step :: "pair_register \<Rightarrow> u32 \<times> pair_register" where
  "pr_next_sequence_step s =
     (pr_next_sequence s,
      if pr_next_sequence s < 0xFFFFFFF0 then s\<lparr> pr_next_sequence := pr_next_sequence s + 1 \<rparr> else s)"

definition pr_live :: "pair_register \<Rightarrow> register_entry list" where
  "pr_live s = take (pr_count s) (pr_entries s)"

definition pr_index :: "u32 \<Rightarrow> pair_register \<Rightarrow> nat option" where
  "pr_index uid s = find_idx (\<lambda>e. re_uid e = uid) (pr_live s)"

definition pr_add :: "register_entry \<Rightarrow> pair_register \<Rightarrow> bool \<times> pair_register" where
  "pr_add e s =
     (case pr_index (re_uid e) s of
        Some i \<Rightarrow>
          (True, pr_save (s\<lparr> pr_entries := (pr_entries s)[i :=
             e\<lparr> re_captured_at := re_captured_at (pr_entries s ! i),
                re_last_configured_at := re_last_configured_at (pr_entries s ! i) \<rparr>] \<rparr>))
      | None \<Rightarrow>
          let (slot, s1) = (if pr_count s \<ge> kMaxEntries
                            then (oldest_idx re_captured_at (pr_entries s), s)
                            else (pr_count s, s\<lparr> pr_count := pr_count s + 1 \<rparr>));
              (seq, s2) = pr_next_sequence_step s1
          in (True, pr_save (s2\<lparr> pr_entries := (pr_entries s2)[slot := e\<lparr> re_captured_at := seq \<rparr>] \<rparr>)))"

text \<open>Removal shifts the entries behind the slot down and zeroes the last one.\<close>

definition pr_remove :: "u32 \<Rightarrow> pair_register \<Rightarrow> bool \<times> pair_register" where
  "pr_remove uid s =
     (case pr_index uid s of
        Some i \<Rightarrow>
          let shifted = foldl (\<lambda>es j. es[j - 1 := es ! j]) (pr_entries s) [i + 1..<pr_count s];
              c = pr_count s - 1
          in (True, pr_save (s\<lparr> pr_entries := shifted[c := zero_entry], pr_count := c \<rparr>))
      | None \<Rightarrow> (False, s))"

definition pr_find :: "u32 \<Rightarrow> pair_register \<Rightarrow> register_entry option" where
  "pr_find uid s = map_option (\<lambda>i. pr_entries s ! i) (pr_index uid s)"

definition pr_mark_configured :: "u32 \<Rightarrow> pair_register \<Rightarrow> bool \<times> pair_register" where
  "pr_mark_configured uid s =
     (case pr_index uid s of
        Some i \<Rightarrow>
          let (seq, s1) = pr_next_sequence_step s in
          (True, pr_save (s1\<lparr> pr_entries := (pr_entries s1)[i :=
             (pr_entries s1 ! i)\<lparr> re_last_configured_at := seq \<rparr>] \<rparr>))
      | None \<Rightarrow> (False, s))"

definition pr_update_snapshot :: "u32 \<Rightarrow> config_snapshot \<Rightarrow> pair_register \<Rightarrow> bool \<times> pair_register" where
  "pr_update_snapshot uid sn s =
     (case pr_index uid s of
        Some i \<Rightarrow>
          let (seq, s1) = pr_next_sequence_step s in
          (True, pr_save (s1\<lparr> pr_entries := (pr_entries s1)[i :=
             (pr_entries s1 ! i)\<lparr>
               re_snap_group := sn_group sn, re_snap_led_power := sn_led_power sn,
               re_snap_channel_pref := sn_channel_pref sn, re_snap_strip_chain := sn_strip_chain sn,
               re_snap_strip_group_size := sn_strip_group_size sn,
               re_snap_pair_win_s := sn_pair_win_s sn, re_snap_valid := 1,
               re_last_configured_at := seq \<rparr>] \<rparr>))
      | None \<Rightarrow> (False, s))"

section \<open>Sorted views\<close>

text \<open>The number of entries ranked above entry \<open>i\<close>: later captures, and equal ones at lower indices.\<close>

definition rank_above :: "register_entry list \<Rightarrow> nat \<Rightarrow> nat" where
  "rank_above es i = length (filter (\<lambda>j. j \<noteq> i
      \<and> (re_captured_at (es ! j) > re_captured_at (es ! i)
         \<or> re_captured_at (es ! j) = re_captured_at (es ! i) \<and> j < i)) [0..<length es])"

definition nth_sorted :: "nat \<Rightarrow> pair_register \<Rightarrow> register_entry option" where
  "nth_sorted sorted_index s =
     (if sorted_index \<ge> pr_count s then None
      else map_option (\<lambda>i. pr_entries s ! i)
        (find_idx (\<lambda>i. rank_above (pr_live s) i = sorted_index) [0..<pr_count s]))"

text \<open>The inner loop of the insertion sort, and the sort.\<close>

fun insert_shift :: "register_entry list \<Rightarrow> nat \<Rightarrow> register_entry \<Rightarrow> register_entry list" where
  "insert_shift out 0 key = out[0 := key]"
| "insert_shift out (Suc j) key =
     (if re_captured_at (out ! j) < re_captured_at key
      then insert_shift (out[Suc j := out ! j]) j key
      else out[Suc j := key])"

definition list_sorted_by_captured_at :: "nat \<Rightarrow> pair_register \<Rightarrow> register_entry list" where
  "list_sorted_by_captured_at cap s =
     (let n = (if pr_count s < cap then pr_count s else cap) in
      foldl (\<lambda>out i. insert_shift out i (out ! i)) (take n (pr_entries s)) [1..<n])"

section \<open>Invariant\<close>

text \<open>The array past the count is zero, uids are distinct, and until the sequence counter reaches its
  clamp the capture numbers are distinct and below it.\<close>

abbreviation kSeqClamp :: u32 where "kSeqClamp \<equiv> 0xFFFFFFF0"

definition pr_inv :: "pair_register \<Rightarrow> bool" where
  "pr_inv s \<longleftrightarrow> length (pr_entries s) = kMaxEntries \<and> pr_count s \<le> kMaxEntries
     \<and> drop (pr_count s) (pr_entries s) = replicate (kMaxEntries - pr_count s) zero_entry
     \<and> distinct (map re_uid (pr_live s))
     \<and> 1 \<le> pr_next_sequence s \<and> pr_next_sequence s \<le> kSeqClamp
     \<and> (pr_next_sequence s < kSeqClamp \<longrightarrow> distinct (map re_captured_at (pr_live s))
          \<and> (\<forall>e \<in> set (pr_live s). re_captured_at e < pr_next_sequence s))"

lemma pr_invD:
  assumes "pr_inv s"
  shows "length (pr_entries s) = kMaxEntries" "pr_count s \<le> kMaxEntries"
    "drop (pr_count s) (pr_entries s) = replicate (kMaxEntries - pr_count s) zero_entry"
    "distinct (map re_uid (pr_live s))" "length (pr_live s) = pr_count s"
    "1 \<le> pr_next_sequence s" "pr_next_sequence s \<le> kSeqClamp"
  using assms unfolding pr_inv_def by (simp_all add: pr_live_def)

lemma pr_inv_seqD:
  assumes "pr_inv s" and "pr_next_sequence s < kSeqClamp"
  shows "distinct (map re_captured_at (pr_live s))"
    and "e \<in> set (pr_live s) \<Longrightarrow> re_captured_at e < pr_next_sequence s"
  using assms unfolding pr_inv_def by blast+

lemma pr_save_sel [simp]:
  "pr_entries (pr_save s) = pr_entries s" "pr_count (pr_save s) = pr_count s"
  "pr_next_sequence (pr_save s) = pr_next_sequence s" "pr_live (pr_save s) = pr_live s"
  by (simp_all add: pr_save_def pr_live_def)

lemma pr_inv_save [simp]: "pr_inv (pr_save s) = pr_inv s"
  by (simp add: pr_inv_def)

lemma pr_init_inv: "pr_inv pr_init"
  by (simp add: pr_inv_def pr_init_def pr_load_def pr_clear_in_memory_def pr_live_def)

lemma pr_index_SomeD:
  "pr_index uid s = Some i \<Longrightarrow> i < length (pr_live s) \<and> re_uid (pr_live s ! i) = uid"
  unfolding pr_index_def by (drule find_idx_SomeD) simp

lemma pr_index_None: "pr_index uid s = None \<longleftrightarrow> uid \<notin> re_uid ` set (pr_live s)"
  by (auto simp: pr_index_def find_idx_None)

lemma pr_live_nth: "i < length (pr_live s) \<Longrightarrow> pr_live s ! i = pr_entries s ! i"
  by (simp add: pr_live_def)

text \<open>Updating a live entry in place.\<close>

lemma pr_update_live:
  assumes "pr_inv s" and "i < pr_count s"
    and "pr_entries s' = (pr_entries s)[i := x]" and "pr_count s' = pr_count s"
  shows "pr_live s' = (pr_live s)[i := x]"
    and "drop (pr_count s') (pr_entries s') = drop (pr_count s) (pr_entries s)"
  using assms(2-) by (simp_all add: pr_live_def take_update_swap)

lemma seq_step:
  assumes "pr_next_sequence_step s = (seq, s1)"
  shows "seq = pr_next_sequence s" "pr_entries s1 = pr_entries s" "pr_count s1 = pr_count s"
    "pr_next_sequence s < kSeqClamp \<Longrightarrow> pr_next_sequence s1 = pr_next_sequence s + 1"
    "\<not> pr_next_sequence s < kSeqClamp \<Longrightarrow> pr_next_sequence s1 = pr_next_sequence s"
  using assms by (auto simp: pr_next_sequence_step_def split: if_splits)

lemma seq_step_bounds:
  assumes "pr_next_sequence_step s = (seq, s1)" and "1 \<le> pr_next_sequence s" and "pr_next_sequence s \<le> kSeqClamp"
  shows "1 \<le> pr_next_sequence s1" "pr_next_sequence s1 \<le> kSeqClamp"
    "pr_next_sequence s \<le> pr_next_sequence s1"
    "pr_next_sequence s1 < kSeqClamp \<Longrightarrow> pr_next_sequence s < pr_next_sequence s1"
proof -
  have inc: "pr_next_sequence s < kSeqClamp \<Longrightarrow>
      unat (pr_next_sequence s + 1) = unat (pr_next_sequence s) + 1"
    by (simp add: word_less_nat_alt unat_plus_if_size word_size)
  show "1 \<le> pr_next_sequence s1" "pr_next_sequence s1 \<le> kSeqClamp"
    "pr_next_sequence s \<le> pr_next_sequence s1"
    "pr_next_sequence s1 < kSeqClamp \<Longrightarrow> pr_next_sequence s < pr_next_sequence s1"
    using seq_step(4,5) [OF assms(1)] inc assms(2,3)
    by (cases "pr_next_sequence s < kSeqClamp"; simp add: word_le_nat_alt word_less_nat_alt)+
qed

text \<open>In-place updates that keep uid and capture number keep the invariant.\<close>

lemma pr_inv_in_place:
  assumes inv: "pr_inv s" and i: "i < pr_count s"
    and e': "pr_entries s' = (pr_entries s)[i := x]" and c': "pr_count s' = pr_count s"
    and x: "re_uid x = re_uid (pr_live s ! i)" "re_captured_at x = re_captured_at (pr_live s ! i)"
    and sq: "pr_next_sequence s \<le> pr_next_sequence s'" "1 \<le> pr_next_sequence s'"
      "pr_next_sequence s' \<le> kSeqClamp"
  shows "pr_inv s'" and "map re_captured_at (pr_live s') = map re_captured_at (pr_live s)"
    and "map re_uid (pr_live s') = map re_uid (pr_live s)"
proof -
  note live = pr_update_live [OF inv i e' c']
  have len: "length (pr_live s) = pr_count s" by (rule pr_invD [OF inv])
  show u: "map re_uid (pr_live s') = map re_uid (pr_live s)"
    and c: "map re_captured_at (pr_live s') = map re_captured_at (pr_live s)"
    unfolding live(1) using x i len by (simp_all add: map_update list_update_same_conv)
  have "\<forall>e \<in> set (pr_live s'). re_captured_at e < pr_next_sequence s'"
    if lt: "pr_next_sequence s' < kSeqClamp"
  proof -
    have "pr_next_sequence s < kSeqClamp" using lt sq(1) by simp
    then have "\<forall>t \<in> set (map re_captured_at (pr_live s)). t < pr_next_sequence s'"
      using pr_inv_seqD(2) [OF inv] sq(1) by fastforce
    then show ?thesis unfolding c [symmetric] by simp
  qed
  moreover have "distinct (map re_captured_at (pr_live s'))" if "pr_next_sequence s' < kSeqClamp"
    unfolding c using pr_inv_seqD(1) [OF inv] that sq(1) by simp
  ultimately show "pr_inv s'"
    using pr_invD [OF inv] sq u live(2) e' c' unfolding pr_inv_def by simp
qed

section \<open>Every operation keeps the invariant\<close>

lemma pr_add_repair:
  assumes inv: "pr_inv s" and i: "pr_index (re_uid e) s = Some i"
  shows "pr_inv (snd (pr_add e s))"
    and "map re_captured_at (pr_live (snd (pr_add e s))) = map re_captured_at (pr_live s)"
    and "map re_uid (pr_live (snd (pr_add e s))) = map re_uid (pr_live s)"
    and "pr_live (snd (pr_add e s)) = (pr_live s)[i := e\<lparr>
      re_captured_at := re_captured_at (pr_live s ! i),
      re_last_configured_at := re_last_configured_at (pr_live s ! i) \<rparr>]"
proof -
  let ?x = "e\<lparr> re_captured_at := re_captured_at (pr_live s ! i),
      re_last_configured_at := re_last_configured_at (pr_live s ! i) \<rparr>"
  let ?s' = "snd (pr_add e s)"
  have il: "i < pr_count s" "re_uid (pr_live s ! i) = re_uid e" "pr_live s ! i = pr_entries s ! i"
    using pr_index_SomeD [OF i] pr_invD(5) [OF inv] pr_live_nth by auto
  have s': "pr_entries ?s' = (pr_entries s)[i := ?x]" "pr_count ?s' = pr_count s"
    "pr_next_sequence ?s' = pr_next_sequence s"
    using i il by (simp_all add: pr_add_def)
  show "pr_live ?s' = (pr_live s)[i := ?x]" by (rule pr_update_live [OF inv il(1) s'(1,2)])
  show "pr_inv ?s'" "map re_captured_at (pr_live ?s') = map re_captured_at (pr_live s)"
    "map re_uid (pr_live ?s') = map re_uid (pr_live s)"
    by (rule pr_inv_in_place [OF inv il(1) s'(1,2)];
        use il s' pr_invD(6,7) [OF inv] in simp)+
qed

text \<open>A new device takes the first free slot, or the slot of the earliest capture.\<close>

definition new_slot :: "pair_register \<Rightarrow> nat" where
  "new_slot s = (if pr_count s \<ge> kMaxEntries then oldest_idx re_captured_at (pr_entries s) else pr_count s)"

lemma pr_add_new_sel:
  assumes "pr_index (re_uid e) s = None" and "pr_next_sequence_step s = (seq, s1)"
  shows "pr_entries (snd (pr_add e s)) = (pr_entries s)[new_slot s := e\<lparr> re_captured_at := pr_next_sequence s \<rparr>]"
    and "pr_count (snd (pr_add e s)) = (if pr_count s \<ge> kMaxEntries then pr_count s else pr_count s + 1)"
    and "pr_next_sequence (snd (pr_add e s)) = pr_next_sequence s1"
  using assms by (auto simp: pr_add_def new_slot_def pr_next_sequence_step_def Let_def)

lemma pr_add_live:
  assumes inv: "pr_inv s" and new: "pr_index (re_uid e) s = None"
  shows "pr_live (snd (pr_add e s)) =
    (if pr_count s < kMaxEntries then pr_live s @ [e\<lparr> re_captured_at := pr_next_sequence s \<rparr>]
     else (pr_live s)[new_slot s := e\<lparr> re_captured_at := pr_next_sequence s \<rparr>])"
    and "drop (pr_count (snd (pr_add e s))) (pr_entries (snd (pr_add e s)))
      = replicate (kMaxEntries - pr_count (snd (pr_add e s))) zero_entry"
proof -
  obtain seq s1 where st: "pr_next_sequence_step s = (seq, s1)" by fastforce
  note sel = pr_add_new_sel [OF new st] and len = pr_invD [OF inv]
  show "pr_live (snd (pr_add e s)) =
    (if pr_count s < kMaxEntries then pr_live s @ [e\<lparr> re_captured_at := pr_next_sequence s \<rparr>]
     else (pr_live s)[new_slot s := e\<lparr> re_captured_at := pr_next_sequence s \<rparr>])"
    using len by (auto simp: pr_live_def sel new_slot_def take_Suc_conv_app_nth)
  show "drop (pr_count (snd (pr_add e s))) (pr_entries (snd (pr_add e s)))
      = replicate (kMaxEntries - pr_count (snd (pr_add e s))) zero_entry"
  proof (cases "pr_count s < kMaxEntries")
    case True
    have "drop (Suc (pr_count s)) (pr_entries s) = tl (drop (pr_count s) (pr_entries s))"
      by (simp add: drop_Suc tl_drop)
    then show ?thesis using True len by (simp add: sel new_slot_def)
  next
    case False
    then show ?thesis using len by (simp add: sel)
  qed
qed

lemma distinct_list_update_new:
  "distinct (map f xs) \<Longrightarrow> f y \<notin> f ` set xs \<Longrightarrow> distinct (map f (xs[i := y]))"
  by (cases "i < length xs") (auto simp: map_update intro!: distinct_list_update)

lemma pr_add_new_inv:
  assumes inv: "pr_inv s" and new: "pr_index (re_uid e) s = None"
  shows "pr_inv (snd (pr_add e s))"
proof -
  obtain seq s1 where st: "pr_next_sequence_step s = (seq, s1)" by fastforce
  note sel = pr_add_new_sel [OF new st] and len = pr_invD [OF inv] and live = pr_add_live [OF inv new]
  let ?s' = "snd (pr_add e s)" and ?x = "e\<lparr> re_captured_at := pr_next_sequence s \<rparr>"
  note b = seq_step_bounds [OF st len(6,7)]
  have u: "distinct (map re_uid (pr_live ?s'))"
    using len(4) new unfolding live(1) pr_index_None
    by (auto intro!: distinct_list_update_new)
  have c: "distinct (map re_captured_at (pr_live ?s'))
      \<and> (\<forall>y \<in> set (pr_live ?s'). re_captured_at y < pr_next_sequence ?s')"
    if lt: "pr_next_sequence ?s' < kSeqClamp"
  proof -
    have l: "pr_next_sequence s < kSeqClamp" "pr_next_sequence s < pr_next_sequence ?s'"
      using lt b(3,4) unfolding sel(3) by auto
    note d = pr_inv_seqD [OF inv l(1)]
    have "pr_next_sequence s \<notin> re_captured_at ` set (pr_live s)" using d(2) by force
    then have "distinct (map re_captured_at (pr_live ?s'))"
      using d(1) unfolding live(1) by (auto intro!: distinct_list_update_new)
    moreover have "set (pr_live ?s') \<subseteq> insert ?x (set (pr_live s))"
      unfolding live(1) using set_update_subset_insert [of "pr_live s" "new_slot s" ?x] by auto
    moreover have "re_captured_at y < pr_next_sequence ?s'" if "y \<in> insert ?x (set (pr_live s))" for y
      using that d(2) [of y] l(2) less_trans [of "re_captured_at y"] by auto
    ultimately show ?thesis by blast
  qed
  have "length (pr_entries ?s') = kMaxEntries" "pr_count ?s' \<le> kMaxEntries"
    using len(1,2) by (simp_all add: sel)
  with u c b(1,2) live(2) show ?thesis unfolding pr_inv_def sel(3) [symmetric] by blast
qed

lemma shift_down:
  "i < c \<Longrightarrow> c \<le> length es \<Longrightarrow>
     foldl (\<lambda>es j. es[j - 1 := es ! j]) es [i + 1..<c]
       = take i es @ drop (i + 1) (take c es) @ drop (c - 1) es"
proof (induction c)
  case 0
  then show ?case by simp
next
  case (Suc c)
  show ?case
  proof (cases "i = c")
    case True
    then show ?thesis using Suc.prems by simp
  next
    case False
    then have ic: "i < c" "c < length es" using Suc.prems by simp_all
    define A where "A = take i es @ drop (i + 1) (take c es)"
    have la: "length A = c - 1" using ic by (simp add: A_def)
    have IH: "foldl (\<lambda>es j. es[j - 1 := es ! j]) es [i + 1..<c] = A @ drop (c - 1) es"
      using Suc.IH ic by (simp add: A_def)
    have d: "drop (c - 1) es = es ! (c - 1) # drop c es"
      using ic Cons_nth_drop_Suc [of "c - 1" es] by simp
    have A': "take i es @ drop (i + 1) (take (Suc c) es) = A @ [es ! c]"
      using ic by (simp add: A_def take_Suc_conv_app_nth)
    have at: "(A @ drop (c - 1) es) ! c = es ! c"
      using la ic Cons_nth_drop_Suc [of c es] unfolding d by (simp add: nth_append) arith
    have "(A @ drop (c - 1) es)[c - 1 := es ! c] = A @ es ! c # drop c es"
      using list_update_length [of A "es ! (c - 1)" "drop c es" "es ! c"] unfolding d la .
    then show ?thesis
      using ic IH at A' by simp
  qed
qed

lemma pr_remove_live:
  assumes inv: "pr_inv s" and i: "pr_index uid s = Some i"
  shows "pr_live (snd (pr_remove uid s)) = take i (pr_live s) @ drop (i + 1) (pr_live s)"
    and "pr_inv (snd (pr_remove uid s))"
proof -
  note len = pr_invD [OF inv]
  have il: "i < pr_count s" using pr_index_SomeD [OF i] len(5) by simp
  let ?s' = "snd (pr_remove uid s)" and ?c = "pr_count s - 1"
  define A where "A = take i (pr_live s) @ drop (i + 1) (pr_live s)"
  have la: "length A = ?c" using il len(5) by (simp add: A_def)
  have "pr_entries ?s' = (A @ drop ?c (pr_entries s))[?c := zero_entry]"
    using i shift_down [OF il, of "pr_entries s"] len(1,2) il
    by (simp add: pr_remove_def pr_live_def A_def Let_def min_def)
  moreover have d: "drop ?c (pr_entries s) = pr_entries s ! ?c # drop (pr_count s) (pr_entries s)"
    using il len(1,2) Cons_nth_drop_Suc [of ?c "pr_entries s"] by simp
  ultimately have e': "pr_entries ?s' = A @ zero_entry # drop (pr_count s) (pr_entries s)"
    using list_update_length [of A "pr_entries s ! ?c" "drop (pr_count s) (pr_entries s)" zero_entry]
    unfolding d la by simp
  have c': "pr_count ?s' = ?c" "pr_next_sequence ?s' = pr_next_sequence s"
    using i by (simp_all add: pr_remove_def Let_def)
  have live: "pr_live ?s' = A" using e' la by (simp add: pr_live_def c')
  then show "pr_live ?s' = take i (pr_live s) @ drop (i + 1) (pr_live s)" by (simp add: A_def)
  have sub: "set A \<subseteq> set (pr_live s)" by (auto simp: A_def dest: in_set_takeD in_set_dropD)
  have dist: "distinct (map f A)" if "distinct (map f (pr_live s))" for f :: "register_entry \<Rightarrow> u32"
  proof -
    have "map f (pr_live s) = map f (take i (pr_live s)) @ f (pr_live s ! i) # map f (drop (i + 1) (pr_live s))"
      using il len(5) id_take_nth_drop [of i "pr_live s"] by (metis Suc_eq_plus1 list.simps(9) map_append)
    with that show ?thesis unfolding A_def by (auto simp: disjoint_iff)
  qed
  have z: "drop (pr_count ?s') (pr_entries ?s') = replicate (kMaxEntries - pr_count ?s') zero_entry"
  proof -
    have "kMaxEntries - ?c = Suc (kMaxEntries - pr_count s)" using il len(2) by simp
    then show ?thesis using e' la len(3) by (simp add: c')
  qed
  have "length (pr_entries ?s') = kMaxEntries" using e' la len(1,2) il by simp
  moreover have "pr_count ?s' \<le> kMaxEntries" using c' len(2) by simp
  ultimately show "pr_inv ?s'"
    using z len(4,6,7) dist sub pr_inv_seqD [OF inv] unfolding pr_inv_def live c'(2) by blast
qed

lemma pr_mark_inv:
  assumes inv: "pr_inv s"
  shows "pr_inv (snd (pr_mark_configured uid s))"
proof (cases "pr_index uid s")
  case None
  then show ?thesis using inv by (simp add: pr_mark_configured_def)
next
  case (Some i)
  obtain seq s1 where st: "pr_next_sequence_step s = (seq, s1)" by fastforce
  have il: "i < pr_count s" "pr_live s ! i = pr_entries s ! i"
    using pr_index_SomeD [OF Some] pr_invD(5) [OF inv] pr_live_nth by auto
  show ?thesis
    by (rule pr_inv_in_place(1) [OF inv il(1), where x = "(pr_entries s ! i)\<lparr> re_last_configured_at := seq \<rparr>"])
      (use Some st seq_step [OF st] seq_step_bounds [OF st pr_invD(6,7) [OF inv]] il in
        \<open>simp_all add: pr_mark_configured_def\<close>)
qed

lemma pr_snapshot_inv:
  assumes inv: "pr_inv s"
  shows "pr_inv (snd (pr_update_snapshot uid sn s))"
proof (cases "pr_index uid s")
  case None
  then show ?thesis using inv by (simp add: pr_update_snapshot_def)
next
  case (Some i)
  obtain seq s1 where st: "pr_next_sequence_step s = (seq, s1)" by fastforce
  have il: "i < pr_count s" "pr_live s ! i = pr_entries s ! i"
    using pr_index_SomeD [OF Some] pr_invD(5) [OF inv] pr_live_nth by auto
  let ?x = "(pr_entries s ! i)\<lparr>
               re_snap_group := sn_group sn, re_snap_led_power := sn_led_power sn,
               re_snap_channel_pref := sn_channel_pref sn, re_snap_strip_chain := sn_strip_chain sn,
               re_snap_strip_group_size := sn_strip_group_size sn,
               re_snap_pair_win_s := sn_pair_win_s sn, re_snap_valid := 1,
               re_last_configured_at := seq \<rparr>"
  show ?thesis
    by (rule pr_inv_in_place(1) [OF inv il(1), where x = ?x])
      (use Some st seq_step [OF st] seq_step_bounds [OF st pr_invD(6,7) [OF inv]] il in
        \<open>simp_all add: pr_update_snapshot_def\<close>)
qed

text \<open>The operations as steps; reloading from storage is one of them.\<close>

inductive pr_step :: "pair_register \<Rightarrow> pair_register \<Rightarrow> bool" where
  add: "pr_step s (snd (pr_add e s))"
| remove: "pr_step s (snd (pr_remove uid s))"
| mark: "pr_step s (snd (pr_mark_configured uid s))"
| snapshot: "pr_step s (snd (pr_update_snapshot uid sn s))"

inductive_cases pr_stepE: "pr_step s s'"

inductive pr_reach :: "pair_register \<Rightarrow> bool" where
  init: "pr_reach pr_init"
| step: "pr_reach s \<Longrightarrow> pr_step s s' \<Longrightarrow> pr_reach s'"

lemma pr_add_inv: "pr_inv s \<Longrightarrow> pr_inv (snd (pr_add e s))"
  using pr_add_repair(1) pr_add_new_inv by (cases "pr_index (re_uid e) s") blast+

lemma pr_remove_inv: "pr_inv s \<Longrightarrow> pr_inv (snd (pr_remove uid s))"
  using pr_remove_live(2) by (cases "pr_index uid s") (simp_all add: pr_remove_def)

lemma pr_step_inv: "pr_inv s \<Longrightarrow> pr_step s s' \<Longrightarrow> pr_inv s'"
  by (auto elim!: pr_stepE intro: pr_add_inv pr_remove_inv pr_mark_inv pr_snapshot_inv)

lemma pr_reach_inv: "pr_reach s \<Longrightarrow> pr_inv s"
  by (induction rule: pr_reach.induct) (auto intro: pr_init_inv pr_step_inv)

section \<open>Sorting\<close>

lemma insert_shift_filter:
  assumes "j < length out" and "sorted_wrt (\<lambda>x y. re_captured_at x \<ge> re_captured_at y) (take j out)"
  shows "insert_shift out j key =
    filter (\<lambda>x. re_captured_at x \<ge> re_captured_at key) (take j out) @ [key]
    @ filter (\<lambda>x. re_captured_at x < re_captured_at key) (take j out) @ drop (Suc j) out"
  using assms
proof (induction j arbitrary: out)
  case 0
  then show ?case by (cases out) auto
next
  case (Suc j)
  have tk: "take (Suc j) out = take j out @ [out ! j]" using Suc.prems(1) by (simp add: take_Suc_conv_app_nth)
  then have so: "sorted_wrt (\<lambda>x y. re_captured_at x \<ge> re_captured_at y) (take j out)"
    and last: "\<forall>x \<in> set (take j out). re_captured_at x \<ge> re_captured_at (out ! j)"
    using Suc.prems(2) by (auto simp: sorted_wrt_append)
  show ?case
  proof (cases "re_captured_at (out ! j) < re_captured_at key")
    case True
    let ?out = "out[Suc j := out ! j]"
    have "insert_shift ?out j key =
      filter (\<lambda>x. re_captured_at x \<ge> re_captured_at key) (take j ?out) @ [key]
      @ filter (\<lambda>x. re_captured_at x < re_captured_at key) (take j ?out) @ drop (Suc j) ?out"
      using Suc.IH [of ?out] Suc.prems(1) so by simp
    moreover have "drop (Suc j) ?out = out ! j # drop (Suc (Suc j)) out"
      using Suc.prems(1) Cons_nth_drop_Suc [of "Suc j" ?out] by simp
    ultimately show ?thesis using True tk by simp
  next
    case False
    then have "filter (\<lambda>x. re_captured_at x \<ge> re_captured_at key) (take (Suc j) out) = take (Suc j) out"
      and "filter (\<lambda>x. re_captured_at x < re_captured_at key) (take (Suc j) out) = []"
      using last tk by (auto simp: filter_id_conv filter_empty_conv not_less intro: order_trans)
    then show ?thesis
      using False Suc.prems(1) by (simp add: upd_conv_take_nth_drop)
  qed
qed

abbreviation by_captured :: "register_entry list \<Rightarrow> bool" where
  "by_captured \<equiv> sorted_wrt (\<lambda>x y. re_captured_at x \<ge> re_captured_at y)"

lemma sort_step:
  assumes i: "i < length out" and so: "by_captured (take i out)"
  defines "out' \<equiv> insert_shift out i (out ! i)"
  shows "by_captured (take (Suc i) out') \<and> mset out' = mset out \<and> length out' = length out"
proof -
  let ?k = "out ! i"
  let ?hi = "filter (\<lambda>x. re_captured_at x \<ge> re_captured_at ?k) (take i out)"
  let ?lo = "filter (\<lambda>x. re_captured_at x < re_captured_at ?k) (take i out)"
  have o: "out' = (?hi @ [?k] @ ?lo) @ drop (Suc i) out"
    unfolding out'_def using insert_shift_filter [OF i so] by simp
  have "?lo = filter (\<lambda>x. \<not> re_captured_at x \<ge> re_captured_at ?k) (take i out)"
    by (simp add: not_le)
  then have part: "mset ?hi + mset ?lo = mset (take i out)"
    using multiset_partition [of "mset (take i out)" "\<lambda>x. re_captured_at x \<ge> re_captured_at ?k"]
    by (simp only: mset_filter)
  then have len: "length ?hi + length ?lo = i"
    using i by (metis length_take min.absorb4 size_mset size_union)
  have "mset out = mset (take i out) + {#?k#} + mset (drop (Suc i) out)"
    by (subst id_take_nth_drop [OF i]) simp
  moreover have "mset out' = mset ?hi + {#?k#} + mset ?lo + mset (drop (Suc i) out)"
    unfolding o by simp
  ultimately have m: "mset out' = mset out" using part by (simp add: ac_simps)
  have "by_captured (?hi @ [?k] @ ?lo)"
    using so by (auto simp: sorted_wrt_append sorted_wrt_filter intro: order_trans less_imp_le)
  moreover have "take (Suc i) out' = ?hi @ [?k] @ ?lo"
  proof -
    have "length (?hi @ [?k] @ ?lo) = Suc i" using len by simp
    with o show ?thesis by (metis append_eq_conv_conj)
  qed
  moreover have "length out' = length out" using m by (metis size_mset)
  ultimately show ?thesis using m by simp
qed

lemma list_sorted_spec:
  assumes "pr_inv s" and "pr_count s \<le> cap"
  shows "by_captured (list_sorted_by_captured_at cap s)
    \<and> mset (list_sorted_by_captured_at cap s) = mset (pr_live s)"
proof -
  have loop: "by_captured (take (max 1 n) (foldl (\<lambda>out i. insert_shift out i (out ! i)) xs [1..<n]))
      \<and> mset (foldl (\<lambda>out i. insert_shift out i (out ! i)) xs [1..<n]) = mset xs"
    if "n \<le> length xs" for n and xs :: "register_entry list"
    using that
  proof (induction n)
    case 0
    then show ?case by (cases xs) auto
  next
    case (Suc n)
    show ?case
    proof (cases "n = 0")
      case True
      then show ?thesis by (cases xs) auto
    next
      case False
      let ?o = "foldl (\<lambda>out i. insert_shift out i (out ! i)) xs [1..<n]"
      have IH: "by_captured (take n ?o)" "mset ?o = mset xs" using Suc False by (simp_all add: max_def)
      have "n < length ?o" using IH(2) Suc.prems by (metis Suc_le_eq size_mset)
      from sort_step [OF this IH(1)] IH(2) False show ?thesis by (simp add: max_def)
    qed
  qed
  have n: "(if pr_count s < cap then pr_count s else cap) = pr_count s" using assms(2) by simp
  have len: "length (pr_live s) = pr_count s" by (rule pr_invD [OF assms(1)])
  let ?o = "foldl (\<lambda>out i. insert_shift out i (out ! i)) (pr_live s) [1..<pr_count s]"
  have "by_captured (take (max 1 (pr_count s)) ?o)" "mset ?o = mset (pr_live s)"
    using loop [of "pr_count s" "pr_live s"] len by auto
  moreover have "take (max 1 (pr_count s)) ?o = ?o"
  proof -
    have "length ?o = length (pr_live s)" using calculation(2) by (rule mset_eq_length)
    then show ?thesis using len by simp
  qed
  ultimately show ?thesis
    by (simp add: list_sorted_by_captured_at_def n Let_def pr_live_def [symmetric])
qed

lemma rank_above_count:
  assumes "distinct (map re_captured_at es)" and "i < length es"
  shows "rank_above es i = length (filter (\<lambda>x. re_captured_at x > re_captured_at (es ! i)) es)"
proof -
  have "re_captured_at (es ! j) = re_captured_at (es ! i) \<Longrightarrow> j = i" if "j < length es" for j
    using assms that nth_eq_iff_index_eq [of "map re_captured_at es" j i] by simp
  then have "filter (\<lambda>j. j \<noteq> i \<and> (re_captured_at (es ! j) > re_captured_at (es ! i)
         \<or> re_captured_at (es ! j) = re_captured_at (es ! i) \<and> j < i)) [0..<length es]
      = filter (\<lambda>j. re_captured_at (es ! j) > re_captured_at (es ! i)) [0..<length es]"
    by (intro filter_cong) auto
  also have "length \<dots> = length (filter (\<lambda>x. re_captured_at x > re_captured_at (es ! i)) (map ((!) es) [0..<length es]))"
    by (simp add: filter_map comp_def)
  finally show ?thesis by (simp add: rank_above_def map_nth)
qed

lemma nth_sorted_spec:
  assumes inv: "pr_inv s" and sq: "pr_next_sequence s < kSeqClamp" and k: "k < pr_count s"
  shows "nth_sorted k s = Some (list_sorted_by_captured_at (pr_count s) s ! k)"
proof -
  let ?L = "list_sorted_by_captured_at (pr_count s) s" and ?es = "pr_live s"
  have so: "by_captured ?L" and ms: "mset ?L = mset ?es" using list_sorted_spec [OF inv, of "pr_count s"] by auto
  have len: "length ?es = pr_count s" "length ?L = pr_count s"
    using pr_invD(5) [OF inv] ms by (metis size_mset)+
  have d: "distinct (map re_captured_at ?es)" by (rule pr_inv_seqD [OF inv sq])
  have dL: "distinct (map re_captured_at ?L)"
    using d ms by (metis mset_eq_imp_distinct_iff mset_map)
  have strict: "re_captured_at (?L ! j) < re_captured_at (?L ! i)" if "i < j" "j < length ?L" for i j
    using so that dL nth_eq_iff_index_eq [of "map re_captured_at ?L" i j]
    by (simp add: sorted_wrt_iff_nth_less order.strict_iff_order)
  have rankL: "length (filter (\<lambda>x. re_captured_at x > re_captured_at (?L ! j)) ?L) = j" if "j < length ?L" for j
  proof -
    have "filter (\<lambda>x. re_captured_at x > re_captured_at (?L ! j)) (take j ?L) = take j ?L"
      using strict that by (auto simp: filter_id_conv in_set_conv_nth)
    moreover have "filter (\<lambda>x. re_captured_at x > re_captured_at (?L ! j)) (drop j ?L) = []"
    proof -
      have "re_captured_at (?L ! (j + m)) \<le> re_captured_at (?L ! j)" if "j + m < length ?L" for m
        using strict [of j "j + m"] that by (cases "m = 0") auto
      then show ?thesis by (auto simp: filter_empty_conv in_set_conv_nth not_less)
    qed
    ultimately have "filter (\<lambda>x. re_captured_at x > re_captured_at (?L ! j)) (take j ?L @ drop j ?L) = take j ?L"
      by (simp only: filter_append append_Nil2)
    then show ?thesis using that by simp
  qed
  have rank: "rank_above ?es i = j" if "i < pr_count s" "j < pr_count s" "?es ! i = ?L ! j" for i j
  proof -
    have "length (filter P ?es) = length (filter P ?L)" for P
      using ms by (metis mset_filter size_mset)
    then show ?thesis using rank_above_count [OF d, of i] rankL [of j] that len by simp
  qed
  have pos: "\<exists>j < pr_count s. ?es ! i = ?L ! j" if "i < pr_count s" for i
    using that len ms by (metis in_set_conv_nth mset_eq_setD nth_mem)
  have pos': "\<exists>i < pr_count s. ?es ! i = ?L ! k"
    using k len ms by (metis in_set_conv_nth mset_eq_setD nth_mem)
  then obtain i where i: "i < pr_count s" "?es ! i = ?L ! k" by blast
  let ?p = "\<lambda>i. rank_above ?es i = k"
  obtain m where m: "find_idx ?p [0..<pr_count s] = Some m"
    using find_idx_exists [of i "[0..<pr_count s]" ?p] i rank [of i k] k by auto
  then have m': "m < pr_count s" "rank_above ?es m = k" using find_idx_SomeD [OF m] by auto
  obtain j where j: "j < pr_count s" "?es ! m = ?L ! j" using pos [OF m'(1)] by blast
  with rank [OF m'(1) j] m'(2) have "?es ! m = ?L ! k" by simp
  then show ?thesis
    using k m m'(1) pr_live_nth [of m s] len by (simp add: nth_sorted_def)
qed

section \<open>Properties\<close>

text \<open>The register stays a set of devices with a capture order. In every state reachable from an
  empty register by adding, removing, marking and snapshotting, there are at most twenty entries, no two
  with the same uid, and (until the sequence counter reaches its clamp) no two with the same capture
  number, all of them below the counter.\<close>

theorem pair_register_invariant:
  assumes "pr_reach s"
  shows "length (pr_live s) \<le> kMaxEntries \<and> distinct (map re_uid (pr_live s))
    \<and> (pr_next_sequence s < kSeqClamp \<longrightarrow> distinct (map re_captured_at (pr_live s))
        \<and> (\<forall>e \<in> set (pr_live s). re_captured_at e < pr_next_sequence s))"
  using pr_reach_inv [OF assms] pr_invD(2,4,5) [of s] pr_inv_seqD [of s] by auto

theorem pair_register_invariant_witness:
  "distinct (map re_uid (pr_live (snd (pr_add (zero_entry\<lparr> re_uid := 7 \<rparr>) pr_init))))"
  using pair_register_invariant [OF pr_reach.step [OF pr_reach.init pr_step.add]] by blast

text \<open>Eviction is first in, first out. Adding a new device to a full register (before the clamp)
  replaces exactly one entry, the one with the smallest capture number, and keeps all the others; adding
  it to a register with room keeps everything. Either way the new device is there afterwards and is the
  latest capture.\<close>

theorem pair_register_fifo:
  assumes "pr_reach s" and "pr_next_sequence s < kSeqClamp" and "re_uid e \<notin> re_uid ` set (pr_live s)"
  shows "\<exists>gone. set (pr_live (snd (pr_add e s)))
      = insert (e\<lparr> re_captured_at := pr_next_sequence s \<rparr>) (set (pr_live s) - gone)
    \<and> (pr_count s < kMaxEntries \<longrightarrow> gone = {})
    \<and> (pr_count s = kMaxEntries \<longrightarrow> (\<exists>x \<in> set (pr_live s). gone = {x}
          \<and> (\<forall>y \<in> set (pr_live s). re_captured_at x \<le> re_captured_at y)))
    \<and> (\<forall>y \<in> set (pr_live s). re_captured_at y < pr_next_sequence s)"
proof -
  have inv: "pr_inv s" by (rule pr_reach_inv [OF assms(1)])
  have new: "pr_index (re_uid e) s = None" using assms(3) by (simp add: pr_index_None)
  note len = pr_invD [OF inv] and d = pr_inv_seqD [OF inv assms(2)]
  let ?x = "e\<lparr> re_captured_at := pr_next_sequence s \<rparr>" and ?k = "new_slot s"
  show ?thesis
  proof (cases "pr_count s < kMaxEntries")
    case True
    then show ?thesis
      using pr_add_live(1) [OF inv new] d(2) by (intro exI [of _ "{}"]) auto
  next
    case False
    then have full: "pr_live s = pr_entries s" "pr_count s = kMaxEntries" "\<not> pr_count s < kMaxEntries"
      using len(1,2) by (simp_all add: pr_live_def)
    have k: "?k < length (pr_live s)"
      using full oldest_idx_less [of "pr_entries s" re_captured_at] len(1) by (fastforce simp: new_slot_def)
    have "distinct (pr_live s)" using d(1) by (simp add: distinct_map)
    then have "set ((pr_live s)[?k := ?x]) = insert ?x (set (pr_live s) - {pr_live s ! ?k})"
      using k by (simp add: set_update_distinct)
    moreover have "\<forall>y \<in> set (pr_live s). re_captured_at (pr_live s ! ?k) \<le> re_captured_at y"
      using oldest_idx_least [of _ "pr_entries s" re_captured_at] full
      by (auto simp: new_slot_def in_set_conv_nth)
    ultimately show ?thesis
      using pr_add_live(1) [OF inv new] d(2) full k by (intro exI [of _ "{pr_live s ! ?k}"]) auto
  qed
qed

theorem pair_register_fifo_witness:
  "\<exists>gone. set (pr_live (snd (pr_add (zero_entry\<lparr> re_uid := 7 \<rparr>) pr_init)))
      = insert (zero_entry\<lparr> re_uid := 7, re_captured_at := 1 \<rparr>) (set (pr_live pr_init) - gone)"
proof -
  have i: "pr_live pr_init = []" "pr_next_sequence pr_init = 1"
    by (simp_all add: pr_init_def pr_load_def pr_clear_in_memory_def pr_live_def)
  show ?thesis
    using pair_register_fifo [OF pr_reach.init, of "zero_entry\<lparr> re_uid := 7 \<rparr>"] by (auto simp: i)
qed

text \<open>The k-th row of the pairing list is the k-th most recent capture. The stack-free ranking search
  returns, for every row below the count, the same entry that sorting a copy of the register by capture
  number (latest first) puts there; that sort is a permutation of the register.\<close>

theorem nth_sorted_is_sorted_list:
  assumes "pr_reach s" and "pr_next_sequence s < kSeqClamp" and "k < pr_count s"
  shows "nth_sorted k s = Some (list_sorted_by_captured_at (pr_count s) s ! k)
    \<and> sorted_wrt (\<lambda>x y. re_captured_at x \<ge> re_captured_at y) (list_sorted_by_captured_at (pr_count s) s)
    \<and> mset (list_sorted_by_captured_at (pr_count s) s) = mset (pr_live s)"
  using nth_sorted_spec [OF pr_reach_inv [OF assms(1)] assms(2,3)]
    list_sorted_spec [OF pr_reach_inv [OF assms(1)], of "pr_count s"] by simp

theorem nth_sorted_is_sorted_list_witness:
  "nth_sorted 0 (snd (pr_add (zero_entry\<lparr> re_uid := 7 \<rparr>) pr_init))
    = Some (list_sorted_by_captured_at 1 (snd (pr_add (zero_entry\<lparr> re_uid := 7 \<rparr>) pr_init)) ! 0)"
proof -
  let ?s = "snd (pr_add (zero_entry\<lparr> re_uid := 7 \<rparr>) pr_init)"
  have "pr_count ?s = 1" "pr_next_sequence ?s = 2"
    by (simp_all add: pr_add_def pr_index_def pr_init_def pr_load_def pr_clear_in_memory_def
        pr_live_def pr_next_sequence_step_def)
  then show ?thesis
    using nth_sorted_is_sorted_list [OF pr_reach.step [OF pr_reach.init pr_step.add], of
        "zero_entry\<lparr> re_uid := 7 \<rparr>" 0] by simp
qed

text \<open>Reading back what was saved.\<close>

lemma pr_load_save:
  assumes "pr_inv s"
  shows "pr_load (pr_save s) = pr_save s"
proof -
  note len = pr_invD [OF assms]
  have u: "unat (of_nat (pr_count s) :: u8) = pr_count s" using len(2) by (simp add: unat_of_nat)
  have "take (pr_count s) (pr_entries s) @ drop (pr_count s) (replicate kMaxEntries zero_entry) = pr_entries s"
    using len(3) append_take_drop_id [of "pr_count s" "pr_entries s"] by simp
  moreover have "pr_next_sequence s \<noteq> 0" using len(6) by auto
  ultimately show ?thesis
    using len(1,2) u by (simp add: pr_load_def pr_save_def pr_clear_in_memory_def Let_def)
qed

lemma pr_step_saved: "pr_step s s' \<Longrightarrow> s' \<noteq> s \<Longrightarrow> \<exists>t. s' = pr_save t"
  by (erule pr_stepE)
    (auto simp: pr_add_def pr_remove_def pr_mark_configured_def pr_update_snapshot_def Let_def
      split: option.splits prod.splits)

text \<open>The register survives a reboot. After any operation that changes a reachable register, loading
  from storage changes nothing: the same entries in the same order, the same count and the same sequence
  counter come back.\<close>

theorem pair_register_reload:
  assumes "pr_reach s" and "pr_step s s'" and "s' \<noteq> s"
  shows "pr_load s' = s'"
proof -
  obtain t where t: "s' = pr_save t" using pr_step_saved [OF assms(2,3)] by blast
  have "pr_inv s'" using pr_step_inv [OF pr_reach_inv [OF assms(1)] assms(2)] .
  moreover have "pr_save s' = s'" by (simp add: t pr_save_def)
  ultimately show ?thesis using pr_load_save [of s'] by simp
qed

theorem pair_register_reload_witness:
  "pr_load (snd (pr_add (zero_entry\<lparr> re_uid := 7 \<rparr>) pr_init)) = snd (pr_add (zero_entry\<lparr> re_uid := 7 \<rparr>) pr_init)"
proof -
  have "pr_count (snd (pr_add (zero_entry\<lparr> re_uid := 7 \<rparr>) pr_init)) = 1" "pr_count pr_init = 0"
    by (simp_all add: pr_add_def pr_index_def pr_init_def pr_load_def pr_clear_in_memory_def
        pr_live_def pr_next_sequence_step_def)
  then have "snd (pr_add (zero_entry\<lparr> re_uid := 7 \<rparr>) pr_init) \<noteq> pr_init" by force
  from pair_register_reload [OF pr_reach.init pr_step.add this] show ?thesis .
qed

end
