(* ===== verification/Telemetry.thy ===== *)
theory Telemetry
  imports Noct_Prelude
begin

text \<open>
  Three estimators that the operator's screens show: the signal quality of the followed Director
  (\<open>src/transport/quality.cpp\<close>), the census of repeaters on the air
  (\<open>src/dal/drivers/repeater_census.cpp\<close>) and the Wi-Fi congestion survey that recommends a channel
  (\<open>src/dal/drivers/wifi_scanner.cpp\<close>).
\<close>

section \<open>Signal quality\<close>

record signal_quality =
  sq_last_source_id :: u8
  sq_last_seq :: u8
  sq_received_count :: u16
  sq_missed_count :: u16
  sq_window_start_ms :: u32

definition sq_reset :: signal_quality where
  "sq_reset = \<lparr> sq_last_source_id = 0, sq_last_seq = 0, sq_received_count = 0,
     sq_missed_count = 0, sq_window_start_ms = 0 \<rparr>"

abbreviation kWindowMs :: u32 where "kWindowMs \<equiv> 5000"
abbreviation kMinFramesForBars :: u16 where "kMinFramesForBars \<equiv> 3"

text \<open>The counters halve when the window has expired, before the frame is counted.\<close>

definition sq_decay :: "u32 \<Rightarrow> signal_quality \<Rightarrow> signal_quality" where
  "sq_decay now_ms s =
     (if now_ms - sq_window_start_ms s \<ge> kWindowMs
      then s\<lparr> sq_received_count := of_nat ((unat (sq_received_count s) + 1) div 2),
              sq_missed_count := sq_missed_count s div 2,
              sq_window_start_ms := now_ms \<rparr>
      else s)"

definition note_frame :: "u8 \<Rightarrow> u8 \<Rightarrow> u32 \<Rightarrow> signal_quality \<Rightarrow> signal_quality" where
  "note_frame source_id seq now_ms s =
     (if seq = 0 then s
      else if sq_last_source_id s \<noteq> source_id then
        \<lparr> sq_last_source_id = source_id, sq_last_seq = seq, sq_received_count = 1,
          sq_missed_count = 0, sq_window_start_ms = now_ms \<rparr>
      else
        let s1 = sq_decay now_ms s;
            s2 = (if sq_last_seq s1 \<noteq> 0 \<and> seq > sq_last_seq s1
                  then s1\<lparr> sq_missed_count := sq_missed_count s1
                             + of_nat (unat seq - unat (sq_last_seq s1) - 1) \<rparr>
                  else s1)
        in s2\<lparr> sq_received_count := sq_received_count s2 + 1, sq_last_seq := seq \<rparr>)"

definition bars :: "signal_quality \<Rightarrow> int" where
  "bars s =
     (if sq_received_count s < kMinFramesForBars then - 1
      else let total = ucast (sq_received_count s) + ucast (sq_missed_count s) :: u32 in
        if total = 0 then - 1
        else let loss_pct = ucast ((ucast (sq_missed_count s) * 100 :: u32) div total) :: u16 in
          if loss_pct < 5 then 4
          else if loss_pct < 15 then 3
          else if loss_pct < 30 then 2
          else if loss_pct < 50 then 1
          else 0)"

text \<open>The sequence numbers a Director sends: 1 to 255, zero skipped.\<close>

definition seq_after :: "u8 \<Rightarrow> u8" where
  "seq_after q = (if q = 255 then 1 else q + 1)"

fun in_order :: "u8 \<Rightarrow> u8 list \<Rightarrow> bool" where
  "in_order q [] = True"
| "in_order q (r # rs) = (r = seq_after q \<and> in_order r rs)"

lemma unat_Suc_u8: "q \<noteq> 255 \<Longrightarrow> unat (q + 1 :: u8) = unat q + 1"
proof -
  assume "q \<noteq> 255"
  then have "unat q \<noteq> 255" by (simp add: word_unat_eq_iff)
  then have "unat q < 255" using unat_u8_le [of q] by (rule le_neq_implies_less [rotated])
  then show ?thesis by (simp add: unat_plus_if_size word_size)
qed

lemma seq_after_nonzero: "seq_after q \<noteq> 0"
  using unat_Suc_u8 [of q] by (auto simp: seq_after_def word_unat_eq_iff)

lemma seq_after_no_gap: "seq_after q > q \<Longrightarrow> unat (seq_after q) - unat q - 1 = 0"
  using unat_Suc_u8 [of q] by (auto simp: seq_after_def word_less_nat_alt split: if_splits)

text \<open>A clean link never shows loss. Frames of one source with consecutive sequence numbers (255
  followed by 1), arriving at any times, leave the missed count at zero, whatever window decays
  happen on the way; so the bar count is either not yet available or the full four.\<close>

lemma lossless_run:
  assumes "sq_last_source_id s = src" and "sq_last_seq s \<noteq> 0" and "sq_missed_count s = 0"
    and "in_order (sq_last_seq s) (map fst frames)"
  shows "sq_missed_count (foldl (\<lambda>s (q, t). note_frame src q t s) s frames) = 0"
  using assms
proof (induction frames arbitrary: s)
  case Nil
  then show ?case by simp
next
  case (Cons x frames)
  obtain q t where x: "x = (q, t)" by (cases x)
  have q: "q = seq_after (sq_last_seq s)" "in_order q (map fst frames)" using Cons.prems(4) x by auto
  have "sq_missed_count (note_frame src q t s) = 0" "sq_last_source_id (note_frame src q t s) = src"
    "sq_last_seq (note_frame src q t s) = q" "q \<noteq> 0"
    using Cons.prems(1-3) q(1) seq_after_nonzero [of "sq_last_seq s"] seq_after_no_gap [of "sq_last_seq s"]
    by (auto simp: note_frame_def sq_decay_def Let_def)
  with Cons.IH [of "note_frame src q t s"] q(2) x show ?case by simp
qed

lemma lossless_from_reset:
  assumes "q \<noteq> 0" and "in_order q (map fst frames)"
  shows "sq_missed_count (foldl (\<lambda>s (q, t). note_frame src q t s) sq_reset ((q, t) # frames)) = 0"
proof -
  let ?s = "note_frame src q t sq_reset"
  have "sq_last_source_id ?s = src" "sq_last_seq ?s = q" "sq_missed_count ?s = 0"
    using assms(1) by (auto simp: note_frame_def sq_reset_def sq_decay_def Let_def)
  then show ?thesis using lossless_run [of ?s src frames] assms by simp
qed

lemma bars_lossless: "sq_missed_count s = 0 \<Longrightarrow> bars s \<in> {- 1, 4}"
  by (simp add: bars_def Let_def)

text \<open>The bar count is one of six values, and the loss it is computed from is at most 100 percent.\<close>

lemma bars_range: "bars s \<in> {- 1, 0, 1, 2, 3, 4}"
  by (simp add: bars_def Let_def)

section \<open>Repeater census\<close>

record census_entry =
  ce_uid :: "u8 \<times> u8 \<times> u8"
  ce_channel :: u8
  ce_relayed :: u32
  ce_uptime_s :: u16
  ce_last_seen_ms :: u32
  ce_used :: bool

abbreviation kMaxRepeaters :: nat where "kMaxRepeaters \<equiv> 16"
abbreviation kOnlineWindowMs :: u32 where "kOnlineWindowMs \<equiv> 5000"

type_synonym census = "census_entry list"

definition census_init :: census where
  "census_init = replicate kMaxRepeaters \<lparr> ce_uid = (0, 0, 0), ce_channel = 0, ce_relayed = 0,
     ce_uptime_s = 0, ce_last_seen_ms = 0, ce_used = False \<rparr>"

text \<open>The scan for a victim: the first free slot, else the last of the slots heard longest ago.\<close>

fun census_victim :: "u32 \<Rightarrow> census \<Rightarrow> nat \<Rightarrow> nat \<Rightarrow> u32 \<Rightarrow> nat" where
  "census_victim now [] i victim oldest = victim"
| "census_victim now (e # es) i victim oldest =
     (if \<not> ce_used e then i
      else let age = now - ce_last_seen_ms e in
        if age \<ge> oldest then census_victim now es (Suc i) i age
        else census_victim now es (Suc i) victim oldest)"

definition census_note :: "u8 \<times> u8 \<times> u8 \<Rightarrow> u8 \<Rightarrow> u32 \<Rightarrow> u16 \<Rightarrow> u32 \<Rightarrow> census \<Rightarrow> census" where
  "census_note uid channel relayed uptime_s now_ms es =
     (case find_idx (\<lambda>e. ce_used e \<and> ce_uid e = uid) es of
        Some i \<Rightarrow> es[i := (es ! i)\<lparr> ce_channel := channel, ce_relayed := relayed,
                                  ce_uptime_s := uptime_s, ce_last_seen_ms := now_ms \<rparr>]
      | None \<Rightarrow> es[census_victim now_ms es 0 0 0 :=
          \<lparr> ce_uid = uid, ce_channel = channel, ce_relayed = relayed, ce_uptime_s = uptime_s,
            ce_last_seen_ms = now_ms, ce_used = True \<rparr>])"

definition count_online :: "u32 \<Rightarrow> census \<Rightarrow> nat" where
  "count_online now_ms es =
     length (filter (\<lambda>e. ce_used e \<and> now_ms - ce_last_seen_ms e \<le> kOnlineWindowMs) es)"

text \<open>The victim is free, or every slot is used and none was heard longer ago.\<close>

lemma census_victim_spec:
  assumes "census_victim now es (length pre) victim oldest = v"
    and "\<forall>e \<in> set pre. ce_used e \<and> now - ce_last_seen_ms e \<le> oldest"
    and "pre \<noteq> [] \<longrightarrow> victim < length pre \<and> now - ce_last_seen_ms (pre ! victim) = oldest"
    and "pre = [] \<longrightarrow> oldest = 0" and "pre @ es \<noteq> []"
  shows "v < length (pre @ es) \<and> (\<not> ce_used ((pre @ es) ! v)
    \<or> (\<forall>e \<in> set (pre @ es). ce_used e
        \<and> now - ce_last_seen_ms e \<le> now - ce_last_seen_ms ((pre @ es) ! v)))"
  using assms
proof (induction es arbitrary: pre victim oldest)
  case Nil
  then have "pre \<noteq> []" "v = victim" by simp_all
  with Nil.prems(2,3) show ?case by simp
next
  case (Cons e es)
  show ?case
  proof (cases "ce_used e")
    case False
    then have "v = length pre" using Cons.prems(1) by simp
    with False show ?thesis by simp
  next
    case True
    define age where "age = now - ce_last_seen_ms e"
    show ?thesis
    proof (cases "age \<ge> oldest")
      case ge: True
      have v: "census_victim now es (length (pre @ [e])) (length pre) age = v"
        using Cons.prems(1) True ge by (simp add: age_def Let_def)
      have all: "\<forall>x \<in> set (pre @ [e]). ce_used x \<and> now - ce_last_seen_ms x \<le> age"
        using Cons.prems(2) True order_trans [OF _ ge] by (simp add: age_def)
      have at: "pre @ [e] \<noteq> [] \<longrightarrow> length pre < length (pre @ [e])
          \<and> now - ce_last_seen_ms ((pre @ [e]) ! length pre) = age"
        by (simp add: age_def)
      from Cons.IH [OF v all at] show ?thesis by simp
    next
      case lt: False
      have pre: "pre \<noteq> []" using lt Cons.prems(4) by auto
      have v: "census_victim now es (length (pre @ [e])) victim oldest = v"
        using Cons.prems(1) True lt by (simp add: age_def Let_def)
      have all: "\<forall>x \<in> set (pre @ [e]). ce_used x \<and> now - ce_last_seen_ms x \<le> oldest"
        using Cons.prems(2) True lt by (simp add: age_def)
      have at: "pre @ [e] \<noteq> [] \<longrightarrow> victim < length (pre @ [e])
          \<and> now - ce_last_seen_ms ((pre @ [e]) ! victim) = oldest"
        using Cons.prems(3) pre by (simp add: nth_append)
      from Cons.IH [OF v all at] show ?thesis by simp
    qed
  qed
qed

definition census_inv :: "census \<Rightarrow> bool" where
  "census_inv es \<longleftrightarrow> length es = kMaxRepeaters \<and>
     (\<forall>i < length es. \<forall>j < length es. ce_used (es ! i) \<longrightarrow> ce_used (es ! j)
        \<longrightarrow> ce_uid (es ! i) = ce_uid (es ! j) \<longrightarrow> i = j)"

definition heard_at :: "u8 \<times> u8 \<times> u8 \<Rightarrow> u32 \<Rightarrow> census_entry \<Rightarrow> bool" where
  "heard_at uid now e \<longleftrightarrow> ce_used e \<and> ce_uid e = uid \<and> ce_last_seen_ms e = now"

lemma census_victim_chosen:
  assumes "length es = kMaxRepeaters"
  shows "census_victim now es 0 0 0 < kMaxRepeaters"
    and "ce_used (es ! census_victim now es 0 0 0) \<Longrightarrow> e \<in> set es \<Longrightarrow>
      ce_used e \<and> now - ce_last_seen_ms e
        \<le> now - ce_last_seen_ms (es ! census_victim now es 0 0 0)"
proof -
  have "es \<noteq> []" using assms by (cases es) auto
  then have *: "census_victim now es 0 0 0 < kMaxRepeaters
      \<and> (\<not> ce_used (es ! census_victim now es 0 0 0) \<or> (\<forall>e \<in> set es. ce_used e
        \<and> now - ce_last_seen_ms e \<le> now - ce_last_seen_ms (es ! census_victim now es 0 0 0)))"
    using census_victim_spec [of now es "[]" 0 0 "census_victim now es 0 0 0"] assms by simp
  show "census_victim now es 0 0 0 < kMaxRepeaters" using * by blast
  show "ce_used (es ! census_victim now es 0 0 0) \<Longrightarrow> e \<in> set es \<Longrightarrow> ce_used e
      \<and> now - ce_last_seen_ms e \<le> now - ce_last_seen_ms (es ! census_victim now es 0 0 0)"
    using * by blast
qed

text \<open>Noting a repeater writes exactly one slot: the one that already holds the uid, or the victim.\<close>

lemma census_note_eq:
  assumes "length es = kMaxRepeaters"
  obtains k e where "census_note uid ch rl up now es = es[k := e]" and "k < kMaxRepeaters"
    and "heard_at uid now e"
    and "(ce_used (es ! k) \<and> ce_uid (es ! k) = uid)
      \<or> (k = census_victim now es 0 0 0 \<and> (\<forall>x \<in> set es. \<not> (ce_used x \<and> ce_uid x = uid)))"
proof (cases "find_idx (\<lambda>e. ce_used e \<and> ce_uid e = uid) es")
  case None
  let ?e = "\<lparr> ce_uid = uid, ce_channel = ch, ce_relayed = rl, ce_uptime_s = up,
    ce_last_seen_ms = now, ce_used = True \<rparr>"
  have "\<forall>x \<in> set es. \<not> (ce_used x \<and> ce_uid x = uid)" using None by (simp add: find_idx_None)
  with that [of "census_victim now es 0 0 0" ?e] None census_victim_chosen(1) [OF assms, of now]
  show ?thesis by (simp add: census_note_def heard_at_def)
next
  case (Some i)
  let ?e = "(es ! i)\<lparr> ce_channel := ch, ce_relayed := rl, ce_uptime_s := up, ce_last_seen_ms := now \<rparr>"
  from that [of i ?e] Some find_idx_SomeD [OF Some] assms
  show ?thesis by (simp add: census_note_def heard_at_def)
qed

lemma census_invD:
  "census_inv es \<Longrightarrow> i < length es \<Longrightarrow> k < length es \<Longrightarrow> ce_used (es ! i) \<Longrightarrow> ce_used (es ! k)
    \<Longrightarrow> ce_uid (es ! i) = ce_uid (es ! k) \<Longrightarrow> i = k"
  unfolding census_inv_def by simp

lemma census_inv_update:
  assumes "census_inv es" and "k < length es" and "ce_used e"
    and "\<forall>i < length es. ce_used (es ! i) \<and> ce_uid (es ! i) = ce_uid e \<longrightarrow> i = k"
  shows "census_inv (es[k := e])"
  using assms unfolding census_inv_def
  by (metis length_list_update nth_list_update_eq nth_list_update_neq)

lemma census_note_inv:
  assumes "census_inv es"
  shows "census_inv (census_note uid ch rl up now es)"
proof -
  have len: "length es = kMaxRepeaters" using assms by (simp add: census_inv_def)
  from census_note_eq [OF len, of uid ch rl up now] obtain k e where
    k: "census_note uid ch rl up now es = es[k := e]" "k < kMaxRepeaters" "heard_at uid now e"
    "(ce_used (es ! k) \<and> ce_uid (es ! k) = uid)
      \<or> (k = census_victim now es 0 0 0 \<and> (\<forall>x \<in> set es. \<not> (ce_used x \<and> ce_uid x = uid)))" .
  have uid: "ce_uid e = uid" using k(3) by (simp add: heard_at_def)
  have "\<forall>i < length es. ce_used (es ! i) \<and> ce_uid (es ! i) = ce_uid e \<longrightarrow> i = k"
    using k(4)
  proof
    assume at: "ce_used (es ! k) \<and> ce_uid (es ! k) = uid"
    show ?thesis
    proof (intro allI impI)
      fix i assume "i < length es" and "ce_used (es ! i) \<and> ce_uid (es ! i) = ce_uid e"
      with at k(2) len uid show "i = k" by (intro census_invD [OF assms]) simp_all
    qed
  next
    assume "k = census_victim now es 0 0 0 \<and> (\<forall>x \<in> set es. \<not> (ce_used x \<and> ce_uid x = uid))"
    then show ?thesis using uid nth_mem [of _ es] by blast
  qed
  from census_inv_update [OF assms _ _ this] show ?thesis
    unfolding k(1) using k(2,3) len by (simp only: heard_at_def)
qed

text \<open>The census is a set of repeaters keyed by uid that forgets only the stalest. From an empty
  census, after any history of heartbeats, the table holds no uid twice; the repeater heard last is in
  it, counted online; and the one other repeater it may have displaced was, with every slot taken,
  heard no later (in wrapped milliseconds) than any repeater that was kept.\<close>

theorem census_keeps_freshest:
  assumes "foldl (\<lambda>es (uid, ch, rl, up, t). census_note uid ch rl up t es) census_init history = es"
  shows "census_inv es
    \<and> (\<exists>k e. census_note uid ch rl up now es = es[k := e] \<and> k < kMaxRepeaters \<and> heard_at uid now e
        \<and> census_inv (es[k := e]) \<and> 0 < count_online now (es[k := e])
        \<and> (ce_used (es ! k) \<and> ce_uid (es ! k) \<noteq> uid \<longrightarrow>
            (\<forall>x \<in> set es. ce_used x
               \<and> now - ce_last_seen_ms x \<le> now - ce_last_seen_ms (es ! k))))"
proof -
  have "census_inv census_init" by (simp add: census_inv_def census_init_def)
  then have inv: "census_inv es"
    unfolding assms [symmetric]
  proof (induction history rule: rev_induct)
    case Nil
    then show ?case by simp
  next
    case (snoc x xs)
    then show ?case by (cases x) (simp add: census_note_inv)
  qed
  then have len: "length es = kMaxRepeaters" by (simp add: census_inv_def)
  from census_note_eq [OF len, of uid ch rl up now] obtain k e where
    k: "census_note uid ch rl up now es = es[k := e]" "k < kMaxRepeaters" "heard_at uid now e"
    "(ce_used (es ! k) \<and> ce_uid (es ! k) = uid)
      \<or> (k = census_victim now es 0 0 0 \<and> (\<forall>x \<in> set es. \<not> (ce_used x \<and> ce_uid x = uid)))" .
  have "e \<in> set (es[k := e])" using k(2) len by (simp add: set_update_memI)
  then have "0 < count_online now (es[k := e])"
    using k(3) by (auto simp: count_online_def heard_at_def filter_empty_conv)
  moreover have "census_inv (es[k := e])" using census_note_inv [OF inv] k(1) by metis
  moreover have "ce_used (es ! k) \<and> ce_uid (es ! k) \<noteq> uid \<longrightarrow>
      (\<forall>x \<in> set es. ce_used x \<and> now - ce_last_seen_ms x \<le> now - ce_last_seen_ms (es ! k))"
    using k(4) census_victim_chosen(2) [OF len, of now] by auto
  ultimately show ?thesis using inv k(1-3) by blast
qed

theorem census_keeps_freshest_witness:
  "\<exists>es. census_inv es \<and> (\<exists>k e. census_note (1, 2, 3) 6 0 9 50 es = es[k := e]
     \<and> heard_at (1, 2, 3) 50 e \<and> 0 < count_online 50 (es[k := e]))"
  using census_keeps_freshest [of "[((7, 7, 7), 1, 0, 0, 10)]" _ "(1, 2, 3)" 6 0 9 50, OF refl]
  by blast

section \<open>Wi-Fi survey\<close>

text \<open>\<open>WifiChannelStats\<close>: a saturating count of access points and the strongest signal, a signed
  byte kept as the word the code stores and compared through \<open>sint\<close>. The array is indexed by
  channel minus one.\<close>

record wifi_channel_stats =
  wc_ap_count :: u8
  wc_max_rssi :: u8

type_synonym wifi_scanner = "wifi_channel_stats list"

abbreviation kWifiChannelCount :: nat where "kWifiChannelCount \<equiv> 13"

definition zero_wifi_stats :: wifi_channel_stats where
  "zero_wifi_stats = \<lparr> wc_ap_count = 0, wc_max_rssi = 0 \<rparr>"

definition effective_rssi :: "u8 \<Rightarrow> int" where
  "effective_rssi max_rssi = (if max_rssi = 0 then - 128 else sint max_rssi)"

definition scanner_reset :: wifi_scanner where
  "scanner_reset = replicate kWifiChannelCount zero_wifi_stats"

definition ingest_sample :: "u8 \<Rightarrow> u8 \<Rightarrow> wifi_scanner \<Rightarrow> wifi_scanner" where
  "ingest_sample ch rssi_dbm stats =
     (if unat ch < 1 \<or> unat ch > kWifiChannelCount then stats
      else let s = stats ! (unat ch - 1);
               s1 = (if wc_ap_count s < 0xFF then s\<lparr> wc_ap_count := wc_ap_count s + 1 \<rparr> else s);
               s2 = (if wc_max_rssi s1 = 0 \<or> sint rssi_dbm > sint (wc_max_rssi s1)
                     then s1\<lparr> wc_max_rssi := rssi_dbm \<rparr> else s1)
           in stats[unat ch - 1 := s2])"

definition scanner_channel :: "u8 \<Rightarrow> wifi_scanner \<Rightarrow> wifi_channel_stats" where
  "scanner_channel ch stats =
     (if unat ch < 1 \<or> unat ch > kWifiChannelCount then zero_wifi_stats
      else stats ! (unat ch - 1))"

text \<open>The candidate loop over channels 6 and 11, starting from 1.\<close>

fun recommend_from :: "u8 list \<Rightarrow> wifi_scanner \<Rightarrow> u8 \<Rightarrow> u8" where
  "recommend_from [] stats best = best"
| "recommend_from (c # cs) stats best =
     (let cur = stats ! (unat best - 1); cand = stats ! (unat c - 1)
      in if wc_ap_count cand < wc_ap_count cur then recommend_from cs stats c
         else if wc_ap_count cand > wc_ap_count cur then recommend_from cs stats best
         else if effective_rssi (wc_max_rssi cand) < effective_rssi (wc_max_rssi cur)
         then recommend_from cs stats c
         else recommend_from cs stats best)"

definition recommend_channel :: "wifi_scanner \<Rightarrow> u8" where
  "recommend_channel stats = recommend_from [6, 11] stats 1"

text \<open>The blocking scan. What the radio driver returns is a parameter: no result when the scan
  could not start, else the channel and the signal strength of every access point, as the wide
  integers that the driver reports and the code narrows.\<close>

definition wifi_scan :: "(u32 \<times> u32) list option \<Rightarrow> wifi_scanner \<Rightarrow> bool \<times> wifi_scanner" where
  "wifi_scan results stats =
     (case results of
        None \<Rightarrow> (False, scanner_reset)
      | Some rs \<Rightarrow> (True, foldl (\<lambda>st (ch, rssi). ingest_sample (ucast ch) (ucast rssi) st)
                                scanner_reset rs))"

text \<open>What the survey promises, over the list of samples it saw on one channel.\<close>

definition heard_on :: "u8 \<Rightarrow> (u32 \<times> u32) list \<Rightarrow> int list" where
  "heard_on c rs = map (\<lambda>(ch, rssi). sint (ucast rssi :: u8))
     (filter (\<lambda>(ch, rssi). (ucast ch :: u8) = c) rs)"

definition congestion :: "int list \<Rightarrow> nat \<times> int" where
  "congestion xs = (min 255 (length xs), if xs = [] then - 128 else Max (set xs))"

definition stats_of :: "wifi_channel_stats \<Rightarrow> int list \<Rightarrow> bool" where
  "stats_of s xs \<longleftrightarrow> unat (wc_ap_count s) = min 255 (length xs)
     \<and> (if xs = [] then wc_max_rssi s = 0 else wc_max_rssi s \<noteq> 0 \<and> sint (wc_max_rssi s) = Max (set xs))"

definition less_crowded :: "nat \<times> int \<Rightarrow> nat \<times> int \<Rightarrow> bool" where
  "less_crowded a b \<longleftrightarrow> fst a < fst b \<or> (fst a = fst b \<and> snd a \<le> snd b)"

lemma heard_on_snoc:
  "heard_on c (rs @ [(ch, rssi)])
    = heard_on c rs @ (if (ucast ch :: u8) = c then [sint (ucast rssi :: u8)] else [])"
  by (simp add: heard_on_def)

lemma sample_stats:
  assumes "stats_of s xs" and "r \<noteq> 0"
    and "s1 = (if wc_ap_count s < 0xFF then s\<lparr> wc_ap_count := wc_ap_count s + 1 \<rparr> else s)"
  shows "stats_of (if wc_max_rssi s1 = 0 \<or> sint r > sint (wc_max_rssi s1)
                   then s1\<lparr> wc_max_rssi := r \<rparr> else s1) (xs @ [sint r])"
proof -
  have "unat (wc_ap_count s1) = min 255 (length xs + 1) \<and> wc_max_rssi s1 = wc_max_rssi s"
  proof (cases "wc_ap_count s < 0xFF")
    case True
    then have "unat (wc_ap_count s) < 255" by (simp add: word_less_nat_alt)
    then show ?thesis
      using True assms(1,3) unat_plus_if_size [of "wc_ap_count s" 1]
      by (simp add: stats_of_def word_size min_def split: if_splits)
  next
    case False
    then have "255 \<le> unat (wc_ap_count s)" by (simp add: word_less_nat_alt)
    then show ?thesis
      using False assms(1,3) by (simp add: stats_of_def min_def split: if_splits)
  qed
  moreover have "xs \<noteq> [] \<Longrightarrow> Max (set (xs @ [sint r])) = max (sint r) (Max (set xs))" by simp
  ultimately show ?thesis
    using assms(1,2) by (cases "xs = []") (simp_all add: stats_of_def max_def del: set_append Max_less_iff)
qed

lemma ingest_stats:
  assumes "length st = kWifiChannelCount" and "(ucast rssi :: u8) \<noteq> 0"
    and "\<forall>c. 1 \<le> unat c \<and> unat c \<le> kWifiChannelCount \<longrightarrow>
      stats_of (st ! (unat c - 1)) (heard_on c rs)"
  shows "length (ingest_sample (ucast ch) (ucast rssi) st) = kWifiChannelCount
    \<and> (\<forall>c. 1 \<le> unat c \<and> unat c \<le> kWifiChannelCount \<longrightarrow>
      stats_of (ingest_sample (ucast ch) (ucast rssi) st ! (unat c - 1))
        (heard_on c (rs @ [(ch, rssi)])))"
proof (intro conjI allI impI)
  let ?c = "ucast ch :: u8"
  let ?st = "ingest_sample ?c (ucast rssi) st"
  show "length ?st = kWifiChannelCount" using assms(1) by (simp add: ingest_sample_def Let_def)
  fix c :: u8 assume c: "1 \<le> unat c \<and> unat c \<le> kWifiChannelCount"
  have old: "stats_of (st ! (unat c - 1)) (heard_on c rs)" using assms(3) c by blast
  show "stats_of (?st ! (unat c - 1)) (heard_on c (rs @ [(ch, rssi)]))"
  proof (cases "?c = c")
    case True
    have lt: "unat c - Suc 0 < length st" using c assms(1) by linarith
    show ?thesis
      using sample_stats [OF old [unfolded One_nat_def] assms(2) refl] c lt True
      by (simp add: ingest_sample_def heard_on_snoc Let_def split del: if_split)
  next
    case False
    then have "unat ?c \<noteq> unat c" by (simp add: word_unat_eq_iff)
    then have "?st ! (unat c - 1) = st ! (unat c - 1)"
      using c by (auto simp: ingest_sample_def Let_def nth_list_update)
    then show ?thesis using old False by (simp add: heard_on_snoc)
  qed
qed

lemma stats_of_congestion:
  "stats_of s xs \<Longrightarrow> (unat (wc_ap_count s), effective_rssi (wc_max_rssi s)) = congestion xs"
  by (auto simp: stats_of_def congestion_def effective_rssi_def split: if_splits)

lemma scan_stats:
  assumes "\<forall>(ch, rssi) \<in> set rs. (ucast rssi :: u8) \<noteq> 0"
    and "st = foldl (\<lambda>st (ch, rssi). ingest_sample (ucast ch) (ucast rssi) st) scanner_reset rs"
  shows "length st = kWifiChannelCount \<and> (\<forall>c. 1 \<le> unat c \<and> unat c \<le> kWifiChannelCount \<longrightarrow>
      stats_of (st ! (unat c - 1)) (heard_on c rs))"
  using assms
proof (induction rs arbitrary: st rule: rev_induct)
  case Nil
  then show ?case
    by (auto simp: scanner_reset_def stats_of_def heard_on_def zero_wifi_stats_def)
next
  case (snoc x rs)
  obtain ch rssi where x: "x = (ch, rssi)" by (cases x)
  let ?st = "foldl (\<lambda>st (ch, rssi). ingest_sample (ucast ch) (ucast rssi) st) scanner_reset rs"
  have *: "length ?st = kWifiChannelCount \<and> (\<forall>c. 1 \<le> unat c \<and> unat c \<le> kWifiChannelCount \<longrightarrow>
      stats_of (?st ! (unat c - 1)) (heard_on c rs))"
    by (rule snoc.IH) (use snoc.prems(1) in \<open>simp_all\<close>)
  have "(ucast rssi :: u8) \<noteq> 0" using snoc.prems(1) x by simp
  from ingest_stats [OF conjunct1 [OF *] this conjunct2 [OF *], of ch] show ?case
    unfolding snoc.prems(2) x by simp
qed

text \<open>The recommended channel is the quietest of the three that do not overlap. For every list of
  scan results with non-zero signal strengths, a scan succeeds, its statistics of each of the channels
  1 to 13 are the saturated count and the strongest signal of the samples on that channel, and the
  recommendation is channel 1, 6 or 11 with no other of the three having fewer access points, or as
  many and a weaker strongest signal.\<close>

theorem recommendation_is_quietest:
  assumes "\<forall>(ch, rssi) \<in> set rs. (ucast rssi :: u8) \<noteq> 0"
    and "wifi_scan (Some rs) st0 = (okay, st)"
  shows "okay
    \<and> (\<forall>c. 1 \<le> unat c \<and> unat c \<le> kWifiChannelCount \<longrightarrow> stats_of (scanner_channel c st) (heard_on c rs))
    \<and> recommend_channel st \<in> {1, 6, 11}
    \<and> (\<forall>c \<in> {1, 6, 11}. less_crowded (congestion (heard_on (recommend_channel st) rs))
                            (congestion (heard_on c rs)))"
proof -
  have st: "okay" "st = foldl (\<lambda>st (ch, rssi). ingest_sample (ucast ch) (ucast rssi) st) scanner_reset rs"
    using assms(2) by (simp_all add: wifi_scan_def)
  note all = scan_stats [OF assms(1) st(2)]
  have chan: "scanner_channel c st = st ! (unat c - 1)" if "1 \<le> unat (c :: u8) \<and> unat c \<le> kWifiChannelCount" for c
    using that by (simp add: scanner_channel_def)
  have key: "congestion (heard_on c rs) = (unat (wc_ap_count (st ! (unat c - 1))),
      effective_rssi (wc_max_rssi (st ! (unat c - 1))))" if "1 \<le> unat (c :: u8) \<and> unat c \<le> kWifiChannelCount" for c
    using stats_of_congestion [of "st ! (unat c - 1)" "heard_on c rs"] all that by simp
  have keys: "congestion (heard_on 1 rs) = (unat (wc_ap_count (st ! 0)), effective_rssi (wc_max_rssi (st ! 0)))"
    "congestion (heard_on 6 rs) = (unat (wc_ap_count (st ! 5)), effective_rssi (wc_max_rssi (st ! 5)))"
    "congestion (heard_on 11 rs) = (unat (wc_ap_count (st ! 10)), effective_rssi (wc_max_rssi (st ! 10)))"
    using key [of 1] key [of 6] key [of 11] by simp_all
  have best: "recommend_channel st \<in> {1, 6, 11}
    \<and> (\<forall>c \<in> {1, 6, 11}. less_crowded (congestion (heard_on (recommend_channel st) rs))
                            (congestion (heard_on c rs)))"
    using keys by (auto simp: recommend_channel_def Let_def less_crowded_def word_less_nat_alt)
  with st(1) all chan show ?thesis by simp
qed

theorem recommendation_is_quietest_witness:
  "recommend_channel (snd (wifi_scan (Some [(1, - 40), (6, - 70), (11, - 60), (36, - 20)]) []))
     \<in> {1, 6, 11}"
  using recommendation_is_quietest [of "[(1, - 40), (6, - 70), (11, - 60), (36, - 20)]" "[]",
      OF _ surjective_pairing]
  by simp

end
