(* ===== verification/DmxParser.thy ===== *)
theory DmxParser
  imports Noct_Prelude
begin

text \<open>
  The Enttec DMX USB Pro byte parser of \<open>src/dal/drivers/dmx_input_parser.cpp\<close>: the state of
  \<open>DmxInputParser\<close>, one definition per method, the frame format as an encoder that the parser
  is proved to invert, a ghost history for its soundness, and a distance to \<open>WaitStart\<close> for
  its recovery from any corruption.
\<close>

abbreviation kStartByte :: u8 where "kStartByte \<equiv> 0x7E"
abbreviation kEndByte :: u8 where "kEndByte \<equiv> 0xE7"
abbreviation kLabelOutputOnlySendDmx :: u8 where "kLabelOutputOnlySendDmx \<equiv> 0x06"
abbreviation kPayloadBufSize :: nat where "kPayloadBufSize \<equiv> 600"

text \<open>The channels the bridge copies out of the parser (\<open>src/modes/dmx_bridge_mode.h\<close>).\<close>

abbreviation kUniverseBufferSize :: u16 where "kUniverseBufferSize \<equiv> 280"

datatype DmxParseResult = NeedMoreBytes | FrameComplete | ParserReset

datatype parser_state = WaitStart | ReadLabel | ReadLenLo | ReadLenHi | ReadData | ReadEnd

record dmx_parser =
  dp_state :: parser_state
  dp_current_label :: u8
  dp_current_len :: u16
  dp_data_read :: u16
  dp_last_label :: u8
  dp_last_payload_len :: u16
  dp_payload_buf :: bytes
  dp_frame_count :: u32
  dp_reset_count :: u32
  dp_oversize_count :: u32

definition dmx_parser_init :: dmx_parser where
  "dmx_parser_init = \<lparr> dp_state = WaitStart, dp_current_label = 0, dp_current_len = 0,
     dp_data_read = 0, dp_last_label = 0, dp_last_payload_len = 0,
     dp_payload_buf = replicate kPayloadBufSize 0, dp_frame_count = 0, dp_reset_count = 0,
     dp_oversize_count = 0 \<rparr>"

definition dp_reset :: "dmx_parser \<Rightarrow> dmx_parser" where
  "dp_reset s = s\<lparr> dp_state := WaitStart, dp_current_label := 0, dp_current_len := 0,
                  dp_data_read := 0 \<rparr>"

definition dp_reset_counters :: "dmx_parser \<Rightarrow> dmx_parser" where
  "dp_reset_counters s = s\<lparr> dp_frame_count := 0, dp_reset_count := 0, dp_oversize_count := 0 \<rparr>"

definition reset_to_wait_start :: "u8 \<Rightarrow> dmx_parser \<Rightarrow> DmxParseResult \<times> dmx_parser" where
  "reset_to_wait_start rejecting_byte s =
     (ParserReset,
      s\<lparr> dp_reset_count := dp_reset_count s + 1,
         dp_state := (if rejecting_byte = kStartByte then ReadLabel else WaitStart),
         dp_current_label := 0, dp_current_len := 0, dp_data_read := 0 \<rparr>)"

fun feed_byte :: "u8 \<Rightarrow> dmx_parser \<Rightarrow> DmxParseResult \<times> dmx_parser" where
  "feed_byte b s =
     (case dp_state s of
        WaitStart \<Rightarrow>
          (NeedMoreBytes, if b = kStartByte then s\<lparr> dp_state := ReadLabel \<rparr> else s)
      | ReadLabel \<Rightarrow> (NeedMoreBytes, s\<lparr> dp_current_label := b, dp_state := ReadLenLo \<rparr>)
      | ReadLenLo \<Rightarrow> (NeedMoreBytes, s\<lparr> dp_current_len := ucast b, dp_state := ReadLenHi \<rparr>)
      | ReadLenHi \<Rightarrow>
          (let len = dp_current_len s OR push_bit 8 (ucast b);
               s = s\<lparr> dp_current_len := len \<rparr>
           in if unat len > kPayloadBufSize
              then reset_to_wait_start 0 (s\<lparr> dp_oversize_count := dp_oversize_count s + 1 \<rparr>)
              else (NeedMoreBytes,
                    s\<lparr> dp_data_read := 0, dp_state := (if len = 0 then ReadEnd else ReadData) \<rparr>))
      | ReadData \<Rightarrow>
          (let s = s\<lparr> dp_payload_buf := (dp_payload_buf s)[unat (dp_data_read s) := b],
                      dp_data_read := dp_data_read s + 1 \<rparr>
           in (NeedMoreBytes,
               if dp_data_read s \<ge> dp_current_len s then s\<lparr> dp_state := ReadEnd \<rparr> else s))
      | ReadEnd \<Rightarrow>
          if b = kEndByte then
            (FrameComplete,
             s\<lparr> dp_last_label := dp_current_label s, dp_last_payload_len := dp_current_len s,
                dp_frame_count := dp_frame_count s + 1, dp_state := WaitStart,
                dp_current_label := 0, dp_current_len := 0, dp_data_read := 0 \<rparr>)
          else reset_to_wait_start b s)"

declare feed_byte.simps [simp del]

definition last_was_dmx_packet :: "dmx_parser \<Rightarrow> bool" where
  "last_was_dmx_packet s \<longleftrightarrow> dp_last_label s = kLabelOutputOnlySendDmx
     \<and> dp_last_payload_len s \<ge> 1 \<and> dp_payload_buf s ! 0 = 0"

definition copy_dmx_channels :: "dmx_parser \<Rightarrow> bytes option \<Rightarrow> u16 \<Rightarrow> u16 \<times> bytes option" where
  "copy_dmx_channels s out out_size =
     (if \<not> last_was_dmx_packet s \<or> out = None \<or> out_size = 0 then (0, out)
      else let channels_in_frame = dp_last_payload_len s - 1;
               to_copy = (if channels_in_frame < out_size then channels_in_frame else out_size)
           in (to_copy, map_option (\<lambda>o'. copy_into o' (take (unat to_copy)
                                            (drop 1 (dp_payload_buf s)))) out))"

section \<open>Feeding a stream\<close>

text \<open>The caller's loop: one call per received byte, the frame read back when one completes.\<close>

fun feed_all :: "bytes \<Rightarrow> dmx_parser \<Rightarrow> (u8 \<times> bytes) list \<times> dmx_parser" where
  "feed_all [] s = ([], s)"
| "feed_all (b # bs) s =
     (case feed_byte b s of (r, s1) \<Rightarrow>
      case feed_all bs s1 of (frs, s2) \<Rightarrow>
        (if r = FrameComplete
         then (dp_last_label s1, take (unat (dp_last_payload_len s1)) (dp_payload_buf s1)) # frs
         else frs, s2))"

text \<open>The Enttec frame of a label and a payload.\<close>

definition enttec_frame :: "u8 \<times> bytes \<Rightarrow> bytes" where
  "enttec_frame = (\<lambda>(label, payload).
     [kStartByte, label] @ write_u16_le (of_nat (length payload)) @ payload @ [kEndByte])"

text \<open>The parser's invariant: the array has its size, the length it accepted fits, and the write
  index is inside the announced payload while one is read.\<close>

definition dp_inv :: "dmx_parser \<Rightarrow> bool" where
  "dp_inv s \<longleftrightarrow> length (dp_payload_buf s) = kPayloadBufSize
     \<and> unat (dp_last_payload_len s) \<le> kPayloadBufSize
     \<and> (dp_state s = ReadLenHi \<longrightarrow> dp_current_len s \<le> 255)
     \<and> (dp_state s = ReadData \<longrightarrow> dp_data_read s < dp_current_len s
          \<and> unat (dp_current_len s) \<le> kPayloadBufSize)
     \<and> (dp_state s = ReadEnd \<longrightarrow> dp_data_read s = dp_current_len s
          \<and> unat (dp_current_len s) \<le> kPayloadBufSize)"

lemma dp_inv_init: "dp_inv dmx_parser_init"
  by (simp add: dp_inv_def dmx_parser_init_def)

lemma dp_inv_feed:
  assumes "dp_inv s"
  shows "dp_inv (snd (feed_byte b s))"
proof (cases "dp_state s")
  case ReadLenLo
  have "(ucast b :: u16) \<le> 255" using unat_u8_le [of b] by (simp add: word_le_nat_alt unat_ucast_up)
  then show ?thesis using ReadLenLo assms by (simp add: feed_byte.simps dp_inv_def)
next
  case ReadData
  have lt: "dp_data_read s < dp_current_len s" using ReadData assms by (simp add: dp_inv_def)
  then show ?thesis
    using ReadData assms unat_Suc_below [OF lt]
    by (auto simp: feed_byte.simps dp_inv_def Let_def word_le_nat_alt word_less_nat_alt word_unat_eq_iff)
qed (use assms in \<open>auto simp: feed_byte.simps dp_inv_def reset_to_wait_start_def Let_def
       word_neq_0_conv split: if_splits\<close>)

section \<open>Round trip\<close>

lemma feed_all_append:
  "feed_all (xs @ ys) s =
     (case feed_all xs s of (f1, s1) \<Rightarrow> case feed_all ys s1 of (f2, s2) \<Rightarrow> (f1 @ f2, s2))"
  by (induction xs arbitrary: s) (auto split: prod.splits)

lemma dp_inv_feed_all: "dp_inv s \<Longrightarrow> dp_inv (snd (feed_all bs s))"
proof (induction bs arbitrary: s)
  case Nil
  then show ?case by simp
next
  case (Cons b bs)
  from Cons.IH [OF dp_inv_feed [OF Cons.prems, of b]] show ?case by (simp add: case_prod_beta)
qed

text \<open>The data segment is stored byte for byte, delimiter values included.\<close>

lemma feed_data:
  assumes "dp_state s = ReadData" and "bs \<noteq> []"
    and "unat (dp_data_read s) + length bs = unat (dp_current_len s)"
    and "unat (dp_current_len s) \<le> length (dp_payload_buf s)"
  shows "feed_all bs s = ([], s\<lparr> dp_payload_buf := poke_at (dp_payload_buf s) (unat (dp_data_read s)) bs,
    dp_data_read := dp_current_len s, dp_state := ReadEnd \<rparr>)"
  using assms
proof (induction bs arbitrary: s)
  case Nil
  then show ?case by simp
next
  case (Cons b bs)
  let ?k = "unat (dp_data_read s)"
  have lt: "dp_data_read s < dp_current_len s" using Cons.prems(3) by (simp add: word_less_nat_alt)
  have k: "?k < length (dp_payload_buf s)" using Cons.prems(3,4) by simp
  have k1: "unat (dp_data_read s + 1) = ?k + 1" by (rule unat_Suc_below [OF lt])
  show ?case
  proof (cases bs)
    case Nil
    then have "dp_data_read s + 1 = dp_current_len s"
      using Cons.prems(3) k1 by (simp add: word_unat_eq_iff)
    with Nil Cons.prems(1) k show ?thesis
      by (simp add: feed_byte.simps Let_def poke_at_def upd_conv_take_nth_drop)
  next
    case (Cons c cs)
    let ?s = "s\<lparr> dp_payload_buf := (dp_payload_buf s)[?k := b], dp_data_read := dp_data_read s + 1 \<rparr>"
    have "\<not> dp_data_read s + 1 \<ge> dp_current_len s"
      using Cons.prems(3) k1 Cons by (simp add: word_le_nat_alt)
    then have "feed_byte b s = (NeedMoreBytes, ?s)"
      using Cons.prems(1) by (simp add: feed_byte.simps Let_def)
    moreover have "poke_at ((dp_payload_buf s)[?k := b]) (?k + 1) bs
        = poke_at (dp_payload_buf s) ?k (b # bs)"
      using k by (simp add: poke_at_def upd_conv_take_nth_drop add.commute)
    ultimately show ?thesis
      using Cons.IH [of ?s] Cons.prems Cons k1 by simp
  qed
qed

lemma parse_one_frame:
  assumes "dp_state s = WaitStart" and "dp_inv s" and "length p \<le> kPayloadBufSize"
  shows "\<exists>s'. feed_all (enttec_frame (l, p)) s = ([(l, p)], s') \<and> dp_state s' = WaitStart
    \<and> dp_last_label s' = l \<and> unat (dp_last_payload_len s') = length p
    \<and> take (length p) (dp_payload_buf s') = p"
proof -
  define n :: u16 where "n = of_nat (length p)"
  have n: "unat n = length p" using assms(3) by (simp add: n_def unsigned_of_nat take_bit_nat_eq_self)
  have buf: "length (dp_payload_buf s) = kPayloadBufSize" using assms(2) by (simp add: dp_inv_def)
  obtain lo hi where lohi: "write_u16_le n = [lo, hi]" by (simp add: write_u16_le_def)
  have joined: "(ucast lo :: u16) OR push_bit 8 (ucast hi) = n"
    using read_write_le_end(1) [of n] by (simp add: lohi read_u16_le_def)
  let ?s = "s\<lparr> dp_current_label := l, dp_current_len := n, dp_data_read := 0 \<rparr>"
  have fits: "\<not> kPayloadBufSize < unat n" using n assms(3) by simp
  have head: "feed_all [kStartByte, l, lo, hi] s
      = ([], ?s\<lparr> dp_state := (if n = 0 then ReadEnd else ReadData) \<rparr>)"
    using assms(1) joined fits by (simp add: feed_byte.simps Let_def)
  let ?e = "?s\<lparr> dp_payload_buf := poke (dp_payload_buf s) p, dp_data_read := n, dp_state := ReadEnd \<rparr>"
  have data: "feed_all p (?s\<lparr> dp_state := (if n = 0 then ReadEnd else ReadData) \<rparr>) = ([], ?e)"
  proof (cases "n = 0")
    case True
    then have "p = []" using n by simp
    with True show ?thesis by (simp add: poke_def)
  next
    case False
    then have "p \<noteq> []" using n False by (auto simp: word_unat_eq_iff)
    with False feed_data [of "?s\<lparr> dp_state := ReadData \<rparr>" p] n buf assms(3) show ?thesis
      by (simp add: poke_def poke_at_def)
  qed
  have "feed_all (enttec_frame (l, p)) s
      = feed_all ([kStartByte, l, lo, hi] @ p @ [kEndByte]) s"
    using lohi by (simp add: enttec_frame_def n_def)
  also have "\<dots> = ([(l, take (unat n) (poke (dp_payload_buf s) p))],
      ?e\<lparr> dp_last_label := l, dp_last_payload_len := n, dp_frame_count := dp_frame_count s + 1,
         dp_state := WaitStart, dp_current_label := 0, dp_current_len := 0, dp_data_read := 0 \<rparr>)"
    unfolding feed_all_append head data prod.case by (simp add: feed_byte.simps)
  finally show ?thesis using n by (simp add: poke_def)
qed

text \<open>C38: Whatever the host sends in well-formed Enttec frames arrives. From any idle parser state,
  any sequence of frames (any label, any payload of up to 600 bytes, delimiter values inside the
  payload included) is reported exactly once each, in order, with its label and payload, and the
  parser is idle again.\<close>

theorem enttec_stream_roundtrip:
  assumes "dp_state s = WaitStart" and "dp_inv s"
    and "\<forall>(l, p) \<in> set frs. length p \<le> kPayloadBufSize"
  shows "fst (feed_all (concat (map enttec_frame frs)) s) = frs
    \<and> dp_state (snd (feed_all (concat (map enttec_frame frs)) s)) = WaitStart"
  using assms
proof (induction frs arbitrary: s)
  case Nil
  then show ?case by simp
next
  case (Cons fr frs)
  obtain l p where fr: "fr = (l, p)" by (cases fr)
  obtain s' where s': "feed_all (enttec_frame fr) s = ([fr], s')" "dp_state s' = WaitStart"
    using parse_one_frame [OF Cons.prems(1,2), of p l] Cons.prems(3) fr by auto
  have "dp_inv s'" using dp_inv_feed_all [OF Cons.prems(2), of "enttec_frame fr"] s'(1) by simp
  from Cons.IH [OF s'(2) this] Cons.prems(3) s'(1) show ?case
    by (simp add: feed_all_append case_prod_beta)
qed

theorem enttec_stream_roundtrip_witness:
  "fst (feed_all (concat (map enttec_frame [(6, [0, 0x7E, 0xE7]), (10, []), (6, [0, 1])]))
     dmx_parser_init) = [(6, [0, 0x7E, 0xE7]), (10, []), (6, [0, 1])]"
  using enttec_stream_roundtrip [of dmx_parser_init "[(6, [0, 0x7E, 0xE7]), (10, []), (6, [0, 1])]"]
  by (simp add: dp_inv_init) (simp add: dmx_parser_init_def)

section \<open>Recovery\<close>

text \<open>An upper bound on the bytes until the parser is idle, when none of them starts a frame.\<close>

definition dp_dist :: "dmx_parser \<Rightarrow> nat" where
  "dp_dist s = (case dp_state s of
     WaitStart \<Rightarrow> 0 | ReadLabel \<Rightarrow> 604 | ReadLenLo \<Rightarrow> 603 | ReadLenHi \<Rightarrow> 602
   | ReadData \<Rightarrow> unat (dp_current_len s) - unat (dp_data_read s) + 1 | ReadEnd \<Rightarrow> 1)"

lemma dp_dist_idle: "dp_dist s = 0 \<longleftrightarrow> dp_state s = WaitStart"
  by (simp add: dp_dist_def split: parser_state.splits)

lemma dp_dist_bound: "dp_inv s \<Longrightarrow> dp_dist s \<le> 604"
  by (auto simp: dp_dist_def dp_inv_def split: parser_state.splits)

lemma dp_dist_step:
  assumes "dp_inv s" and "b \<noteq> kStartByte"
  shows "dp_dist (snd (feed_byte b s)) \<le> dp_dist s - 1"
proof (cases "dp_state s")
  case ReadData
  then have lt: "dp_data_read s < dp_current_len s" using assms(1) by (simp add: dp_inv_def)
  show ?thesis
    using ReadData unat_Suc_below [OF lt] lt [unfolded word_less_nat_alt]
    by (auto simp: feed_byte.simps dp_dist_def Let_def word_le_nat_alt)
qed (use assms in \<open>auto simp: feed_byte.simps dp_dist_def reset_to_wait_start_def Let_def\<close>)

lemma dp_dist_run:
  "dp_inv s \<Longrightarrow> kStartByte \<notin> set bs \<Longrightarrow> dp_dist (snd (feed_all bs s)) \<le> dp_dist s - length bs"
proof (induction bs arbitrary: s)
  case Nil
  then show ?case by simp
next
  case (Cons b bs)
  have "dp_dist (snd (feed_all bs (snd (feed_byte b s)))) \<le> dp_dist (snd (feed_byte b s)) - length bs"
    using Cons.IH [of "snd (feed_byte b s)"] dp_inv_feed [OF Cons.prems(1)] Cons.prems(2) by simp
  also have "\<dots> \<le> dp_dist s - length (b # bs)"
    using dp_dist_step [OF Cons.prems(1), of b] Cons.prems(2) by simp
  finally show ?case by (simp add: case_prod_beta)
qed

text \<open>What the parser shows its reader: the latest DMX universe.\<close>

definition shows_universe :: "dmx_parser \<Rightarrow> bytes \<Rightarrow> bool" where
  "shows_universe d chs \<longleftrightarrow> dp_last_label d = kLabelOutputOnlySendDmx
     \<and> unat (dp_last_payload_len d) = length chs + 1 \<and> take (length chs + 1) (dp_payload_buf d) = 0 # chs"

lemma shown_copied:
  assumes "shows_universe d chs" and "length chs \<le> 599" and "out_size \<noteq> 0"
    and "n = min (length chs) (unat out_size)"
  shows "last_was_dmx_packet d
    \<and> copy_dmx_channels d (Some out) out_size = (of_nat n, Some (copy_into out (take n chs)))"
proof -
  from assms(1) obtain rest where buf: "dp_payload_buf d = (0 # chs) @ rest"
    and l: "dp_last_label d = kLabelOutputOnlySendDmx" "unat (dp_last_payload_len d) = length chs + 1"
    unfolding shows_universe_def by (metis append_take_drop_id)
  have one: "1 \<le> dp_last_payload_len d" using l(2) by (simp add: word_le_nat_alt)
  have dmx: "last_was_dmx_packet d" using l one buf by (simp add: last_was_dmx_packet_def)
  have chan: "unat (dp_last_payload_len d - 1) = length chs" using l(2) one by (simp add: unat_sub)
  have cmp: "(if dp_last_payload_len d - 1 < out_size then dp_last_payload_len d - 1 else out_size)
      = (of_nat n :: u16)"
    using chan assms(2,4) by (auto simp: word_less_nat_alt min_def word_unat_eq_iff unsigned_of_nat
        take_bit_nat_eq_self)
  have "unat (of_nat n :: u16) = n" "n \<le> length chs"
    using assms(2,4) by (simp_all add: unsigned_of_nat take_bit_nat_eq_self)
  then show ?thesis
    using dmx assms(3) cmp buf by (simp add: copy_dmx_channels_def Let_def del: of_nat_min)
qed

text \<open>One DMX packet at an idle parser: reported, and its channels delivered.\<close>

lemma idle_dmx_copied:
  assumes idle: "dp_state s = WaitStart" and inv: "dp_inv s" and len: "length chs \<le> 599"
    and size: "out_size \<noteq> 0" "unat out_size \<le> length out"
    and feed: "feed_all (enttec_frame (kLabelOutputOnlySendDmx, 0 # chs)) s = (new, s')"
    and n: "n = min (length chs) (unat out_size)"
  shows "new = [(kLabelOutputOnlySendDmx, 0 # chs)] \<and> last_was_dmx_packet s'
    \<and> copy_dmx_channels s' (Some out) out_size = (of_nat n, Some (copy_into out (take n chs)))"
proof -
  have "new = [(kLabelOutputOnlySendDmx, 0 # chs)]" "shows_universe s' chs"
    using parse_one_frame [OF idle inv, of "0 # chs" kLabelOutputOnlySendDmx] len feed
    by (auto simp: shows_universe_def)
  then show ?thesis using shown_copied [OF _ len size(1) n] by blast
qed

text \<open>Recovery is bounded. Whatever bytes the parser was fed before (a truncated frame, noise, a
  corrupted length), a gap of 604 bytes without a start byte makes it idle, so the next frame, here a
  DMX packet with up to 599 channel values, is received whole: its channels are what the bridge copies
  out, up to the room it offers.\<close>

theorem dmx_received_after_any_noise:
  assumes "604 \<le> length gap" and "kStartByte \<notin> set gap" and "length chs \<le> 599"
    and "out_size \<noteq> 0" and "unat out_size \<le> length out"
    and "feed_all (noise @ gap) dmx_parser_init = (frs, s)"
    and "feed_all (enttec_frame (kLabelOutputOnlySendDmx, 0 # chs)) s = (new, s')"
    and "n = min (length chs) (unat out_size)"
  shows "new = [(kLabelOutputOnlySendDmx, 0 # chs)] \<and> last_was_dmx_packet s'
    \<and> copy_dmx_channels s' (Some out) out_size = (of_nat n, Some (copy_into out (take n chs)))"
proof -
  let ?s1 = "snd (feed_all noise dmx_parser_init)"
  have inv1: "dp_inv ?s1" by (rule dp_inv_feed_all [OF dp_inv_init])
  have s: "s = snd (feed_all gap ?s1)"
    using assms(6) by (simp add: feed_all_append case_prod_beta)
  have inv: "dp_inv s" unfolding s by (rule dp_inv_feed_all [OF inv1])
  have "dp_dist s = 0"
    using dp_dist_run [OF inv1 assms(2)] dp_dist_bound [OF inv1] assms(1) by (simp add: s)
  then have idle: "dp_state s = WaitStart" by (simp add: dp_dist_idle)
  show ?thesis by (rule idle_dmx_copied [OF idle inv assms(3-5,7,8)])
qed

theorem dmx_received_after_any_noise_witness:
  "copy_dmx_channels
     (snd (feed_all (enttec_frame (kLabelOutputOnlySendDmx, [0, 11, 22, 33]))
        (snd (feed_all ([0x7E, 6, 0xFF, 0x01] @ replicate 604 0) dmx_parser_init))))
     (Some [9, 9]) 2 = (2, Some [11, 22])"
  using dmx_received_after_any_noise [of "replicate 604 0" "[11, 22, 33]" 2 "[9, 9]"
      "[0x7E, 6, 0xFF, 0x01]", OF _ _ _ _ _ surjective_pairing surjective_pairing refl]
  by (simp add: copy_into_def poke_def)

section \<open>Soundness\<close>

text \<open>What the bytes received so far end with, in each state: a ghost history that the code does not
  keep.\<close>

definition begun :: "dmx_parser \<Rightarrow> bytes \<Rightarrow> bytes" where
  "begun s tail = [kStartByte, dp_current_label s] @ write_u16_le (dp_current_len s) @ tail"

definition hist_ok :: "bytes \<Rightarrow> dmx_parser \<Rightarrow> bool" where
  "hist_ok h s = (case dp_state s of
     WaitStart \<Rightarrow> True
   | ReadLabel \<Rightarrow> (\<exists>pre. h = pre @ [kStartByte])
   | ReadLenLo \<Rightarrow> (\<exists>pre. h = pre @ [kStartByte, dp_current_label s])
   | ReadLenHi \<Rightarrow> (\<exists>pre lo. h = pre @ [kStartByte, dp_current_label s, lo] \<and> dp_current_len s = ucast lo)
   | _ \<Rightarrow> (\<exists>pre. h = pre @ begun s (take (unat (dp_data_read s)) (dp_payload_buf s))))"

lemma write_joined_u16: "write_u16_le (ucast lo OR push_bit 8 (ucast hi)) = [lo, hi]"
  using write_read_u16_le [of lo hi "[]"] by (simp add: read_u16_le_def)

lemma hist_ok_data:
  assumes "hist_ok h s" and "dp_inv s" and "dp_state s = ReadData"
  shows "hist_ok (h @ [b]) (snd (feed_byte b s))"
proof -
  let ?k = "unat (dp_data_read s)"
  have lt: "dp_data_read s < dp_current_len s" "length (dp_payload_buf s) = kPayloadBufSize"
    "unat (dp_current_len s) \<le> kPayloadBufSize"
    using assms(2,3) by (simp_all add: dp_inv_def)
  then have k: "?k < length (dp_payload_buf s)" by (simp add: word_less_nat_alt)
  have t: "take (Suc ?k) ((dp_payload_buf s)[?k := b]) = take ?k (dp_payload_buf s) @ [b]"
    using k by (simp add: take_Suc_conv_app_nth)
  show ?thesis
    using assms(1,3) unat_Suc_below [OF lt(1)] t
    by (auto simp: hist_ok_def feed_byte.simps begun_def Let_def)
qed

lemma hist_ok_feed:
  assumes "hist_ok h s" and "dp_inv s"
  shows "hist_ok (h @ [b]) (snd (feed_byte b s))"
proof (cases "dp_state s")
  case ReadData
  with assms show ?thesis by (rule hist_ok_data)
next
  case ReadLenHi
  with assms(1) obtain pre lo where "h = pre @ [kStartByte, dp_current_label s, lo]"
    and "dp_current_len s = ucast lo"
    by (auto simp: hist_ok_def)
  with ReadLenHi write_joined_u16 [of lo b] show ?thesis
    by (auto simp: hist_ok_def feed_byte.simps begun_def reset_to_wait_start_def Let_def)
qed (use assms in \<open>auto simp: hist_ok_def feed_byte.simps reset_to_wait_start_def\<close>)

lemma hist_ok_feed_all:
  "hist_ok h s \<Longrightarrow> dp_inv s \<Longrightarrow> hist_ok (h @ bs) (snd (feed_all bs s))"
proof (induction bs arbitrary: h s)
  case Nil
  then show ?case by simp
next
  case (Cons b bs)
  from Cons.IH [OF hist_ok_feed [OF Cons.prems, of b] dp_inv_feed [OF Cons.prems(2), of b]]
  show ?case by (simp add: case_prod_beta)
qed

text \<open>The parser never invents a frame. Whenever a byte completes a frame, the bytes received so
  far end with exactly the Enttec encoding of the label and payload that the accessors then report,
  however corrupted the stream was before.\<close>

theorem enttec_frame_sound:
  assumes "feed_all bs dmx_parser_init = (frs, s)" and "feed_byte b s = (FrameComplete, s')"
  shows "\<exists>pre. bs @ [b] = pre @ enttec_frame (dp_last_label s',
    take (unat (dp_last_payload_len s')) (dp_payload_buf s'))"
proof -
  have "hist_ok [] dmx_parser_init" by (simp add: hist_ok_def dmx_parser_init_def)
  from hist_ok_feed_all [OF this dp_inv_init, of bs] have h: "hist_ok bs s" using assms(1) by simp
  from dp_inv_feed_all [OF dp_inv_init, of bs] have inv: "dp_inv s" using assms(1) by simp
  have st: "dp_state s = ReadEnd" and b: "b = kEndByte"
    and s': "dp_last_label s' = dp_current_label s" "dp_last_payload_len s' = dp_current_len s"
      "dp_payload_buf s' = dp_payload_buf s"
    using assms(2)
    by (auto simp: feed_byte.simps reset_to_wait_start_def Let_def split: parser_state.splits if_splits)
  have at: "dp_data_read s = dp_current_len s" "unat (dp_current_len s) \<le> length (dp_payload_buf s)"
    using inv st by (simp_all add: dp_inv_def)
  obtain pre where "bs = pre @ begun s (take (unat (dp_data_read s)) (dp_payload_buf s))"
    using h st by (auto simp: hist_ok_def)
  then show ?thesis using at b s' by (simp add: begun_def enttec_frame_def)
qed

theorem enttec_frame_sound_witness:
  "\<exists>pre. [3, 0x7E, 6, 1, 0, 9] @ [kEndByte] = pre @ enttec_frame (6, [9])"
proof -
  have run: "feed_all [3, 0x7E, 6, 1, 0, 9] dmx_parser_init
      = ([], snd (feed_all [3, 0x7E, 6, 1, 0, 9] dmx_parser_init))"
    by (rule prod_eqI) (simp_all add: feed_byte.simps dmx_parser_init_def Let_def)
  have last: "feed_byte kEndByte (snd (feed_all [3, 0x7E, 6, 1, 0, 9] dmx_parser_init))
      = (FrameComplete, snd (feed_byte kEndByte (snd (feed_all [3, 0x7E, 6, 1, 0, 9] dmx_parser_init))))"
    by (rule prod_eqI) (simp_all add: feed_byte.simps dmx_parser_init_def Let_def)
  have nine: "take (Suc 0) ((replicate kPayloadBufSize 0)[0 := 9]) = [9 :: u8]"
    by (simp add: take_update_swap)
  show ?thesis
    using enttec_frame_sound [OF run last]
    by (simp add: feed_byte.simps dmx_parser_init_def Let_def nine)
qed


end
