(* ===== verification/Tofu.thy ===== *)
theory Tofu
  imports Wire
begin

text \<open>
  The trust-on-first-use lock of a receiver: class \<open>TofuLock\<close> of
  \<open>include/transport/espnow/tofu_lock.h\<close> and \<open>src/transport/espnow/tofu_lock.cpp\<close>. The first
  eligible Director is locked in; until ten seconds of silence, or a clear, only its frames are
  admitted. The lock is a state machine over received frames, ticks and clears: \<open>tofu_step\<close> is one
  event, \<open>tofu_reach\<close> the states it reaches.
\<close>

record tofu_lock =
  tl_has_lock :: bool
  tl_locked_id :: u16
  tl_last_frame_ms :: u32

abbreviation kTofuTimeoutMs :: u32 where "kTofuTimeoutMs \<equiv> 10000"

definition tofu_init :: tofu_lock where
  "tofu_init = \<lparr> tl_has_lock = False, tl_locked_id = 0, tl_last_frame_ms = 0 \<rparr>"

definition tofu_admit :: "MessageType \<Rightarrow> u16 \<Rightarrow> u8 \<Rightarrow> u32 \<Rightarrow> tofu_lock \<Rightarrow> bool \<times> tofu_lock" where
  "tofu_admit msg_type source_id channel now_ms s =
     (if source_id = kBroadcastSourceId then (False, s)
      else if channel = 11 \<and> \<not> is_performance_range source_id then (False, s)
      else if \<not> tl_has_lock s then
        (True, s\<lparr> tl_has_lock := True, tl_locked_id := source_id, tl_last_frame_ms := now_ms \<rparr>)
      else if source_id \<noteq> tl_locked_id s then (False, s)
      else (True, s\<lparr> tl_last_frame_ms := now_ms \<rparr>))"

definition tofu_clear :: "tofu_lock \<Rightarrow> tofu_lock" where
  "tofu_clear s = s\<lparr> tl_has_lock := False, tl_locked_id := 0, tl_last_frame_ms := 0 \<rparr>"

definition tofu_tick :: "u32 \<Rightarrow> tofu_lock \<Rightarrow> bool \<times> tofu_lock" where
  "tofu_tick now_ms s =
     (if \<not> tl_has_lock s then (False, s)
      else let age = (if now_ms \<ge> tl_last_frame_ms s then now_ms - tl_last_frame_ms s else 0) in
        if age \<ge> kTofuTimeoutMs
        then (True, s\<lparr> tl_has_lock := False, tl_locked_id := 0, tl_last_frame_ms := 0 \<rparr>)
        else (False, s))"

section \<open>The label of the lock\<close>

definition hex_digit :: "nat \<Rightarrow> u8" where
  "hex_digit n = (if n < 10 then 0x30 + of_nat n else 0x37 + of_nat n)"

text \<open>\<open>%02X\<close> of a value below 65536: at least two digits, no more than needed.\<close>

definition hex_02X :: "u16 \<Rightarrow> bytes" where
  "hex_02X v =
     (let n = unat v;
          d = [hex_digit (n div 4096), hex_digit (n div 256 mod 16),
               hex_digit (n div 16 mod 16), hex_digit (n mod 16)]
      in if n \<ge> 4096 then d else if n \<ge> 256 then drop 1 d else drop 2 d)"

text \<open>\<open>snprintf\<close> into a buffer of \<open>length buf\<close> bytes: at most that many less one of the text, then a
  NUL; it reports the length of the whole text.\<close>

definition snprintf :: "bytes \<Rightarrow> bytes \<Rightarrow> nat \<times> bytes" where
  "snprintf buf s = (length s, poke buf (take (length buf - 1) s @ [0]))"

definition format_tofu_lock_label :: "bool \<Rightarrow> u16 \<Rightarrow> bytes \<Rightarrow> nat \<times> bytes" where
  "format_tofu_lock_label is_locked locked_id_value buf =
     (if buf = [] then (0, buf)
      else if \<not> is_locked then (0, buf[0 := 0])
      else let prefix = (if is_performance_range locked_id_value then 0x50
                         else if is_community_range locked_id_value then 0x43 else 0x3F)
        in snprintf buf ([prefix, 0x3A] @ hex_02X locked_id_value))"

section \<open>Events and reachable states\<close>

datatype tofu_event =
    Rx MessageType u16 u8 u32
  | Tick u32
  | Clear

text \<open>One event; the boolean is what the operation returns (a clear returns nothing, here True).\<close>

fun tofu_step :: "tofu_lock \<Rightarrow> tofu_event \<Rightarrow> bool \<times> tofu_lock" where
  "tofu_step s (Rx t src ch now) = tofu_admit t src ch now s"
| "tofu_step s (Tick now) = tofu_tick now s"
| "tofu_step s Clear = (True, tofu_clear s)"

fun tofu_run :: "tofu_lock \<Rightarrow> tofu_event list \<Rightarrow> bool list \<times> tofu_lock" where
  "tofu_run s [] = ([], s)"
| "tofu_run s (e # es) =
     (let (r, s') = tofu_step s e; (rs, s'') = tofu_run s' es in (r # rs, s''))"

inductive tofu_reach :: "tofu_lock \<Rightarrow> bool" where
  init: "tofu_reach tofu_init"
| step: "tofu_reach s \<Longrightarrow> tofu_reach (snd (tofu_step s e))"

inductive_cases tofu_reachE: "tofu_reach s"

definition tofu_inv :: "tofu_lock \<Rightarrow> bool" where
  "tofu_inv s \<longleftrightarrow> (tl_has_lock s \<longrightarrow> tl_locked_id s \<noteq> kBroadcastSourceId)
     \<and> (\<not> tl_has_lock s \<longrightarrow> s = tofu_init)"

lemma tofu_init_sel [simp]:
  "\<not> tl_has_lock tofu_init" "tl_locked_id tofu_init = 0" "tl_last_frame_ms tofu_init = 0"
  by (simp_all add: tofu_init_def)

lemma tofu_clear_init: "tofu_clear s = tofu_init"
  by (simp add: tofu_clear_def tofu_init_def)

lemma tofu_inv_step: "tofu_inv s \<Longrightarrow> tofu_inv (snd (tofu_step s e))"
proof (cases e)
  case (Rx t src ch now)
  then show "tofu_inv s \<Longrightarrow> ?thesis" by (auto simp: tofu_inv_def tofu_admit_def)
next
  case (Tick now)
  then show "tofu_inv s \<Longrightarrow> ?thesis"
    by (auto simp: tofu_inv_def tofu_tick_def tofu_init_def Let_def)
next
  case Clear
  then show "tofu_inv s \<Longrightarrow> ?thesis" by (simp add: tofu_inv_def tofu_clear_init)
qed

lemma tofu_reach_inv: "tofu_reach s \<Longrightarrow> tofu_inv s"
  by (induction rule: tofu_reach.induct) (simp_all add: tofu_inv_step, simp add: tofu_inv_def)

text \<open>An event releases the lock when it is a clear or a tick that reports expiry.\<close>

definition releases :: "tofu_event \<Rightarrow> bool \<Rightarrow> bool" where
  "releases e r \<longleftrightarrow> r \<and> (case e of Rx _ _ _ _ \<Rightarrow> False | _ \<Rightarrow> True)"

lemma tofu_step_locked:
  assumes "tl_has_lock s" and "\<not> releases e r" and "tofu_step s e = (r, s')"
  shows "tl_has_lock s' \<and> tl_locked_id s' = tl_locked_id s
    \<and> (\<forall>t src ch now. e = Rx t src ch now \<and> r \<longrightarrow> src = tl_locked_id s)"
  using assms
  by (cases e) (auto simp: releases_def tofu_admit_def tofu_tick_def Let_def split: if_splits)

lemma tofu_run_locked:
  assumes "tl_has_lock s" and "tofu_run s es = (rs, s')"
    and "\<forall>i < length es. \<not> releases (es ! i) (rs ! i)"
  shows "tl_has_lock s' \<and> tl_locked_id s' = tl_locked_id s \<and>
    (\<forall>i < length es. \<forall>t src ch now. es ! i = Rx t src ch now \<and> rs ! i \<longrightarrow> src = tl_locked_id s)"
  using assms
proof (induction es arbitrary: s rs)
  case Nil
  then show ?case by simp
next
  case (Cons e es)
  obtain r s1 where st: "tofu_step s e = (r, s1)" by fastforce
  obtain rs1 where run: "tofu_run s1 es = (rs1, s')" and rs: "rs = r # rs1"
    using Cons.prems(2) st by (auto split: prod.splits)
  have "\<not> releases e r" using Cons.prems(3) rs by fastforce
  note L = tofu_step_locked [OF Cons.prems(1) this st]
  have "\<forall>i < length es. \<not> releases (es ! i) (rs1 ! i)" using Cons.prems(3) rs by fastforce
  from Cons.IH [OF _ run this] L rs show ?case
    by (auto simp: nth_Cons split: nat.splits)
qed

section \<open>Properties\<close>

text \<open>C33: A receiver follows one Director at a time. If a frame is admitted, then some events none of
  which releases the lock (no clear, no tick that reports expiry), and then another frame is admitted,
  both frames have the same source, whatever state the lock started in, and so has every frame admitted in
  between, of whatever type: a frame of another source is refused, and one of the broadcast source too, the display
  family included (the carve-out that \<open>tofu_lock.h\<close> and the comment in \<open>lume_mode.cpp\<close> still describe is not in
  \<open>tofu_lock.cpp\<close> any more). The source is not the broadcast id, and on channel 11 it is in
  the performance range.\<close>

theorem tofu_single_director:
  assumes "tofu_run s (Rx t1 src1 ch1 n1 # mid @ [Rx t2 src2 ch2 n2]) = (True # rs @ [True], s')"
    and "length rs = length mid"
    and "\<forall>i < length mid. \<not> releases (mid ! i) (rs ! i)"
  shows "src2 = src1 \<and> tl_has_lock s' \<and> tl_locked_id s' = src1
    \<and> src1 \<noteq> kBroadcastSourceId \<and> (ch1 = 11 \<longrightarrow> is_performance_range src1)
    \<and> (\<forall>i < length mid. \<forall>t src ch now. mid ! i = Rx t src ch now \<and> (src \<noteq> src1 \<or> src = kBroadcastSourceId) \<longrightarrow> \<not> rs ! i)"
proof -
  obtain s1 where a: "tofu_admit t1 src1 ch1 n1 s = (True, s1)"
    and run: "tofu_run s1 (mid @ [Rx t2 src2 ch2 n2]) = (rs @ [True], s')"
    using assms(1) by (auto split: prod.splits)
  have s1: "tl_has_lock s1" "tl_locked_id s1 = src1"
    and src1: "src1 \<noteq> kBroadcastSourceId \<and> (ch1 = 11 \<longrightarrow> is_performance_range src1)"
    using a by (auto simp: tofu_admit_def split: if_splits)
  have "\<forall>i < length (mid @ [Rx t2 src2 ch2 n2]).
      \<not> releases ((mid @ [Rx t2 src2 ch2 n2]) ! i) ((rs @ [True]) ! i)"
    using assms(2,3) by (auto simp: nth_append releases_def less_Suc_eq)
  from tofu_run_locked [OF s1(1) run this] s1
  have L: "tl_has_lock s' \<and> tl_locked_id s' = src1" and all: "\<And>i t src ch now. i < length (mid @ [Rx t2 src2 ch2 n2]) \<Longrightarrow>
      (mid @ [Rx t2 src2 ch2 n2]) ! i = Rx t src ch now \<Longrightarrow> (rs @ [True]) ! i \<Longrightarrow> src = src1" by auto
  have "src2 = src1" using all [of "length mid" t2 src2 ch2 n2] assms(2) by (simp add: nth_append)
  moreover have "\<not> rs ! i" if "i < length mid" "mid ! i = Rx t src ch now" "src \<noteq> src1 \<or> src = kBroadcastSourceId" for i t src ch now
    using all [of i t src ch now] that src1 assms(2) by (auto simp: nth_append)
  ultimately show ?thesis using L src1 by blast
qed

theorem tofu_single_director_witness:
  "\<exists>s' r. tofu_run tofu_init [Rx LightWash 0x41 11 100, Tick 5000, Rx LightPulse 0x42 11 5000,
          Rx TextDisplay kBroadcastSourceId 11 5500, Rx LightPulse 0x41 11 6000] = ([True, False, False, r, True], s')
    \<and> \<not> r \<and> tl_locked_id s' = 0x41"
proof -
  let ?mid = "[Tick 5000, Rx LightPulse 0x42 11 5000, Rx TextDisplay kBroadcastSourceId 11 5500]"
  obtain s' where run: "tofu_run tofu_init (Rx LightWash 0x41 11 100 # ?mid @ [Rx LightPulse 0x41 11 6000])
      = (True # [False, False, False] @ [True], s')"
    by (auto simp: tofu_admit_def tofu_tick_def is_performance_range_def Let_def)
  have "\<forall>i < length ?mid. \<not> releases (?mid ! i) ([False, False, False] ! i)"
    by (auto simp: releases_def less_Suc_eq)
  from tofu_single_director [OF run _ this] run show ?thesis by auto
qed

text \<open>Take-over after silence. For a held lock and a clock that has not gone back, a tick followed
  by an eligible frame of another Director changes the lock exactly when ten seconds have passed since
  the last admitted frame; before that the tick reports nothing, the frame is dropped and the lock is
  unchanged.\<close>

theorem tofu_takeover:
  assumes "tl_has_lock s" and "tl_last_frame_ms s \<le> now" and "src \<noteq> tl_locked_id s"
    and "src \<noteq> kBroadcastSourceId" and "ch = 11 \<longrightarrow> is_performance_range src"
  shows "tofu_run s [Tick now, Rx t src ch now] =
    (if kTofuTimeoutMs \<le> now - tl_last_frame_ms s
     then ([True, True], s\<lparr> tl_locked_id := src, tl_last_frame_ms := now \<rparr>)
     else ([False, False], s))"
  using assms by (auto simp: tofu_tick_def tofu_admit_def Let_def)

theorem tofu_takeover_witness:
  "tofu_run \<lparr> tl_has_lock = True, tl_locked_id = 0x41, tl_last_frame_ms = 500 \<rparr>
     [Tick 10500, Rx LightWash 0x80 11 10500]
   = ([True, True], \<lparr> tl_has_lock = True, tl_locked_id = 0x80, tl_last_frame_ms = 10500 \<rparr>)"
  using tofu_takeover [of "\<lparr> tl_has_lock = True, tl_locked_id = 0x41, tl_last_frame_ms = 500 \<rparr>"
      10500 "0x80" 11 LightWash]
  by (simp add: is_performance_range_def)

end
