(* ===== verification/PixMob.thy ===== *)
theory PixMob
  imports Noct_Prelude
begin

text \<open>
  The PixMob infrared command builder of \<open>include/pixmob_protocol.h\<close>: the time and probability
  enumerations, the 6-bit line code, \<open>encodeBufferToUs\<close> (checksum, bit stream, run lengths) and one
  definition per \<open>build...\<close> function. A decoder for pulse trains, which the firmware does not
  have, states what the encoding preserves.
\<close>

section \<open>Enumerations\<close>

datatype pixmob_time =
    T_0_MS | T_32_MS | T_96_MS | T_192_MS | T_480_MS | T_960_MS | T_2400_MS | T_3840_MS

datatype pixmob_chance =
    CHANCE_100 | CHANCE_88 | CHANCE_67 | CHANCE_50 | CHANCE_32 | CHANCE_16 | CHANCE_10 | CHANCE_4

definition all_times :: "pixmob_time list" where
  "all_times = [T_0_MS, T_32_MS, T_96_MS, T_192_MS, T_480_MS, T_960_MS, T_2400_MS, T_3840_MS]"

definition all_chances :: "pixmob_chance list" where
  "all_chances = [CHANCE_100, CHANCE_88, CHANCE_67, CHANCE_50, CHANCE_32, CHANCE_16, CHANCE_10,
                  CHANCE_4]"

fun time_code :: "pixmob_time \<Rightarrow> u8" where
  "time_code T_0_MS = 0" | "time_code T_32_MS = 1" | "time_code T_96_MS = 2"
| "time_code T_192_MS = 3" | "time_code T_480_MS = 4" | "time_code T_960_MS = 5"
| "time_code T_2400_MS = 6" | "time_code T_3840_MS = 7"

fun chance_code :: "pixmob_chance \<Rightarrow> u8" where
  "chance_code CHANCE_100 = 0" | "chance_code CHANCE_88 = 1" | "chance_code CHANCE_67 = 2"
| "chance_code CHANCE_50 = 3" | "chance_code CHANCE_32 = 4" | "chance_code CHANCE_16 = 5"
| "chance_code CHANCE_10 = 6" | "chance_code CHANCE_4 = 7"

text \<open>\<open>static_cast\<close> from the three bits of a code.\<close>

definition time_of_code :: "u8 \<Rightarrow> pixmob_time" where
  "time_of_code c = all_times ! unat c"

definition chance_of_code :: "u8 \<Rightarrow> pixmob_chance" where
  "chance_of_code c = all_chances ! unat c"

lemma time_of_time_code [simp]: "time_of_code (time_code t) = t"
  by (cases t) (simp_all add: time_of_code_def all_times_def)

lemma chance_of_chance_code [simp]: "chance_of_code (chance_code t) = t"
  by (cases t) (simp_all add: chance_of_code_def all_chances_def)

section \<open>Line code\<close>

abbreviation PULSE_US :: nat where "PULSE_US \<equiv> 694"

definition ENCODING_MAP :: bytes where
  "ENCODING_MAP = [
     0x21, 0x32, 0x54, 0x65, 0xa9, 0x9a, 0x6d, 0x29,
     0x56, 0x92, 0xa1, 0xb4, 0xb2, 0x84, 0x66, 0x2a,
     0x4c, 0x6a, 0xa6, 0x95, 0x62, 0x51, 0x42, 0x24,
     0x35, 0x46, 0x8a, 0xac, 0x8c, 0x6c, 0x2c, 0x4a,
     0x59, 0x86, 0xa4, 0xa2, 0x91, 0x64, 0x55, 0x44,
     0x22, 0x31, 0xb1, 0x52, 0x85, 0x96, 0xa5, 0x69,
     0x5a, 0x2d, 0x4d, 0x89, 0x45, 0x34, 0x61, 0x25,
     0x36, 0xad, 0x94, 0xaa, 0x8d, 0x49, 0x99, 0x26]"

definition line_code :: "u8 \<Rightarrow> u8" where
  "line_code v = ENCODING_MAP ! unat (v AND 0x3F)"

text \<open>The loop over the payload bytes: each is replaced by its line code, which the checksum
  accumulates.\<close>

fun encode_payload :: "bytes \<Rightarrow> u32 \<Rightarrow> bytes \<times> u32" where
  "encode_payload [] acc = ([], acc)"
| "encode_payload (v # vs) acc =
     (case encode_payload vs (acc + ucast (line_code v)) of (es, acc') \<Rightarrow> (line_code v # es, acc'))"

definition encode_bytes :: "bytes \<Rightarrow> bytes" where
  "encode_bytes buf =
     (case encode_payload (drop 2 buf) 0 of (es, checksumSum) \<Rightarrow>
        [buf ! 0, line_code (ucast (drop_bit 2 checksumSum))] @ es)"

text \<open>The eight bits of a byte, least significant first, appended once a set bit was seen.\<close>

fun byte_bits :: "nat \<Rightarrow> u8 \<Rightarrow> bool list" where
  "byte_bits 0 b = []"
| "byte_bits (Suc k) b = (b AND 1 \<noteq> 0) # byte_bits k (drop_bit 1 b)"

fun append_bits :: "bool list \<Rightarrow> bool \<times> bool list \<Rightarrow> bool \<times> bool list" where
  "append_bits [] (started, bits) = (started, bits)"
| "append_bits (b # bs) (started, bits) =
     (if started \<or> b then append_bits bs (True, bits @ [b]) else append_bits bs (started, bits))"

definition stream_bits :: "bytes \<Rightarrow> bool list" where
  "stream_bits buf =
     snd (foldl (\<lambda>acc b. append_bits (byte_bits 8 b) acc) (False, []) buf)"

definition strip_trailing :: "bool list \<Rightarrow> bool list" where
  "strip_trailing bits = rev (dropWhile Not (rev bits))"

text \<open>The run lengths in microseconds, up to the capacity of the output.\<close>

fun run_lengths :: "nat \<Rightarrow> bool list \<Rightarrow> u16 list" where
  "run_lengths 0 bits = []"
| "run_lengths (Suc cap) [] = []"
| "run_lengths (Suc cap) (b # bs) =
     of_nat ((1 + length (takeWhile (\<lambda>x. x = b) bs)) * PULSE_US)
       # run_lengths cap (dropWhile (\<lambda>x. x = b) bs)"

definition encodeBufferToUs :: "bytes \<Rightarrow> u16 list \<Rightarrow> nat \<times> u16 list" where
  "encodeBufferToUs buf outBuf =
     (let bits = strip_trailing (stream_bits (encode_bytes buf))
      in if bits = [] \<or> outBuf = [] then (0, outBuf)
         else let us = run_lengths (length outBuf) bits
              in (length us, us @ drop (length us) outBuf))"

section \<open>Commands\<close>

definition buildSingleColor ::
  "u16 list \<Rightarrow> u8 \<Rightarrow> u8 \<Rightarrow> u8 \<Rightarrow> pixmob_time \<Rightarrow> pixmob_time \<Rightarrow> pixmob_time \<Rightarrow> pixmob_chance \<Rightarrow> u8
     \<Rightarrow> nat \<times> u16 list" where
  "buildSingleColor outBuf r g b attack sustain release chance restrictGroupId =
     encodeBufferToUs
       [0x80, 0x00, 0x00,
        drop_bit 2 g AND 0x3F, drop_bit 2 r AND 0x3F, drop_bit 2 b AND 0x3F,
        push_bit 3 (time_code attack) OR (chance_code chance AND 0x07),
        push_bit 3 (time_code release) OR (time_code sustain AND 0x07),
        restrictGroupId AND 0x1F] outBuf"

definition buildTwoColors ::
  "u16 list \<Rightarrow> u8 \<Rightarrow> u8 \<Rightarrow> u8 \<Rightarrow> u8 \<Rightarrow> u8 \<Rightarrow> u8 \<Rightarrow> nat \<times> u16 list" where
  "buildTwoColors outBuf r1 g1 b1 r2 g2 b2 =
     encodeBufferToUs
       [0x80, 0x00, push_bit 1 2,
        drop_bit 2 g1 AND 0x3F, drop_bit 2 r1 AND 0x3F, drop_bit 2 b1 AND 0x3F,
        drop_bit 2 g2 AND 0x3F, drop_bit 2 r2 AND 0x3F, drop_bit 2 b2 AND 0x3F] outBuf"

definition buildCycleProfiles ::
  "u16 list \<Rightarrow> u8 \<Rightarrow> bool \<Rightarrow> pixmob_time \<Rightarrow> pixmob_time \<Rightarrow> pixmob_time \<Rightarrow> nat \<times> u16 list" where
  "buildCycleProfiles outBuf profileMask random attack sustain release =
     encodeBufferToUs
       [0x80, 0x00, push_bit 1 1,
        profileMask AND 0x3F,
        (drop_bit 6 profileMask AND 0x03) OR push_bit 2 (if random then 1 else 0)
          OR push_bit 3 (time_code attack AND 0x07),
        (time_code sustain AND 0x07) OR push_bit 3 (time_code release AND 0x07)] outBuf"

definition buildSetColor ::
  "u16 list \<Rightarrow> u8 \<Rightarrow> u8 \<Rightarrow> u8 \<Rightarrow> u8 \<Rightarrow> bool \<Rightarrow> bool \<Rightarrow> u8 \<Rightarrow> nat \<times> u16 list" where
  "buildSetColor outBuf r g b profileId isBackground skipDisplay restrictGroupId =
     encodeBufferToUs
       [0x80, 0x00, push_bit 1 7 OR 1,
        drop_bit 2 g AND 0x3F, drop_bit 2 r AND 0x3F, drop_bit 2 b AND 0x3F,
        (profileId AND 0x0F) OR push_bit 4 (if isBackground then 1 else 0)
          OR push_bit 5 (if skipDisplay then 1 else 0),
        0, restrictGroupId AND 0x1F] outBuf"

definition buildSetGroupId :: "u16 list \<Rightarrow> u8 \<Rightarrow> u8 \<Rightarrow> u8 \<Rightarrow> nat \<times> u16 list" where
  "buildSetGroupId outBuf groupSel newGroupId restrictGroupId =
     encodeBufferToUs
       [0x80, 0x00, push_bit 1 7 OR 1, 0, 0, groupSel AND 0x07, newGroupId AND 0x1F, 2,
        restrictGroupId AND 0x1F] outBuf"

definition buildSetGroupSel :: "u16 list \<Rightarrow> u8 \<Rightarrow> u8 \<Rightarrow> nat \<times> u16 list" where
  "buildSetGroupSel outBuf groupSel restrictGroupId =
     encodeBufferToUs
       [0x80, 0x00, push_bit 1 7 OR 1, 0, 0, groupSel AND 0x07, 0, 1, restrictGroupId AND 0x1F]
       outBuf"

section \<open>A receiver\<close>

text \<open>The bits that a pulse train stands for, starting with the light on; the bytes of a bit stream,
  missing bits read as zero; and the command, when every byte is a line code and the first is the
  checksum of the others.\<close>

fun us_bits :: "bool \<Rightarrow> u16 list \<Rightarrow> bool list" where
  "us_bits on [] = []"
| "us_bits on (u # us) = replicate (unat u div PULSE_US) on @ us_bits (\<not> on) us"

definition bits_byte :: "bool list \<Rightarrow> u8" where
  "bits_byte bs = horner_sum of_bool 2 bs"

fun bits_bytes :: "nat \<Rightarrow> bool list \<Rightarrow> bytes" where
  "bits_bytes 0 bits = []"
| "bits_bytes (Suc n) bits = bits_byte (take 8 bits) # bits_bytes n (drop 8 bits)"

fun payload_of :: "bytes \<Rightarrow> bytes option" where
  "payload_of [] = Some []"
| "payload_of (b # bs) =
     (case (find_idx (\<lambda>c. c = b) ENCODING_MAP, payload_of bs) of
        (Some i, Some vs) \<Rightarrow> Some (of_nat i # vs)
      | _ \<Rightarrow> None)"

definition decode_pulses :: "u16 list \<Rightarrow> bytes option" where
  "decode_pulses us =
     (let bits = drop 1 (us_bits True us);
          bs = bits_bytes ((length bits + 7) div 8) bits
      in case bs of [] \<Rightarrow> None
         | c # es \<Rightarrow> if c = line_code (ucast (drop_bit 2 (sum_list (map ucast es) :: u32)))
                      then payload_of es else None)"

text \<open>The bit stream.\<close>

lemma append_bits_started [simp]: "append_bits bs (True, acc) = (True, acc @ bs)"
  by (induction bs arbitrary: acc) simp_all

lemma stream_bits_started:
  "foldl (\<lambda>acc b. append_bits (byte_bits 8 b) acc) (True, acc) bs
    = (True, acc @ concat (map (byte_bits 8) bs))"
  by (induction bs arbitrary: acc) simp_all

lemma stream_bits_0x80: "stream_bits (0x80 # bs) = True # concat (map (byte_bits 8) bs)"
proof -
  have "append_bits (byte_bits 8 0x80) (False, []) = (True, [True])"
    by code_simp
  then show ?thesis by (simp add: stream_bits_def stream_bits_started)
qed

lemma length_byte_bits [simp]: "length (byte_bits k b) = k"
  by (induction k arbitrary: b) simp_all

lemma byte_bits_nth: "i < k \<Longrightarrow> byte_bits k b ! i = bit b i"
  by (induction k arbitrary: b i)
    (auto simp: nth_Cons bit_drop_bit_eq and_one_eq odd_iff_mod_2_eq_one bit_0 split: nat.splits)

lemma byte_bits_map: "byte_bits k b = map (bit b) [0..<k]"
  by (rule nth_equalityI) (simp_all add: byte_bits_nth)

lemma bits_byte_bits [simp]: "bits_byte (byte_bits 8 b) = b"
  by (simp add: bits_byte_def byte_bits_map horner_sum_bit_eq_take_bit take_bit_word_eq_self)

lemma bits_byte_pad [simp]: "bits_byte (bs @ replicate m False) = bits_byte bs"
proof -
  have "horner_sum of_bool (2 :: u8) (replicate m False) = 0" by (induction m) simp_all
  then show ?thesis by (simp add: bits_byte_def horner_sum_append)
qed

lemma bits_bytes_pad: "bits_bytes n (bs @ replicate m False) = bits_bytes n bs"
  by (induction n arbitrary: bs m) (simp_all add: take_replicate drop_replicate min_def del: replicate_append_same)

lemma bits_bytes_concat: "bits_bytes (length bs) (concat (map (byte_bits 8) bs)) = bs"
  by (induction bs) simp_all

lemma takeWhile_eq_replicate: "takeWhile (\<lambda>x. x = b) bs = replicate (length (takeWhile (\<lambda>x. x = b) bs)) b"
  by (induction bs) simp_all

lemma strip_trailing_pad: "\<exists>m. bits = strip_trailing bits @ replicate m False"
proof -
  let ?m = "length (takeWhile Not (rev bits))"
  have "rev bits = takeWhile Not (rev bits) @ dropWhile Not (rev bits)" by simp
  then have "bits = strip_trailing bits @ rev (takeWhile Not (rev bits))"
    by (metis rev_append rev_rev_ident strip_trailing_def)
  moreover have "takeWhile Not (rev bits) = replicate ?m False"
    using takeWhile_eq_replicate [of False "rev bits"] by simp
  ultimately show ?thesis by (metis rev_replicate)
qed

text \<open>The run lengths.\<close>

lemma run_lengths_Nil [simp]: "run_lengths cap [] = []"
  by (cases cap) simp_all

lemma us_bits_run_lengths:
  assumes "length bits \<le> cap" and "length bits \<le> 94" and "bits \<noteq> [] \<Longrightarrow> hd bits = on"
  shows "us_bits on (run_lengths cap bits) = bits"
  using assms
proof (induction cap bits arbitrary: on rule: run_lengths.induct)
  case (1 bits)
  then show ?case by simp
next
  case (2 cap)
  then show ?case by simp
next
  case (3 cap b bs)
  let ?t = "takeWhile (\<lambda>x. x = b) bs" and ?d = "dropWhile (\<lambda>x. x = b) bs"
  have len: "length ?t + length ?d = length bs" by (metis length_append takeWhile_dropWhile_id)
  have n: "(1 + length ?t) * PULSE_US < 65536" using len 3(3) by simp
  have u: "unat (of_nat ((1 + length ?t) * PULSE_US) :: u16) div PULSE_US = 1 + length ?t"
    using n by (simp only: unsigned_of_nat) (simp add: take_bit_nat_eq_self)
  have t: "replicate (length ?t) b = ?t"
    by (rule takeWhile_eq_replicate [symmetric])
  have d: "us_bits (\<not> b) (run_lengths cap ?d) = ?d"
    by (rule "3.IH") (use 3(2,3) len hd_dropWhile [of "\<lambda>x. x = b" bs] in auto)
  have b: "on = b" using 3(4) by simp
  show ?case
    using u t d by (simp add: b del: of_nat_mult of_nat_Suc of_nat_add)
qed

text \<open>The line code is injective on six bits and never zero, so no byte of it is lost at the end.\<close>

lemma ENCODING_MAP_facts:
  "length ENCODING_MAP = 64" "distinct ENCODING_MAP" "0 \<notin> set ENCODING_MAP"
  by code_simp+

lemma six_bits: "unat (v AND 0x3F :: u8) < 64"
proof -
  have "v AND 0x3F \<le> (0x3F :: u8)" by (rule word_and_le1)
  then show ?thesis by (simp add: word_le_nat_alt)
qed

lemma line_code_mem: "line_code v \<in> set ENCODING_MAP"
  using six_bits [of v] ENCODING_MAP_facts(1) by (simp add: line_code_def)

lemma line_code_nonzero: "line_code v \<noteq> 0"
  using line_code_mem [of v] ENCODING_MAP_facts(3) by metis

lemma find_line_code: "find_idx (\<lambda>c. c = line_code v) ENCODING_MAP = Some (unat (v AND 0x3F))"
  by (rule find_idx_unique)
    (use six_bits [of v] ENCODING_MAP_facts in \<open>auto simp: line_code_def nth_eq_iff_index_eq\<close>)

lemma payload_of_line_codes: "payload_of (map line_code vs) = Some (map (\<lambda>v. v AND 0x3F) vs)"
  by (induction vs) (simp_all add: find_line_code)

lemma encode_payload_eq:
  "encode_payload vs acc = (map line_code vs, acc + sum_list (map (\<lambda>v. ucast (line_code v)) vs))"
  by (induction vs arbitrary: acc) (simp_all add: add.assoc)

lemma encode_bytes_eq:
  "encode_bytes buf = buf ! 0 # line_code (ucast (drop_bit 2
     (sum_list (map ucast (map line_code (drop 2 buf))) :: u32))) # map line_code (drop 2 buf)"
  by (simp add: encode_bytes_def encode_payload_eq comp_def)

text \<open>The bits that survive the stripping still determine the number of bytes.\<close>

lemma stripped_stream:
  assumes "es \<noteq> []" and "last es \<noteq> 0"
  obtains S m where "strip_trailing (stream_bits (0x80 # es)) = True # S" and "m < 8"
    and "concat (map (byte_bits 8) es) = S @ replicate m False"
proof -
  let ?C = "concat (map (byte_bits 8) es)"
  obtain m where m: "True # ?C = strip_trailing (True # ?C) @ replicate m False"
    using strip_trailing_pad [of "True # ?C"] by blast
  have "strip_trailing (True # ?C) \<noteq> []"
  proof
    assume "strip_trailing (True # ?C) = []"
    with m have "True # ?C = replicate m False" by simp
    then show False by (cases m) simp_all
  qed
  then obtain S where S: "strip_trailing (True # ?C) = True # S" "?C = S @ replicate m False"
    using m by (cases "strip_trailing (True # ?C)") simp_all
  have "m < 8"
  proof (rule ccontr)
    assume "\<not> m < 8"
    then obtain k where k: "m = k + 8" by (metis add.commute le_iff_add not_less)
    have "?C = concat (map (byte_bits 8) (butlast es)) @ byte_bits 8 (last es)"
      using arg_cong [OF append_butlast_last_id [OF assms(1)], of "\<lambda>es. concat (map (byte_bits 8) es)"]
      by simp
    then have "concat (map (byte_bits 8) (butlast es)) @ byte_bits 8 (last es)
        = (S @ replicate k False) @ replicate 8 False"
      using S(2) k by (simp add: replicate_add)
    then have "byte_bits 8 (last es) = replicate 8 False"
      by (rule append_eq_append_conv [THEN iffD1, THEN conjunct2, rotated]) simp
    then have "last es = bits_byte ([] @ replicate 8 False)" by (metis append_Nil bits_byte_bits)
    then show False using assms(2) bits_byte_pad [of "[]" 8] by (simp add: bits_byte_def)
  qed
  with S that show ?thesis by (simp add: stream_bits_0x80)
qed

lemma decode_pulses_run_lengths:
  assumes "es \<noteq> []" and "last es \<noteq> 0" and "length es \<le> 9" and "8 * length es < cap"
  shows "decode_pulses (run_lengths cap (strip_trailing (stream_bits (0x80 # es))))
    = (case es of [] \<Rightarrow> None | c # es' \<Rightarrow>
        if c = line_code (ucast (drop_bit 2 (sum_list (map ucast es') :: u32)))
        then payload_of es' else None)"
proof -
  obtain S m where S: "strip_trailing (stream_bits (0x80 # es)) = True # S" and m: "m < 8"
    and C: "concat (map (byte_bits 8) es) = S @ replicate m False"
    using stripped_stream [OF assms(1,2)] by blast
  have "length (concat (map (byte_bits 8) es)) = 8 * length es" by (induction es) simp_all
  then have len: "length S + m = 8 * length es" using C by simp
  then have n: "(length S + 7) div 8 = length es" using m by linarith
  have us: "us_bits True (run_lengths cap (True # S)) = True # S"
    by (rule us_bits_run_lengths) (use len assms(3,4) in auto)
  have bytes: "bits_bytes (length es) S = es"
    using bits_bytes_concat [of es] by (simp add: C bits_bytes_pad)
  show ?thesis
    unfolding decode_pulses_def S us Let_def by (simp only: One_nat_def drop_Suc_Cons drop_0 n bytes)
qed

text \<open>A pulse train determines its payload. For every raw buffer that begins with the start byte
  and every output with room for its bits, the train that \<open>encodeBufferToUs\<close> reports decodes, checksum
  included, to exactly the low six bits of every payload byte, and nothing past the train is written.\<close>

lemma encode_train:
  assumes "buf ! 0 = 0x80" and "3 \<le> length buf" and "length buf \<le> 10"
    and "8 * length buf \<le> length out" and "encodeBufferToUs buf out = (n, out')"
  shows "decode_pulses (take n out') = Some (map (\<lambda>v. v AND 0x3F) (drop 2 buf))
    \<and> drop n out' = drop n out \<and> n \<noteq> 0"
proof -
  let ?e = "map line_code (drop 2 buf)"
  let ?c = "line_code (ucast (drop_bit 2 (sum_list (map ucast ?e) :: u32)))"
  let ?bits = "strip_trailing (stream_bits (0x80 # ?c # ?e))"
  have enc: "encode_bytes buf = 0x80 # ?c # ?e" using assms(1) by (simp add: encode_bytes_eq)
  have ne: "drop 2 buf \<noteq> []" "out \<noteq> []" using assms(2,4) by auto
  have last: "last (?c # ?e) \<noteq> 0" using ne(1) line_code_nonzero by (simp add: last_map)
  have len: "length (?c # ?e) \<le> 9" "8 * length (?c # ?e) < length out" using assms(2-4) by simp_all
  obtain S m where "?bits = True # S" using stripped_stream [of "?c # ?e"] last by blast
  then have bits: "?bits \<noteq> []" "run_lengths (length out) ?bits \<noteq> []"
    using ne(2) by (cases out; simp)+
  have out: "n = length (run_lengths (length out) ?bits)"
    "out' = run_lengths (length out) ?bits @ drop n out"
    using assms(5) bits(1) ne(2) by (auto simp: encodeBufferToUs_def enc Let_def)
  have "decode_pulses (run_lengths (length out) ?bits) = payload_of ?e"
    using decode_pulses_run_lengths [of "?c # ?e" "length out"] last len by simp
  then show ?thesis using out bits(2) by (simp add: payload_of_line_codes)
qed

section \<open>Commands on the air\<close>

text \<open>A command as the caller means it, the builder that each is for, what survives of its fields on
  the air (six bits of a colour, five of a group, four of a profile, three of a slot), and the
  receiver's reading of the payload.\<close>

datatype pixmob_command =
    SingleColor u8 u8 u8 pixmob_time pixmob_time pixmob_time pixmob_chance u8
  | TwoColors u8 u8 u8 u8 u8 u8
  | CycleProfiles u8 bool pixmob_time pixmob_time pixmob_time
  | SetColor u8 u8 u8 u8 bool bool u8
  | SetGroupId u8 u8 u8
  | SetGroupSel u8 u8

fun build_command :: "pixmob_command \<Rightarrow> u16 list \<Rightarrow> nat \<times> u16 list" where
  "build_command (SingleColor r g b a s re ch grp) out = buildSingleColor out r g b a s re ch grp"
| "build_command (TwoColors r1 g1 b1 r2 g2 b2) out = buildTwoColors out r1 g1 b1 r2 g2 b2"
| "build_command (CycleProfiles mask' rnd a s re) out = buildCycleProfiles out mask' rnd a s re"
| "build_command (SetColor r g b prof bg skip grp) out = buildSetColor out r g b prof bg skip grp"
| "build_command (SetGroupId slot new grp) out = buildSetGroupId out slot new grp"
| "build_command (SetGroupSel slot grp) out = buildSetGroupSel out slot grp"

fun on_air :: "pixmob_command \<Rightarrow> pixmob_command" where
  "on_air (SingleColor r g b a s re ch grp) =
     SingleColor (r AND 0xFC) (g AND 0xFC) (b AND 0xFC) a s re ch (grp AND 0x1F)"
| "on_air (TwoColors r1 g1 b1 r2 g2 b2) =
     TwoColors (r1 AND 0xFC) (g1 AND 0xFC) (b1 AND 0xFC) (r2 AND 0xFC) (g2 AND 0xFC) (b2 AND 0xFC)"
| "on_air (CycleProfiles mask' rnd a s re) = CycleProfiles mask' rnd a s re"
| "on_air (SetColor r g b prof bg skip grp) =
     SetColor (r AND 0xFC) (g AND 0xFC) (b AND 0xFC) (prof AND 0x0F) bg skip (grp AND 0x1F)"
| "on_air (SetGroupId slot new grp) = SetGroupId (slot AND 0x07) (new AND 0x1F) (grp AND 0x1F)"
| "on_air (SetGroupSel slot grp) = SetGroupSel (slot AND 0x07) (grp AND 0x1F)"

definition parse_command :: "bytes \<Rightarrow> pixmob_command option" where
  "parse_command pl =
     (case pl of
        [t, x, y, z] \<Rightarrow>
          if t = 2 then Some (CycleProfiles (x OR push_bit 6 (y AND 0x03)) (bit y 2)
            (time_of_code (drop_bit 3 y)) (time_of_code (z AND 7)) (time_of_code (drop_bit 3 z)))
          else None
      | [t, g, r, b, x, y, grp] \<Rightarrow>
          if t = 0 then Some (SingleColor (push_bit 2 r) (push_bit 2 g) (push_bit 2 b)
            (time_of_code (drop_bit 3 x)) (time_of_code (y AND 7)) (time_of_code (drop_bit 3 y))
            (chance_of_code (x AND 7)) grp)
          else if t = 4 then Some (TwoColors (push_bit 2 r) (push_bit 2 g) (push_bit 2 b)
            (push_bit 2 y) (push_bit 2 x) (push_bit 2 grp))
          else if t = 15 then
            (if y = 0 then Some (SetColor (push_bit 2 r) (push_bit 2 g) (push_bit 2 b)
               (x AND 0x0F) (bit x 4) (bit x 5) grp)
             else if y = 2 then Some (SetGroupId b x grp)
             else if y = 1 then Some (SetGroupSel b grp)
             else None)
          else None
      | _ \<Rightarrow> None)"

lemma mask_numerals: "(7 :: u8) = mask 3" "(0x3F :: u8) = mask 6" "(0x0F :: u8) = mask 4"
    "(0xFC :: u8) = push_bit 2 (mask 6)" "(3 :: u8) = mask 2"
  by (simp_all add: mask_eq_exp_minus_1)

lemma colour_field: "push_bit 2 (drop_bit 2 c AND 0x3F) = (c AND 0xFC :: u8)"
  unfolding mask_numerals
  by (rule bit_word_eqI) (auto simp: bit_simps dest!: le_Suc_ex)

lemma field_masks:
  "(x AND 0x1F) AND 0x3F = (x AND 0x1F :: u8)" "(x AND 0x07) AND 0x3F = (x AND 0x07 :: u8)"
  by (simp_all add: and.assoc)

lemma two_fields:
  fixes x y :: u8
  shows "drop_bit 3 ((push_bit 3 x OR (y AND 7)) AND 0x3F) = take_bit 3 x"
    and "((push_bit 3 x OR (y AND 7)) AND 0x3F) AND 7 = take_bit 3 y"
    and "((y AND 7) OR push_bit 3 (x AND 7)) AND 0x3F = (push_bit 3 x OR (y AND 7)) AND 0x3F"
  unfolding mask_numerals by (rule bit_word_eqI, (auto simp: bit_simps)[1])+

lemma take_codes [simp]: "take_bit 3 (time_code a) = time_code a" "take_bit 3 (chance_code c) = chance_code c"
  by (cases a, simp_all) (cases c, simp_all)

lemma profile_fields:
  fixes m t :: u8 and rnd :: bool
  defines "y \<equiv> ((drop_bit 6 m AND 3) OR push_bit 2 (if rnd then 1 else 0) OR push_bit 3 (t AND 7)) AND 0x3F"
  shows "(m AND 0x3F) OR push_bit 6 (y AND 3) = m" "bit y 2 = rnd" "drop_bit 3 y = take_bit 3 t"
proof -
  show "(m AND 0x3F) OR push_bit 6 (y AND 3) = m"
    unfolding y_def mask_numerals by (rule bit_word_eqI) (auto simp: bit_simps bit_1_iff dest!: le_Suc_ex)
  show "bit y 2 = rnd" unfolding y_def mask_numerals by (auto simp: bit_simps bit_1_iff)
  show "drop_bit 3 y = take_bit 3 t"
    unfolding y_def mask_numerals by (rule bit_word_eqI) (auto simp: bit_simps bit_1_iff)
qed

lemma slot_fields:
  fixes p :: u8 and bg skip :: bool
  defines "x \<equiv> ((p AND 0x0F) OR push_bit 4 (if bg then 1 else 0) OR push_bit 5 (if skip then 1 else 0)) AND 0x3F"
  shows "x AND 0x0F = p AND 0x0F" "bit x 4 = bg" "bit x 5 = skip"
proof -
  show "x AND 0x0F = p AND 0x0F"
    unfolding x_def mask_numerals by (rule bit_word_eqI) (auto simp: bit_simps bit_1_iff)
  show "bit x 4 = bg" "bit x 5 = skip"
    unfolding x_def mask_numerals by (auto simp: bit_simps bit_1_iff)
qed

lemmas on_air_fields = colour_field field_masks two_fields profile_fields slot_fields

text \<open>Every PixMob command arrives as it was meant. For each of the six builders, all parameter
  values and an output buffer of the driver's size, the reported pulse train is non-empty, decodes with
  a valid checksum, and reads back as the same command with exactly the fields that fit on the air;
  in particular no command is ever taken for another kind.\<close>

theorem pixmob_command_on_air:
  assumes "length out = 80" and "build_command cmd out = (n, out')"
  shows "n \<noteq> 0 \<and> drop n out' = drop n out
    \<and> Option.bind (decode_pulses (take n out')) parse_command = Some (on_air cmd)"
proof -
  have train: "decode_pulses (take n out') = Some (map (\<lambda>v. v AND 0x3F) (drop 2 buf))
      \<and> drop n out' = drop n out \<and> n \<noteq> 0"
    if "buf ! 0 = 0x80" "3 \<le> length buf" "length buf \<le> 10" "encodeBufferToUs buf out = (n, out')"
    for buf
    using encode_train [of buf out n out'] that assms(1) by simp
  show ?thesis
  proof (cases cmd)
    case (SingleColor r g b a s re ch grp)
    from train [OF _ _ _ assms(2) [unfolded SingleColor build_command.simps buildSingleColor_def]]
    show ?thesis using SingleColor by (simp add: parse_command_def on_air_fields del: push_bit_and drop_bit_and)
  next
    case (TwoColors r1 g1 b1 r2 g2 b2)
    from train [OF _ _ _ assms(2) [unfolded TwoColors build_command.simps buildTwoColors_def]]
    show ?thesis using TwoColors by (simp add: parse_command_def on_air_fields del: push_bit_and drop_bit_and)
  next
    case (CycleProfiles m rnd a s re)
    from train [OF _ _ _ assms(2) [unfolded CycleProfiles build_command.simps buildCycleProfiles_def]]
    show ?thesis using CycleProfiles by (simp add: parse_command_def on_air_fields del: push_bit_and drop_bit_and)
  next
    case (SetColor r g b prof bg skip grp)
    from train [OF _ _ _ assms(2) [unfolded SetColor build_command.simps buildSetColor_def]]
    show ?thesis using SetColor by (simp add: parse_command_def on_air_fields del: push_bit_and drop_bit_and)
  next
    case (SetGroupId slot new grp)
    from train [OF _ _ _ assms(2) [unfolded SetGroupId build_command.simps buildSetGroupId_def]]
    show ?thesis using SetGroupId by (simp add: parse_command_def on_air_fields del: push_bit_and drop_bit_and)
  next
    case (SetGroupSel slot grp)
    from train [OF _ _ _ assms(2) [unfolded SetGroupSel build_command.simps buildSetGroupSel_def]]
    show ?thesis using SetGroupSel by (simp add: parse_command_def on_air_fields del: push_bit_and drop_bit_and)
  qed
qed

theorem pixmob_command_on_air_witness:
  "Option.bind (decode_pulses
      (take (fst (buildSingleColor (replicate 80 0) 255 17 0 T_32_MS T_960_MS T_480_MS CHANCE_50 3))
        (snd (buildSingleColor (replicate 80 0) 255 17 0 T_32_MS T_960_MS T_480_MS CHANCE_50 3))))
     parse_command = Some (SingleColor 252 16 0 T_32_MS T_960_MS T_480_MS CHANCE_50 3)"
  using pixmob_command_on_air [of "replicate 80 0"
      "SingleColor 255 17 0 T_32_MS T_960_MS T_480_MS CHANCE_50 3", OF _ surjective_pairing]
  by simp

end
