(* ===== verification/Events.thy ===== *)
theory Events
  imports PixMob
begin

text \<open>
  The light events that travel between the parts of a Director: the structs \<open>RgbPulseEvent\<close> and
  \<open>LightWashEvent\<close> of \<open>include/dal/dal.h\<close>, produced by the DMX mapper and the shows, consumed by the
  drivers.
\<close>

record rgb_pulse_event =
  rp_r :: u8
  rp_g :: u8
  rp_b :: u8
  rp_attack :: pixmob_time
  rp_sustain :: pixmob_time
  rp_release :: pixmob_time
  rp_chance :: pixmob_chance
  rp_led_mode :: u8
  rp_led_modifier1 :: u8
  rp_led_modifier2 :: u8

record light_wash_event =
  ew_r1 :: u8
  ew_g1 :: u8
  ew_b1 :: u8
  ew_r2 :: u8
  ew_g2 :: u8
  ew_b2 :: u8
  ew_attack :: u8
  ew_release :: u8
  ew_intensity :: u8
  ew_cycle_ms :: u16
  ew_ttl_seconds :: u16
  ew_pulse_response :: u8
  ew_led_mode :: u8
  ew_led_modifier1 :: u8
  ew_led_modifier2 :: u8

text \<open>The same struct \<open>RgbPulseEvent\<close> as a receiver hands it to its bindings and the drivers read it: times
  and chance are casts of the bytes of a frame, so that any byte can stand there.\<close>

record lume_pulse =
  up_r :: u8
  up_g :: u8
  up_b :: u8
  up_attack :: u8
  up_sustain :: u8
  up_release :: u8
  up_chance :: u8
  up_led_mode :: u8
  up_led_modifier1 :: u8
  up_led_modifier2 :: u8

definition cast_pulse :: "rgb_pulse_event \<Rightarrow> lume_pulse" where
  "cast_pulse e = \<lparr> up_r = rp_r e, up_g = rp_g e, up_b = rp_b e, up_attack = time_code (rp_attack e),
     up_sustain = time_code (rp_sustain e), up_release = time_code (rp_release e),
     up_chance = chance_code (rp_chance e), up_led_mode = rp_led_mode e,
     up_led_modifier1 = rp_led_modifier1 e, up_led_modifier2 = rp_led_modifier2 e \<rparr>"

type_synonym rgb = "u8 \<times> u8 \<times> u8"

fun map_rgb :: "('a \<Rightarrow> 'b) \<Rightarrow> 'a \<times> 'a \<times> 'a \<Rightarrow> 'b \<times> 'b \<times> 'b" where
  "map_rgb f (r, g, b) = (f r, f g, f b)"

fun rgb_between :: "rgb \<Rightarrow> rgb \<Rightarrow> rgb \<Rightarrow> bool" where
  "rgb_between (r, g, b) (r', g', b') (x, y, z) \<longleftrightarrow>
     min r r' \<le> x \<and> x \<le> max r r' \<and> min g g' \<le> y \<and> y \<le> max g g' \<and> min b b' \<le> z \<and> z \<le> max b b'"

end
