(* ===== verification/RateLimit.thy ===== *)
theory RateLimit
  imports Noct_Prelude
begin

text \<open>
  Rate limits over timed runs. A component is a step function that takes an input and the millisecond
  clock and emits events; \<open>timed_run\<close> feeds it a list of inputs and stamps the events. The locale
  states what a debounce or an airtime cap promises about one step, and concludes that the counted
  events of every run are spaced.
\<close>

fun timed_run ::
  "('i \<Rightarrow> u32 \<Rightarrow> 's \<Rightarrow> 'e list \<times> 's) \<Rightarrow> ('i \<times> u32) list \<Rightarrow> 's \<Rightarrow> (u32 \<times> 'e) list \<times> 's" where
  "timed_run step [] s = ([], s)"
| "timed_run step ((i, now_ms) # is) s =
     (case step i now_ms s of (evs, s1) \<Rightarrow>
      case timed_run step is s1 of (log, s2) \<Rightarrow> (map (Pair now_ms) evs @ log, s2))"

lemma timed_run_append:
  "timed_run step (xs @ ys) s =
     (case timed_run step xs s of (l1, s1) \<Rightarrow> case timed_run step ys s1 of (l2, s2) \<Rightarrow> (l1 @ l2, s2))"
proof (induction xs arbitrary: s)
  case Nil
  then show ?case by simp
next
  case (Cons x xs)
  then show ?case by (cases x) (simp add: case_prod_beta)
qed

text \<open>Times at least \<open>gap\<close> milliseconds apart, in the wrapped arithmetic of the clock; the first is
  measured from an earlier event, if there was one.\<close>

fun spaced :: "u32 \<Rightarrow> u32 option \<Rightarrow> u32 list \<Rightarrow> bool" where
  "spaced gap prev [] = True"
| "spaced gap prev (t # ts) =
     ((case prev of None \<Rightarrow> True | Some u \<Rightarrow> t - u \<ge> gap) \<and> spaced gap (Some t) ts)"

lemma spaced_None: "spaced gap p ts \<Longrightarrow> spaced gap None ts"
  by (cases ts) simp_all

definition times_of :: "('e \<Rightarrow> bool) \<Rightarrow> (u32 \<times> 'e) list \<Rightarrow> u32 list" where
  "times_of p log = map fst (filter (\<lambda>(t, e). p e) log)"

text \<open>What a rate limiter promises: a step emits at most one counted event, never too soon after the
  one it remembers, and then remembers this one.\<close>

locale rate_limiter =
  fixes step :: "'i \<Rightarrow> u32 \<Rightarrow> 's \<Rightarrow> 'e list \<times> 's"
    and counted :: "'e \<Rightarrow> bool" and gap :: u32
    and inv :: "'s \<Rightarrow> bool" and ok :: "'i \<times> u32 \<Rightarrow> bool"
    and memory :: "'s \<Rightarrow> u32 option"
  assumes limited_step: "inv s \<Longrightarrow> ok (i, now) \<Longrightarrow> step i now s = (evs, s') \<Longrightarrow>
      inv s' \<and> ((filter counted evs = [] \<and> memory s' = memory s)
        \<or> (length (filter counted evs) = 1 \<and> memory s' = Some now
            \<and> (\<forall>u. memory s = Some u \<longrightarrow> now - u \<ge> gap)))"
begin

lemma limited_run:
  "inv s \<Longrightarrow> \<forall>f \<in> set fs. ok f \<Longrightarrow> spaced gap (memory s) (times_of counted (fst (timed_run step fs s)))"
proof (induction fs arbitrary: s)
  case Nil
  then show ?case by (simp add: times_of_def)
next
  case (Cons f fs)
  obtain i now where f: "f = (i, now)" by (cases f)
  obtain evs s1 where p: "step i now s = (evs, s1)" by fastforce
  have step: "inv s1 \<and> ((filter counted evs = [] \<and> memory s1 = memory s)
        \<or> (length (filter counted evs) = 1 \<and> memory s1 = Some now
            \<and> (\<forall>u. memory s = Some u \<longrightarrow> now - u \<ge> gap)))"
    using limited_step [OF Cons.prems(1) _ p] Cons.prems(2) f by simp
  have log: "times_of counted (fst (timed_run step (f # fs) s))
      = map (\<lambda>e. now) (filter counted evs) @ times_of counted (fst (timed_run step fs s1))"
    by (simp add: f p times_of_def case_prod_beta filter_map comp_def)
  have rest: "spaced gap (memory s1) (times_of counted (fst (timed_run step fs s1)))"
    using Cons.IH step Cons.prems(2) by simp
  from step show ?case
  proof (elim conjE disjE)
    assume "filter counted evs = []" and "memory s1 = memory s"
    then show ?thesis using log rest by simp
  next
    assume "length (filter counted evs) = 1" and m: "memory s1 = Some now"
      and g: "\<forall>u. memory s = Some u \<longrightarrow> now - u \<ge> gap"
    then obtain e where "filter counted evs = [e]" by (auto simp: length_Suc_conv)
    then show ?thesis using log rest m g by (simp split: option.splits)
  qed
qed

lemma limited_run_free:
  "inv s \<Longrightarrow> \<forall>f \<in> set fs. ok f \<Longrightarrow> spaced gap None (times_of counted (fst (timed_run step fs s)))"
  by (rule spaced_None [OF limited_run])

end

end
