(* ===== verification/DmxMapper.thy ===== *)
theory DmxMapper
  imports Tofu Events RateLimit
begin

text \<open>
  \<open>DmxChannelMapper\<close> of \<open>src/dal/drivers/dmx_channel_mapper.cpp\<close>: the change, edge and cadence
  detectors of one DMX block and the events they hand to the sink. The sink is the list of events
  that a call delivers; the events are the structs \<open>RgbPulseEvent\<close> and \<open>LightWashEvent\<close> of
  \<open>include/dal/dal.h\<close>.
\<close>

datatype mapper_event = OnPulse bytes rgb_pulse_event | OnWash bytes light_wash_event

section \<open>Scaling and quantizers\<close>

definition scale_byte :: "u8 \<Rightarrow> u8 \<Rightarrow> u8" where
  "scale_byte channel master = of_nat ((unat channel * unat master) div 255)"

definition scale_raw_byte :: "u8 \<Rightarrow> u8 \<Rightarrow> u8" where
  "scale_raw_byte channel master =
     (if channel = 0 then 0
      else let scaled = unat channel * unat master div 255
           in if scaled = 0 then 1 else of_nat scaled)"

definition quantize_time :: "u8 \<Rightarrow> pixmob_time" where
  "quantize_time slider = time_of_code (slider div 32)"

definition quantize_chance :: "u8 \<Rightarrow> pixmob_chance" where
  "quantize_chance slider = chance_of_code ((255 - slider) div 32)"

text \<open>Offsets within a block.\<close>

abbreviation kMasterIntensity :: nat where "kMasterIntensity \<equiv> 0"
abbreviation kStrobeRate :: nat where "kStrobeRate \<equiv> 1"
abbreviation kPulseR :: nat where "kPulseR \<equiv> 2"
abbreviation kPulseG :: nat where "kPulseG \<equiv> 3"
abbreviation kPulseB :: nat where "kPulseB \<equiv> 4"
abbreviation kPulseTrigger :: nat where "kPulseTrigger \<equiv> 5"
abbreviation kPulseAttack :: nat where "kPulseAttack \<equiv> 6"
abbreviation kPulseSustain :: nat where "kPulseSustain \<equiv> 7"
abbreviation kPulseRelease :: nat where "kPulseRelease \<equiv> 8"
abbreviation kPulseProbability :: nat where "kPulseProbability \<equiv> 9"
abbreviation kWashAR :: nat where "kWashAR \<equiv> 10"
abbreviation kWashAG :: nat where "kWashAG \<equiv> 11"
abbreviation kWashAB :: nat where "kWashAB \<equiv> 12"
abbreviation kWashBR :: nat where "kWashBR \<equiv> 13"
abbreviation kWashBG :: nat where "kWashBG \<equiv> 14"
abbreviation kWashBB :: nat where "kWashBB \<equiv> 15"
abbreviation kWashCycle :: nat where "kWashCycle \<equiv> 16"
abbreviation kWashIntensity :: nat where "kWashIntensity \<equiv> 17"
abbreviation kWashAttack :: nat where "kWashAttack \<equiv> 18"
abbreviation kWashRelease :: nat where "kWashRelease \<equiv> 19"
abbreviation kWashTtlLo :: nat where "kWashTtlLo \<equiv> 20"
abbreviation kWashTtlHi :: nat where "kWashTtlHi \<equiv> 21"
abbreviation kWashPulseResponse :: nat where "kWashPulseResponse \<equiv> 22"
abbreviation kRawR :: nat where "kRawR \<equiv> 23"
abbreviation kRawG :: nat where "kRawG \<equiv> 24"
abbreviation kRawB :: nat where "kRawB \<equiv> 25"
abbreviation kRawEnable :: nat where "kRawEnable \<equiv> 26"

abbreviation kActiveChannelsPerBlock :: nat where "kActiveChannelsPerBlock \<equiv> 27"
abbreviation kRawEnableThreshold :: u8 where "kRawEnableThreshold \<equiv> 128"
abbreviation kTriggerHi :: u8 where "kTriggerHi \<equiv> 128"
abbreviation kTriggerLo :: u8 where "kTriggerLo \<equiv> 128"
abbreviation kMinStrobeIntervalMs :: u32 where "kMinStrobeIntervalMs \<equiv> 250"
abbreviation kMinWashEmitGapMs :: u32 where "kMinWashEmitGapMs \<equiv> 50"
abbreviation kMinRawWashEmitGapMs :: u32 where "kMinRawWashEmitGapMs \<equiv> 200"

text \<open>The colour shown on the Director's own screen; a null block is the empty one.\<close>

definition preview_rgb :: "bytes \<Rightarrow> u8 \<times> u8 \<times> u8" where
  "preview_rgb block =
     (if length block < kActiveChannelsPerBlock then (0, 0, 0)
      else let master = block ! kMasterIntensity
           in if block ! kRawEnable \<ge> kRawEnableThreshold
              then (scale_raw_byte (block ! kRawR) master, scale_raw_byte (block ! kRawG) master,
                    scale_raw_byte (block ! kRawB) master)
              else let intensity = scale_byte (block ! kWashIntensity) master
                   in (scale_byte (block ! kWashAR) intensity, scale_byte (block ! kWashAG) intensity,
                       scale_byte (block ! kWashAB) intensity))"

section \<open>State\<close>

text \<open>The last values put on the wire by the wash detector.\<close>

record wash_values =
  wv_r1 :: u8
  wv_g1 :: u8
  wv_b1 :: u8
  wv_r2 :: u8
  wv_g2 :: u8
  wv_b2 :: u8
  wv_intensity :: u8
  wv_attack :: u8
  wv_release :: u8
  wv_cycle :: u8
  wv_ttl_lo :: u8
  wv_ttl_hi :: u8
  wv_pulse_response :: u8

record mapper =
  mp_target_group :: u8
  mp_target :: bytes
  mp_pulse_armed :: bool
  mp_last_trigger :: u8
  mp_wash_seeded :: bool
  mp_last_wash :: wash_values
  mp_last_wash_emit_ms :: u32
  mp_last_strobe_rate :: u8
  mp_next_strobe_fire_ms :: u32
  mp_raw_active :: bool
  mp_last_raw :: "u8 \<times> u8 \<times> u8"

definition zero_wash :: wash_values where
  "zero_wash = \<lparr> wv_r1 = 0, wv_g1 = 0, wv_b1 = 0, wv_r2 = 0, wv_g2 = 0, wv_b2 = 0,
     wv_intensity = 0, wv_attack = 0, wv_release = 0, wv_cycle = 0, wv_ttl_lo = 0, wv_ttl_hi = 0,
     wv_pulse_response = 0 \<rparr>"

definition mapper_init :: "u8 \<Rightarrow> mapper" where
  "mapper_init target_group = \<lparr> mp_target_group = target_group,
     mp_target = [0x30, 0x30, 0x3A] @ hex_02X (ucast target_group),
     mp_pulse_armed = True, mp_last_trigger = 0, mp_wash_seeded = False, mp_last_wash = zero_wash,
     mp_last_wash_emit_ms = 0, mp_last_strobe_rate = 0, mp_next_strobe_fire_ms = 0,
     mp_raw_active = False, mp_last_raw = (0, 0, 0) \<rparr>"

definition mapper_reset :: "mapper \<Rightarrow> mapper" where
  "mapper_reset s = s\<lparr> mp_pulse_armed := True, mp_last_trigger := 0, mp_wash_seeded := False,
     mp_last_wash := zero_wash, mp_last_wash_emit_ms := 0, mp_last_strobe_rate := 0,
     mp_next_strobe_fire_ms := 0, mp_raw_active := False, mp_last_raw := (0, 0, 0) \<rparr>"

section \<open>Detectors\<close>

definition raw_wash_event :: "u8 \<Rightarrow> u8 \<Rightarrow> u8 \<Rightarrow> light_wash_event" where
  "raw_wash_event r g b = \<lparr> ew_r1 = r, ew_g1 = g, ew_b1 = b, ew_r2 = r, ew_g2 = g, ew_b2 = b,
     ew_attack = 0, ew_release = 0, ew_intensity = 255, ew_cycle_ms = 0, ew_ttl_seconds = 0,
     ew_pulse_response = 1, ew_led_mode = 0, ew_led_modifier1 = 0, ew_led_modifier2 = 0 \<rparr>"

definition maybe_emit_raw_wash_on_change ::
  "bytes \<Rightarrow> u8 \<Rightarrow> u32 \<Rightarrow> mapper \<Rightarrow> mapper_event list \<times> mapper" where
  "maybe_emit_raw_wash_on_change ch master now_ms s =
     (let scaled_r = scale_raw_byte (ch ! kRawR) master;
          scaled_g = scale_raw_byte (ch ! kRawG) master;
          scaled_b = scale_raw_byte (ch ! kRawB) master;
          first_entry = (\<not> mp_raw_active s);
          changed = ((scaled_r, scaled_g, scaled_b) \<noteq> mp_last_raw s)
      in if \<not> first_entry \<and> \<not> changed then ([], s)
         else if \<not> first_entry \<and> now_ms - mp_last_wash_emit_ms s < kMinRawWashEmitGapMs then ([], s)
         else ([OnWash (mp_target s) (raw_wash_event scaled_r scaled_g scaled_b)],
               s\<lparr> mp_raw_active := True, mp_last_raw := (scaled_r, scaled_g, scaled_b),
                  mp_last_wash_emit_ms := now_ms \<rparr>))"

definition build_pulse_event :: "bytes \<Rightarrow> u8 \<Rightarrow> rgb_pulse_event" where
  "build_pulse_event ch master =
     \<lparr> rp_r = scale_byte (ch ! kPulseR) master, rp_g = scale_byte (ch ! kPulseG) master,
       rp_b = scale_byte (ch ! kPulseB) master, rp_attack = quantize_time (ch ! kPulseAttack),
       rp_sustain = quantize_time (ch ! kPulseSustain), rp_release = quantize_time (ch ! kPulseRelease),
       rp_chance = quantize_chance (ch ! kPulseProbability),
       rp_led_mode = 0, rp_led_modifier1 = 0, rp_led_modifier2 = 0 \<rparr>"

definition maybe_emit_pulse_on_trigger ::
  "bytes \<Rightarrow> u8 \<Rightarrow> mapper \<Rightarrow> mapper_event list \<times> mapper" where
  "maybe_emit_pulse_on_trigger ch master s =
     (let trig = ch ! kPulseTrigger;
          s = (if trig < kTriggerLo then s\<lparr> mp_pulse_armed := True \<rparr> else s);
          rising_edge = (mp_pulse_armed s \<and> trig \<ge> kTriggerHi);
          evs = (if rising_edge then [OnPulse (mp_target s) (build_pulse_event ch master)] else []);
          s = (if rising_edge then s\<lparr> mp_pulse_armed := False \<rparr> else s)
      in (evs, s\<lparr> mp_last_trigger := trig \<rparr>))"

definition wash_of_block :: "bytes \<Rightarrow> u8 \<Rightarrow> wash_values" where
  "wash_of_block ch master =
     \<lparr> wv_r1 = ch ! kWashAR, wv_g1 = ch ! kWashAG, wv_b1 = ch ! kWashAB,
       wv_r2 = ch ! kWashBR, wv_g2 = ch ! kWashBG, wv_b2 = ch ! kWashBB,
       wv_intensity = scale_byte (ch ! kWashIntensity) master,
       wv_attack = ch ! kWashAttack, wv_release = ch ! kWashRelease, wv_cycle = ch ! kWashCycle,
       wv_ttl_lo = ch ! kWashTtlLo, wv_ttl_hi = ch ! kWashTtlHi,
       wv_pulse_response = (if ch ! kWashPulseResponse \<ge> 128 then 1 else 0) \<rparr>"

definition wash_event_of :: "wash_values \<Rightarrow> light_wash_event" where
  "wash_event_of w =
     \<lparr> ew_r1 = wv_r1 w, ew_g1 = wv_g1 w, ew_b1 = wv_b1 w, ew_r2 = wv_r2 w, ew_g2 = wv_g2 w,
       ew_b2 = wv_b2 w, ew_attack = wv_attack w, ew_release = wv_release w,
       ew_intensity = wv_intensity w, ew_cycle_ms = ucast (wv_cycle w) * 100,
       ew_ttl_seconds = ucast (wv_ttl_lo w) OR push_bit 8 (ucast (wv_ttl_hi w)),
       ew_pulse_response = wv_pulse_response w,
       ew_led_mode = 0, ew_led_modifier1 = 0, ew_led_modifier2 = 0 \<rparr>"

definition maybe_emit_wash_on_change ::
  "bytes \<Rightarrow> u8 \<Rightarrow> u32 \<Rightarrow> mapper \<Rightarrow> mapper_event list \<times> mapper" where
  "maybe_emit_wash_on_change ch master now_ms s =
     (let w = wash_of_block ch master; changed = (w \<noteq> mp_last_wash s)
      in if \<not> mp_wash_seeded s \<or> changed then
           (if mp_wash_seeded s \<and> now_ms - mp_last_wash_emit_ms s < kMinWashEmitGapMs then ([], s)
            else ([OnWash (mp_target s) (wash_event_of w)],
                  s\<lparr> mp_last_wash := w, mp_last_wash_emit_ms := now_ms, mp_wash_seeded := True \<rparr>))
         else ([], s))"

text \<open>The strobe interval of a non-zero rate, with its safety floor.\<close>

definition strobe_interval :: "u8 \<Rightarrow> u32" where
  "strobe_interval rate = (let i = 63750 div (ucast rate :: u32)
     in if i < kMinStrobeIntervalMs then kMinStrobeIntervalMs else i)"

definition maybe_emit_strobe ::
  "bytes \<Rightarrow> u8 \<Rightarrow> u32 \<Rightarrow> mapper \<Rightarrow> mapper_event list \<times> mapper" where
  "maybe_emit_strobe ch master now_ms s =
     (let rate = ch ! kStrobeRate
      in if rate = 0 then ([], s\<lparr> mp_last_strobe_rate := 0, mp_next_strobe_fire_ms := 0 \<rparr>)
         else let interval_ms = strobe_interval rate;
                  rate_changed = (rate \<noteq> mp_last_strobe_rate s);
                  deadline_met = (mp_next_strobe_fire_ms s \<noteq> 0 \<and> now_ms \<ge> mp_next_strobe_fire_ms s);
                  (evs, s) = (if rate_changed \<or> deadline_met
                     then ([OnPulse (mp_target s) (build_pulse_event ch master)],
                           s\<lparr> mp_next_strobe_fire_ms := now_ms + interval_ms \<rparr>)
                     else if mp_next_strobe_fire_ms s = 0
                     then ([], s\<lparr> mp_next_strobe_fire_ms := now_ms + interval_ms \<rparr>)
                     else ([], s))
              in (evs, s\<lparr> mp_last_strobe_rate := rate \<rparr>))"

definition mapper_process :: "bytes \<Rightarrow> u32 \<Rightarrow> mapper \<Rightarrow> mapper_event list \<times> mapper" where
  "mapper_process block now_ms s =
     (if length block < kActiveChannelsPerBlock then ([], s)
      else let master = block ! kMasterIntensity;
               raw_request = (block ! kRawEnable \<ge> kRawEnableThreshold)
           in if raw_request then
                (case maybe_emit_raw_wash_on_change block master now_ms s of
                   (evs, s) \<Rightarrow> (evs, s\<lparr> mp_pulse_armed := False \<rparr>))
              else let s = (if mp_raw_active s
                            then s\<lparr> mp_raw_active := False, mp_wash_seeded := False \<rparr> else s);
                       (e1, s) = maybe_emit_wash_on_change block master now_ms s;
                       (e2, s) = maybe_emit_pulse_on_trigger block master s;
                       (e3, s) = maybe_emit_strobe block master now_ms s
                   in (e1 @ e2 @ e3, s))"

text \<open>The bridge's loop: one block snapshot after another, every event stamped with its call.\<close>

abbreviation mapper_run :: "(bytes \<times> u32) list \<Rightarrow> mapper \<Rightarrow> (u32 \<times> mapper_event) list \<times> mapper" where
  "mapper_run \<equiv> timed_run mapper_process"

section \<open>Rate limits\<close>

fun is_wash :: "mapper_event \<Rightarrow> bool" where
  "is_wash (OnWash tg e) = True" | "is_wash (OnPulse tg e) = False"

definition fx_block :: "bytes \<times> u32 \<Rightarrow> bool" where
  "fx_block f \<longleftrightarrow> (length (fst f) \<ge> kActiveChannelsPerBlock \<longrightarrow>
     \<not> fst f ! kRawEnable \<ge> kRawEnableThreshold)"

definition raw_block :: "bytes \<times> u32 \<Rightarrow> bool" where
  "raw_block f \<longleftrightarrow> fst f ! kRawEnable \<ge> kRawEnableThreshold"

definition strobe_block :: "u8 \<Rightarrow> bytes \<times> u32 \<Rightarrow> bool" where
  "strobe_block rate f \<longleftrightarrow> length (fst f) \<ge> kActiveChannelsPerBlock \<and> fx_block f
     \<and> fst f ! kPulseTrigger < kTriggerLo \<and> fst f ! kStrobeRate = rate \<and> snd f < 0x80000000"

lemmas detector_defs = maybe_emit_wash_on_change_def maybe_emit_raw_wash_on_change_def
  maybe_emit_pulse_on_trigger_def maybe_emit_strobe_def mapper_process_def

interpretation fx_wash: rate_limiter mapper_process is_wash kMinWashEmitGapMs "\<lambda>s. \<not> mp_raw_active s" fx_block
  "\<lambda>s. if mp_wash_seeded s then Some (mp_last_wash_emit_ms s) else None"
  by unfold_locales
    (auto simp: detector_defs fx_block_def Let_def not_less split: if_splits prod.splits)

interpretation raw_wash: rate_limiter mapper_process is_wash kMinRawWashEmitGapMs "\<lambda>s. True" raw_block
  "\<lambda>s. if mp_raw_active s then Some (mp_last_wash_emit_ms s) else None"
  by unfold_locales
    (auto simp: detector_defs raw_block_def Let_def not_less split: if_splits prod.splits)

text \<open>The strobe at one rate: its deadline is the last pulse plus the interval.\<close>

lemma strobe_interval_bounds:
  "kMinStrobeIntervalMs \<le> strobe_interval rate" "unat (strobe_interval rate) \<le> 63750"
proof -
  have "unat (63750 div (ucast rate :: u32)) \<le> 63750"
    by (simp add: unat_div_distrib div_le_dividend)
  then show "kMinStrobeIntervalMs \<le> strobe_interval rate" "unat (strobe_interval rate) \<le> 63750"
    by (auto simp: strobe_interval_def Let_def not_less)
qed

definition strobe_inv :: "u8 \<Rightarrow> mapper \<Rightarrow> bool" where
  "strobe_inv rate s \<longleftrightarrow> \<not> mp_raw_active s \<and> (mp_last_strobe_rate s = rate \<longrightarrow>
     unat (strobe_interval rate) \<le> unat (mp_next_strobe_fire_ms s)
     \<and> unat (mp_next_strobe_fire_ms s) < 0x80000000 + 63750)"

lemma deadline:
  assumes "(now :: u32) < 0x80000000" and "unat i \<le> 63750" and "kMinStrobeIntervalMs \<le> i"
  shows "unat i \<le> unat (now + i)" "unat (now + i) < 0x80000000 + 63750" "now + i \<noteq> 0"
    and "unat i \<le> unat next \<Longrightarrow> next \<le> now \<Longrightarrow> kMinStrobeIntervalMs \<le> now - (next - i)"
proof -
  have n: "unat now < 0x80000000" using assms(1) by (simp add: word_less_nat_alt)
  have i: "250 \<le> unat i" using assms(3) by (simp add: word_le_nat_alt)
  have a: "unat (now + i) = unat now + unat i"
    using n assms(2) by (simp add: unat_plus_if_size word_size)
  then show "unat i \<le> unat (now + i)" "unat (now + i) < 0x80000000 + 63750" "now + i \<noteq> 0"
    using n assms(2) i by (auto simp: word_unat_eq_iff)
  assume le: "unat i \<le> unat next" "next \<le> now"
  have "next - i \<le> next" using le(1) by (simp add: word_le_nat_alt unat_sub)
  then have "unat (now - (next - i)) = unat now - (unat next - unat i)"
    using le by (simp add: unat_sub word_le_nat_alt)
  then show "kMinStrobeIntervalMs \<le> now - (next - i)"
    using le i by (simp add: word_le_nat_alt)
qed

lemma strobe_emits:
  assumes "rate \<noteq> 0" and "ch ! kStrobeRate = rate" and "strobe_inv rate s" and "now < 0x80000000"
    and "maybe_emit_strobe ch master now s = (evs, s')"
  shows "strobe_inv rate s' \<and> mp_last_strobe_rate s' = rate
    \<and> (if mp_last_strobe_rate s \<noteq> rate \<or> now \<ge> mp_next_strobe_fire_ms s
       then evs = [OnPulse (mp_target s) (build_pulse_event ch master)]
         \<and> mp_next_strobe_fire_ms s' = now + strobe_interval rate
       else evs = [] \<and> mp_next_strobe_fire_ms s' = mp_next_strobe_fire_ms s)"
proof -
  note b = strobe_interval_bounds [of rate]
  note d = deadline(1-3) [OF assms(4) b(2,1)]
  have "mp_last_strobe_rate s = rate \<Longrightarrow> mp_next_strobe_fire_ms s \<noteq> 0"
    using assms(3) b(1) by (auto simp: strobe_inv_def word_le_nat_alt)
  then show ?thesis
    using assms(1-3,5) d
    by (auto simp: maybe_emit_strobe_def strobe_inv_def Let_def split: if_splits)
qed

fun is_pulse :: "mapper_event \<Rightarrow> bool" where
  "is_pulse (OnWash tg e) = False" | "is_pulse (OnPulse tg e) = True"

lemma wash_keeps_strobe:
  "maybe_emit_wash_on_change ch master now s = (evs, s') \<Longrightarrow> filter is_pulse evs = []
    \<and> mp_last_strobe_rate s' = mp_last_strobe_rate s \<and> mp_raw_active s' = mp_raw_active s
    \<and> mp_next_strobe_fire_ms s' = mp_next_strobe_fire_ms s
    \<and> mp_pulse_armed s' = mp_pulse_armed s"
  by (auto simp: maybe_emit_wash_on_change_def Let_def split: if_splits)

lemma low_trigger_quiet:
  "ch ! kPulseTrigger < kTriggerLo \<Longrightarrow> maybe_emit_pulse_on_trigger ch master s
    = ([], s\<lparr> mp_pulse_armed := True, mp_last_trigger := ch ! kPulseTrigger \<rparr>)"
  by (simp add: maybe_emit_pulse_on_trigger_def Let_def not_le)

lemma strobe_limiter:
  assumes "rate \<noteq> 0"
  shows "rate_limiter mapper_process is_pulse kMinStrobeIntervalMs (strobe_inv rate) (strobe_block rate)
    (\<lambda>s. if mp_last_strobe_rate s = rate
         then Some (mp_next_strobe_fire_ms s - strobe_interval rate) else None)"
proof (unfold_locales, goal_cases)
  case (1 s block now evs s')
  let ?m = "block ! kMasterIntensity"
  have ok: "length block \<ge> kActiveChannelsPerBlock" "\<not> block ! kRawEnable \<ge> kRawEnableThreshold"
    "block ! kPulseTrigger < kTriggerLo" "block ! kStrobeRate = rate" "now < 0x80000000"
    using 1(2) by (auto simp: strobe_block_def fx_block_def)
  have raw: "\<not> mp_raw_active s" using 1(1) by (simp add: strobe_inv_def)
  obtain e1 s1 where w: "maybe_emit_wash_on_change block ?m now s = (e1, s1)" by fastforce
  note k = wash_keeps_strobe [OF w]
  let ?s2 = "s1\<lparr> mp_pulse_armed := True, mp_last_trigger := block ! kPulseTrigger \<rparr>"
  obtain e3 s3 where st: "maybe_emit_strobe block ?m now ?s2 = (e3, s3)" by fastforce
  have res: "evs = e1 @ e3" "s' = s3"
    using 1(3) ok(1,2) raw low_trigger_quiet [OF ok(3)] w st
    by (simp_all add: mapper_process_def Let_def)
  have inv2: "strobe_inv rate ?s2" using 1(1) k by (simp add: strobe_inv_def)
  note e = strobe_emits [OF assms ok(4) inv2 ok(5) st]
  note d = deadline(4) [OF ok(5) strobe_interval_bounds(2) [of rate] strobe_interval_bounds(1)]
  show ?case
    using e k res d [of "mp_next_strobe_fire_ms s"] 1(1) by (auto simp: strobe_inv_def split: if_splits)
qed

section \<open>Properties\<close>

text \<open>The fleet is never flooded with washes. While a block stays in effects mode, the LIGHT_WASH
  events that its mapper emits are at least 50 ms apart, and while it stays in raw mode at least
  200 ms, whatever the sliders do and however fast universe frames arrive.\<close>

theorem wash_rate_limited:
  assumes "(\<forall>f \<in> set frames. fx_block f) \<and> \<not> mp_raw_active s \<and> gap = kMinWashEmitGapMs
    \<or> (\<forall>f \<in> set frames. raw_block f) \<and> gap = kMinRawWashEmitGapMs"
  shows "spaced gap None (times_of is_wash (fst (mapper_run frames s)))"
  using assms
proof (elim disjE conjE)
  assume "\<forall>f \<in> set frames. fx_block f" and "\<not> mp_raw_active s" and "gap = kMinWashEmitGapMs"
  then show ?thesis using spaced_None [OF fx_wash.limited_run [where s = s and fs = frames]] by simp
next
  assume "\<forall>f \<in> set frames. raw_block f" and "gap = kMinRawWashEmitGapMs"
  then show ?thesis using spaced_None [OF raw_wash.limited_run [where s = s and fs = frames]] by simp
qed

definition sample_block :: "u8 \<Rightarrow> u8 \<Rightarrow> u8 \<Rightarrow> bytes" where
  "sample_block strobe trigger red =
     [255, strobe, 200, 100, 50, trigger, 32, 64, 96, 255] @ [red, 1, 2, 3, 4, 5, 10, 255, 1, 2, 0, 0, 0]
       @ [red, 0, 0, 0]"

theorem wash_rate_limited_witness:
  "spaced kMinWashEmitGapMs None (times_of is_wash (fst (mapper_run
     [(sample_block 0 0 7, 10), (sample_block 0 0 8, 20), (sample_block 0 0 9, 70)] (mapper_init 0))))
   \<and> times_of is_wash (fst (mapper_run
     [(sample_block 0 0 7, 10), (sample_block 0 0 8, 20), (sample_block 0 0 9, 70)] (mapper_init 0)))
     = [10, 70]"
proof
  show "spaced kMinWashEmitGapMs None (times_of is_wash (fst (mapper_run
     [(sample_block 0 0 7, 10), (sample_block 0 0 8, 20), (sample_block 0 0 9, 70)] (mapper_init 0))))"
    by (rule wash_rate_limited) (simp add: fx_block_def sample_block_def mapper_init_def)
qed (simp add: times_of_def detector_defs sample_block_def mapper_init_def wash_of_block_def Let_def)

text \<open>The strobe keeps its photosensitivity floor at a steady rate. At any non-zero rate held
  constant, with the trigger low and the millisecond clock in its first 24 days, consecutive strobe
  pulses are at least 250 ms apart (4 Hz), however often frames arrive.\<close>

theorem strobe_floor:
  assumes "rate \<noteq> 0" and "mp_last_strobe_rate s \<noteq> rate" and "\<not> mp_raw_active s"
    and "\<forall>f \<in> set frames. strobe_block rate f"
  shows "spaced kMinStrobeIntervalMs None (times_of is_pulse (fst (mapper_run frames s)))"
proof -
  have "strobe_inv rate s" using assms(2,3) by (simp add: strobe_inv_def)
  from rate_limiter.limited_run [OF strobe_limiter [OF assms(1)] this assms(4)] show ?thesis
    by (rule spaced_None)
qed

theorem strobe_floor_witness:
  "spaced kMinStrobeIntervalMs None (times_of is_pulse (fst (mapper_run
     (map (\<lambda>t. (sample_block 255 0 7, t)) [5, 105, 205, 305, 405]) (mapper_init 1))))
   \<and> times_of is_pulse (fst (mapper_run
     (map (\<lambda>t. (sample_block 255 0 7, t)) [5, 105, 205, 305, 405]) (mapper_init 1))) = [5, 305]"
proof
  show "spaced kMinStrobeIntervalMs None (times_of is_pulse (fst (mapper_run
     (map (\<lambda>t. (sample_block 255 0 7, t)) [5, 105, 205, 305, 405]) (mapper_init 1))))"
    by (rule strobe_floor [of 255])
      (simp_all add: strobe_block_def fx_block_def sample_block_def mapper_init_def)
qed (simp add: times_of_def detector_defs sample_block_def mapper_init_def strobe_interval_def Let_def)

text \<open>Moving the strobe slider defeats the floor: a rate that changes with every frame fires a pulse
  with every frame, here five pulses 1 ms apart.\<close>

theorem strobe_floor_bypassed:
  "times_of is_pulse (fst (mapper_run
     [(sample_block 100 0 7, 1), (sample_block 101 0 7, 2), (sample_block 100 0 7, 3),
      (sample_block 101 0 7, 4), (sample_block 100 0 7, 5)] (mapper_init 0))) = [1, 2, 3, 4, 5]"
  by (simp add: times_of_def detector_defs sample_block_def mapper_init_def strobe_interval_def Let_def)

lemma scale_byte_full: "scale_byte c 255 = c"
  by (simp add: scale_byte_def)

text \<open>The Director's screen shows what the fleet is told. Whenever a call emits a wash, in raw or in
  effects mode, the preview colour of the same block is exactly anchor A of that wash scaled by the
  intensity it carries, which is how a receiver renders it.\<close>

theorem preview_matches_wire:
  assumes "mapper_process block now s = (evs, s')" and "OnWash target e \<in> set evs"
  shows "preview_rgb block = (scale_byte (ew_r1 e) (ew_intensity e),
    scale_byte (ew_g1 e) (ew_intensity e), scale_byte (ew_b1 e) (ew_intensity e))
    \<and> target = mp_target s"
proof -
  have len: "\<not> length block < kActiveChannelsPerBlock" using assms by (auto simp: mapper_process_def)
  show ?thesis
  proof (cases "block ! kRawEnable \<ge> kRawEnableThreshold")
    case True
    then show ?thesis
      using assms len by (auto simp: mapper_process_def maybe_emit_raw_wash_on_change_def Let_def
          preview_rgb_def raw_wash_event_def scale_byte_full split: if_splits)
  next
    case False
    obtain e1 s1 where w: "maybe_emit_wash_on_change block (block ! kMasterIntensity) now
        (if mp_raw_active s then s\<lparr> mp_raw_active := False, mp_wash_seeded := False \<rparr> else s) = (e1, s1)"
      by fastforce
    have "OnWash target e \<in> set e1"
      using assms len False w
      by (auto simp: mapper_process_def maybe_emit_pulse_on_trigger_def maybe_emit_strobe_def Let_def
          split: if_splits prod.splits)
    then have "e = wash_event_of (wash_of_block block (block ! kMasterIntensity)) \<and> target = mp_target s"
      using w by (auto simp: maybe_emit_wash_on_change_def Let_def split: if_splits)
    then show ?thesis
      using len False by (simp add: preview_rgb_def Let_def wash_event_of_def wash_of_block_def)
  qed
qed

theorem preview_matches_wire_witness:
  "preview_rgb (sample_block 0 0 77) = (77, 1, 2)"
proof -
  have "mapper_process (sample_block 0 0 77) 5 (mapper_init 3)
      = ([OnWash (mp_target (mapper_init 3)) (wash_event_of (wash_of_block (sample_block 0 0 77) 255))],
         snd (mapper_process (sample_block 0 0 77) 5 (mapper_init 3)))"
    by (simp add: detector_defs sample_block_def mapper_init_def Let_def)
  from preview_matches_wire [OF this, of "mp_target (mapper_init 3)"
      "wash_event_of (wash_of_block (sample_block 0 0 77) 255)"]
  show ?thesis by (simp add: wash_event_of_def wash_of_block_def sample_block_def scale_byte_full)
qed

definition trigger_block :: "bytes \<times> u32 \<Rightarrow> bool" where
  "trigger_block f \<longleftrightarrow> length (fst f) \<ge> kActiveChannelsPerBlock \<and> fx_block f \<and> fst f ! kStrobeRate = 0"

definition trigger_high :: "bytes \<times> u32 \<Rightarrow> bool" where
  "trigger_high f \<longleftrightarrow> fst f ! kPulseTrigger \<ge> kTriggerHi"

lemma trigger_step:
  assumes "trigger_block (block, now)" and "\<not> mp_raw_active s"
    and "mapper_process block now s = (evs, s')"
  shows "\<not> mp_raw_active s' \<and> mp_pulse_armed s' = (\<not> trigger_high (block, now))
    \<and> length (filter is_pulse evs) = (if trigger_high (block, now) \<and> mp_pulse_armed s then 1 else 0)"
proof -
  let ?m = "block ! kMasterIntensity"
  have ok: "length block \<ge> kActiveChannelsPerBlock" "\<not> block ! kRawEnable \<ge> kRawEnableThreshold"
    "block ! kStrobeRate = 0"
    using assms(1) by (auto simp: trigger_block_def fx_block_def)
  obtain e1 s1 where w: "maybe_emit_wash_on_change block ?m now s = (e1, s1)" by fastforce
  show ?thesis
    using assms(2,3) ok w wash_keeps_strobe [OF w]
    by (auto simp: mapper_process_def maybe_emit_pulse_on_trigger_def maybe_emit_strobe_def Let_def
        trigger_high_def not_le split: if_splits)
qed

text \<open>One press, one pulse. In effects mode with the strobe off, the pulses of a run are exactly one
  for every frame whose trigger channel is in the upper half when it was not in the frame before (for
  the first frame: when the trigger was armed), at the time of that frame; a held trigger never repeats.\<close>

theorem trigger_is_edge_detector:
  assumes "\<forall>f \<in> set frames. trigger_block f" and "\<not> mp_raw_active s"
  shows "times_of is_pulse (fst (mapper_run frames s))
    = map (snd \<circ> snd) (filter (\<lambda>(was_high, f). trigger_high f \<and> \<not> was_high)
        (zip ((\<not> mp_pulse_armed s) # map trigger_high frames) frames))"
  using assms
proof (induction frames arbitrary: s)
  case Nil
  then show ?case by (simp add: times_of_def)
next
  case (Cons f frames)
  obtain block now where f: "f = (block, now)" by (cases f)
  obtain evs s1 where p: "mapper_process block now s = (evs, s1)" by fastforce
  have st: "\<not> mp_raw_active s1" "mp_pulse_armed s1 = (\<not> trigger_high f)"
    "length (filter is_pulse evs) = (if trigger_high f \<and> mp_pulse_armed s then 1 else 0)"
    using trigger_step [OF _ Cons.prems(2) p] Cons.prems(1) f by auto
  have log: "times_of is_pulse (fst (mapper_run (f # frames) s))
      = map (\<lambda>e. now) (filter is_pulse evs) @ times_of is_pulse (fst (mapper_run frames s1))"
    by (simp add: f p times_of_def case_prod_beta filter_map comp_def)
  have "map (\<lambda>e. now) (filter is_pulse evs)
      = (if trigger_high f \<and> mp_pulse_armed s then [now] else [])"
    using st(3) by (auto simp: length_Suc_conv split: if_splits)
  then show ?case
    using log Cons.IH [of s1] Cons.prems(1) st f by simp
qed

theorem trigger_is_edge_detector_witness:
  "times_of is_pulse (fst (mapper_run
     (map (\<lambda>(x, t). (sample_block 0 x 7, t)) [(0, 1), (200, 2), (255, 3), (3, 4), (128, 5)])
     (mapper_init 0))) = [2, 5]"
proof -
  let ?fs = "map (\<lambda>(x, t). (sample_block 0 x 7, t)) [(0, 1), (200, 2), (255, 3), (3, 4), (128, 5 :: u32)]"
  have "\<forall>f \<in> set ?fs. trigger_block f" "\<not> mp_raw_active (mapper_init 0)"
    by (simp_all add: trigger_block_def fx_block_def sample_block_def mapper_init_def)
  from trigger_is_edge_detector [OF this] show ?thesis
    by (simp add: trigger_high_def sample_block_def mapper_init_def)
qed

end
