(* ===== verification/EspNowDriver.thy ===== *)
theory EspNowDriver
  imports Frames Settings Tofu Events RateLimit Telemetry
begin

text \<open>
  \<open>EspNowBroadcastDriver\<close> of \<open>src/dal/drivers/espnow_broadcast_driver.cpp\<close>: the sender of a Director.
  State: the lifecycle (idle, listening on channel 11, active), the source id and the sequence
  number, the airtime cap, the heartbeat cadence and the retransmit queue. One definition per member
  function. What \<open>radio->send_broadcast\<close> is given is the list of air events an operation returns; the
  clock, the random numbers, the MAC address and the radio's answers are the record \<open>drv_env\<close>, read
  once per call.
\<close>

section \<open>State and environment\<close>

datatype startup_state = Idle | Listening | Active

record drv_env =
  de_now :: u32
  de_radio :: bool
  de_begin_ok :: bool
  de_send_ok :: bool
  de_mac :: bytes
  de_rand_pump :: u32
  de_rand_send :: u32
  de_random :: u32

record driver =
  dv_active :: bool
  dv_startup_state :: startup_state
  dv_source_id :: u8
  dv_seq_num :: u8
  dv_last_tx_ms :: u32
  dv_last_hb_ms :: u32
  dv_listen_candidate :: u8
  dv_listen_attempts_remaining :: u8
  dv_listen_collision_heard :: bool
  dv_listen_started_ms :: u32
  dv_retransmit_buf :: bytes
  dv_retransmit_len :: nat
  dv_retransmits_remaining :: u8
  dv_next_retransmit_ms :: u32
  dv_retransmit_count :: u8
  dv_last_airtime_send_ms :: u32
  dv_airtime_drop_count :: u32
  dv_recv_cb :: bool
  dv_nvs :: nvs
  dv_census :: census

text \<open>A frame handed to the radio: first time, with the label of the sender, or a retransmission.\<close>

datatype tx_label = LIGHT | WASH | WEND | WPUL | PASS | HBEAT

datatype air = OnAir tx_label bytes | Copy bytes

abbreviation kMinSendIntervalMs :: u32 where "kMinSendIntervalMs \<equiv> 50"
abbreviation kListenWindowMs :: u32 where "kListenWindowMs \<equiv> 1000"
abbreviation kListenMaxAttempts :: u8 where "kListenMaxAttempts \<equiv> 3"
abbreviation kHeartbeatPeriodMs :: u32 where "kHeartbeatPeriodMs \<equiv> 1000"
abbreviation kRedundantGapMinMs :: u32 where "kRedundantGapMinMs \<equiv> 5"
abbreviation kRedundantGapMaxMs :: u32 where "kRedundantGapMaxMs \<equiv> 15"
abbreviation kRedundantSendsMin :: u8 where "kRedundantSendsMin \<equiv> 1"
abbreviation kRedundantSendsMax :: u8 where "kRedundantSendsMax \<equiv> 5"
abbreviation kRetransmitBufSize :: nat where "kRetransmitBufSize \<equiv> 250"

definition driver_init :: "u8 \<Rightarrow> nvs \<Rightarrow> driver" where
  "driver_init default_count n = \<lparr> dv_active = False, dv_startup_state = Idle, dv_source_id = 1,
     dv_seq_num = 1, dv_last_tx_ms = 0, dv_last_hb_ms = 0, dv_listen_candidate = 0,
     dv_listen_attempts_remaining = 0, dv_listen_collision_heard = False, dv_listen_started_ms = 0,
     dv_retransmit_buf = replicate kRetransmitBufSize 0, dv_retransmit_len = 0,
     dv_retransmits_remaining = 0, dv_next_retransmit_ms = 0, dv_retransmit_count = default_count,
     dv_last_airtime_send_ms = - kMinSendIntervalMs, dv_airtime_drop_count = 0,
     dv_recv_cb = False, dv_nvs = n, dv_census = census_init \<rparr>"

section \<open>Helpers\<close>

definition next_seq :: "driver \<Rightarrow> u8 \<times> driver" where
  "next_seq s = (dv_seq_num s,
     s\<lparr> dv_seq_num := (if dv_seq_num s = 255 then 1 else dv_seq_num s + 1) \<rparr>)"

definition airtime_cap_ready :: "drv_env \<Rightarrow> driver \<Rightarrow> bool \<times> driver" where
  "airtime_cap_ready e s =
     (let elapsed = de_now e - dv_last_airtime_send_ms s
      in if elapsed < kMinSendIntervalMs
         then (False, s\<lparr> dv_airtime_drop_count := dv_airtime_drop_count s + 1 \<rparr>)
         else (True, s\<lparr> dv_last_airtime_send_ms := de_now e \<rparr>))"

definition redundant_gap_ms :: "u32 \<Rightarrow> u32" where
  "redundant_gap_ms rand = kRedundantGapMinMs + rand mod (kRedundantGapMaxMs - kRedundantGapMinMs + 1)"

definition derive_source_id :: "drv_env \<Rightarrow> nvs \<Rightarrow> u8 \<Rightarrow> u8" where
  "derive_source_id e n channel =
     (if channel = 1 then load_director_source_id n
      else let i = de_mac e ! 5; j = de_mac e ! 4
           in if i = 0 \<or> i = 0xFF then (if j \<noteq> 0 \<and> j \<noteq> 0xFF then j else 1) else i)"

definition pick_performance_id_random :: "u32 \<Rightarrow> u8" where
  "pick_performance_id_random rnd = ucast (0x40 + rnd mod 191)"

definition send_frame_bytes :: "drv_env \<Rightarrow> bytes \<Rightarrow> tx_label \<Rightarrow> driver \<Rightarrow> air list \<times> driver" where
  "send_frame_bytes e buf label s =
     (if \<not> dv_active s \<or> length buf = 0 then ([], s)
      else let evs = (if de_radio e then [OnAir label buf] else []);
               s1 = (if de_radio e \<and> de_send_ok e then s\<lparr> dv_last_tx_ms := de_now e \<rparr> else s)
           in (evs,
               if length buf \<le> kRetransmitBufSize \<and> dv_retransmit_count s1 > 1
               then s1\<lparr> dv_retransmit_buf := copy_into (dv_retransmit_buf s1) buf,
                        dv_retransmit_len := length buf,
                        dv_retransmits_remaining := dv_retransmit_count s1 - 1,
                        dv_next_retransmit_ms := de_now e + redundant_gap_ms (de_rand_send e) \<rparr>
               else s1\<lparr> dv_retransmits_remaining := 0 \<rparr>))"

definition pump_retransmits :: "drv_env \<Rightarrow> driver \<Rightarrow> air list \<times> driver" where
  "pump_retransmits e s =
     (if \<not> dv_active s \<or> dv_retransmits_remaining s = 0 then ([], s)
      else if de_now e < dv_next_retransmit_ms s then ([], s)
      else if \<not> de_radio e then ([], s\<lparr> dv_retransmits_remaining := 0 \<rparr>)
      else let s1 = s\<lparr> dv_last_tx_ms := de_now e,
                       dv_retransmits_remaining := dv_retransmits_remaining s - 1 \<rparr>
           in ([Copy (take (dv_retransmit_len s) (dv_retransmit_buf s))],
               if dv_retransmits_remaining s1 > 0
               then s1\<lparr> dv_next_retransmit_ms := de_now e + redundant_gap_ms (de_rand_pump e) \<rparr>
               else s1))"

section \<open>Senders\<close>

text \<open>The header of a frame of one's own: zeroed, then the source id and the next sequence number.\<close>

definition own_header :: "driver \<Rightarrow> u8 \<Rightarrow> header" where
  "own_header s seq = \<lparr> h_protocol_version = 0, h_source_id = ucast (dv_source_id s),
     h_sequence_number = seq, h_hop_count = 0, h_message_type = Heartbeat, h_payload_len = 0 \<rparr>"

text \<open>The common course of the four gated senders: refused when inactive or over the airtime cap, else
  the next sequence number is taken and the encoded frame sent.\<close>

definition gated_send ::
  "drv_env \<Rightarrow> tx_label \<Rightarrow> (header \<Rightarrow> nat \<times> bytes) \<Rightarrow> driver \<Rightarrow> bool \<times> air list \<times> driver" where
  "gated_send e label encode s =
     (if \<not> dv_active s then (False, [], s)
      else case airtime_cap_ready e s of (ready, s1) \<Rightarrow>
        if \<not> ready then (False, [], s1)
        else case next_seq s1 of (seq, s2) \<Rightarrow>
             case encode (own_header s2 seq) of (n, buf) \<Rightarrow>
               if n = 0 then (False, [], s2)
               else case send_frame_bytes e (take n buf) label s2 of (evs, s3) \<Rightarrow> (True, evs, s3))"

definition pulse_payload :: "u8 \<Rightarrow> u8 \<Rightarrow> rgb_pulse_event \<Rightarrow> light_pulse_payload" where
  "pulse_payload cls grp ev = \<lparr> lp_target_class = cls, lp_target_group = ucast grp,
     lp_r = rp_r ev, lp_g = rp_g ev, lp_b = rp_b ev, lp_attack = time_code (rp_attack ev),
     lp_sustain = time_code (rp_sustain ev), lp_release = time_code (rp_release ev),
     lp_chance = chance_code (rp_chance ev), lp_led_mode = rp_led_mode ev,
     lp_led_modifier1 = rp_led_modifier1 ev, lp_led_modifier2 = rp_led_modifier2 ev \<rparr>"

definition send_light :: "drv_env \<Rightarrow> u8 \<Rightarrow> u8 \<Rightarrow> rgb_pulse_event \<Rightarrow> driver \<Rightarrow> bool \<times> air list \<times> driver" where
  "send_light e cls grp ev = gated_send e LIGHT
     (\<lambda>h. encode_light_pulse (replicate (kHeaderSize + kLightPulsePayloadLen) 0) h (pulse_payload cls grp ev))"

definition wash_payload :: "u8 \<Rightarrow> u8 \<Rightarrow> light_wash_event \<Rightarrow> light_wash_payload" where
  "wash_payload cls grp ev = \<lparr> lw_target_class = cls, lw_target_group = ucast grp,
     lw_r1 = ew_r1 ev, lw_g1 = ew_g1 ev, lw_b1 = ew_b1 ev,
     lw_r2 = ew_r2 ev, lw_g2 = ew_g2 ev, lw_b2 = ew_b2 ev,
     lw_attack = ew_attack ev, lw_release = ew_release ev, lw_intensity = ew_intensity ev,
     lw_cycle_ms = ew_cycle_ms ev, lw_ttl_seconds = ew_ttl_seconds ev,
     lw_pulse_response = ew_pulse_response ev, lw_led_mode = ew_led_mode ev,
     lw_led_modifier1 = ew_led_modifier1 ev, lw_led_modifier2 = ew_led_modifier2 ev \<rparr>"

definition send_wash :: "drv_env \<Rightarrow> u8 \<Rightarrow> u8 \<Rightarrow> light_wash_event \<Rightarrow> driver \<Rightarrow> bool \<times> air list \<times> driver" where
  "send_wash e cls grp ev = gated_send e WASH
     (\<lambda>h. encode_light_wash (replicate (kHeaderSize + kLightWashPayloadLen) 0) h (wash_payload cls grp ev))"

definition send_wash_end :: "drv_env \<Rightarrow> u8 \<Rightarrow> u8 \<Rightarrow> u8 \<Rightarrow> driver \<Rightarrow> bool \<times> air list \<times> driver" where
  "send_wash_end e cls grp release_time = gated_send e WEND
     (\<lambda>h. encode_light_wash_end (replicate (kHeaderSize + kLightWashEndPayloadLen) 0) h
        \<lparr> we_target_class = cls, we_target_group = ucast grp, we_release_time = release_time,
          we_led_mode = 0, we_led_modifier1 = 0, we_led_modifier2 = 0 \<rparr>)"

definition send_wash_pulse ::
  "drv_env \<Rightarrow> u8 \<Rightarrow> u8 \<Rightarrow> rgb_pulse_event \<Rightarrow> driver \<Rightarrow> bool \<times> air list \<times> driver" where
  "send_wash_pulse e cls grp ev = gated_send e WPUL
     (\<lambda>h. encode_light_wash_pulse (replicate (kHeaderSize + kLightWashPulsePayloadLen) 0) h
        \<lparr> wp_target_class = cls, wp_target_group = ucast grp, wp_r = rp_r ev, wp_g = rp_g ev,
          wp_b = rp_b ev, wp_attack = time_code (rp_attack ev), wp_sustain = time_code (rp_sustain ev),
          wp_release = time_code (rp_release ev), wp_chance = chance_code (rp_chance ev),
          wp_led_mode = rp_led_mode ev, wp_led_modifier1 = rp_led_modifier1 ev,
          wp_led_modifier2 = rp_led_modifier2 ev \<rparr>)"

definition send_passthrough :: "drv_env \<Rightarrow> bytes \<Rightarrow> driver \<Rightarrow> air list \<times> driver" where
  "send_passthrough e buf s =
     (if length buf < kHeaderSize then ([], s)
      else if buf ! 0 \<noteq> kMagic0 \<or> buf ! 1 \<noteq> kMagic1 then ([], s)
      else if buf ! 2 \<noteq> kProtocolVersion then ([], s)
      else if \<not> dv_active s then ([], s)
      else case airtime_cap_ready e s of (ready, s1) \<Rightarrow>
        if \<not> ready then ([], s1)
        else if length buf > kMaxFrameSize then ([], s1)
        else if read_u16_le (drop 3 buf) = kBroadcastSourceId
        then (case next_seq s1 of (seq, s2) \<Rightarrow>
                send_frame_bytes e (poke_at buf 3 (write_u16_le (ucast (dv_source_id s2)) @ [seq])) PASS s2)
        else send_frame_bytes e buf PASS s1)"

definition send_heartbeat :: "drv_env \<Rightarrow> driver \<Rightarrow> air list \<times> driver" where
  "send_heartbeat e s =
     (if \<not> dv_active s then ([], s)
      else case next_seq s of (seq, s1) \<Rightarrow>
           case encode_heartbeat (replicate (kHeaderSize + kHeartbeatPayloadLen) 0) (own_header s1 seq)
                  \<lparr> hb_tick = de_now e, hb_days_since_2026 = 0, hb_centiseconds_today = 0 \<rparr> of
             (n, buf) \<Rightarrow> send_frame_bytes e (take n buf) HBEAT s1)"

definition maybe_send_heartbeat :: "drv_env \<Rightarrow> driver \<Rightarrow> bool \<times> air list \<times> driver" where
  "maybe_send_heartbeat e s =
     (if \<not> dv_active s then (False, [], s)
      else if de_now e - dv_last_hb_ms s < kHeartbeatPeriodMs then (False, [], s)
      else case send_heartbeat e s of (evs, s1) \<Rightarrow> (True, evs, s1\<lparr> dv_last_hb_ms := de_now e \<rparr>))"

section \<open>Lifecycle\<close>

definition start_broadcast :: "build_cfg \<Rightarrow> drv_env \<Rightarrow> u8 \<Rightarrow> driver \<Rightarrow> bool \<times> driver" where
  "start_broadcast cfg e channel s =
     (if dv_active s \<or> dv_startup_state s \<noteq> Idle then (dv_active s, s)
      else if \<not> de_radio e then (False, s)
      else
        let s1 = s\<lparr> dv_seq_num := 1, dv_last_tx_ms := 0,
                    dv_last_airtime_send_ms := - kMinSendIntervalMs, dv_airtime_drop_count := 0 \<rparr>;
            (n, nv) = load_retx_count cfg (dv_nvs s1);
            n = (if n < kRedundantSendsMin then kRedundantSendsMin else n);
            n = (if n > kRedundantSendsMax then kRedundantSendsMax else n);
            s2 = s1\<lparr> dv_nvs := nv, dv_retransmit_count := n \<rparr>
        in if channel = 11 then
             (let (cand, nv) = load_director_perf_source_id (de_random e) (dv_nvs s2);
                  s3 = s2\<lparr> dv_nvs := nv, dv_listen_candidate := cand, dv_listen_collision_heard := False,
                           dv_listen_attempts_remaining := kListenMaxAttempts, dv_recv_cb := True \<rparr>
              in if \<not> de_begin_ok e then (False, s3\<lparr> dv_recv_cb := False \<rparr>)
                 else (True, s3\<lparr> dv_listen_started_ms := de_now e, dv_startup_state := Listening \<rparr>))
           else
             (let s3 = s2\<lparr> dv_source_id := derive_source_id e (dv_nvs s2) channel,
                           dv_active := de_begin_ok e,
                           dv_startup_state := (if de_begin_ok e then Active else Idle) \<rparr>
              in (de_begin_ok e, if de_begin_ok e then s3\<lparr> dv_recv_cb := True \<rparr> else s3)))"

definition stop_broadcast :: "drv_env \<Rightarrow> driver \<Rightarrow> driver" where
  "stop_broadcast e s =
     (if dv_startup_state s = Idle \<and> \<not> dv_active s then s
      else (if de_radio e then s\<lparr> dv_recv_cb := False \<rparr> else s)
             \<lparr> dv_active := False, dv_startup_state := Idle, dv_listen_collision_heard := False,
                dv_listen_attempts_remaining := 0 \<rparr>)"

definition listen_tick :: "drv_env \<Rightarrow> driver \<Rightarrow> driver" where
  "listen_tick e s =
     (if de_now e - dv_listen_started_ms s < kListenWindowMs then s
      else
        let settle = (\<lambda>s. s\<lparr> dv_source_id := dv_listen_candidate s, dv_active := True,
                              dv_startup_state := Active \<rparr>)
        in if dv_listen_collision_heard s then
             (let s1 = s\<lparr> dv_listen_attempts_remaining := dv_listen_attempts_remaining s - 1 \<rparr>
              in if dv_listen_attempts_remaining s1 = 0 then settle s1
                 else let c = pick_performance_id_random (de_random e)
                      in s1\<lparr> dv_listen_candidate := c, dv_listen_collision_heard := False,
                             dv_listen_started_ms := de_now e,
                             dv_nvs := save_director_perf_source_id c (dv_nvs s1) \<rparr>)
           else settle s)"

definition hb_out :: header where
  "hb_out = \<lparr> h_protocol_version = 0, h_source_id = 0, h_sequence_number = 0, h_hop_count = 0,
     h_message_type = Heartbeat, h_payload_len = 0 \<rparr>"

definition on_listen_recv :: "bytes \<Rightarrow> driver \<Rightarrow> driver" where
  "on_listen_recv m s =
     (case decode_header m hb_out of (r, hdr) \<Rightarrow>
        if r \<noteq> Ok then s
        else if h_message_type hdr \<noteq> Heartbeat then s
        else if h_source_id hdr = ucast (dv_listen_candidate s)
        then s\<lparr> dv_listen_collision_heard := True \<rparr> else s)"

definition feed_census :: "drv_env \<Rightarrow> bytes \<Rightarrow> driver \<Rightarrow> driver" where
  "feed_census e m s =
     (case decode_header m hb_out of (r, hdr) \<Rightarrow>
        if r \<noteq> Ok then s
        else if h_message_type hdr \<noteq> RepeaterHeartbeat then s
        else if h_hop_count hdr \<noteq> 0 then s
        else case decode_repeater_heartbeat hdr (take (unat (h_payload_len hdr)) (drop kHeaderSize m))
                    \<lparr> rh_uid = replicate 3 0, rh_channel = 0, rh_uptime_s = 0, rh_relayed_count = 0 \<rparr> of
               (r, p) \<Rightarrow>
                 if r \<noteq> Ok then s
                 else s\<lparr> dv_census := census_note (rh_uid p ! 0, rh_uid p ! 1, rh_uid p ! 2)
                          (rh_channel p) (rh_relayed_count p) (rh_uptime_s p) (de_now e) (dv_census s) \<rparr>)"

text \<open>The radio's receive callback, when one is installed.\<close>

definition drv_on_recv :: "drv_env \<Rightarrow> bytes \<Rightarrow> driver \<Rightarrow> driver" where
  "drv_on_recv e m s =
     (if \<not> dv_recv_cb s then s
      else feed_census e m (if dv_startup_state s = Listening then on_listen_recv m s else s))"

definition drv_loop_tick :: "drv_env \<Rightarrow> driver \<Rightarrow> air list \<times> driver" where
  "drv_loop_tick e s =
     (if dv_startup_state s = Listening then ([], listen_tick e s)
      else if \<not> dv_active s then ([], s)
      else case pump_retransmits e s of (e1, s1) \<Rightarrow>
           case maybe_send_heartbeat e s1 of (_, e2, s2) \<Rightarrow> (e1 @ e2, s2))"

text \<open>The operator's status label: at most five characters and a NUL, or nothing at all.\<close>

definition format_status_label ::
  "startup_state \<Rightarrow> u8 \<Rightarrow> u8 \<Rightarrow> bytes \<Rightarrow> nat \<times> bytes" where
  "format_status_label state source_id_value listen_candidate_value buf =
     (if buf = [] then (0, buf)
      else let buf = buf[0 := 0] in
        if state = Idle then (0, buf)
        else let i = (if state = Listening then listen_candidate_value else source_id_value);
                 prefix = (if is_community_range (ucast i) then 0x43
                           else if is_performance_range (ucast i) then 0x50 else 0x3F);
                 suffix = (if state = Listening then [0x3F] else []);
                 (n, buf) = snprintf buf ([prefix, 0x3A] @ hex_02X (ucast i) @ suffix)
             in if n \<ge> length buf then (0, buf[0 := 0]) else (n, buf))"

section \<open>Calls\<close>

text \<open>Everything that the program does with a running driver, as one step.\<close>

datatype drv_call =
    CallLight u8 u8 rgb_pulse_event
  | CallWash u8 u8 light_wash_event
  | CallWashEnd u8 u8 u8
  | CallWashPulse u8 u8 rgb_pulse_event
  | CallPass bytes
  | CallLoop
  | CallRecv bytes

fun drv_apply :: "drv_call \<Rightarrow> drv_env \<Rightarrow> driver \<Rightarrow> air list \<times> driver" where
  "drv_apply (CallLight cls grp ev) e s = snd (send_light e cls grp ev s)"
| "drv_apply (CallWash cls grp ev) e s = snd (send_wash e cls grp ev s)"
| "drv_apply (CallWashEnd cls grp t) e s = snd (send_wash_end e cls grp t s)"
| "drv_apply (CallWashPulse cls grp ev) e s = snd (send_wash_pulse e cls grp ev s)"
| "drv_apply (CallPass buf) e s = send_passthrough e buf s"
| "drv_apply CallLoop e s = drv_loop_tick e s"
| "drv_apply (CallRecv m) e s = ([], drv_on_recv e m s)"

definition drv_step :: "drv_call \<times> drv_env \<Rightarrow> u32 \<Rightarrow> driver \<Rightarrow> air list \<times> driver" where
  "drv_step = (\<lambda>(c, e) now s. drv_apply c (e\<lparr> de_now := now \<rparr>) s)"

abbreviation drv_run ::
  "((drv_call \<times> drv_env) \<times> u32) list \<Rightarrow> driver \<Rightarrow> (u32 \<times> air) list \<times> driver" where
  "drv_run \<equiv> timed_run drv_step"

section \<open>What a broadcaster promises\<close>

text \<open>
  The abstract broadcaster: its identity, the next sequence number, the times of the last gated send and
  of the last heartbeat, the copies of the newest frame that are still owed and when the next is due.
  \<open>promised\<close> says, for each call, exactly which frames may go on the air and what becomes of this state.
\<close>

record bcast =
  bc_source :: u16
  bc_seq :: u8
  bc_last :: u32
  bc_beat :: u32
  bc_count :: nat
  bc_pending :: "bytes list"
  bc_due :: u32

definition frame_src :: "bytes \<Rightarrow> u16" where
  "frame_src b = read_u16_le (drop 3 b)"

definition frame_seq :: "bytes \<Rightarrow> u8" where
  "frame_seq b = b ! 5"

text \<open>A frame of one's own: nine bytes of header, no hop behind it, and the payload.\<close>

definition own_frame :: "bcast \<Rightarrow> u8 \<Rightarrow> bytes \<Rightarrow> bytes" where
  "own_frame a code payload = [kMagic0, kMagic1, kProtocolVersion] @ write_u16_le (bc_source a) @ [bc_seq a, 0, code, of_nat (length payload)] @ payload"

text \<open>The payload bytes that a send asks for, with the frame's label and type code.\<close>

fun request :: "drv_call \<Rightarrow> (tx_label \<times> u8 \<times> bytes) option" where
  "request (CallLight cls grp ev) = Some (LIGHT, 0x03,
     [cls, grp, 0, rp_r ev, rp_g ev, rp_b ev, time_code (rp_attack ev), time_code (rp_sustain ev), time_code (rp_release ev),
      chance_code (rp_chance ev), rp_led_mode ev, rp_led_modifier1 ev, rp_led_modifier2 ev])"
| "request (CallWash cls grp ev) = Some (WASH, 0x06,
     [cls, grp, 0, ew_r1 ev, ew_g1 ev, ew_b1 ev, ew_r2 ev, ew_g2 ev, ew_b2 ev, ew_attack ev, ew_release ev, ew_intensity ev]
     @ write_u16_le (ew_cycle_ms ev) @ write_u16_le (ew_ttl_seconds ev)
     @ [ew_pulse_response ev, ew_led_mode ev, ew_led_modifier1 ev, ew_led_modifier2 ev])"
| "request (CallWashEnd cls grp release_time) = Some (WEND, 0x07, [cls, grp, 0, release_time, 0, 0, 0])"
| "request (CallWashPulse cls grp ev) = Some (WPUL, 0x08,
     [cls, grp, 0, rp_r ev, rp_g ev, rp_b ev, time_code (rp_attack ev), time_code (rp_sustain ev), time_code (rp_release ev),
      chance_code (rp_chance ev), rp_led_mode ev, rp_led_modifier1 ev, rp_led_modifier2 ev])"
| "request c = None"

text \<open>A new frame replaces the copies owed; the next copy of a frame is due 5 to 15 ms later.\<close>

definition soon :: "u32 \<Rightarrow> u32 \<Rightarrow> bool" where
  "soon now due \<longleftrightarrow> 5 \<le> due - now \<and> due - now \<le> 15"

definition emitted :: "u32 \<Rightarrow> bytes \<Rightarrow> bcast \<Rightarrow> bcast \<Rightarrow> bool" where
  "emitted now b a a' \<longleftrightarrow> (\<exists>due. a' = a\<lparr> bc_pending := replicate (bc_count a - 1) b, bc_due := due \<rparr>
     \<and> (1 < bc_count a \<longrightarrow> soon now due))"

text \<open>A send: refused within 50 ms of the last, else the requested frame under the next number.\<close>

definition send_promised :: "tx_label \<Rightarrow> u8 \<Rightarrow> bytes \<Rightarrow> u32 \<Rightarrow> bcast \<Rightarrow> air list \<Rightarrow> bcast \<Rightarrow> bool" where
  "send_promised l code payload now a evs a' \<longleftrightarrow>
     (if now - bc_last a < kMinSendIntervalMs then evs = [] \<and> a' = a
      else evs = [OnAir l (own_frame a code payload)]
        \<and> emitted now (own_frame a code payload) (a\<lparr> bc_seq := seq_after (bc_seq a), bc_last := now \<rparr>) a')"

text \<open>A passthrough frame: dropped if it has no good header or the cap is closed; one that is too long takes
  the airtime only; one without a sender of its own gets this sender's identity and number; any other goes
  out as it is.\<close>

definition pass_promised :: "bytes \<Rightarrow> u32 \<Rightarrow> bcast \<Rightarrow> air list \<Rightarrow> bcast \<Rightarrow> bool" where
  "pass_promised b now a evs a' \<longleftrightarrow>
     (if length b < kHeaderSize \<or> take 3 b \<noteq> [kMagic0, kMagic1, kProtocolVersion] \<or> now - bc_last a < kMinSendIntervalMs then evs = [] \<and> a' = a
      else if length b > kMaxFrameSize then evs = [] \<and> a' = a\<lparr> bc_last := now \<rparr>
      else if frame_src b = kBroadcastSourceId
      then (let r = take 3 b @ write_u16_le (bc_source a) @ [bc_seq a] @ drop 6 b
            in evs = [OnAir PASS r] \<and> emitted now r (a\<lparr> bc_seq := seq_after (bc_seq a), bc_last := now \<rparr>) a')
      else evs = [OnAir PASS b] \<and> emitted now b (a\<lparr> bc_last := now \<rparr>) a')"

text \<open>A loop: one copy, if one is owed and due; then a heartbeat with the time, if a second has gone by.\<close>

definition copy_promised :: "u32 \<Rightarrow> bcast \<Rightarrow> air list \<Rightarrow> bcast \<Rightarrow> bool" where
  "copy_promised now a evs a' \<longleftrightarrow>
     (if bc_pending a \<noteq> [] \<and> bc_due a \<le> now
      then evs = [Copy (hd (bc_pending a))]
        \<and> (\<exists>due. a' = a\<lparr> bc_pending := tl (bc_pending a), bc_due := due \<rparr> \<and> (tl (bc_pending a) \<noteq> [] \<longrightarrow> soon now due))
      else evs = [] \<and> a' = a)"

definition beat_promised :: "u32 \<Rightarrow> bcast \<Rightarrow> air list \<Rightarrow> bcast \<Rightarrow> bool" where
  "beat_promised now a evs a' \<longleftrightarrow>
     (if now - bc_beat a < kHeartbeatPeriodMs then evs = [] \<and> a' = a
      else let b = own_frame a 0x00 (write_u32_le now @ [0, 0, 0, 0, 0])
           in evs = [OnAir HBEAT b] \<and> emitted now b (a\<lparr> bc_seq := seq_after (bc_seq a), bc_beat := now \<rparr>) a')"

definition promised :: "drv_call \<Rightarrow> u32 \<Rightarrow> bcast \<Rightarrow> air list \<Rightarrow> bcast \<Rightarrow> bool" where
  "promised c now a evs a' \<longleftrightarrow>
     (case request c of
        Some (l, code, payload) \<Rightarrow> send_promised l code payload now a evs a'
      | None \<Rightarrow> (case c of
            CallPass b \<Rightarrow> pass_promised b now a evs a'
          | CallLoop \<Rightarrow> (\<exists>e1 a1 e2. copy_promised now a e1 a1 \<and> beat_promised now a1 e2 a' \<and> evs = e1 @ e2)
          | _ \<Rightarrow> evs = [] \<and> a' = a))"


definition drv_abs :: "driver \<Rightarrow> bcast" where
  "drv_abs s = \<lparr> bc_source = ucast (dv_source_id s), bc_seq = dv_seq_num s,
     bc_last = dv_last_airtime_send_ms s, bc_beat = dv_last_hb_ms s, bc_count = unat (dv_retransmit_count s),
     bc_pending = replicate (unat (dv_retransmits_remaining s))
                    (take (dv_retransmit_len s) (dv_retransmit_buf s)),
     bc_due = dv_next_retransmit_ms s \<rparr>"

definition drv_live :: "driver \<Rightarrow> bool" where
  "drv_live s \<longleftrightarrow> dv_active s \<and> dv_startup_state s = Active
     \<and> length (dv_retransmit_buf s) = kRetransmitBufSize \<and> dv_retransmit_count s \<noteq> 0"

text \<open>The primitives.\<close>

lemma unat_minus_one: "(x :: u8) \<noteq> 0 \<Longrightarrow> unat (x - 1) = unat x - 1"
  by (metis unat_minus_one)

lemma gap_soon: "soon now (now + redundant_gap_ms rand)"
proof -
  have "unat (rand mod 11) \<le> 10" using unat_mod [of rand 11] by (simp add: less_Suc_eq_le [symmetric])
  then have "unat (5 + rand mod 11) = 5 + unat (rand mod 11)" "unat (rand mod 11) \<le> 10" by (simp_all add: unat_word_ariths)
  then show ?thesis by (simp add: soon_def redundant_gap_ms_def word_le_nat_alt)
qed

lemma send_frame_bytes_live:
  assumes "drv_live s" and "de_radio e" and "b \<noteq> []" and "length b \<le> kMaxFrameSize"
  shows "\<exists>s'. send_frame_bytes e b l s = ([OnAir l b], s') \<and> drv_live s' \<and> emitted (de_now e) b (drv_abs s) (drv_abs s')"
proof (cases "1 < dv_retransmit_count s")
  case True
  then show ?thesis using assms gap_soon
    by (auto simp: send_frame_bytes_def drv_live_def drv_abs_def emitted_def Let_def unat_minus_one intro!: exI)
next
  case False
  then have "unat (dv_retransmit_count s) = 1"
    using assms(1) by (simp add: drv_live_def word_less_nat_alt word_unat_eq_iff)
  then show ?thesis using assms False
    by (auto simp: send_frame_bytes_def drv_live_def drv_abs_def emitted_def Let_def)
qed

lemma pump_live:
  assumes "drv_live s" and "de_radio e" and "pump_retransmits e s = (evs, s')"
  shows "drv_live s' \<and> copy_promised (de_now e) (drv_abs s) evs (drv_abs s')"
proof (cases "dv_retransmits_remaining s = 0 \<or> de_now e < dv_next_retransmit_ms s")
  case True
  then have "evs = [] \<and> s' = s"
    using assms by (auto simp: pump_retransmits_def drv_live_def split: if_splits)
  then show ?thesis using assms(1) True by (auto simp: copy_promised_def drv_abs_def)
next
  case False
  let ?b = "take (dv_retransmit_len s) (dv_retransmit_buf s)"
  have n: "dv_retransmits_remaining s \<noteq> 0" "dv_active s" using False assms(1) by (auto simp: drv_live_def)
  then have p: "bc_pending (drv_abs s) = ?b # replicate (unat (dv_retransmits_remaining s - 1)) ?b"
    by (simp add: drv_abs_def unat_minus_one replicate_Suc [symmetric] unat_gt_0 del: replicate_Suc)
  have left: "replicate (unat (dv_retransmits_remaining s - 1)) ?b \<noteq> [] \<longleftrightarrow> dv_retransmits_remaining s - 1 > 0"
    by (simp add: word_less_nat_alt)
  show ?thesis
    unfolding copy_promised_def p
    using assms False n gap_soon [of "de_now e" "de_rand_pump e"] left
    by (auto simp: pump_retransmits_def Let_def drv_abs_def drv_live_def split: if_splits)
qed

text \<open>Every encoder of an own frame fills its exactly sized buffer with the header and the payload.\<close>

definition stamps :: "u8 \<Rightarrow> bytes \<Rightarrow> (header \<Rightarrow> nat \<times> bytes) \<Rightarrow> bool" where
  "stamps code w encode \<longleftrightarrow> kHeaderSize + length w \<le> kMaxFrameSize \<and> (\<forall>h. encode h = (kHeaderSize + length w,
     [kMagic0, kMagic1, kProtocolVersion] @ write_u16_le (h_source_id h) @ [h_sequence_number h, h_hop_count h, code, of_nat (length w)] @ w))"

lemma own_frame_stamped [simp]:
  "frame_src (own_frame a code w) = bc_source a" "frame_seq (own_frame a code w) = bc_seq a"
proof -
  have "read_u16_le (write_u16_le (bc_source a) @ xs) = bc_source a" for xs by simp
  then show "frame_src (own_frame a code w) = bc_source a" by (simp add: frame_src_def own_frame_def write_u16_le_def)
  show "frame_seq (own_frame a code w) = bc_seq a" by (simp add: frame_seq_def own_frame_def write_u16_le_def)
qed

lemma stampsI:
  assumes "\<And>h. encode h = (n, poke (replicate n 0) (write_header h t (of_nat (n - kHeaderSize)) @ w))"
    and "n = kHeaderSize + length w" and "n \<le> kMaxFrameSize"
  shows "stamps (mt_code t) w encode"
  using assms by (auto simp: stamps_def poke_def write_header_def)

lemma own_frames_stamped:
  "stamps 0x03 (light_pulse_wire p1) (\<lambda>h. encode_light_pulse (replicate (kHeaderSize + kLightPulsePayloadLen) 0) h p1)"
  "stamps 0x06 (light_wash_wire p2) (\<lambda>h. encode_light_wash (replicate (kHeaderSize + kLightWashPayloadLen) 0) h p2)"
  "stamps 0x07 (light_wash_end_wire p3) (\<lambda>h. encode_light_wash_end (replicate (kHeaderSize + kLightWashEndPayloadLen) 0) h p3)"
  "stamps 0x08 (light_wash_pulse_wire p4) (\<lambda>h. encode_light_wash_pulse (replicate (kHeaderSize + kLightWashPulsePayloadLen) 0) h p4)"
  "stamps 0x00 (heartbeat_wire p5) (\<lambda>h. encode_heartbeat (replicate (kHeaderSize + kHeartbeatPayloadLen) 0) h p5)"
proof -
  show "stamps 0x03 (light_pulse_wire p1) (\<lambda>h. encode_light_pulse (replicate (kHeaderSize + kLightPulsePayloadLen) 0) h p1)"
    by (rule stampsI [where t = LightPulse and n = "kHeaderSize + kLightPulsePayloadLen", unfolded mt_code.simps])
      (simp_all add: encode_light_pulse_def light_pulse_wire_def)
  show "stamps 0x06 (light_wash_wire p2) (\<lambda>h. encode_light_wash (replicate (kHeaderSize + kLightWashPayloadLen) 0) h p2)"
    by (rule stampsI [where t = LightWash and n = "kHeaderSize + kLightWashPayloadLen", unfolded mt_code.simps])
      (simp_all add: encode_light_wash_def light_wash_wire_def)
  show "stamps 0x07 (light_wash_end_wire p3) (\<lambda>h. encode_light_wash_end (replicate (kHeaderSize + kLightWashEndPayloadLen) 0) h p3)"
    by (rule stampsI [where t = LightWashEnd and n = "kHeaderSize + kLightWashEndPayloadLen", unfolded mt_code.simps])
      (simp_all add: encode_light_wash_end_def light_wash_end_wire_def)
  show "stamps 0x08 (light_wash_pulse_wire p4) (\<lambda>h. encode_light_wash_pulse (replicate (kHeaderSize + kLightWashPulsePayloadLen) 0) h p4)"
    by (rule stampsI [where t = LightWashPulse and n = "kHeaderSize + kLightWashPulsePayloadLen", unfolded mt_code.simps])
      (simp_all add: encode_light_wash_pulse_def light_wash_pulse_wire_def)
  show "stamps 0x00 (heartbeat_wire p5) (\<lambda>h. encode_heartbeat (replicate (kHeaderSize + kHeartbeatPayloadLen) 0) h p5)"
    by (rule stampsI [where t = Heartbeat and n = "kHeaderSize + kHeartbeatPayloadLen", unfolded mt_code.simps])
      (simp_all add: encode_heartbeat_def heartbeat_wire_def)
qed

text \<open>A frame of one's own that is encoded under the next number.\<close>

lemma stamps_own:
  assumes "stamps code w encode" and "bc_source a = ucast (dv_source_id s)"
  shows "encode (own_header s (bc_seq a)) = (length (own_frame a code w), own_frame a code w)
    \<and> own_frame a code w \<noteq> [] \<and> length (own_frame a code w) \<le> kMaxFrameSize"
  using assms by (simp add: stamps_def own_frame_def own_header_def write_u16_le_def)

lemma next_seq_abs:
  "next_seq s = (bc_seq (drv_abs s), s\<lparr> dv_seq_num := seq_after (bc_seq (drv_abs s)) \<rparr>)"
  by (simp add: next_seq_def drv_abs_def seq_after_def)

lemma airtime_cases:
  assumes "airtime_cap_ready e s = (ready, s1)"
  obtains "\<not> ready" "drv_abs s1 = drv_abs s" "drv_live s1 = drv_live s" "de_now e - bc_last (drv_abs s) < kMinSendIntervalMs"
  | "ready" "s1 = s\<lparr> dv_last_airtime_send_ms := de_now e \<rparr>"
    "de_now e - bc_last (drv_abs s) \<ge> kMinSendIntervalMs"
  using assms
  by (auto simp: airtime_cap_ready_def drv_abs_def drv_live_def Let_def not_less split: if_splits)

lemma gated_send_live:
  assumes "drv_live s" and "de_radio e" and "stamps code w encode" and "gated_send e l encode s = (r, evs, s')"
  shows "drv_live s' \<and> send_promised l code w (de_now e) (drv_abs s) evs (drv_abs s')"
proof -
  obtain ready s1 where air: "airtime_cap_ready e s = (ready, s1)" by fastforce
  have act: "dv_active s" using assms(1) by (simp add: drv_live_def)
  from air show ?thesis
  proof (cases rule: airtime_cases)
    case 1
    then have "evs = [] \<and> s' = s1" using assms(4) air act by (auto simp: gated_send_def)
    then show ?thesis using 1 assms(1) by (simp add: send_promised_def)
  next
    case 2
    let ?q = "bc_seq (drv_abs s)" and ?b = "own_frame (drv_abs s) code w"
    let ?s2 = "s\<lparr> dv_last_airtime_send_ms := de_now e, dv_seq_num := seq_after ?q \<rparr>"
    have seq: "next_seq s1 = (?q, ?s2)" using 2 by (simp add: next_seq_abs) (simp add: drv_abs_def)
    have enc: "encode (own_header ?s2 ?q) = (length ?b, ?b)" "?b \<noteq> []" "length ?b \<le> kMaxFrameSize"
      using stamps_own [OF assms(3), of "drv_abs s" ?s2] by (simp_all add: drv_abs_def)
    have live2: "drv_live ?s2" using assms(1) by (simp add: drv_live_def)
    from send_frame_bytes_live [OF live2 assms(2) enc(2,3), of l]
    obtain s3 where s3: "send_frame_bytes e ?b l ?s2 = ([OnAir l ?b], s3)" "drv_live s3"
      "emitted (de_now e) ?b (drv_abs ?s2) (drv_abs s3)" by auto
    have res: "evs = [OnAir l ?b] \<and> s' = s3"
      using assms(4) air act 2(1) seq enc s3(1) by (simp add: gated_send_def)
    have "drv_abs ?s2 = drv_abs s\<lparr> bc_seq := seq_after ?q, bc_last := de_now e \<rparr>" by (simp add: drv_abs_def)
    then show ?thesis using s3 res 2(3) by (simp add: send_promised_def)
  qed
qed

text \<open>A gated send on an active driver: refused and counted while the cap is closed, else one frame.\<close>

lemma gated_send_capped:
  "dv_active s \<Longrightarrow> de_now e - dv_last_airtime_send_ms s < kMinSendIntervalMs \<Longrightarrow>
    gated_send e l encode s = (False, [], s\<lparr> dv_airtime_drop_count := dv_airtime_drop_count s + 1 \<rparr>)"
  by (simp add: gated_send_def airtime_cap_ready_def)

lemma gated_send_ready:
  assumes "dv_active s" and "de_radio e" and "kMinSendIntervalMs \<le> de_now e - dv_last_airtime_send_ms s"
    and "encode (own_header s (dv_seq_num s)) = (n, buf)" and "n \<noteq> 0" and "n \<le> length buf"
  obtains s' where "gated_send e l encode s = (True, [OnAir l (take n buf)], s')"
    and "dv_active s'" and "dv_last_airtime_send_ms s' = de_now e" and "dv_source_id s' = dv_source_id s"
proof -
  let ?s2 = "snd (next_seq (s\<lparr> dv_last_airtime_send_ms := de_now e \<rparr>))"
  have hdr: "own_header ?s2 (dv_seq_num s) = own_header s (dv_seq_num s)"
    by (simp add: own_header_def next_seq_def)
  obtain evs s' where send: "send_frame_bytes e (take n buf) l ?s2 = (evs, s')" by fastforce
  have ne: "min (length buf) n = n" "n \<noteq> 0" using assms(5,6) by simp_all
  have evs: "evs = [OnAir l (take n buf)]" and act: "dv_active s'"
    and last: "dv_last_airtime_send_ms s' = de_now e" and src: "dv_source_id s' = dv_source_id s"
    using send assms(1,2) ne by (auto simp: send_frame_bytes_def next_seq_def Let_def split: if_splits)
  have "gated_send e l encode s = (True, [OnAir l (take n buf)], s')"
    using assms send evs hdr by (simp add: gated_send_def airtime_cap_ready_def Let_def not_less next_seq_def)
  then show ?thesis using act last src that by blast
qed

text \<open>The wash of an event, once the cap is open: one frame that a receiver decodes to that event.\<close>

lemma send_wash_ready:
  assumes "dv_active s" and "de_radio e" and "kMinSendIntervalMs \<le> de_now e - dv_last_airtime_send_ms s"
  obtains b h s' where "send_wash e cls grp ev s = (True, [OnAir WASH b], s')"
    and "dv_active s'" and "dv_last_airtime_send_ms s' = de_now e"
    and "decode_header b h0 = (Ok, h)" and "h_source_id h = ucast (dv_source_id s)"
    and "decode_light_wash h (drop kHeaderSize b) out = (Ok, wash_payload cls grp ev)"
    and "h_hop_count h = 0" and "h_sequence_number h = dv_seq_num s"
proof -
  let ?p = "wash_payload cls grp ev" and ?hdr = "own_header s (dv_seq_num s)"
  let ?zero = "replicate (kHeaderSize + kLightWashPayloadLen) (0 :: u8)"
  obtain n buf where enc: "encode_light_wash ?zero ?hdr ?p = (n, buf)" by fastforce
  have n: "n \<noteq> 0" "n \<le> length buf"
    using enc by (auto simp: encode_light_wash_def light_wash_wire_def poke_def)
  obtain s' where send: "gated_send e WASH (\<lambda>h. encode_light_wash ?zero h ?p) s = (True, [OnAir WASH (take n buf)], s')"
    "dv_active s'" "dv_last_airtime_send_ms s' = de_now e"
    using gated_send_ready [where encode = "\<lambda>h. encode_light_wash ?zero h ?p", OF assms enc n] by metis
  obtain h q where "decode_header (take n buf) h0 = (Ok, h)" "h_source_id h = h_source_id ?hdr"
    "decode_light_wash h (drop kHeaderSize (take n buf)) out = (Ok, q)" "q = ?p"
    "h_hop_count h = h_hop_count ?hdr" "h_sequence_number h = h_sequence_number ?hdr"
    using light_wash.roundtrip [OF TrueI TrueI enc n(1), of h0 out] by auto
  then show ?thesis
    using that [of "take n buf" s' h] send by (simp add: send_wash_def own_header_def)
qed

lemma restamped:
  assumes "kHeaderSize \<le> length buf"
  shows "frame_src (take 3 buf @ write_u16_le src @ [q] @ drop 6 buf) = src"
    "frame_seq (take 3 buf @ write_u16_le src @ [q] @ drop 6 buf) = q"
    "poke_at buf 3 (write_u16_le src @ [q]) = take 3 buf @ write_u16_le src @ [q] @ drop 6 buf"
    "length (take 3 buf @ write_u16_le src @ [q] @ drop 6 buf) = length buf"
proof -
  let ?r = "take 3 buf @ write_u16_le src @ [q] @ drop 6 buf"
  have t: "length (take 3 buf) = 3" using assms by simp
  then show "frame_src ?r = src" by (simp add: frame_src_def)
  show "frame_seq ?r = q" using t by (simp add: frame_seq_def nth_append write_u16_le_def)
  show "poke_at buf 3 (write_u16_le src @ [q]) = ?r" by (simp add: poke_at_def)
  show "length ?r = length buf" using assms by (simp add: write_u16_le_def)
qed

lemma take_3_iff: "kHeaderSize \<le> length buf \<Longrightarrow> take 3 buf = [a, b, c] \<longleftrightarrow> buf ! 0 = a \<and> buf ! 1 = b \<and> buf ! 2 = c"
  by (cases buf; cases "tl buf"; cases "tl (tl buf)") auto

lemma passthrough_live:
  assumes "drv_live s" and "de_radio e" and "send_passthrough e buf s = (evs, s')"
  shows "drv_live s' \<and> pass_promised buf (de_now e) (drv_abs s) evs (drv_abs s')"
proof (cases "length buf < kHeaderSize \<or> take 3 buf \<noteq> [kMagic0, kMagic1, kProtocolVersion]")
  case True
  then have "send_passthrough e buf s = ([], s)" using take_3_iff [of buf kMagic0 kMagic1 kProtocolVersion]
    by (auto simp: send_passthrough_def)
  then show ?thesis using assms(1,3) True by (auto simp: pass_promised_def)
next
  case good: False
  then have len: "kHeaderSize \<le> length buf" by simp
  obtain ready s1 where air: "airtime_cap_ready e s = (ready, s1)" by fastforce
  have act: "dv_active s" using assms(1) by (simp add: drv_live_def)
  have run: "send_passthrough e buf s = (if \<not> ready then ([], s1) else if length buf > kMaxFrameSize then ([], s1)
      else if frame_src buf = kBroadcastSourceId
      then (case next_seq s1 of (seq, s2) \<Rightarrow>
              send_frame_bytes e (poke_at buf 3 (write_u16_le (ucast (dv_source_id s2)) @ [seq])) PASS s2)
      else send_frame_bytes e buf PASS s1)"
    using good act air take_3_iff [OF len, of kMagic0 kMagic1 kProtocolVersion]
    by (simp add: send_passthrough_def frame_src_def)
  from air show ?thesis
  proof (cases rule: airtime_cases)
    case 1
    then show ?thesis using assms(1,3) run by (simp add: pass_promised_def)
  next
    case 2
    have abs1: "drv_abs s1 = drv_abs s\<lparr> bc_last := de_now e \<rparr>" and live1: "drv_live s1"
      using 2(2) assms(1) by (simp_all add: drv_abs_def drv_live_def)
    have open_cap: "\<not> de_now e - bc_last (drv_abs s) < kMinSendIntervalMs" using 2(3) by simp
    consider "length buf > kMaxFrameSize" | "length buf \<le> kMaxFrameSize" "frame_src buf \<noteq> kBroadcastSourceId"
      | "length buf \<le> kMaxFrameSize" "frame_src buf = kBroadcastSourceId" by fastforce
    then show ?thesis
    proof cases
      case 1
      then show ?thesis using assms(3) run 2(1) good open_cap abs1 live1 by (simp add: pass_promised_def)
    next
      case fits: 2
      have "buf \<noteq> []" using good by auto
      from send_frame_bytes_live [OF live1 assms(2) this fits(1), of PASS]
      obtain s3 where "send_frame_bytes e buf PASS s1 = ([OnAir PASS buf], s3)" "drv_live s3"
        "emitted (de_now e) buf (drv_abs s1) (drv_abs s3)" by auto
      then show ?thesis using assms(3) run 2(1) good open_cap abs1 fits by (simp add: pass_promised_def)
    next
      case fits: 3
      let ?q = "bc_seq (drv_abs s)" and ?src = "bc_source (drv_abs s)"
      let ?s2 = "s1\<lparr> dv_seq_num := seq_after ?q \<rparr>"
      let ?b = "take 3 buf @ write_u16_le ?src @ [?q] @ drop 6 buf"
      have seq: "next_seq s1 = (?q, ?s2)" using abs1 by (simp add: next_seq_abs)
      have src: "ucast (dv_source_id s1) = ?src" using 2(2) by (simp add: drv_abs_def)
      have ne: "?b \<noteq> []" by (simp add: write_u16_le_def)
      have live2: "drv_live ?s2" using live1 by (simp add: drv_live_def)
      have fit: "length ?b \<le> kMaxFrameSize" unfolding restamped(4) [OF len] by (rule fits(1))
      obtain s3 where s3: "send_frame_bytes e ?b PASS ?s2 = ([OnAir PASS ?b], s3)" "drv_live s3"
        "emitted (de_now e) ?b (drv_abs ?s2) (drv_abs s3)"
        using send_frame_bytes_live [OF live2 assms(2) ne fit, of PASS] by blast
      have "drv_abs ?s2 = drv_abs s\<lparr> bc_seq := seq_after ?q, bc_last := de_now e \<rparr>"
        using 2(2) by (simp add: drv_abs_def)
      moreover have "evs = [OnAir PASS ?b] \<and> s' = s3"
        using assms(3) run 2(1) fits seq s3(1) restamped(3) [OF len, of ?src ?q] by (simp add: src)
      ultimately show ?thesis using s3 good open_cap fits by (simp add: pass_promised_def Let_def)
    qed
  qed
qed

lemma emitted_beat: "emitted now b a a' \<Longrightarrow> emitted now b (a\<lparr> bc_beat := t \<rparr>) (a'\<lparr> bc_beat := t \<rparr>)"
  unfolding emitted_def by (elim exE, rename_tac due, rule_tac x = due in exI) simp

lemma heartbeat_live:
  assumes "drv_live s" and "de_radio e" and "maybe_send_heartbeat e s = (r, evs, s')"
  shows "drv_live s' \<and> beat_promised (de_now e) (drv_abs s) evs (drv_abs s')"
proof (cases "de_now e - dv_last_hb_ms s < kHeartbeatPeriodMs")
  case True
  then have "evs = [] \<and> s' = s" using assms by (auto simp: maybe_send_heartbeat_def split: if_splits)
  then show ?thesis using assms(1) True by (simp add: beat_promised_def drv_abs_def)
next
  case False
  let ?q = "bc_seq (drv_abs s)" and ?w = "write_u32_le (de_now e) @ [0, 0, 0, 0, 0]"
  let ?s2 = "s\<lparr> dv_seq_num := seq_after ?q \<rparr>" and ?b = "own_frame (drv_abs s) 0x00 ?w"
  let ?p = "\<lparr> hb_tick = de_now e, hb_days_since_2026 = 0, hb_centiseconds_today = 0 \<rparr>"
  have w: "heartbeat_wire ?p = ?w" by (simp add: heartbeat_wire_def write_u16_le_def write_u24_le_def)
  have enc: "encode_heartbeat (replicate (kHeaderSize + kHeartbeatPayloadLen) 0) (own_header ?s2 ?q) ?p = (length ?b, ?b)"
    "?b \<noteq> []" "length ?b \<le> kMaxFrameSize"
    using stamps_own [OF own_frames_stamped(5) [of ?p], of "drv_abs s" ?s2] unfolding w by (simp_all add: drv_abs_def)
  have "drv_live ?s2" using assms(1) by (simp add: drv_live_def)
  from send_frame_bytes_live [OF this assms(2) enc(2,3), of HBEAT]
  obtain s3 where s3: "send_frame_bytes e ?b HBEAT ?s2 = ([OnAir HBEAT ?b], s3)" "drv_live s3"
    "emitted (de_now e) ?b (drv_abs ?s2) (drv_abs s3)" by auto
  have act: "dv_active s" using assms(1) by (simp add: drv_live_def)
  have res: "evs = [OnAir HBEAT ?b] \<and> s' = s3\<lparr> dv_last_hb_ms := de_now e \<rparr>"
    using assms(3) act False enc(1) s3(1)
    by (simp add: maybe_send_heartbeat_def send_heartbeat_def next_seq_abs)
  have a: "drv_abs ?s2 = drv_abs s\<lparr> bc_seq := seq_after ?q \<rparr>"
    "drv_abs (s3\<lparr> dv_last_hb_ms := de_now e \<rparr>) = drv_abs s3\<lparr> bc_beat := de_now e \<rparr>"
    "drv_live (s3\<lparr> dv_last_hb_ms := de_now e \<rparr>)" using s3(2) by (simp_all add: drv_abs_def drv_live_def)
  have "emitted (de_now e) ?b (drv_abs s\<lparr> bc_seq := seq_after ?q, bc_beat := de_now e \<rparr>) (drv_abs s3\<lparr> bc_beat := de_now e \<rparr>)"
    using emitted_beat [OF s3(3), of "de_now e"] unfolding a(1) by simp
  then show ?thesis using res a(2,3) False by (simp add: beat_promised_def Let_def drv_abs_def)
qed

lemma recv_live: "drv_live (drv_on_recv e m s) = drv_live s \<and> (drv_live s \<longrightarrow> drv_abs (drv_on_recv e m s) = drv_abs s)"
  by (auto simp: drv_on_recv_def feed_census_def on_listen_recv_def drv_live_def drv_abs_def
      split: prod.splits)

section \<open>Refinement\<close>

text \<open>Groups are bytes; on the wire they have a second, zero byte.\<close>

lemma group_bytes [simp]: "write_u16_le (ucast (grp :: u8)) = [grp, 0]"
proof -
  have m: "(0xFF :: u16) = Bit_Operations.mask 8" by (simp add: mask_eq_exp_minus_1)
  have "ucast (ucast grp AND (0xFF :: u16)) = grp" unfolding m by (rule bit_word_eqI) (simp add: bit_simps)
  moreover have "ucast (drop_bit 8 (ucast grp :: u16) AND (0xFF :: u16)) = (0 :: u8)"
    unfolding m by (rule bit_word_eqI) (auto simp: bit_simps dest: bit_imp_le_length)
  ultimately show ?thesis by (simp add: write_u16_le_def)
qed

text \<open>Every call on an active driver does what the abstract broadcaster promises for it.\<close>

lemma drv_apply_refines:
  assumes "drv_live s" and "de_radio e" and "drv_apply c e s = (evs, s')"
  shows "drv_live s' \<and> promised c (de_now e) (drv_abs s) evs (drv_abs s')"
proof (cases c)
  case (CallLight cls grp ev)
  have "light_pulse_wire (pulse_payload cls grp ev) = snd (snd (the (request c)))"
    by (simp add: CallLight light_pulse_wire_def pulse_payload_def group_bytes)
  then show ?thesis
    using assms gated_send_live [OF assms(1,2) own_frames_stamped(1), of LIGHT "pulse_payload cls grp ev"]
    by (cases "send_light e cls grp ev s") (auto simp: CallLight send_light_def promised_def)
next
  case (CallWash cls grp ev)
  have "light_wash_wire (wash_payload cls grp ev) = snd (snd (the (request c)))"
    by (simp add: CallWash light_wash_wire_def wash_payload_def group_bytes)
  then show ?thesis
    using assms gated_send_live [OF assms(1,2) own_frames_stamped(2), of WASH "wash_payload cls grp ev"]
    by (cases "send_wash e cls grp ev s") (auto simp: CallWash send_wash_def promised_def)
next
  case (CallWashEnd cls grp t)
  then show ?thesis
    using assms gated_send_live [OF assms(1,2) own_frames_stamped(3), of WEND
        "\<lparr> we_target_class = cls, we_target_group = ucast grp, we_release_time = t, we_led_mode = 0,
          we_led_modifier1 = 0, we_led_modifier2 = 0 \<rparr>"]
    by (cases "send_wash_end e cls grp t s") (auto simp: send_wash_end_def promised_def light_wash_end_wire_def group_bytes)
next
  case (CallWashPulse cls grp ev)
  then show ?thesis
    using assms gated_send_live [OF assms(1,2) own_frames_stamped(4), of WPUL
        "\<lparr> wp_target_class = cls, wp_target_group = ucast grp, wp_r = rp_r ev, wp_g = rp_g ev,
          wp_b = rp_b ev, wp_attack = time_code (rp_attack ev), wp_sustain = time_code (rp_sustain ev),
          wp_release = time_code (rp_release ev), wp_chance = chance_code (rp_chance ev), wp_led_mode = rp_led_mode ev,
          wp_led_modifier1 = rp_led_modifier1 ev, wp_led_modifier2 = rp_led_modifier2 ev \<rparr>"]
    by (cases "send_wash_pulse e cls grp ev s") (auto simp: send_wash_pulse_def promised_def light_wash_pulse_wire_def group_bytes)
next
  case (CallPass buf)
  then show ?thesis using assms passthrough_live by (simp add: promised_def)
next
  case CallLoop
  obtain e1 s1 where p: "pump_retransmits e s = (e1, s1)" by fastforce
  obtain r e2 s2 where h: "maybe_send_heartbeat e s1 = (r, e2, s2)" by (metis prod_cases3)
  have st: "dv_startup_state s \<noteq> Listening" "dv_active s" using assms(1) by (simp_all add: drv_live_def)
  then have "evs = e1 @ e2 \<and> s' = s2" using assms(3) CallLoop p h by (simp add: drv_loop_tick_def)
  then show ?thesis
    using pump_live [OF assms(1,2) p] heartbeat_live [OF _ assms(2) h] by (auto simp: CallLoop promised_def)
next
  case (CallRecv m)
  then show ?thesis using assms recv_live [of e m s] by (auto simp: promised_def)
qed

inductive bcast_run :: "bcast \<Rightarrow> ((drv_call \<times> drv_env) \<times> u32) list \<Rightarrow> (u32 \<times> air) list \<Rightarrow> bcast \<Rightarrow> bool" where
  "bcast_run a [] [] a"
| "promised c now a evs b \<Longrightarrow> bcast_run b fs log b' \<Longrightarrow>
     bcast_run a (((c, e), now) # fs) (map (Pair now) evs @ log) b'"

lemma drv_run_refines:
  assumes "drv_live s" and "\<forall>((c, e), t) \<in> set calls. de_radio e"
    and "drv_run calls s = (log, s')"
  shows "drv_live s' \<and> bcast_run (drv_abs s) calls log (drv_abs s')"
  using assms
proof (induction calls arbitrary: s log)
  case Nil
  then show ?case by (auto intro: bcast_run.intros)
next
  case (Cons f calls)
  obtain c e t where f: "f = ((c, e), t)" by (metis prod.exhaust)
  let ?e = "e\<lparr> de_now := t \<rparr>"
  obtain evs s1 where st: "drv_apply c ?e s = (evs, s1)" by fastforce
  obtain log1 where rest: "drv_run calls s1 = (log1, s')" and log: "log = map (Pair t) evs @ log1"
    using Cons.prems(3) f st by (auto simp: drv_step_def split: prod.splits)
  have "drv_live s1 \<and> promised c t (drv_abs s) evs (drv_abs s1)"
    using drv_apply_refines [OF Cons.prems(1) _ st] Cons.prems(2) f by simp
  then show ?case
    using Cons.IH [of s1 log1] Cons.prems(2) rest log f by (auto intro: bcast_run.intros)
qed

text \<open>C5: The driver does what a broadcaster promises, call by call. In every run of calls on an active driver (at
  any times and with any random numbers, as long as the radio object exists): a send of one of the four
  kinds puts exactly the frame it asks for on the air, payload byte by byte, under the Director's id and
  the next sequence number, unless the last gated frame is less than 50 ms ago, and then nothing; a passthrough
  frame is dropped if its header is bad or the cap closed, restamped if it has no sender, else
  forwarded byte for byte; a reception sends nothing; a loop sends one copy of the newest frame if one is owed and due
  (5 to 15 ms after the last), and then a heartbeat with the time if, and only if, a second has gone by
  since the last. Every new frame is owed the configured number of copies.\<close>

theorem driver_refines_broadcaster:
  assumes "drv_live s" and "\<forall>((c, e), t) \<in> set calls. de_radio e"
    and "drv_run calls s = (log, s')"
  shows "drv_live s' \<and> bcast_run (drv_abs s) calls log (drv_abs s')"
  using assms by (rule drv_run_refines)

definition sample_env :: drv_env where
  "sample_env = \<lparr> de_now = 0, de_radio = True, de_begin_ok = True, de_send_ok = True,
     de_mac = [2, 0, 0, 0, 0, 7], de_rand_pump = 0, de_rand_send = 0, de_random = 0 \<rparr>"

definition sample_cfg :: build_cfg where
  "sample_cfg = \<lparr> bc_retransmits = 2, bc_pairing_window_s = 30, bc_repeater_channel = 0,
     bc_strip_brightness = 50, bc_strip_group_size = 1, bc_strip_chain_size = 30 \<rparr>"

definition sample_driver :: driver where
  "sample_driver = snd (start_broadcast sample_cfg sample_env 1 (driver_init 2 nvs_empty))"

text \<open>The definitions that evaluate a run of the sample driver.\<close>

lemmas drv_eval = drv_step_def sample_driver_def start_broadcast_def driver_init_def sample_env_def sample_cfg_def load_retx_count_def clamp_retx_def nvs_empty_def
  load_director_source_id_def get_or_def send_wash_end_def gated_send_def airtime_cap_ready_def next_seq_def
  own_header_def encode_light_wash_end_def light_wash_end_wire_def write_header_def write_u16_le_def poke_def
  send_frame_bytes_def redundant_gap_ms_def copy_into_def stop_broadcast_def derive_source_id_def
  drv_loop_tick_def pump_retransmits_def maybe_send_heartbeat_def frame_src_def read_u16_le_def encode_heartbeat_def heartbeat_wire_def send_heartbeat_def Let_def

lemma sample_driver_live: "drv_live sample_driver"
  by (simp add: sample_driver_def start_broadcast_def driver_init_def sample_env_def sample_cfg_def
      load_retx_count_def clamp_retx_def nvs_empty_def drv_live_def Let_def)

theorem driver_refines_broadcaster_witness:
  "bcast_run (drv_abs sample_driver)
     [((CallWashEnd 0 1 5, sample_env), 100), ((CallLoop, sample_env), 1200)]
     (fst (drv_run [((CallWashEnd 0 1 5, sample_env), 100), ((CallLoop, sample_env), 1200)] sample_driver))
     (drv_abs (snd (drv_run
       [((CallWashEnd 0 1 5, sample_env), 100), ((CallLoop, sample_env), 1200)] sample_driver)))"
proof -
  let ?calls = "[((CallWashEnd 0 1 5, sample_env), 100), ((CallLoop, sample_env), 1200)]"
  have "\<forall>((c, e), t) \<in> set ?calls. de_radio e" by (simp add: sample_env_def)
  from driver_refines_broadcaster [OF sample_driver_live this surjective_pairing] show ?thesis by blast
qed

section \<open>Airtime\<close>


lemmas promises = promised_def send_promised_def pass_promised_def copy_promised_def beat_promised_def emitted_def Let_def





section \<open>Numbers and copies\<close>

text \<open>First transmissions, and the numbering of a list of frames from a given number.\<close>

fun first_tx :: "air list \<Rightarrow> bytes list" where
  "first_tx [] = []"
| "first_tx (OnAir l b # es) = b # first_tx es"
| "first_tx (Copy b # es) = first_tx es"

fun numbered :: "u16 \<Rightarrow> u8 \<Rightarrow> bytes list \<Rightarrow> u8 \<Rightarrow> bool" where
  "numbered src q [] q' = (q' = q)"
| "numbered src q (b # bs) q' = (frame_src b = src \<and> frame_seq b = q \<and> numbered src (seq_after q) bs q')"

text \<open>Copies repeat the newest frame, and no more often than is owed.\<close>

fun copies_ok :: "nat \<Rightarrow> bytes list \<Rightarrow> air list \<Rightarrow> bytes list \<Rightarrow> bool" where
  "copies_ok n owed [] owed' = (owed' = owed)"
| "copies_ok n owed (OnAir l b # es) owed' = copies_ok n (replicate (n - 1) b) es owed'"
| "copies_ok n owed (Copy b # es) owed' = (case owed of [] \<Rightarrow> False | x # xs \<Rightarrow> b = x \<and> copies_ok n xs es owed')"

fun foreign :: "drv_call \<Rightarrow> bool" where
  "foreign (CallPass b) = (frame_src b \<noteq> kBroadcastSourceId)"
| "foreign c = False"

lemma first_tx_append: "first_tx (xs @ ys) = first_tx xs @ first_tx ys"
  by (induction xs rule: first_tx.induct) simp_all

lemma numbered_append:
  "numbered src q xs q1 \<Longrightarrow> numbered src q1 ys q2 \<Longrightarrow> numbered src q (xs @ ys) q2"
  by (induction xs arbitrary: q) simp_all

lemma copies_ok_append:
  "copies_ok n owed xs owed1 \<Longrightarrow> copies_ok n owed1 ys owed2 \<Longrightarrow> copies_ok n owed (xs @ ys) owed2"
  by (induction n owed xs owed1 rule: copies_ok.induct) (auto split: list.splits)

lemma emitted_sel:
  "emitted now b a a' \<Longrightarrow> bc_source a' = bc_source a \<and> bc_seq a' = bc_seq a \<and> bc_count a' = bc_count a
    \<and> bc_pending a' = replicate (bc_count a - 1) b"
  by (auto simp: emitted_def)

lemma pass_numbered:
  assumes "pass_promised b now a evs a'" and "frame_src b = kBroadcastSourceId"
  shows "bc_source a' = bc_source a \<and> numbered (bc_source a) (bc_seq a) (first_tx evs) (bc_seq a')"
proof -
  let ?r = "take 3 b @ write_u16_le (bc_source a) @ [bc_seq a] @ drop 6 b"
  consider "evs = []" "bc_source a' = bc_source a" "bc_seq a' = bc_seq a"
    | "kHeaderSize \<le> length b" "evs = [OnAir PASS ?r]"
      "emitted now ?r (a\<lparr> bc_seq := seq_after (bc_seq a), bc_last := now \<rparr>) a'"
    using assms unfolding pass_promised_def Let_def by (fastforce split: if_splits)
  then show ?thesis
  proof cases
    case 2
    from emitted_sel [OF 2(3)] restamped(1,2) [OF 2(1), of "bc_source a" "bc_seq a"] show ?thesis
      unfolding 2(2) by (simp only: first_tx.simps numbered.simps) simp
  qed simp
qed

lemma promised_numbered:
  assumes "promised c now a evs a'" and "\<not> foreign c"
  shows "bc_source a' = bc_source a \<and> numbered (bc_source a) (bc_seq a) (first_tx evs) (bc_seq a')"
proof (cases c)
  case (CallPass b)
  then show ?thesis using pass_numbered [of b now a evs a'] assms by (simp add: promised_def)
qed (use assms in \<open>auto simp: promises split: if_splits\<close>)

lemma promised_copies:
  "promised c now a evs a' \<Longrightarrow> bc_count a' = bc_count a
    \<and> copies_ok (bc_count a) (bc_pending a) evs (bc_pending a')"
  by (cases c; cases "bc_pending a") (auto simp: promises split: if_splits)

lemma run_numbered:
  "bcast_run a calls log a' \<Longrightarrow> \<forall>((c, e), t) \<in> set calls. \<not> foreign c \<Longrightarrow>
    bc_source a' = bc_source a
    \<and> numbered (bc_source a) (bc_seq a) (first_tx (map snd log)) (bc_seq a')"
  by (induction rule: bcast_run.induct)
    (auto simp: first_tx_append comp_def dest!: promised_numbered intro: numbered_append)

lemma run_copies:
  "bcast_run a calls log a' \<Longrightarrow> bc_count a' = bc_count a
    \<and> copies_ok (bc_count a) (bc_pending a) (map snd log) (bc_pending a')"
  by (induction rule: bcast_run.induct)
    (auto simp: comp_def dest!: promised_copies intro: copies_ok_append)

text \<open>C35: Retransmissions are faithful and bounded. In every run of an active driver each repeated frame
  is, byte for byte, the newest first transmission, and no frame goes on air more often in all than
  the configured number of copies.\<close>

theorem copies_faithful:
  assumes "drv_live s" and "\<forall>((c, e), t) \<in> set calls. de_radio e"
    and "dv_retransmits_remaining s = 0" and "drv_run calls s = (log, s')"
  shows "\<exists>owed. copies_ok (unat (dv_retransmit_count s)) [] (map snd log) owed"
proof -
  from run_copies [OF conjunct2 [OF drv_run_refines [OF assms(1,2,4)]]] assms(3) show ?thesis
    by (auto simp: drv_abs_def)
qed

theorem copies_faithful_witness:
  "\<exists>owed. copies_ok 2 [] (map snd (fst (drv_run
     [((CallWashEnd 0 1 5, sample_env), 100), ((CallLoop, sample_env), 130)] sample_driver))) owed"
proof -
  have c: "dv_retransmits_remaining sample_driver = 0" "unat (dv_retransmit_count sample_driver) = 2"
    by (simp_all add: sample_driver_def start_broadcast_def driver_init_def sample_env_def
        sample_cfg_def load_retx_count_def clamp_retx_def nvs_empty_def Let_def)
  let ?calls = "[((CallWashEnd 0 1 5, sample_env), 100), ((CallLoop, sample_env), 130)]"
  have "\<forall>((c, e), t) \<in> set ?calls. de_radio e" by (simp add: sample_env_def)
  from copies_faithful [OF sample_driver_live this c(1) surjective_pairing] c(2) show ?thesis by simp
qed

section \<open>Listening\<close>

definition heard_id :: "u8 \<Rightarrow> bytes \<Rightarrow> bool" where
  "heard_id i m \<longleftrightarrow> (case decode_header m hb_out of (r, hdr) \<Rightarrow>
     r = Ok \<and> h_message_type hdr = Heartbeat \<and> h_source_id hdr = ucast i)"

definition listening :: "driver \<Rightarrow> bool" where
  "listening s \<longleftrightarrow> dv_startup_state s = Listening \<and> \<not> dv_active s \<and> dv_recv_cb s"

text \<open>The part of the state that a listen window is about.\<close>

definition listen_view :: "driver \<Rightarrow> u8 \<times> u8 \<times> u32" where
  "listen_view s = (dv_listen_candidate s, dv_listen_attempts_remaining s, dv_listen_started_ms s)"

fun in_window :: "u32 \<Rightarrow> (drv_call \<times> drv_env) \<times> u32 \<Rightarrow> bool" where
  "in_window t0 ((CallLoop, e), t) = (t - t0 < kListenWindowMs)"
| "in_window t0 ((c, e), t) = True"

fun hears :: "u8 \<Rightarrow> (drv_call \<times> drv_env) \<times> u32 \<Rightarrow> bool" where
  "hears i ((CallRecv m, e), t) = heard_id i m"
| "hears i ((c, e), t) = False"

lemma feed_census_view:
  "listening (feed_census e m s) = listening s" "listen_view (feed_census e m s) = listen_view s"
  "dv_listen_collision_heard (feed_census e m s) = dv_listen_collision_heard s"
  by (auto simp: feed_census_def listening_def listen_view_def split: prod.splits)

lemma window_step:
  assumes "listening s" and "in_window (dv_listen_started_ms s) (ce, t)" and "drv_step ce t s = (evs, s')"
  shows "evs = [] \<and> listening s' \<and> listen_view s' = listen_view s
    \<and> dv_listen_collision_heard s' = (dv_listen_collision_heard s \<or> hears (dv_listen_candidate s) (ce, t))"
proof -
  obtain c e where ce: "ce = (c, e)" by (cases ce)
  have st: "dv_startup_state s = Listening" "\<not> dv_active s" "dv_recv_cb s"
    using assms(1) by (simp_all add: listening_def)
  show ?thesis
  proof (cases c)
    case (CallRecv m)
    let ?s = "on_listen_recv m s"
    have "listening ?s" "listen_view ?s = listen_view s"
      "dv_listen_collision_heard ?s = (dv_listen_collision_heard s \<or> heard_id (dv_listen_candidate s) m)"
      using st by (auto simp: on_listen_recv_def listening_def listen_view_def heard_id_def split: prod.splits)
    then show ?thesis
      using assms(3) st CallRecv ce by (auto simp: drv_step_def drv_on_recv_def feed_census_view)
  next
    case CallLoop
    then show ?thesis
      using assms st ce by (auto simp: drv_step_def drv_loop_tick_def listen_tick_def)
  qed (use assms st ce in \<open>auto simp: drv_step_def send_light_def send_wash_def send_wash_end_def
         send_wash_pulse_def gated_send_def send_passthrough_def split: if_splits\<close>)
qed

lemma window_run:
  "listening s \<Longrightarrow> \<forall>f \<in> set calls. in_window (dv_listen_started_ms s) f \<Longrightarrow> drv_run calls s = (log, s') \<Longrightarrow>
    log = [] \<and> listening s' \<and> listen_view s' = listen_view s
    \<and> dv_listen_collision_heard s'
      = (dv_listen_collision_heard s \<or> (\<exists>f \<in> set calls. hears (dv_listen_candidate s) f))"
proof (induction calls arbitrary: s log)
  case Nil
  then show ?case by simp
next
  case (Cons f calls)
  obtain ce t where f: "f = (ce, t)" by (cases f)
  obtain evs s1 where st: "drv_step ce t s = (evs, s1)" by fastforce
  have w: "evs = [] \<and> listening s1 \<and> listen_view s1 = listen_view s
    \<and> dv_listen_collision_heard s1 = (dv_listen_collision_heard s \<or> hears (dv_listen_candidate s) (ce, t))"
    using window_step [OF Cons.prems(1) _ st] Cons.prems(2) f by simp
  obtain log1 where rest: "drv_run calls s1 = (log1, s')" and log: "log = log1"
    using Cons.prems(3) f st w by (auto split: prod.splits)
  have v: "dv_listen_started_ms s1 = dv_listen_started_ms s" "dv_listen_candidate s1 = dv_listen_candidate s"
    using w by (simp_all add: listen_view_def)
  have "\<forall>f \<in> set calls. in_window (dv_listen_started_ms s1) f" using Cons.prems(2) v by simp
  from Cons.IH [OF _ this rest] w v log f show ?case by auto
qed

text \<open>C32: Listen before broadcast. While a driver listens on channel 11, whatever is asked of it and
  whatever arrives, nothing goes on air during its window. At the first loop tick after the window it
  takes its candidate id if no heartbeat with that id was heard; if one was, it re-rolls, stores the new
  candidate and listens again with one attempt less, except that after the last attempt it proceeds.\<close>

theorem listen_before_broadcast:
  assumes "listening s" and "\<not> dv_listen_collision_heard s"
    and "\<forall>f \<in> set calls. in_window (dv_listen_started_ms s) f"
    and "t - dv_listen_started_ms s \<ge> kListenWindowMs"
    and "drv_run (calls @ [((CallLoop, e), t)]) s = (log, s')"
    and "cand = dv_listen_candidate s" and "n = dv_listen_attempts_remaining s"
  shows "log = []
    \<and> (if (\<exists>f \<in> set calls. hears cand f) \<and> n \<noteq> 1
       then listening s' \<and> \<not> dv_listen_collision_heard s'
         \<and> listen_view s' = (roll_perf_id (de_random e), n - 1, t)
         \<and> nv_mst_pid (dv_nvs s') = Some (roll_perf_id (de_random e))
       else dv_active s' \<and> dv_startup_state s' = Active \<and> dv_source_id s' = cand)"
proof -
  obtain log1 s1 where r1: "drv_run calls s = (log1, s1)" by fastforce
  note w = window_run [OF assms(1,3) r1]
  have last: "log = log1 @ [] \<and> s' = listen_tick (e\<lparr> de_now := t \<rparr>) s1"
    using assms(5) r1 w by (simp add: timed_run_append drv_step_def drv_loop_tick_def listening_def)
  have v: "dv_listen_candidate s1 = cand" "dv_listen_attempts_remaining s1 = n"
    "dv_listen_started_ms s1 = dv_listen_started_ms s"
    "dv_listen_collision_heard s1 = (\<exists>f \<in> set calls. hears cand f)"
    "dv_startup_state s1 = Listening" "\<not> dv_active s1" "dv_recv_cb s1"
    using w assms(2,6,7) by (auto simp: listen_view_def listening_def)
  have late: "\<not> t - dv_listen_started_ms s1 < kListenWindowMs" using assms(4) v(3) by simp
  have n: "(n - 1 = 0) = (n = 1)" by simp
  have save: "nv_mst_pid (save_director_perf_source_id (roll_perf_id r) x) = Some (roll_perf_id r)" for r x
    using roll_perf_id_range [of r] by (auto simp: save_director_perf_source_id_def)
  have pick: "pick_performance_id_random r = roll_perf_id r" for r
    by (simp add: pick_performance_id_random_def roll_perf_id_def)
  show ?thesis
    using last w late v n
    by (auto simp: listen_tick_def listening_def listen_view_def Let_def save pick)
qed

theorem listen_before_broadcast_witness:
  "dv_source_id (snd (drv_run ([((CallWashEnd 0 1 5, sample_env), 10)] @ [((CallLoop, sample_env), 1000)])
     (snd (start_broadcast sample_cfg sample_env 11 (driver_init 2 nvs_empty))))) = 0x40"
proof -
  let ?s = "snd (start_broadcast sample_cfg sample_env 11 (driver_init 2 nvs_empty))"
  have s: "listening ?s" "\<not> dv_listen_collision_heard ?s" "dv_listen_started_ms ?s = 0"
    "dv_listen_candidate ?s = 0x40"
    by (simp_all add: start_broadcast_def driver_init_def sample_env_def sample_cfg_def
        load_retx_count_def clamp_retx_def nvs_empty_def listening_def load_director_perf_source_id_def
        get_or_def roll_perf_id_def Let_def)
  show ?thesis
    using listen_before_broadcast [OF s(1,2) _ _ surjective_pairing refl refl,
        of "[((CallWashEnd 0 1 5, sample_env), 10)]" 1000 sample_env] s(3,4)
    by simp
qed

text \<open>A stop does not empty the retransmit queue. After a frame sent on channel 1, a stop and a start
  on channel 6 under another id, the first loop tick puts the old frame on the new channel, with the
  source id of the old session.\<close>

theorem stale_copy_after_restart:
  "let s1 = snd (drv_run [((CallWashEnd 0 1 5, sample_env), 100)] sample_driver);
       s2 = snd (start_broadcast sample_cfg sample_env 6 (stop_broadcast sample_env s1));
       log = fst (drv_run [((CallLoop, sample_env), 500)] s2)
   in dv_source_id s2 = 7 \<and> (\<exists>b. log = [(500, Copy b)] \<and> frame_src b = 0)"
  by (simp add: drv_eval)

end
