(* ===== verification/ChannelScan.thy ===== *)
theory ChannelScan
  imports Noct_Prelude
begin

text \<open>
  The channel hunt of the repeater (\<open>src/modes/repeater_mode.cpp\<close>) as an interface: a loop that stays on
  each of three channels for a dwell time and settles on the one where it hears a Director. The locale's
  laws speak of one loop; its lemmas of runs.
\<close>

text \<open>The loops are at most \<open>g\<close> milliseconds apart.\<close>

fun paced :: "nat \<Rightarrow> nat \<Rightarrow> nat list \<Rightarrow> bool" where
  "paced g p [] = True"
| "paced g p (t # ts) = (p \<le> t \<and> t \<le> p + g \<and> paced g t ts)"

text \<open>How many channels the scan still has to try before channel number \<open>k\<close>.\<close>

definition hops_to :: "nat \<Rightarrow> nat \<Rightarrow> nat" where
  "hops_to k i = (if k > i then k - i else k + 3 - i)"

lemma hops_step: "i < 3 \<Longrightarrow> k < 3 \<Longrightarrow> (i + 1) mod 3 \<noteq> k \<Longrightarrow> hops_to k i = Suc (hops_to k ((i + 1) mod 3))"
  by (auto simp: hops_to_def mod_Suc)

lemma hops_pos: "i < 3 \<Longrightarrow> 1 \<le> hops_to k i"
  by (auto simp: hops_to_def)

lemma hops_le: "k < 3 \<Longrightarrow> hops_to k i \<le> 3"
  unfolding hops_to_def by arith

text \<open>\<open>probing i q\<close>: on channel number \<open>i\<close> since time \<open>q\<close>, nothing heard. \<open>settled p\<close>: on channel number
  \<open>k\<close>, the Director's, heard last at time \<open>p\<close>.\<close>

locale channel_scan =
  fixes dwell gap k :: nat and step :: "nat \<Rightarrow> 's \<Rightarrow> 's"
    and probing :: "nat \<Rightarrow> nat \<Rightarrow> 's \<Rightarrow> bool" and settled :: "nat \<Rightarrow> 's \<Rightarrow> bool"
  assumes probing_index: "probing i q s \<Longrightarrow> i < 3"
    and probing_step: "probing i q s \<Longrightarrow> q \<le> t \<Longrightarrow> t \<le> q + dwell + gap \<Longrightarrow>
      j = (if t - q < dwell then i else (i + 1) mod 3) \<Longrightarrow>
      (if j = k then settled t (step t s) else probing j (if t - q < dwell then q else t) (step t s))"
    and settled_step: "settled p s \<Longrightarrow> p \<le> t \<Longrightarrow> t \<le> p + gap \<Longrightarrow> settled t (step t s)"
begin

lemma settled_run: "settled p s \<Longrightarrow> paced gap p ts \<Longrightarrow> settled (last (p # ts)) (fold step ts s)"
proof (induction ts arbitrary: p s)
  case Nil
  then show ?case by simp
next
  case (Cons t ts)
  then show ?case using Cons.IH [OF settled_step [of p s t]] by simp
qed

lemma probing_run:
  assumes "k < 3"
  shows "probing i q s \<Longrightarrow> q \<le> p \<Longrightarrow> p < q + dwell \<Longrightarrow> paced gap p ts \<Longrightarrow> ts \<noteq> [] \<Longrightarrow>
    q + hops_to k i * (dwell + gap) \<le> last ts \<Longrightarrow> settled (last ts) (fold step ts s)"
proof (induction ts arbitrary: i q p s)
  case Nil
  then show ?case by simp
next
  case (Cons t ts)
  let ?j = "if t - q < dwell then i else (i + 1) mod 3" and ?q = "if t - q < dwell then q else t"
  have t: "p \<le> t" "t \<le> p + gap" "paced gap t ts" using Cons.prems(4) by simp_all
  have i: "i < 3" and j: "?j < 3" using probing_index [OF Cons.prems(1)] by simp_all
  have qt: "q \<le> t" "t \<le> q + dwell + gap" using t Cons.prems(2,3) by simp_all
  have st: "if ?j = k then settled t (step t s) else probing ?j ?q (step t s)"
    by (rule probing_step [OF Cons.prems(1) qt refl])
  show ?case
  proof (cases "?j = k")
    case True
    then have "settled t (step t s)" using st by simp
    then show ?thesis using settled_run [OF _ t(3)] by simp
  next
    case False
    have pr: "probing ?j ?q (step t s)" using st False by simp
    have hop: "?q + hops_to k ?j * (dwell + gap) \<le> q + hops_to k i * (dwell + gap)"
    proof (cases "t - q < dwell")
      case neq: False
      then have "hops_to k i = Suc (hops_to k ((i + 1) mod 3))" using hops_step [OF i assms] False by simp
      then show ?thesis using neq qt by simp
    qed simp
    have "?q + 1 * (dwell + gap) \<le> ?q + hops_to k ?j * (dwell + gap)"
      by (rule add_left_mono [OF mult_le_mono1 [OF hops_pos [OF j]]])
    also note hop
    also note Cons.prems(6)
    finally have far: "?q + (dwell + gap) \<le> last (t # ts)" by (simp only: mult_1)
    have lt: "?q \<le> t" "t < ?q + dwell" using qt Cons.prems(2,3) by auto
    have "ts \<noteq> []" using far lt by (auto split: if_splits)
    then show ?thesis using Cons.IH [OF pr lt t(3)] Cons.prems(6) hop by simp
  qed
qed

text \<open>After three dwell times, and three delays of the loop, the scan has settled.\<close>

lemma scan_settles:
  assumes "k < 3" and "probing i q s" and "0 < dwell" and "paced gap q ts" and "ts \<noteq> []"
    and "q + 3 * (dwell + gap) \<le> last ts"
  shows "settled (last ts) (fold step ts s)"
proof (rule probing_run [OF assms(1,2) _ _ assms(4,5)])
  have "hops_to k i * (dwell + gap) \<le> 3 * (dwell + gap)" by (rule mult_le_mono1 [OF hops_le [OF assms(1)]])
  then show "q + hops_to k i * (dwell + gap) \<le> last ts" using assms(6) by linarith
qed (use assms(3) in simp_all)

end

end
