(* ===== verification/Dedup.thy ===== *)
theory Dedup
  imports Noct_Prelude
begin

text \<open>
  The duplicate ring of the two relaying modes, \<open>RepeaterMode\<close> and \<open>LumeMode\<close> (the same code in
  \<open>src/modes/repeater_mode.cpp\<close> and \<open>src/modes/lume_mode.cpp\<close>): the last sixteen (source, sequence
  number) pairs, overwritten in turn. The locale \<open>seen_memory\<close> states what a relay relies on, a memory
  of the latest keys; the ring is one.
\<close>

section \<open>A memory of the latest keys\<close>

text \<open>A relay lets a key pass when it is not remembered, and then remembers it.\<close>

fun fresh_run :: "('k \<Rightarrow> 's \<Rightarrow> bool) \<Rightarrow> ('k \<Rightarrow> 's \<Rightarrow> 's) \<Rightarrow> 'k list \<Rightarrow> 's \<Rightarrow> 'k list \<times> 's" where
  "fresh_run seen mark [] s = ([], s)"
| "fresh_run seen mark (k # ks) s =
     (if seen k s then fresh_run seen mark ks s
      else case fresh_run seen mark ks (mark k s) of (passed, s') \<Rightarrow> (k # passed, s'))"

lemma fresh_run_subset: "set (fst (fresh_run seen mark ks s)) \<subseteq> set ks"
  by (induction ks arbitrary: s) (auto simp: case_prod_beta)

locale seen_memory =
  fixes seen :: "'k \<Rightarrow> 's \<Rightarrow> bool" and mark :: "'k \<Rightarrow> 's \<Rightarrow> 's"
    and recent :: "'s \<Rightarrow> 'k list" and inv :: "'s \<Rightarrow> bool" and sequenced :: "'k \<Rightarrow> bool"
    and cap :: nat
  assumes inv_mark: "inv s \<Longrightarrow> inv (mark k s)"
    and seen_iff: "inv s \<Longrightarrow> sequenced k \<Longrightarrow> seen k s \<longleftrightarrow> k \<in> set (recent s)"
    and recent_mark: "inv s \<Longrightarrow> sequenced k \<Longrightarrow> recent (mark k s) = take cap (k # recent s)"
    and unsequenced: "\<not> sequenced k \<Longrightarrow> \<not> seen k s \<and> mark k s = s"
begin

text \<open>Once passed, a key passes again only after \<open>cap\<close> others.\<close>

lemma fresh_run_recent:
  "inv s \<Longrightarrow> \<forall>k \<in> set ks. sequenced k \<Longrightarrow> fresh_run seen mark ks s = (passed, s')
    \<Longrightarrow> length (recent s) \<le> cap \<Longrightarrow> inv s' \<and> recent s' = take cap (rev passed @ recent s)"
proof (induction ks arbitrary: s passed)
  case Nil
  then show ?case by simp
next
  case (Cons k ks)
  show ?case
  proof (cases "seen k s")
    case True
    with Cons.prems Cons.IH [of s passed] show ?thesis by simp
  next
    case False
    then obtain p where p: "fresh_run seen mark ks (mark k s) = (p, s')" and "passed = k # p"
      using Cons.prems(3) by (auto split: prod.splits)
    moreover have r: "recent (mark k s) = take cap (k # recent s)" using recent_mark Cons.prems by simp
    ultimately show ?thesis
      using Cons.IH [OF inv_mark [OF Cons.prems(1)] _ p] Cons.prems(2) by (simp add: min_def)
  qed
qed

text \<open>As long as no more than \<open>cap\<close> keys are about, every key passes at most once.\<close>

lemma fresh_run_distinct_from:
  assumes "finite D" and "card D \<le> cap"
  shows "inv s \<Longrightarrow> \<forall>k \<in> set ks. sequenced k \<Longrightarrow> set ks \<subseteq> D \<Longrightarrow> recent s = take cap (rev before @ r) \<Longrightarrow>
    distinct before \<Longrightarrow> set before \<subseteq> D \<Longrightarrow> distinct (before @ fst (fresh_run seen mark ks s))"
proof (induction ks arbitrary: s before)
  case Nil
  then show ?case by simp
next
  case (Cons k ks)
  have short: "length before \<le> cap"
    using Cons.prems(5,6) assms card_mono [OF assms(1) Cons.prems(6)] distinct_card by fastforce
  show ?case
  proof (cases "seen k s")
    case True
    with Cons show ?thesis by simp
  next
    case False
    have "k \<notin> set before"
      using False seen_iff [OF Cons.prems(1)] Cons.prems(2,4) short by auto
    moreover have "recent (mark k s) = take cap (rev (before @ [k]) @ r)"
      using recent_mark [OF Cons.prems(1)] Cons.prems(2,4) by (cases cap) (auto simp: min_def)
    ultimately show ?thesis
      using Cons.IH [OF inv_mark [OF Cons.prems(1)], of k "before @ [k]"] Cons.prems False
      by (simp add: case_prod_beta)
  qed
qed

lemma fresh_run_distinct:
  assumes "inv s" and "\<forall>k \<in> set ks. sequenced k" and "card (set ks) \<le> cap" and "length (recent s) \<le> cap"
  shows "distinct (fst (fresh_run seen mark ks s))"
  using fresh_run_distinct_from [OF finite_set assms(3) assms(1,2) subset_refl, of "[]" "recent s"] assms(4)
  by simp

text \<open>Nothing is lost either: a key that is not remembered at the start passes.\<close>

lemma fresh_run_complete:
  "inv s \<Longrightarrow> \<forall>k \<in> set ks. sequenced k \<Longrightarrow> k \<in> set ks \<Longrightarrow> k \<notin> set (recent s)
    \<Longrightarrow> k \<in> set (fst (fresh_run seen mark ks s))"
proof (induction ks arbitrary: s)
  case Nil
  then show ?case by simp
next
  case (Cons a ks)
  show ?case
  proof (cases "seen a s")
    case True
    then have "k \<noteq> a" using seen_iff Cons.prems by auto
    with True Cons show ?thesis by simp
  next
    case False
    show ?thesis
    proof (cases "k = a")
      case True
      with False show ?thesis by (simp add: case_prod_beta)
    next
      case neq: False
      then have "k \<notin> set (recent (mark a s))"
        using Cons.prems recent_mark [of s a] by (auto dest: in_set_takeD)
      with Cons.IH [OF inv_mark [OF Cons.prems(1)]] Cons.prems neq False show ?thesis
        by (simp add: case_prod_beta)
    qed
  qed
qed

end

section \<open>The ring\<close>

type_synonym seen_key = "u16 \<times> u8"

record dedup =
  dd_ring :: "seen_key list"
  dd_head :: nat

abbreviation kDedupRingSize :: nat where "kDedupRingSize \<equiv> 16"

definition dedup_init :: dedup where
  "dedup_init = \<lparr> dd_ring = replicate kDedupRingSize (0, 0), dd_head = 0 \<rparr>"

definition seen_recently :: "seen_key \<Rightarrow> dedup \<Rightarrow> bool" where
  "seen_recently k d =
     (case k of (src, seq) \<Rightarrow>
        if seq = 0 then False
        else list_ex (\<lambda>(s, q). s = src \<and> q = seq) (dd_ring d))"

definition mark_seen :: "seen_key \<Rightarrow> dedup \<Rightarrow> dedup" where
  "mark_seen k d =
     (case k of (src, seq) \<Rightarrow>
        if seq = 0 then d
        else d\<lparr> dd_ring := (dd_ring d)[dd_head d := (src, seq)],
                dd_head := (dd_head d + 1) mod kDedupRingSize \<rparr>)"

definition dedup_inv :: "dedup \<Rightarrow> bool" where
  "dedup_inv d \<longleftrightarrow> length (dd_ring d) = kDedupRingSize \<and> dd_head d < kDedupRingSize"

text \<open>The remembered pairs, latest first.\<close>

definition ring_recent :: "dedup \<Rightarrow> seen_key list" where
  "ring_recent d = rev (drop (dd_head d) (dd_ring d) @ take (dd_head d) (dd_ring d))"

lemma dedup_init_inv [simp, intro]: "dedup_inv dedup_init"
  by (simp add: dedup_inv_def dedup_init_def)

lemma length_ring_recent [simp]: "dedup_inv d \<Longrightarrow> length (ring_recent d) = kDedupRingSize"
  by (simp add: ring_recent_def dedup_inv_def)

lemma set_ring_recent: "set (ring_recent d) = set (dd_ring d)"
  by (metis append_take_drop_id ring_recent_def set_append set_rev sup_commute)

lemma ring_recent_mark:
  assumes "dedup_inv d" and "snd k \<noteq> 0"
  shows "ring_recent (mark_seen k d) = take kDedupRingSize (k # ring_recent d)"
proof -
  obtain xs h where d: "dd_ring d = xs" "dd_head d = h" "length xs = 16" "h < 16"
    using assms(1) by (simp add: dedup_inv_def)
  have split: "xs = take h xs @ xs ! h # drop (Suc h) xs" using d by (simp add: id_take_nth_drop)
  have upd: "xs[h := k] = take h xs @ k # drop (Suc h) xs" using d by (simp add: upd_conv_take_nth_drop)
  have old: "take 15 (ring_recent d) = rev (drop (Suc h) xs @ take h xs)"
    using d split Cons_nth_drop_Suc [of h xs] by (simp add: ring_recent_def flip: take_Suc_conv_app_nth)
       (simp add: rev_take [symmetric] take_rev)
  have "ring_recent (mark_seen k d) = k # rev (drop (Suc h) xs @ take h xs)"
  proof (cases "h = 15")
    case True
    then show ?thesis using d upd assms(2) by (simp add: ring_recent_def mark_seen_def case_prod_beta)
  next
    case False
    then have "Suc h mod 16 = Suc h" using d by simp
    then show ?thesis using d upd assms(2)
      by (simp add: ring_recent_def mark_seen_def case_prod_beta)
  qed
  then show ?thesis using old by simp
qed

interpretation ring: seen_memory seen_recently mark_seen ring_recent dedup_inv "\<lambda>k. snd k \<noteq> 0" kDedupRingSize
proof
  show "dedup_inv (mark_seen k d)" if "dedup_inv d" for k d
    using that by (auto simp: dedup_inv_def mark_seen_def split: prod.splits)
  show "seen_recently k d \<longleftrightarrow> k \<in> set (ring_recent d)" if "dedup_inv d" and "snd k \<noteq> 0" for k d
    using that by (auto simp: seen_recently_def set_ring_recent list_ex_iff)
  show "\<not> seen_recently k d \<and> mark_seen k d = d" if "\<not> snd k \<noteq> 0" for k d
    using that by (auto simp: seen_recently_def mark_seen_def split: prod.splits)
qed (rule ring_recent_mark)

end
