(* ===== verification/Repeater.thy ===== *)
theory Repeater
  imports ChannelScan Dedup Frames Settings Tofu "HOL-Library.Sublist"
begin

text \<open>
  \<open>RepeaterMode\<close> of \<open>src/modes/repeater_mode.cpp\<close>: a headless relay. Received frames are deduplicated and
  staged on the radio task; the main loop sends the staged frame, polls the button, serves the channel
  scan, beacons the census and drives the LED. One definition per member function. Effects on the radio
  are the list of events an operation returns; the clock, the radio's answers, the button and the MAC
  address are the record \<open>rep_env\<close>, read once per call.
\<close>

section \<open>State and environment\<close>

record rep_env =
  rn_now :: u32
  rn_radio :: bool
  rn_send_ok :: bool
  rn_clicked :: bool
  rn_mac :: bytes

record repeater =
  rm_dedup :: dedup
  rm_pending_repeat :: bool
  rm_pending_buf :: bytes
  rm_pending_len :: nat
  rm_channel_setting :: u8
  rm_active_channel :: u8
  rm_radio_up :: bool
  rm_locked :: bool
  rm_scan_idx :: nat
  rm_scan_probe_started_ms :: u32
  rm_boot_ms :: u32
  rm_last_rx_ms :: u32
  rm_last_relay_ms :: u32
  rm_last_census_ms :: u32
  rm_relayed_count :: u32
  rm_uid :: bytes
  rm_last_click_ms :: u32
  rm_confirm_until_ms :: u32
  rm_nvs :: nvs

text \<open>What the radio is told: to change channel, or to broadcast a relayed frame or a census beacon.\<close>

datatype rep_event = Tune u8 | Relay bytes | Census bytes

abbreviation kCensusIntervalMs :: u32 where "kCensusIntervalMs \<equiv> 1000"
abbreviation kRelayFlashMs :: u32 where "kRelayFlashMs \<equiv> 60"
abbreviation kScanDwellMs :: u32 where "kScanDwellMs \<equiv> 700"
abbreviation kScanRelockMs :: u32 where "kScanRelockMs \<equiv> 8000"
abbreviation kDoubleClickMs :: u32 where "kDoubleClickMs \<equiv> 400"
abbreviation kConfirmMs :: u32 where "kConfirmMs \<equiv> 1000"
abbreviation kRepeatBufSize :: nat where "kRepeatBufSize \<equiv> 250"

definition kScanChannels :: "u8 list" where
  "kScanChannels = [1, 6, 11]"

definition repeater_init :: "nvs \<Rightarrow> repeater" where
  "repeater_init n = \<lparr> rm_dedup = dedup_init, rm_pending_repeat = False,
     rm_pending_buf = replicate kRepeatBufSize 0, rm_pending_len = 0, rm_channel_setting = 0,
     rm_active_channel = 1, rm_radio_up = False, rm_locked = False, rm_scan_idx = 0,
     rm_scan_probe_started_ms = 0, rm_boot_ms = 0, rm_last_rx_ms = 0, rm_last_relay_ms = 0,
     rm_last_census_ms = 0, rm_relayed_count = 0, rm_uid = [0, 0, 0], rm_last_click_ms = 0,
     rm_confirm_until_ms = 0, rm_nvs = n \<rparr>"

section \<open>Operations\<close>

definition start_radio :: "rep_env \<Rightarrow> u8 \<Rightarrow> repeater \<Rightarrow> rep_event list \<times> repeater" where
  "start_radio e channel s =
     (if \<not> rn_radio e then ([], s\<lparr> rm_radio_up := False \<rparr>)
      else ([Tune channel], s\<lparr> rm_active_channel := channel, rm_radio_up := True \<rparr>))"

definition rep_enter :: "build_cfg \<Rightarrow> rep_env \<Rightarrow> repeater \<Rightarrow> rep_event list \<times> repeater" where
  "rep_enter cfg e s =
     (let s1 = s\<lparr> rm_boot_ms := rn_now e, rm_last_census_ms := rn_now e, rm_pending_repeat := False,
                  rm_dedup := (rm_dedup s)\<lparr> dd_head := 0 \<rparr>, rm_relayed_count := 0,
                  rm_last_relay_ms := 0, rm_last_rx_ms := 0,
                  rm_channel_setting := load_repeater_channel cfg (rm_nvs s) \<rparr>;
          (evs, s2) = (if rm_channel_setting s1 = 0
                       then start_radio e (kScanChannels ! 0)
                              (s1\<lparr> rm_locked := False, rm_scan_idx := 0,
                                   rm_scan_probe_started_ms := rm_boot_ms s1 \<rparr>)
                       else start_radio e (rm_channel_setting s1) (s1\<lparr> rm_locked := True \<rparr>))
      in (evs, s2\<lparr> rm_uid := [rn_mac e ! 3, rn_mac e ! 4, rn_mac e ! 5] \<rparr>))"

definition rep_exit :: "repeater \<Rightarrow> repeater" where
  "rep_exit s = s\<lparr> rm_pending_repeat := False \<rparr>"

definition empty_header :: header where
  "empty_header = \<lparr> h_protocol_version = 0, h_source_id = 0, h_sequence_number = 0, h_hop_count = 0,
     h_message_type = Heartbeat, h_payload_len = 0 \<rparr>"

text \<open>A null pointer is the empty list.\<close>

definition rep_on_recv :: "rep_env \<Rightarrow> bytes \<Rightarrow> repeater \<Rightarrow> repeater" where
  "rep_on_recv e m s =
     (if length m < kHeaderSize then s
      else case decode_header m empty_header of (r, hdr) \<Rightarrow>
        if r \<noteq> Ok then s
        else if h_message_type hdr = RepeaterHeartbeat then s
        else
          let s1 = s\<lparr> rm_last_rx_ms := rn_now e, rm_locked := True \<rparr>;
              k = (h_source_id hdr, h_sequence_number hdr)
          in if h_sequence_number hdr = 0 then s1
             else if seen_recently k (rm_dedup s1) then s1
             else let s2 = s1\<lparr> rm_dedup := mark_seen k (rm_dedup s1) \<rparr>
                  in if length m \<le> kRepeatBufSize
                     then s2\<lparr> rm_pending_buf := copy_into (rm_pending_buf s2) m,
                              rm_pending_len := length m, rm_pending_repeat := True \<rparr>
                     else s2)"

definition flush_relay :: "rep_env \<Rightarrow> repeater \<Rightarrow> rep_event list \<times> repeater" where
  "flush_relay e s =
     (if rm_pending_repeat s then
        let s1 = s\<lparr> rm_pending_repeat := False \<rparr>
        in if rn_radio e then
             ([Relay (take (rm_pending_len s1) (rm_pending_buf s1))],
              if rn_send_ok e
              then s1\<lparr> rm_relayed_count := rm_relayed_count s1 + 1, rm_last_relay_ms := rn_now e \<rparr>
              else s1)
           else ([], s1)
      else ([], s))"

definition apply_channel_setting :: "rep_env \<Rightarrow> u8 \<Rightarrow> repeater \<Rightarrow> rep_event list \<times> repeater" where
  "apply_channel_setting e setting s =
     (let s1 = s\<lparr> rm_channel_setting := setting, rm_nvs := save_repeater_channel setting (rm_nvs s) \<rparr>;
          (evs, s2) = (if setting = 0
                       then start_radio e (kScanChannels ! 0)
                              (s1\<lparr> rm_locked := False, rm_scan_idx := 0,
                                   rm_scan_probe_started_ms := rn_now e \<rparr>)
                       else start_radio e setting (s1\<lparr> rm_locked := True \<rparr>))
      in (evs, s2\<lparr> rm_confirm_until_ms := rn_now e + kConfirmMs \<rparr>))"

definition next_setting :: "u8 \<Rightarrow> u8" where
  "next_setting c = (if c = 0 then 1 else if c = 1 then 6 else if c = 6 then 11 else 0)"

definition poll_button :: "rep_env \<Rightarrow> repeater \<Rightarrow> rep_event list \<times> repeater" where
  "poll_button e s =
     (if \<not> rn_clicked e then ([], s)
      else if rm_last_click_ms s \<noteq> 0 \<and> rn_now e - rm_last_click_ms s \<le> kDoubleClickMs
      then apply_channel_setting e (next_setting (rm_channel_setting s)) (s\<lparr> rm_last_click_ms := 0 \<rparr>)
      else ([], s\<lparr> rm_last_click_ms := rn_now e \<rparr>))"

definition service_scan :: "rep_env \<Rightarrow> repeater \<Rightarrow> rep_event list \<times> repeater" where
  "service_scan e s =
     (if rm_channel_setting s \<noteq> 0 then ([], s)
      else if \<not> rm_locked s then
        (if rn_now e - rm_scan_probe_started_ms s \<ge> kScanDwellMs then
           let i = (rm_scan_idx s + 1) mod 3;
               (evs, s1) = start_radio e (kScanChannels ! i) (s\<lparr> rm_scan_idx := i \<rparr>)
           in (evs, s1\<lparr> rm_scan_probe_started_ms := rn_now e \<rparr>)
         else ([], s))
      else if rn_now e - rm_last_rx_ms s \<ge> kScanRelockMs then
        let i = (rm_scan_idx s + 1) mod 3;
            (evs, s1) = start_radio e (kScanChannels ! i) (s\<lparr> rm_locked := False, rm_scan_idx := i \<rparr>)
        in (evs, s1\<lparr> rm_scan_probe_started_ms := rn_now e \<rparr>)
      else ([], s))"

definition rep_uptime_s :: "u32 \<Rightarrow> u16" where
  "rep_uptime_s elapsed = (let up = elapsed div 1000 in if up > 0xFFFF then 0xFFFF else ucast up)"

definition emit_census :: "rep_env \<Rightarrow> repeater \<Rightarrow> rep_event list \<times> repeater" where
  "emit_census e s =
     (if rn_now e - rm_last_census_ms s < kCensusIntervalMs then ([], s)
      else let s1 = s\<lparr> rm_last_census_ms := rn_now e \<rparr> in
        if \<not> rm_radio_up s1 then ([], s1)
        else if rm_channel_setting s1 = 0 \<and> \<not> rm_locked s1 then ([], s1)
        else if \<not> rn_radio e then ([], s1)
        else let hdr = empty_header\<lparr> h_source_id := kBroadcastSourceId, h_sequence_number := 0,
                                     h_hop_count := 0 \<rparr>;
                 p = \<lparr> rh_uid = rm_uid s1, rh_channel = rm_active_channel s1,
                       rh_uptime_s = rep_uptime_s (rn_now e - rm_boot_ms s1),
                       rh_relayed_count = rm_relayed_count s1 \<rparr>;
                 (n, buf) = encode_repeater_heartbeat
                              (replicate (kHeaderSize + kRepeaterHeartbeatPayloadLen) 0) hdr p
             in (if n > 0 then [Census (take n buf)] else [], s1))"

text \<open>The status LED, a colour per loop.\<close>

definition channel_colour :: "u8 \<Rightarrow> u8 \<times> u8 \<times> u8" where
  "channel_colour ch = (if ch = 1 then (0, 24, 24) else if ch = 6 then (24, 0, 24)
     else if ch = 11 then (24, 24, 0) else (16, 16, 16))"

definition update_led :: "u32 \<Rightarrow> repeater \<Rightarrow> u8 \<times> u8 \<times> u8" where
  "update_led now s =
     (if now < rm_confirm_until_ms s
      then (case channel_colour (rm_channel_setting s) of (r, g, b) \<Rightarrow> (r * 2, g * 2, b * 2))
      else if \<not> rm_radio_up s then (40, 0, 0)
      else if rm_channel_setting s = 0 \<and> \<not> rm_locked s then (30, 12, 0)
      else if now - rm_last_relay_ms s < kRelayFlashMs then (0, 40, 0)
      else channel_colour (rm_active_channel s))"

definition rep_loop_tick :: "rep_env \<Rightarrow> repeater \<Rightarrow> rep_event list \<times> repeater" where
  "rep_loop_tick e s =
     (case flush_relay e s of (e1, s1) \<Rightarrow>
      case poll_button e s1 of (e2, s2) \<Rightarrow>
      case service_scan e s2 of (e3, s3) \<Rightarrow>
      case emit_census e s3 of (e4, s4) \<Rightarrow> (e1 @ e2 @ e3 @ e4, s4))"

section \<open>Runs\<close>

text \<open>The program calls \<open>on_recv\<close> from the radio task and \<open>loop_tick\<close> from the main loop, in any order.\<close>

datatype rep_call = RepRecv bytes | RepTick

fun rep_apply :: "rep_call \<times> rep_env \<Rightarrow> repeater \<Rightarrow> rep_event list \<times> repeater" where
  "rep_apply (RepRecv m, e) s = ([], rep_on_recv e m s)"
| "rep_apply (RepTick, e) s = rep_loop_tick e s"

fun rep_run :: "(rep_call \<times> rep_env) list \<Rightarrow> repeater \<Rightarrow> rep_event list \<times> repeater" where
  "rep_run [] s = ([], s)"
| "rep_run (c # cs) s =
     (case rep_apply c s of (evs, s1) \<Rightarrow> case rep_run cs s1 of (log, s2) \<Rightarrow> (evs @ log, s2))"

lemma rep_run_append:
  "rep_run (xs @ ys) s = (case rep_run xs s of (l1, s1) \<Rightarrow> case rep_run ys s1 of (l2, s2) \<Rightarrow> (l1 @ l2, s2))"
  by (induction xs arbitrary: s) (simp_all add: case_prod_beta)

section \<open>Relaying\<close>

fun relayed :: "rep_event list \<Rightarrow> bytes list" where
  "relayed [] = []"
| "relayed (Relay m # evs) = m # relayed evs"
| "relayed (Tune c # evs) = relayed evs"
| "relayed (Census m # evs) = relayed evs"

text \<open>The key a frame is deduplicated by; \<open>None\<close> for a frame that is never relayed.\<close>

definition relay_key :: "bytes \<Rightarrow> seen_key option" where
  "relay_key m =
     (case decode_header m empty_header of (r, hdr) \<Rightarrow>
        if r = Ok \<and> h_message_type hdr \<noteq> RepeaterHeartbeat \<and> h_sequence_number hdr \<noteq> 0
        then Some (h_source_id hdr, h_sequence_number hdr) else None)"

fun keys_of :: "(rep_call \<times> rep_env) list \<Rightarrow> seen_key list" where
  "keys_of [] = []"
| "keys_of ((RepRecv m, e) # cs) = (case relay_key m of None \<Rightarrow> keys_of cs | Some k \<Rightarrow> k # keys_of cs)"
| "keys_of ((RepTick, e) # cs) = keys_of cs"

fun heard :: "(rep_call \<times> rep_env) list \<Rightarrow> bytes list" where
  "heard [] = []"
| "heard ((RepRecv m, e) # cs) = m # heard cs"
| "heard ((RepTick, e) # cs) = heard cs"

definition staged :: "repeater \<Rightarrow> bytes list" where
  "staged s = (if rm_pending_repeat s then [take (rm_pending_len s) (rm_pending_buf s)] else [])"

definition rm_inv :: "repeater \<Rightarrow> bool" where
  "rm_inv s \<longleftrightarrow> dedup_inv (rm_dedup s) \<and> length (rm_pending_buf s) = kRepeatBufSize"

lemma relayed_append [simp]: "relayed (xs @ ys) = relayed xs @ relayed ys"
  by (induction xs rule: relayed.induct) simp_all

lemma relay_key_sequenced: "relay_key m = Some k \<Longrightarrow> snd k \<noteq> 0"
  by (auto simp: relay_key_def split: prod.splits if_splits)

lemma keys_sequenced: "\<forall>k \<in> set (keys_of cs). snd k \<noteq> 0"
  by (induction cs rule: keys_of.induct) (auto split: option.splits dest: relay_key_sequenced)

text \<open>What one call does to the ring, the staged frame and the frames relayed.\<close>

lemma recv_ring:
  "rm_dedup (rep_on_recv e m s) =
     (case relay_key m of None \<Rightarrow> rm_dedup s
      | Some k \<Rightarrow> if seen_recently k (rm_dedup s) then rm_dedup s else mark_seen k (rm_dedup s))"
  by (auto simp: rep_on_recv_def relay_key_def Let_def decode_header_def split: prod.splits)

lemma recv_staged:
  assumes "rm_inv s"
  shows "staged (rep_on_recv e m s) =
     (case relay_key m of None \<Rightarrow> staged s
      | Some k \<Rightarrow> if seen_recently k (rm_dedup s) \<or> length m > kRepeatBufSize then staged s else [m])"
  using assms
  by (auto simp: rep_on_recv_def relay_key_def Let_def decode_header_def staged_def rm_inv_def copy_into_def
      split: prod.splits)

lemma recv_inv: "rm_inv s \<Longrightarrow> rm_inv (rep_on_recv e m s)"
  by (auto simp: rm_inv_def rep_on_recv_def Let_def copy_into_def mark_seen_def dedup_inv_def split: prod.splits)

text \<open>Only the flush touches what is relayed.\<close>

definition relay_view :: "repeater \<Rightarrow> dedup \<times> bool \<times> bytes \<times> nat" where
  "relay_view s = (rm_dedup s, rm_pending_repeat s, rm_pending_buf s, rm_pending_len s)"

lemma start_radio_relays: "relayed (fst (start_radio e c s)) = [] \<and> relay_view (snd (start_radio e c s)) = relay_view s"
  by (simp add: start_radio_def relay_view_def)

lemma apply_setting_relays:
  "relayed (fst (apply_channel_setting e c s)) = [] \<and> relay_view (snd (apply_channel_setting e c s)) = relay_view s"
  by (simp add: apply_channel_setting_def start_radio_def relay_view_def Let_def)

lemma poll_button_relays:
  "relayed (fst (poll_button e s)) = [] \<and> relay_view (snd (poll_button e s)) = relay_view s"
  using apply_setting_relays by (simp add: poll_button_def) (simp add: relay_view_def)

lemma service_scan_relays:
  "relayed (fst (service_scan e s)) = [] \<and> relay_view (snd (service_scan e s)) = relay_view s"
  by (simp add: service_scan_def start_radio_def relay_view_def Let_def)

lemma emit_census_relays:
  "relayed (fst (emit_census e s)) = [] \<and> relay_view (snd (emit_census e s)) = relay_view s"
  by (simp add: emit_census_def relay_view_def Let_def case_prod_beta)

lemma flush_relays:
  "relayed (fst (flush_relay e s)) = (if rn_radio e then staged s else [])"
  "relay_view (snd (flush_relay e s)) = (rm_dedup s, False, rm_pending_buf s, rm_pending_len s)"
  by (simp_all add: flush_relay_def staged_def relay_view_def Let_def)

lemma tick_relays:
  "relayed (fst (rep_loop_tick e s)) = (if rn_radio e then staged s else [])"
  "relay_view (snd (rep_loop_tick e s)) = (rm_dedup s, False, rm_pending_buf s, rm_pending_len s)"
  by (simp_all add: rep_loop_tick_def case_prod_beta flush_relays poll_button_relays service_scan_relays
      emit_census_relays)

lemma tick_state:
  "staged (snd (rep_loop_tick e s)) = []" "rm_dedup (snd (rep_loop_tick e s)) = rm_dedup s"
  "rm_inv s \<Longrightarrow> rm_inv (snd (rep_loop_tick e s))"
  using tick_relays(2) [of e s] by (simp_all add: staged_def relay_view_def rm_inv_def)

text \<open>A run relays, in order, frames that were received and let pass by the ring.\<close>

abbreviation fresh :: "seen_key list \<Rightarrow> dedup \<Rightarrow> seen_key list \<times> dedup" where
  "fresh \<equiv> fresh_run seen_recently mark_seen"

lemma run_relays:
  "rm_inv s \<Longrightarrow> rep_run cs s = (log, s') \<Longrightarrow>
    rm_inv s' \<and> rm_dedup s' = snd (fresh (keys_of cs) (rm_dedup s))
    \<and> subseq (map relay_key (relayed log @ staged s'))
        (map relay_key (staged s) @ map Some (fst (fresh (keys_of cs) (rm_dedup s))))
    \<and> set (relayed log @ staged s') \<subseteq> set (staged s) \<union> set (heard cs)"
proof (induction cs arbitrary: s log)
  case Nil
  then show ?case by simp
next
  case (Cons c cs)
  obtain call e where c: "c = (call, e)" by (cases c)
  obtain evs s1 where step: "rep_apply c s = (evs, s1)" by fastforce
  obtain l where rest: "rep_run cs s1 = (l, s')" and log: "log = evs @ l"
    using Cons.prems(2) step by (auto split: prod.splits)
  show ?case
  proof (cases call)
    case (RepRecv m)
    have s1: "s1 = rep_on_recv e m s" "evs = []" using step c RepRecv by simp_all
    have inv: "rm_inv s1" using s1 recv_inv Cons.prems(1) by simp
    note IH = Cons.IH [OF inv rest]
    have drop_staged: "subseq xs (map relay_key (staged s) @ map Some (k # ks))"
      if "subseq xs (Some k # map Some ks)" for xs k ks
      using that by (simp add: list_emb_append2 subseq_order.order_trans)
    have skip: "subseq xs (a @ y # b)" if "subseq xs (a @ b)" for xs a b and y :: "seen_key option"
      using that by (meson list_emb_append_mono list_emb_Cons subseq_order.order_refl subseq_order.order_trans)
    show ?thesis
      using IH c RepRecv log s1 recv_ring [of e m s] recv_staged [OF Cons.prems(1), of e m]
      by (auto simp: case_prod_beta skip dest: drop_staged split: option.splits if_splits)
  next
    case RepTick
    have s1: "s1 = snd (rep_loop_tick e s)" "evs = fst (rep_loop_tick e s)"
      using step c RepTick by (simp_all add: prod_eq_iff)
    have inv: "rm_inv s1" using s1 tick_state(3) Cons.prems(1) by simp
    have "subseq (map relay_key (if rn_radio e then staged s else [])) (map relay_key (staged s))" by simp
    then show ?thesis
      using Cons.IH [OF inv rest] c RepTick log s1 tick_state(1,2) [of e s] tick_relays(1) [of e s]
      by (auto intro: list_emb_append_mono subseq_order.order_trans)
  qed
qed

lemma distinct_subseq: "subseq xs ys \<Longrightarrow> distinct ys \<Longrightarrow> distinct xs"
  by (auto simp: subseq_conv_nths intro: distinct_nthsI)

lemma set_subseq: "subseq xs ys \<Longrightarrow> set xs \<subseteq> set ys"
  by (auto simp: subseq_conv_nths dest: in_set_nthsD)

lemma relayed_distinct:
  assumes "rm_inv s" and "\<not> rm_pending_repeat s" and "card (set (keys_of cs)) \<le> kDedupRingSize"
    and "rep_run cs s = (log, s')"
  shows "distinct (map relay_key (relayed log))"
    and "set (map relay_key (relayed log)) \<subseteq> Some ` set (keys_of cs)"
    and "set (relayed log) \<subseteq> set (heard cs)"
proof -
  have inv: "dedup_inv (rm_dedup s)" using assms(1) by (simp add: rm_inv_def)
  let ?f = "fst (fresh (keys_of cs) (rm_dedup s))"
  have sub: "subseq (map relay_key (relayed log @ staged s')) (map Some ?f)"
    and from_air: "set (relayed log @ staged s') \<subseteq> set (heard cs)"
    using run_relays [OF assms(1,4)] assms(2) by (simp_all add: staged_def)
  have "distinct ?f" using ring.fresh_run_distinct [OF inv keys_sequenced assms(3)] inv by simp
  then have d: "distinct (map Some ?f)" by (simp add: distinct_map)
  have "distinct (map relay_key (relayed log @ staged s'))" using sub d by (rule distinct_subseq)
  then show "distinct (map relay_key (relayed log))" by simp
  have "set (map relay_key (relayed log)) \<subseteq> Some ` set ?f" using set_subseq [OF sub] by simp
  also have "\<dots> \<subseteq> Some ` set (keys_of cs)" by (intro image_mono fresh_run_subset)
  finally show "set (map relay_key (relayed log)) \<subseteq> Some ` set (keys_of cs)" .
  show "set (relayed log) \<subseteq> set (heard cs)" using from_air by auto
qed

section \<open>Networks of repeaters\<close>

text \<open>Repeaters in earshot of each other: \<open>air\<close> holds every frame that was ever broadcast, and any of
  them may reach any repeater, any number of times, or never. \<open>hs\<close> is the history of calls of each.\<close>

inductive net :: "repeater list \<Rightarrow> bytes set \<Rightarrow> (rep_call \<times> rep_env) list list \<Rightarrow> bytes set \<Rightarrow> bool"
  for rs and air0 where
  boot: "net rs air0 (map (\<lambda>_. []) rs) air0"
| hear: "net rs air0 hs air \<Longrightarrow> i < length rs \<Longrightarrow> m \<in> air \<Longrightarrow>
    net rs air0 (hs[i := hs ! i @ [(RepRecv m, e)]]) air"
| tick: "net rs air0 hs air \<Longrightarrow> i < length rs \<Longrightarrow>
    rep_apply (RepTick, e) (snd (rep_run (hs ! i) (rs ! i))) = (evs, s') \<Longrightarrow>
    net rs air0 (hs[i := hs ! i @ [(RepTick, e)]])
      (air \<union> set (relayed evs) \<union> {m. Census m \<in> set evs})"

definition announced :: "bytes set \<Rightarrow> seen_key option set" where
  "announced air = relay_key ` air - {None}"

lemma key_heard: "Some k \<in> relay_key ` set (heard cs) \<longleftrightarrow> k \<in> set (keys_of cs)"
  by (induction cs rule: keys_of.induct) (auto split: option.splits)

lemma announced_heard: "announced (set (heard cs)) = Some ` set (keys_of cs)"
proof -
  have "x \<in> announced (set (heard cs)) \<longleftrightarrow> x \<in> Some ` set (keys_of cs)" for x
    using key_heard [of _ cs] by (cases x) (auto simp: announced_def)
  then show ?thesis by blast
qed

lemma heard_append [simp]: "heard (xs @ ys) = heard xs @ heard ys"
  by (induction xs rule: heard.induct) simp_all

lemma census_only:
  assumes "Census m \<in> set (fst (rep_loop_tick e s))"
  obtains s1 where "Census m \<in> set (fst (emit_census e s1))"
  using assms
  by (auto simp: rep_loop_tick_def case_prod_beta flush_relay_def poll_button_def apply_channel_setting_def
      service_scan_def start_radio_def Let_def split: if_splits)

lemma census_bytes:
  assumes "Census m \<in> set (fst (emit_census e s))" and "length (rm_uid s) = 3"
  shows "m = write_header (empty_header\<lparr> h_source_id := kBroadcastSourceId \<rparr>) RepeaterHeartbeat 10
    @ repeater_heartbeat_wire \<lparr> rh_uid = rm_uid s, rh_channel = rm_active_channel s,
        rh_uptime_s = rep_uptime_s (rn_now e - rm_boot_ms s), rh_relayed_count = rm_relayed_count s \<rparr>"
proof -
  have l: "length (write_u16_le x) = 2" "length (write_u32_le y) = 4" for x y
    by (simp_all add: write_u16_le_def write_u32_le_def)
  show ?thesis using assms
    by (auto simp: emit_census_def encode_repeater_heartbeat_def Let_def poke_def repeater_heartbeat_wire_def l
        empty_header_def split: if_splits)
qed

lemma relay_key_census_type: "m ! 7 = mt_code RepeaterHeartbeat \<Longrightarrow> relay_key m = None"
proof -
  assume "m ! 7 = mt_code RepeaterHeartbeat"
  then have "message_type_of (m ! 7) = Some RepeaterHeartbeat" by (simp only: message_type_of_code)
  then show ?thesis by (simp add: relay_key_def decode_header_def)
qed

lemma census_key:
  assumes "Census m \<in> set (fst (rep_loop_tick e s))"
  shows "relay_key m = None"
  using assms
proof (rule census_only)
  fix s1 assume c: "Census m \<in> set (fst (emit_census e s1))"
  have h: "take 19 (poke buf (write_header h t l @ w)) ! 7 = mt_code t" for buf h t l w
    by (simp add: poke_def write_header_def write_u16_le_def)
  from c have "m ! 7 = mt_code RepeaterHeartbeat"
    by (auto simp: emit_census_def encode_repeater_heartbeat_def Let_def h split: if_splits)
  then show ?thesis by (rule relay_key_census_type)
qed

text \<open>In a network only census beacons are new, and a repeater hears only what is on the air.\<close>

lemma net_air:
  "net rs air0 hs air \<Longrightarrow> \<forall>s \<in> set rs. rm_inv s \<and> \<not> rm_pending_repeat s \<Longrightarrow>
    length hs = length rs \<and> air \<subseteq> air0 \<union> {m. relay_key m = None}
    \<and> (\<forall>i < length rs. set (heard (hs ! i)) \<subseteq> air)"
proof (induction rule: net.induct)
  case boot
  then show ?case by simp
next
  case (hear hs air i m e)
  then show ?case by (auto simp: nth_list_update)
next
  case (tick hs air i e evs s')
  let ?cs = "hs ! i @ [(RepTick, e)]"
  have ih: "length hs = length rs" "air \<subseteq> air0 \<union> {m. relay_key m = None}"
    "\<forall>i < length rs. set (heard (hs ! i)) \<subseteq> air" using tick by simp_all
  obtain log s1 where run: "rep_run (hs ! i) (rs ! i) = (log, s1)" by fastforce
  have full: "rep_run ?cs (rs ! i) = (log @ evs, s')"
    using tick.hyps run by (simp add: rep_run_append)
  have s: "rm_inv (rs ! i)" "staged (rs ! i) = []" using tick.prems tick.hyps(2) by (auto simp: staged_def)
  have "set (relayed (log @ evs)) \<subseteq> set (heard ?cs)" using run_relays [OF s(1) full] s(2) by auto
  then have old: "set (relayed evs) \<subseteq> air" using ih(3) tick.hyps(2) by auto
  have "relay_key m = None" if "Census m \<in> set evs" for m
    using that tick.hyps census_key [of m e s1] run by simp
  then have "air \<union> set (relayed evs) \<union> {m. Census m \<in> set evs} \<subseteq> air0 \<union> {m. relay_key m = None}"
    using old ih(2) by auto
  then show ?case using ih tick.hyps(2) by (auto simp: nth_list_update)
qed

lemma node_relays:
  assumes "rm_inv s" and "\<not> rm_pending_repeat s" and "finite air0" and "card (announced air0) \<le> kDedupRingSize"
    and heard: "set (heard cs) \<subseteq> air0 \<union> {m. relay_key m = None}" and "rep_run cs s = (log, s')"
  shows "set (relayed log) \<subseteq> air0 \<and> distinct (map relay_key (relayed log))
    \<and> length (relayed log) \<le> card (announced air0)"
proof -
  have fin: "finite (announced air0)" using assms(3) by (simp add: announced_def)
  have "announced (set (heard cs)) \<subseteq> announced air0" using heard by (auto simp: announced_def)
  then have sub: "Some ` set (keys_of cs) \<subseteq> announced air0" by (simp add: announced_heard)
  have "card (set (keys_of cs)) = card (Some ` set (keys_of cs))" by (simp add: card_image)
  also have "\<dots> \<le> card (announced air0)" by (rule card_mono [OF fin sub])
  finally have few: "card (set (keys_of cs)) \<le> card (announced air0)" .
  then have small: "card (set (keys_of cs)) \<le> kDedupRingSize" using assms(4) by simp
  note r = relayed_distinct [OF assms(1,2) small assms(6)]
  have "length (relayed log) = card (set (map relay_key (relayed log)))" using distinct_card [OF r(1)] by simp
  also have "\<dots> \<le> card (announced air0)" using r(2) sub by (intro card_mono [OF fin]) auto
  finally have "length (relayed log) \<le> card (announced air0)" .
  moreover have "m \<in> air0" if "m \<in> set (relayed log)" for m
  proof -
    have "relay_key m \<noteq> None" using that r(2) by auto
    then show ?thesis using that r(3) heard by auto
  qed
  ultimately show ?thesis using r(1) by blast
qed

text \<open>C6: There is no relay storm. Put any number of repeaters in earshot of each other, let Directors put
  on the air any frames with at most sixteen different (source, sequence number) pairs, and let every
  broadcast, relayed ones included, reach any repeaters in any order, repeatedly or not at all: however
  long the network runs, each repeater relays only frames of the Directors, untouched, and each pair at
  most once, so that there are never more relays than repeaters times pairs.\<close>

theorem relay_storm_ends:
  assumes "\<forall>s \<in> set rs. rm_inv s \<and> \<not> rm_pending_repeat s" and "net rs air0 hs air"
    and "finite air0" and "card (announced air0) \<le> kDedupRingSize"
  shows "(\<forall>i < length rs. set (relayed (fst (rep_run (hs ! i) (rs ! i)))) \<subseteq> air0
        \<and> distinct (map relay_key (relayed (fst (rep_run (hs ! i) (rs ! i))))))
    \<and> (\<Sum>i < length rs. length (relayed (fst (rep_run (hs ! i) (rs ! i)))))
      \<le> length rs * card (announced air0)"
proof -
  have node: "set (relayed (fst (rep_run (hs ! i) (rs ! i)))) \<subseteq> air0
      \<and> distinct (map relay_key (relayed (fst (rep_run (hs ! i) (rs ! i)))))
      \<and> length (relayed (fst (rep_run (hs ! i) (rs ! i)))) \<le> card (announced air0)"
    if "i < length rs" for i
    using net_air [OF assms(2,1)] assms(1) that
    by (intro node_relays [OF _ _ assms(3,4) _ surjective_pairing]) auto
  then show ?thesis
    using sum_mono [of "{..<length rs}" "\<lambda>i. length (relayed (fst (rep_run (hs ! i) (rs ! i))))"
        "\<lambda>_. card (announced air0)"] by simp
qed

definition heartbeat_of :: "u16 \<Rightarrow> u8 \<Rightarrow> bytes" where
  "heartbeat_of src seq = write_header (empty_header\<lparr> h_source_id := src, h_sequence_number := seq \<rparr>)
     Heartbeat 9 @ replicate 9 0"

lemma heartbeat_key [simp]: "seq \<noteq> 0 \<Longrightarrow> relay_key (heartbeat_of src seq) = Some (src, seq)"
  by (simp add: relay_key_def heartbeat_of_def decode_write_header empty_header_def)

definition rep_env_at :: "u32 \<Rightarrow> rep_env" where
  "rep_env_at t = \<lparr> rn_now = t, rn_radio = True, rn_send_ok = True, rn_clicked = False,
     rn_mac = [2, 0, 0, 0, 0, 7] \<rparr>"

lemma repeater_init_inv [simp]: "rm_inv (repeater_init n)" "\<not> rm_pending_repeat (repeater_init n)"
  "staged (repeater_init n) = []"
  by (simp_all add: rm_inv_def repeater_init_def staged_def)

theorem relay_storm_ends_witness:
  "\<exists>air. net [repeater_init nvs_empty, repeater_init nvs_empty] {heartbeat_of 5 1}
      [[(RepRecv (heartbeat_of 5 1), rep_env_at 10), (RepTick, rep_env_at 11)],
       [(RepRecv (heartbeat_of 5 1), rep_env_at 12)]] air
    \<and> length (relayed (fst (rep_run [(RepRecv (heartbeat_of 5 1), rep_env_at 10), (RepTick, rep_env_at 11)]
        (repeater_init nvs_empty)))) \<le> 2"
proof -
  let ?r = "repeater_init nvs_empty" and ?f = "heartbeat_of 5 1"
  let ?rs = "[?r, ?r]" and ?a = "(RepRecv ?f, rep_env_at 10)" and ?b = "(RepTick, rep_env_at 11)"
    and ?c = "(RepRecv ?f, rep_env_at 12)"
  have "net ?rs {?f} [[], []] {?f}" using boot [of ?rs "{?f}"] by simp
  from hear [OF this, of 0 ?f "rep_env_at 10"] have "net ?rs {?f} [[?a], []] {?f}" by simp
  from tick [OF this _ surjective_pairing, of 0 "rep_env_at 11"]
  obtain air where 2: "net ?rs {?f} [[?a, ?b], []] air" and f: "?f \<in> air" by auto
  from hear [OF 2 _ f, of 1 "rep_env_at 12"] have n: "net ?rs {?f} [[?a, ?b], [?c]] air" by simp
  have one: "announced {?f} = {Some (5, 1)}" by (simp add: announced_def)
  have "\<forall>s \<in> set ?rs. rm_inv s \<and> \<not> rm_pending_repeat s" by simp
  from relay_storm_ends [OF this n] have
    "length (relayed (fst (rep_run [?a, ?b] ?r))) + length (relayed (fst (rep_run [?c] ?r))) \<le> 2 * 1"
    by (simp add: one lessThan_Suc numeral_2_eq_2 add.commute)
  then show ?thesis using n by (intro exI conjI) (assumption, simp)
qed

section \<open>Every frame is relayed\<close>

text \<open>The main loop comes round, with a radio, before the next reception.\<close>

fun served :: "(rep_call \<times> rep_env) list \<Rightarrow> bool" where
  "served [] = True"
| "served ((RepTick, e) # cs) = served cs"
| "served ((RepRecv m, e) # (RepTick, e') # cs) = (length m \<le> kRepeatBufSize \<and> rn_radio e' \<and> served cs)"
| "served ((RepRecv m, e) # cs) = False"

lemma served_relays:
  "served cs \<Longrightarrow> rm_inv s \<Longrightarrow> staged s = [] \<Longrightarrow>
    map relay_key (relayed (fst (rep_run cs s))) = map Some (fst (fresh (keys_of cs) (rm_dedup s)))"
proof (induction cs arbitrary: s rule: served.induct)
  case (3 m e e' cs)
  let ?s1 = "rep_on_recv e m s" and ?s2 = "snd (rep_loop_tick e' (rep_on_recv e m s))"
  have inv: "rm_inv ?s1" using recv_inv 3 by simp
  have IH: "map relay_key (relayed (fst (rep_run cs ?s2))) = map Some (fst (fresh (keys_of cs) (rm_dedup ?s1)))"
    using 3 inv tick_state by simp
  have "map relay_key (relayed (fst (rep_run ((RepRecv m, e) # (RepTick, e') # cs) s)))
      = map relay_key (staged ?s1) @ map relay_key (relayed (fst (rep_run cs ?s2)))"
    using 3 tick_relays(1) by (simp add: case_prod_beta)
  then show ?case
    using 3 recv_ring [of e m s] recv_staged [OF \<open>rm_inv s\<close>, of e m] IH
    by (auto simp: case_prod_beta split: option.splits)
qed (simp_all add: case_prod_beta tick_relays tick_state)

text \<open>A served repeater relays exactly once. Starting from the state in which the program builds it,
  with the main loop coming round between receptions: as long as no more than sixteen different (source,
  sequence number) pairs are received, whatever the order and the repetitions, the relayed frames have
  precisely these pairs, each one once.\<close>

theorem relays_exactly_once:
  assumes "served cs" and "card (set (keys_of cs)) \<le> kDedupRingSize"
  shows "distinct (map relay_key (relayed (fst (rep_run cs (repeater_init n)))))
    \<and> set (map relay_key (relayed (fst (rep_run cs (repeater_init n))))) = Some ` set (keys_of cs)"
proof -
  let ?s = "repeater_init n"
  have d: "rm_dedup ?s = dedup_init" by (simp add: repeater_init_def)
  then have inv: "dedup_inv (rm_dedup ?s)" by simp
  have new: "ring_recent (rm_dedup ?s) = replicate kDedupRingSize (0, 0)"
    unfolding d by (simp add: ring_recent_def dedup_init_def)
  have r: "map relay_key (relayed (fst (rep_run cs ?s))) = map Some (fst (fresh (keys_of cs) (rm_dedup ?s)))"
    by (rule served_relays) (simp_all add: assms)
  have "k \<in> set (fst (fresh (keys_of cs) (rm_dedup ?s)))" if k: "k \<in> set (keys_of cs)" for k
    using ring.fresh_run_complete [OF inv keys_sequenced k] keys_sequenced k new by fastforce
  then have "set (fst (fresh (keys_of cs) (rm_dedup ?s))) = set (keys_of cs)" using fresh_run_subset by fast
  moreover have "distinct (fst (fresh (keys_of cs) (rm_dedup ?s)))"
    using ring.fresh_run_distinct [OF inv keys_sequenced assms(2)] inv by simp
  ultimately show ?thesis unfolding r by (simp add: distinct_map)
qed

theorem relays_exactly_once_witness:
  "set (map relay_key (relayed (fst (rep_run
      [(RepRecv (heartbeat_of 5 1), rep_env_at 10), (RepTick, rep_env_at 11),
       (RepRecv (heartbeat_of 5 1), rep_env_at 20), (RepTick, rep_env_at 21),
       (RepRecv (heartbeat_of 5 2), rep_env_at 30), (RepTick, rep_env_at 31)]
      (repeater_init nvs_empty))))) = {Some (5, 1), Some (5, 2)}"
proof -
  let ?cs = "[(RepRecv (heartbeat_of 5 1), rep_env_at 10), (RepTick, rep_env_at 11),
       (RepRecv (heartbeat_of 5 1), rep_env_at 20), (RepTick, rep_env_at 21),
       (RepRecv (heartbeat_of 5 2), rep_env_at 30), (RepTick, rep_env_at 31)]"
  have "served ?cs" by (simp add: heartbeat_of_def rep_env_at_def)
  moreover have k: "keys_of ?cs = [(5, 1), (5, 1), (5, 2)]" by simp
  then have "card (set (keys_of ?cs)) \<le> kDedupRingSize" by simp
  ultimately show ?thesis using relays_exactly_once [of ?cs nvs_empty] unfolding k by simp
qed

section \<open>The channel scan\<close>

definition scan_view :: "repeater \<Rightarrow> u8 \<times> bool \<times> nat \<times> u32 \<times> u8 \<times> u32" where
  "scan_view s = (rm_channel_setting s, rm_locked s, rm_scan_idx s, rm_scan_probe_started_ms s,
     rm_active_channel s, rm_last_rx_ms s)"

text \<open>Any valid frame but a census beacon is traffic.\<close>

definition traffic :: "bytes \<Rightarrow> bool" where
  "traffic m \<longleftrightarrow> (case decode_header m empty_header of (r, hdr) \<Rightarrow>
     r = Ok \<and> h_message_type hdr \<noteq> RepeaterHeartbeat)"

lemma recv_scan_view:
  "traffic m \<Longrightarrow> scan_view (rep_on_recv e m s) = (rm_channel_setting s, True, rm_scan_idx s,
     rm_scan_probe_started_ms s, rm_active_channel s, rn_now e)"
proof -
  assume "traffic m"
  then obtain h where h: "decode_header m empty_header = (Ok, h)" "h_message_type h \<noteq> RepeaterHeartbeat"
    by (auto simp: traffic_def split: prod.splits)
  then have "kHeaderSize \<le> length m" using decode_header_OkD(1) by fastforce
  with h show ?thesis by (simp add: rep_on_recv_def scan_view_def Let_def)
qed

text \<open>A loop without a click scans, and does nothing else to the scan's state.\<close>

lemma tick_scan_view:
  assumes "\<not> rn_clicked e" and "rn_radio e"
  shows "scan_view (snd (rep_loop_tick e s)) = scan_view (snd (service_scan e s))"
proof -
  have c: "scan_view (snd (emit_census e x)) = scan_view x" for x
    by (simp add: emit_census_def scan_view_def Let_def case_prod_beta)
  have f: "scan_view (snd (flush_relay e s)) = scan_view s"
    by (simp add: flush_relay_def scan_view_def Let_def)
  then have "scan_view (snd (service_scan e (snd (flush_relay e s)))) = scan_view (snd (service_scan e s))"
    using assms(2) by (simp add: service_scan_def start_radio_def scan_view_def Let_def)
  then show ?thesis using assms(1) by (simp add: rep_loop_tick_def case_prod_beta c poll_button_def)
qed

definition scan_env :: "rep_env \<Rightarrow> nat \<Rightarrow> rep_env" where
  "scan_env e t = e\<lparr> rn_now := of_nat t, rn_radio := True, rn_clicked := False \<rparr>"

text \<open>A Director sends on channel \<open>c\<close>: after every loop, a repeater on that channel has heard it.\<close>

fun scan_run :: "u8 \<Rightarrow> bytes \<Rightarrow> rep_env \<Rightarrow> nat list \<Rightarrow> repeater \<Rightarrow> repeater" where
  "scan_run c m e [] s = s"
| "scan_run c m e (t # ts) s =
     (let s1 = snd (rep_loop_tick (scan_env e t) s)
      in scan_run c m e ts (if rm_active_channel s1 = c then rep_on_recv (scan_env e t) m s1 else s1))"

lemma scan_run_one:
  "scan_run c m e [t] s = (let s1 = snd (rep_loop_tick (scan_env e t) s)
     in if rm_active_channel s1 = c then rep_on_recv (scan_env e t) m s1 else s1)"
  by (simp add: Let_def)

lemma scan_run_Cons: "scan_run c m e (t # ts) s = scan_run c m e ts (scan_run c m e [t] s)"
  by (simp add: Let_def)

declare scan_run.simps(2) [simp del]

definition settled :: "u8 \<Rightarrow> nat \<Rightarrow> repeater \<Rightarrow> bool" where
  "settled c p s \<longleftrightarrow> rm_channel_setting s = 0 \<and> rm_locked s \<and> rm_active_channel s = c
     \<and> rm_last_rx_ms s = of_nat p"

definition probing :: "nat \<Rightarrow> nat \<Rightarrow> repeater \<Rightarrow> bool" where
  "probing i q s \<longleftrightarrow> rm_channel_setting s = 0 \<and> \<not> rm_locked s \<and> i < 3 \<and> rm_scan_idx s = i
     \<and> rm_active_channel s = kScanChannels ! i \<and> rm_scan_probe_started_ms s = of_nat q"

lemma scan_view_settled: "scan_view s = (0, True, i, q, c, of_nat p) \<Longrightarrow> settled c p s"
  by (simp add: scan_view_def settled_def)

lemma scan_view_probing:
  "scan_view s = (0, False, i, of_nat q, kScanChannels ! i, r) \<Longrightarrow> i < 3 \<Longrightarrow> probing i q s"
  by (simp add: scan_view_def probing_def)

lemma settled_tick:
  assumes "settled c p s" and "traffic m" and "p \<le> t" and "t < p + 8000"
  shows "settled c t (scan_run c m e [t] s)"
proof -
  let ?e = "scan_env e t"
  have "unat (rn_now ?e - rm_last_rx_ms s) = t - p"
    using assms word_age [of p t] by (simp add: scan_env_def settled_def)
  then have "\<not> kScanRelockMs \<le> rn_now ?e - rm_last_rx_ms s" using assms by (simp add: word_le_nat_alt)
  then have "scan_view (snd (rep_loop_tick ?e s)) = scan_view s"
    using assms(1) by (subst tick_scan_view) (simp_all add: scan_env_def service_scan_def settled_def)
  then show ?thesis using assms(1,2) recv_scan_view [OF assms(2), of ?e "snd (rep_loop_tick ?e s)"]
    by (auto intro!: scan_view_settled simp: scan_view_def settled_def scan_env_def scan_run_one)
qed


lemma probing_tick:
  assumes "probing i q s" and "traffic m" and "q \<le> t" and "t < q + 8000"
  shows "let j = (if t - q < 700 then i else (i + 1) mod 3)
    in (kScanChannels ! j = c \<longrightarrow> settled c t (scan_run c m e [t] s))
      \<and> (kScanChannels ! j \<noteq> c \<longrightarrow> probing j (if t - q < 700 then q else t) (scan_run c m e [t] s))"
proof -
  let ?e = "scan_env e t" and ?s1 = "snd (rep_loop_tick (scan_env e t) s)"
  let ?j = "if t - q < 700 then i else (i + 1) mod 3" and ?q = "if t - q < 700 then q else t"
  have "unat (rn_now ?e - rm_scan_probe_started_ms s) = t - q"
    using assms word_age [of q t] by (simp add: scan_env_def probing_def)
  then have due: "kScanDwellMs \<le> rn_now ?e - rm_scan_probe_started_ms s \<longleftrightarrow> \<not> t - q < 700"
    by (simp add: word_le_nat_alt not_less)
  have "scan_view ?s1 = scan_view (snd (service_scan ?e s))"
    by (rule tick_scan_view) (simp_all add: scan_env_def)
  also have "\<dots> = (0, False, ?j, of_nat ?q, kScanChannels ! ?j, rm_last_rx_ms s)"
    using assms(1) due by (simp add: probing_def service_scan_def start_radio_def scan_view_def Let_def)
       (simp add: scan_env_def)
  finally have v: "scan_view ?s1 = (0, False, ?j, of_nat ?q, kScanChannels ! ?j, rm_last_rx_ms s)" .
  have j: "?j < 3" using assms(1) by (simp add: probing_def)
  have ch: "rm_active_channel ?s1 = kScanChannels ! ?j" using v by (simp add: scan_view_def)
  show ?thesis
  proof (cases "kScanChannels ! ?j = c")
    case True
    then have "scan_view (scan_run c m e [t] s) = (0, True, ?j, of_nat ?q, c, of_nat t)"
      using recv_scan_view [OF assms(2), of ?e ?s1] v ch
      by (simp add: scan_run_one scan_view_def) (simp add: scan_env_def)
    then show ?thesis using True scan_view_settled by (simp add: Let_def)
  next
    case False
    then have "scan_run c m e [t] s = ?s1" using ch by (simp add: scan_run_one)
    then show ?thesis using False scan_view_probing [OF v j] by (simp add: Let_def)
  qed
qed

lemma kScanChannels_inj: "i < 3 \<Longrightarrow> k < 3 \<Longrightarrow> kScanChannels ! i = kScanChannels ! k \<longleftrightarrow> i = k"
  by (auto simp: kScanChannels_def numeral_3_eq_3 less_Suc_eq)

lemma scan_run_fold: "scan_run c m e ts s = fold (\<lambda>t. scan_run c m e [t]) ts s"
proof (induction ts arbitrary: s)
  case (Cons t ts)
  then show ?case by (subst scan_run_Cons) simp
qed simp

interpretation rep_scan: channel_scan 700 g k "\<lambda>t. scan_run (kScanChannels ! k) m e [t]"
  "\<lambda>i q s. traffic m \<and> k < 3 \<and> g < 7300 \<and> probing i q s"
  "\<lambda>p s. traffic m \<and> k < 3 \<and> g < 7300 \<and> settled (kScanChannels ! k) p s" for g k m e
proof
  fix i q s t j
  assume p: "traffic m \<and> k < 3 \<and> g < 7300 \<and> probing i q s"
  then show i: "i < 3" by (simp add: probing_def)
  assume t: "q \<le> t" "t \<le> q + 700 + g" "j = (if t - q < 700 then i else (i + 1) mod 3)"
  then have "j < 3" using i by simp
  then show "if j = k then traffic m \<and> k < 3 \<and> g < 7300 \<and> settled (kScanChannels ! k) t (scan_run (kScanChannels ! k) m e [t] s)
      else traffic m \<and> k < 3 \<and> g < 7300 \<and> probing j (if t - q < 700 then q else t) (scan_run (kScanChannels ! k) m e [t] s)"
    using p t probing_tick [of i q s m t "kScanChannels ! k" e] kScanChannels_inj [of j k] by (simp add: Let_def)
qed (use settled_tick in auto)

text \<open>The scan finds the Director. A repeater in automatic mode starts probing; a Director sends on one
  of the three fleet channels, and the main loop comes round at least every g milliseconds. Then once
  three dwell times (and three loop delays) have passed the repeater is locked to the Director's
  channel, whichever channel it began with, and it stays locked to it for as long as the run lasts.\<close>

theorem scan_finds_director:
  assumes "probing i q s" and "traffic m" and "c \<in> set kScanChannels" and "g < 7300"
    and "paced g q ts" and "ts \<noteq> []" and "q + 3 * (700 + g) \<le> last ts"
  shows "rm_locked (scan_run c m e ts s) \<and> rm_active_channel (scan_run c m e ts s) = c"
proof -
  obtain k where "k < length kScanChannels" and c: "c = kScanChannels ! k"
    using assms(3) by (auto simp only: in_set_conv_nth)
  then have k: "k < 3" "c = kScanChannels ! k" by (simp_all add: kScanChannels_def)
  from rep_scan.scan_settles [of k m g i q s ts e] assms k show ?thesis
    by (simp add: k(2) scan_run_fold [of "kScanChannels ! k" m e ts s] settled_def)
qed

definition scan_start :: repeater where
  "scan_start = snd (rep_enter \<lparr> bc_retransmits = 2, bc_pairing_window_s = 30, bc_repeater_channel = 0,
     bc_strip_brightness = 50, bc_strip_group_size = 1, bc_strip_chain_size = 30 \<rparr> (rep_env_at 100)
     (repeater_init nvs_empty))"

theorem scan_finds_director_witness:
  "rm_locked (scan_run 11 (heartbeat_of 5 1) (rep_env_at 0) [600, 1200, 1800, 2400, 3000, 3600, 4200] scan_start)
   \<and> rm_active_channel
       (scan_run 11 (heartbeat_of 5 1) (rep_env_at 0) [600, 1200, 1800, 2400, 3000, 3600, 4200] scan_start) = 11"
proof -
  have p: "probing 0 100 scan_start"
    by (simp add: probing_def scan_start_def rep_enter_def start_radio_def load_repeater_channel_def get_or_def
        nvs_empty_def repeater_init_def rep_env_at_def kScanChannels_def Let_def)
  have t: "traffic (heartbeat_of 5 1)"
    by (simp add: traffic_def heartbeat_of_def decode_write_header empty_header_def)
  show ?thesis by (rule scan_finds_director [OF p t, of 11 600]) (simp_all add: kScanChannels_def)
qed

text \<open>A frame that arrives while the loop runs costs the repeater its channel. The loop reads the clock
  once and the radio task stamps receptions on its own: when a frame is received after the clock was
  read and before the scan is served, its stamp lies ahead, the unsigned age wraps around to almost 50
  days, and the scan drops the lock and moves to the next channel, although traffic was just heard.\<close>

theorem scan_race_drops_lock:
  shows "case service_scan (e\<lparr> rn_now := t, rn_radio := True \<rparr>)
      (rep_on_recv (e'\<lparr> rn_now := t + 1 \<rparr>) (heartbeat_of src seq) (s\<lparr> rm_channel_setting := 0 \<rparr>)) of (evs, s') \<Rightarrow>
    evs = [Tune (kScanChannels ! ((rm_scan_idx s + 1) mod 3))] \<and> \<not> rm_locked s'"
proof -
  let ?s = "rep_on_recv (e'\<lparr> rn_now := t + 1 \<rparr>) (heartbeat_of src seq) (s\<lparr> rm_channel_setting := 0 \<rparr>)"
  have "traffic (heartbeat_of src seq)"
    by (simp add: traffic_def heartbeat_of_def decode_write_header empty_header_def)
  from recv_scan_view [OF this, of "e'\<lparr> rn_now := t + 1 \<rparr>" "s\<lparr> rm_channel_setting := 0 \<rparr>"]
  have "rm_channel_setting ?s = 0" "rm_locked ?s" "rm_scan_idx ?s = rm_scan_idx s" "rm_last_rx_ms ?s = t + 1"
    by (simp_all add: scan_view_def)
  then show ?thesis by (simp add: service_scan_def start_radio_def Let_def)
qed

end
