(* ===== verification/Dal.thy ===== *)
theory Dal
  imports EspNowDriver
begin

text \<open>
  The output side of the device abstraction layer, \<open>src/dal/dal.cpp\<close>: structured render targets, the
  routing of pulses and washes to the radio driver and to the Director's own outputs, and the table of
  active washes with its refresh. The infrared, screen and LED-strip drivers stay outside: what they are
  told is the list of events an operation returns.
\<close>

section \<open>Render targets\<close>

text \<open>\<open>strtoul\<close> of the C library in base 16, on a string without its terminator: the value and what is
  left of the string, which is all of it when nothing could be converted. \<open>unsigned long\<close> has 32 bits.\<close>

definition isspace :: "u8 \<Rightarrow> bool" where
  "isspace c \<longleftrightarrow> c = 0x20 \<or> (0x09 \<le> c \<and> c \<le> 0x0D)"

definition hex_value :: "u8 \<Rightarrow> nat option" where
  "hex_value c = (if 0x30 \<le> c \<and> c \<le> 0x39 then Some (unat (c - 0x30))
     else if 0x41 \<le> c \<and> c \<le> 0x46 then Some (unat (c - 0x37))
     else if 0x61 \<le> c \<and> c \<le> 0x66 then Some (unat (c - 0x57)) else None)"

definition is_hex :: "u8 \<Rightarrow> bool" where
  "is_hex c \<longleftrightarrow> hex_value c \<noteq> None"

fun strip_sign :: "bytes \<Rightarrow> bool \<times> bytes" where
  "strip_sign (c # s) = (if c = 0x2D then (True, s) else if c = 0x2B then (False, s) else (False, c # s))"
| "strip_sign [] = (False, [])"

fun strip_0x :: "bytes \<Rightarrow> bytes" where
  "strip_0x (z # x # h # s) =
     (if z = 0x30 \<and> (x = 0x78 \<or> x = 0x58) \<and> is_hex h then h # s else z # x # h # s)"
| "strip_0x s = s"

definition strtoul16 :: "bytes \<Rightarrow> nat \<times> bytes" where
  "strtoul16 s =
     (let (neg, t) = strip_sign (dropWhile isspace s);
          t = strip_0x t;
          ds = takeWhile is_hex t;
          v = foldl (\<lambda>a c. a * 16 + the (hex_value c)) 0 ds
      in if ds = [] then (0, s)
         else (if v > 0xFFFFFFFF then 0xFFFFFFFF else if neg then (2 ^ 32 - v) mod 2 ^ 32 else v,
               dropWhile is_hex t))"

text \<open>A null target is the empty string. \<open>None\<close> is the answer false.\<close>

definition parse_target_class_group :: "bytes \<Rightarrow> (u8 \<times> u8) option" where
  "parse_target_class_group target =
     (if target = [] then None
      else let before = takeWhile (\<lambda>c. c \<noteq> 0x3A) target; colon = dropWhile (\<lambda>c. c \<noteq> 0x3A) target
      in if colon = [] \<or> before = [] \<or> tl colon = [] then None
         else case strtoul16 target of (c, rest) \<Rightarrow>
              if length rest \<noteq> length colon \<or> c > 0xFF then None
              else case strtoul16 (tl colon) of (g, rest) \<Rightarrow>
                   if rest \<noteq> [] \<or> g > 0xFF then None
                   else Some (of_nat c, of_nat g))"

lemma hex_digit_value: "n < 16 \<Longrightarrow> hex_value (hex_digit n) = Some n \<and> is_hex (hex_digit n)
    \<and> \<not> isspace (hex_digit n) \<and> hex_digit n \<noteq> 0x2D \<and> hex_digit n \<noteq> 0x2B \<and> hex_digit n \<noteq> 0x3A
    \<and> hex_digit n \<noteq> 0x78 \<and> hex_digit n \<noteq> 0x58"
  by (simp add: less_Suc_eq numeral_eq_Suc)
     (elim disjE; simp add: hex_digit_def hex_value_def is_hex_def isspace_def; code_simp)

lemma unat_u8_less: "unat (x :: u8) < 256"
  by (rule order.strict_trans2 [OF unsigned_less]) simp

lemma hex_02X_byte: "hex_02X (ucast (x :: u8)) = [hex_digit (unat x div 16), hex_digit (unat x mod 16)]"
proof -
  have "unat (ucast x :: u16) = unat x" by (simp add: unat_ucast_up)
  moreover have "unat x < 256" by (rule unat_u8_less)
  ultimately show ?thesis by (simp add: hex_02X_def Let_def)
qed

text \<open>Two hex digits followed by anything that is no hex digit are read as their value.\<close>

lemma strtoul16_byte:
  assumes "rest = [] \<or> \<not> is_hex (hd rest) \<and> hd rest \<noteq> 0x78 \<and> hd rest \<noteq> 0x58"
  shows "strtoul16 (hex_02X (ucast (x :: u8)) @ rest) = (unat x, rest)"
proof -
  let ?h = "hex_digit (unat x div 16)" and ?l = "hex_digit (unat x mod 16)"
  have lt: "unat x < 256" by (rule unat_u8_less)
  have h: "unat x div 16 < 16" and l: "unat x mod 16 < 16" using lt by auto
  have t: "takeWhile is_hex (?h # ?l # rest) = [?h, ?l]" "dropWhile is_hex (?h # ?l # rest) = rest"
    using assms hex_digit_value [OF h] hex_digit_value [OF l] by (cases rest; simp)+
  have "strip_0x (?h # ?l # rest) = ?h # ?l # rest"
    using hex_digit_value [OF l] by (cases rest) simp_all
  moreover have "strip_sign (dropWhile isspace (?h # ?l # rest)) = (False, ?h # ?l # rest)"
    using hex_digit_value [OF h] by simp
  moreover have "unat x div 16 * 16 + unat x mod 16 = unat x" by simp
  ultimately show ?thesis
    using t hex_digit_value [OF h] hex_digit_value [OF l] lt unfolding hex_02X_byte
    by (simp add: strtoul16_def Let_def)
qed

lemma parse_target_format:
  "parse_target_class_group (hex_02X (ucast cls) @ [0x3A] @ hex_02X (ucast grp)) = Some (cls, grp)"
proof -
  have b: "unat (x :: u8) div 16 < 16" "unat x mod 16 < 16" for x using unat_u8_less [of x] by simp_all
  have colon: "\<not> is_hex 0x3A" by (simp add: is_hex_def hex_value_def)
  have ne: "hex_digit (unat (x :: u8) div 16) \<noteq> 0x3A" "hex_digit (unat x mod 16) \<noteq> 0x3A" for x
    using hex_digit_value b by blast+
  let ?t = "hex_02X (ucast cls) @ [0x3A] @ hex_02X (ucast grp)"
  have tk: "takeWhile (\<lambda>c. c \<noteq> 0x3A) ?t = hex_02X (ucast cls)"
    and dr: "dropWhile (\<lambda>c. c \<noteq> 0x3A) ?t = 0x3A # hex_02X (ucast grp)"
    using ne [of cls] unfolding hex_02X_byte by simp_all
  have c: "strtoul16 ?t = (unat cls, 0x3A # hex_02X (ucast grp))"
    using strtoul16_byte [of "[0x3A] @ hex_02X (ucast grp)" cls] colon by simp
  have g: "strtoul16 (hex_02X (ucast grp)) = (unat grp, [])" using strtoul16_byte [of "[]" grp] by simp
  have "\<not> 255 < unat cls" "\<not> 255 < unat grp" by (simp_all add: not_less)
  then show ?thesis
    unfolding parse_target_class_group_def tk dr using c g
    by (simp add: Let_def hex_02X_byte)
qed

section \<open>The active washes\<close>

record active_wash =
  aw_occupied :: bool
  aw_target_class :: u8
  aw_target_group :: u8
  aw_payload :: light_wash_event
  aw_last_broadcast_ms :: u32

abbreviation kMaxActiveWashes :: nat where "kMaxActiveWashes \<equiv> 8"
abbreviation kWashRefreshPeriodMs :: u32 where "kWashRefreshPeriodMs \<equiv> 10000"

definition no_wash :: active_wash where
  "no_wash = \<lparr> aw_occupied = False, aw_target_class = 0, aw_target_group = 0,
     aw_payload = \<lparr> ew_r1 = 0, ew_g1 = 0, ew_b1 = 0, ew_r2 = 0, ew_g2 = 0, ew_b2 = 0, ew_attack = 0,
       ew_release = 0, ew_intensity = 0, ew_cycle_ms = 0, ew_ttl_seconds = 0, ew_pulse_response = 0,
       ew_led_mode = 0, ew_led_modifier1 = 0, ew_led_modifier2 = 0 \<rparr>, aw_last_broadcast_ms = 0 \<rparr>"

text \<open>The index of the first slot with a property.\<close>

fun first_slot :: "('a \<Rightarrow> bool) \<Rightarrow> 'a list \<Rightarrow> nat option" where
  "first_slot p [] = None"
| "first_slot p (x # xs) = (if p x then Some 0 else map_option Suc (first_slot p xs))"

definition holds_wash :: "u8 \<Rightarrow> u8 \<Rightarrow> active_wash \<Rightarrow> bool" where
  "holds_wash cls grp w \<longleftrightarrow> aw_occupied w \<and> aw_target_class w = cls \<and> aw_target_group w = grp"

definition find_active_wash_slot :: "u8 \<Rightarrow> u8 \<Rightarrow> active_wash list \<Rightarrow> nat option" where
  "find_active_wash_slot cls grp ws = first_slot (holds_wash cls grp) ws"

text \<open>The scan for a place: the first free slot ends it, else the slot with the smallest stamp.\<close>

fun scan_place :: "active_wash list \<Rightarrow> nat \<Rightarrow> nat \<Rightarrow> u32 \<Rightarrow> nat" where
  "scan_place [] i oldest ts = oldest"
| "scan_place (w # ws) i oldest ts =
     (if \<not> aw_occupied w then i
      else if aw_last_broadcast_ms w < ts then scan_place ws (i + 1) i (aw_last_broadcast_ms w)
      else scan_place ws (i + 1) oldest ts)"

definition record_active_wash ::
  "u8 \<Rightarrow> u8 \<Rightarrow> light_wash_event \<Rightarrow> u32 \<Rightarrow> active_wash list \<Rightarrow> active_wash list" where
  "record_active_wash cls grp ev now_ms ws =
     (let slot = (case find_active_wash_slot cls grp ws of Some i \<Rightarrow> i
                  | None \<Rightarrow> scan_place ws 0 0 (aw_last_broadcast_ms (ws ! 0)))
      in ws[slot := \<lparr> aw_occupied = True, aw_target_class = cls, aw_target_group = grp,
                      aw_payload = ev, aw_last_broadcast_ms = now_ms \<rparr>])"

definition clear_active_wash :: "u8 \<Rightarrow> u8 \<Rightarrow> active_wash list \<Rightarrow> active_wash list" where
  "clear_active_wash cls grp ws =
     (case find_active_wash_slot cls grp ws of None \<Rightarrow> ws
      | Some i \<Rightarrow> ws[i := (ws ! i)\<lparr> aw_occupied := False \<rparr>])"

section \<open>Routing\<close>

text \<open>What the Director's own outputs are told.\<close>

datatype local_call =
    LcPulse u8 rgb_pulse_event
  | LcWash u8 light_wash_event
  | LcWashEnd u8 u8
  | LcWashPulse u8 rgb_pulse_event

datatype dal_event = OnWire air | ToIr local_call | ToScreen local_call | ToStrip local_call

text \<open>The bookkeeping of a driver: whether its registration succeeded, whether the operator enabled it,
  and its send counter.\<close>

record gate =
  gt_registered :: bool
  gt_enabled :: bool
  gt_sends :: u32

datatype transport = TransportLocal | TransportIrPixmob | TransportEspNowBroadcast

datatype CapabilityId =
    RgbPulse | RgbStatic | DisplayShowText | DisplayClear | DisplayFillRect | DisplayMeter | BatteryLevel
  | AssignDeviceGroup | AudioFrame | SpectrumFrame | ButtonPress | EspNowInbound | DmxInbound

record device =
  ad_name :: bytes
  ad_transport :: transport
  ad_outputs :: "CapabilityId list"
  ad_group_id :: u8

record dal =
  dl_driver :: driver
  dl_wire :: gate
  dl_ir :: gate
  dl_screen :: gate
  dl_strip :: gate
  dl_devices :: "device list"
  dl_washes :: "active_wash list"

abbreviation kWashSlots :: u8 where "kWashSlots \<equiv> 10"
abbreviation kMaxDevices :: nat where "kMaxDevices \<equiv> 48"

definition bump :: "gate \<Rightarrow> gate" where
  "bump g = g\<lparr> gt_sends := gt_sends g + 1 \<rparr>"

definition live_gate :: "gate \<Rightarrow> bool" where
  "live_gate g \<longleftrightarrow> gt_registered g \<and> gt_enabled g"

definition register_device :: "device \<Rightarrow> dal \<Rightarrow> bool \<times> dal" where
  "register_device d s =
     (if length (dl_devices s) \<ge> kMaxDevices then (False, s)
      else if find (\<lambda>x. ad_name x = ad_name d) (dl_devices s) \<noteq> None then (False, s)
      else (True, s\<lparr> dl_devices := dl_devices s @ [d] \<rparr>))"

definition ir_out :: "bool \<Rightarrow> local_call \<Rightarrow> dal \<Rightarrow> dal_event list \<times> dal" where
  "ir_out go c s = (if go then ([ToIr c], s\<lparr> dl_ir := bump (dl_ir s) \<rparr>) else ([], s))"

definition screen_out :: "bool \<Rightarrow> local_call \<Rightarrow> dal \<Rightarrow> dal_event list \<times> dal" where
  "screen_out go c s = (if go then ([ToScreen c], s\<lparr> dl_screen := bump (dl_screen s) \<rparr>) else ([], s))"

definition strip_out :: "bool \<Rightarrow> local_call \<Rightarrow> dal \<Rightarrow> dal_event list \<times> dal" where
  "strip_out go c s = (if go then ([ToStrip c], s\<lparr> dl_strip := bump (dl_strip s) \<rparr>) else ([], s))"

definition dispatch_output_class_group ::
  "drv_env \<Rightarrow> u8 \<Rightarrow> u8 \<Rightarrow> rgb_pulse_event \<Rightarrow> dal \<Rightarrow> bool \<times> dal_event list \<times> dal" where
  "dispatch_output_class_group e cls grp ev s =
     (let (wire_ok, e1, s1) =
            (if live_gate (dl_wire s)
             then (case send_light e cls grp ev (dl_driver s) of (ok, airs, d) \<Rightarrow>
                     (ok, map OnWire airs,
                      s\<lparr> dl_driver := d, dl_wire := (if ok then bump (dl_wire s) else dl_wire s) \<rparr>))
             else (False, [], s));
          light = (cls = 0 \<or> cls = 1);
          (e2, s2) = ir_out (light \<and> live_gate (dl_ir s1)) (LcPulse grp ev) s1;
          (e3, s3) = screen_out ((cls = 0 \<or> cls = 2) \<and> live_gate (dl_screen s2)) (LcPulse grp ev) s2;
          (e4, s4) = strip_out (light \<and> live_gate (dl_strip s3)) (LcPulse grp ev) s3
      in (wire_ok, e1 @ e2 @ e3 @ e4, s4))"

text \<open>The legacy route by device name; \<open>ok\<close> is the answer of a driver of the Director itself.\<close>

definition dispatch_pulse ::
  "drv_env \<Rightarrow> bool \<Rightarrow> bytes \<Rightarrow> rgb_pulse_event \<Rightarrow> dal \<Rightarrow> bool \<times> dal_event list \<times> dal" where
  "dispatch_pulse e ok target ev s =
     (case find (\<lambda>d. ad_name d = target) (dl_devices s) of
        None \<Rightarrow> (False, [], s)
      | Some d \<Rightarrow>
          if RgbPulse \<notin> set (ad_outputs d) then (False, [], s)
          else (case ad_transport d of
              TransportEspNowBroadcast \<Rightarrow>
                if \<not> live_gate (dl_wire s) then (False, [], s)
                else (case send_light e 0 (ad_group_id d) ev (dl_driver s) of (ok, airs, dr) \<Rightarrow>
                        (ok, map OnWire airs,
                         s\<lparr> dl_driver := dr, dl_wire := (if ok then bump (dl_wire s) else dl_wire s) \<rparr>))
            | TransportIrPixmob \<Rightarrow>
                if \<not> live_gate (dl_ir s) then (False, [], s)
                else (ok, [ToIr (LcPulse (ad_group_id d) ev)],
                      if ok then s\<lparr> dl_ir := bump (dl_ir s) \<rparr> else s)
            | TransportLocal \<Rightarrow>
                if \<not> live_gate (dl_screen s) then (False, [], s)
                else (ok, [ToScreen (LcPulse (ad_group_id d) ev)],
                      if ok then s\<lparr> dl_screen := bump (dl_screen s) \<rparr> else s)))"

definition render_fx ::
  "drv_env \<Rightarrow> bool \<Rightarrow> bytes \<Rightarrow> rgb_pulse_event \<Rightarrow> dal \<Rightarrow> bool \<times> dal_event list \<times> dal" where
  "render_fx e ok target ev s =
     (case parse_target_class_group target of
        Some (cls, grp) \<Rightarrow> dispatch_output_class_group e cls grp ev s
      | None \<Rightarrow> dispatch_pulse e ok target ev s)"

text \<open>The wash calls of the Director's own light outputs: the infrared driver knows ten groups.\<close>

definition wash_loopback :: "u8 \<Rightarrow> u8 \<Rightarrow> local_call \<Rightarrow> dal \<Rightarrow> dal_event list \<times> dal" where
  "wash_loopback cls grp c s =
     (if cls = 0 \<or> cls = 1 then
        (case ir_out (gt_enabled (dl_ir s) \<and> grp < kWashSlots) c s of (e1, s1) \<Rightarrow>
         case strip_out (gt_enabled (dl_strip s1)) c s1 of (e2, s2) \<Rightarrow> (e1 @ e2, s2))
      else ([], s))"

definition render_wash ::
  "drv_env \<Rightarrow> bytes \<Rightarrow> light_wash_event \<Rightarrow> dal \<Rightarrow> bool \<times> dal_event list \<times> dal" where
  "render_wash e target ev s =
     (case parse_target_class_group target of
        None \<Rightarrow> (False, [], s)
      | Some (cls, grp) \<Rightarrow>
          if \<not> gt_enabled (dl_wire s) then (False, [], s)
          else (case send_wash e cls grp ev (dl_driver s) of (ok, airs, d) \<Rightarrow>
                let s1 = s\<lparr> dl_driver := d \<rparr>;
                    s2 = (if ok then s1\<lparr> dl_wire := bump (dl_wire s1),
                                        dl_washes := record_active_wash cls grp ev (de_now e) (dl_washes s1) \<rparr>
                          else s1)
                in case wash_loopback cls grp (LcWash grp ev) s2 of (e2, s3) \<Rightarrow>
                     (ok, map OnWire airs @ e2, s3)))"

definition render_wash_end ::
  "drv_env \<Rightarrow> bytes \<Rightarrow> u8 \<Rightarrow> dal \<Rightarrow> bool \<times> dal_event list \<times> dal" where
  "render_wash_end e target release_time s =
     (case parse_target_class_group target of
        None \<Rightarrow> (False, [], s)
      | Some (cls, grp) \<Rightarrow>
          if \<not> gt_enabled (dl_wire s) then (False, [], s)
          else (case send_wash_end e cls grp release_time (dl_driver s) of (ok, airs, d) \<Rightarrow>
                let s1 = s\<lparr> dl_driver := d \<rparr>;
                    s2 = (if ok then s1\<lparr> dl_wire := bump (dl_wire s1),
                                        dl_washes := clear_active_wash cls grp (dl_washes s1) \<rparr>
                          else s1)
                in case wash_loopback cls grp (LcWashEnd grp release_time) s2 of (e2, s3) \<Rightarrow>
                     (ok, map OnWire airs @ e2, s3)))"

definition render_wash_pulse ::
  "drv_env \<Rightarrow> bytes \<Rightarrow> rgb_pulse_event \<Rightarrow> dal \<Rightarrow> bool \<times> dal_event list \<times> dal" where
  "render_wash_pulse e target ev s =
     (case parse_target_class_group target of
        None \<Rightarrow> (False, [], s)
      | Some (cls, grp) \<Rightarrow>
          if \<not> gt_enabled (dl_wire s) then (False, [], s)
          else (case send_wash_pulse e cls grp ev (dl_driver s) of (ok, airs, d) \<Rightarrow>
                let s1 = s\<lparr> dl_driver := d \<rparr>;
                    s2 = (if ok then s1\<lparr> dl_wire := bump (dl_wire s1) \<rparr> else s1)
                in case wash_loopback cls grp (LcWashPulse grp ev) s2 of (e2, s3) \<Rightarrow>
                     (ok, map OnWire airs @ e2, s3)))"

text \<open>The refresh of one slot, and of all of them in order.\<close>

definition refresh_slot :: "drv_env \<Rightarrow> nat \<Rightarrow> dal \<Rightarrow> dal_event list \<times> dal" where
  "refresh_slot e i s =
     (let w = dl_washes s ! i
      in if \<not> aw_occupied w then ([], s)
         else if de_now e - aw_last_broadcast_ms w < kWashRefreshPeriodMs then ([], s)
         else case send_wash e (aw_target_class w) (aw_target_group w) (aw_payload w) (dl_driver s) of
                (ok, airs, d) \<Rightarrow>
                  (map OnWire airs,
                   if ok then s\<lparr> dl_driver := d, dl_wire := bump (dl_wire s),
                                 dl_washes := (dl_washes s)[i := w\<lparr> aw_last_broadcast_ms := de_now e \<rparr>] \<rparr>
                   else s\<lparr> dl_driver := d \<rparr>))"

fun refresh_from :: "drv_env \<Rightarrow> nat list \<Rightarrow> dal \<Rightarrow> dal_event list \<times> dal" where
  "refresh_from e [] s = ([], s)"
| "refresh_from e (i # is) s =
     (case refresh_slot e i s of (e1, s1) \<Rightarrow> case refresh_from e is s1 of (e2, s2) \<Rightarrow> (e1 @ e2, s2))"

definition refresh_active_washes :: "drv_env \<Rightarrow> bool \<Rightarrow> dal \<Rightarrow> dal_event list \<times> dal" where
  "refresh_active_washes e any_binding_can_wash s =
     (if \<not> any_binding_can_wash then ([], s)
      else if \<not> gt_enabled (dl_wire s) then ([], s)
      else refresh_from e [0..<kMaxActiveWashes] s)"

section \<open>The table of active washes\<close>

definition wash_key :: "active_wash \<Rightarrow> u8 \<times> u8" where
  "wash_key w = (aw_target_class w, aw_target_group w)"

definition wash_inv :: "active_wash list \<Rightarrow> bool" where
  "wash_inv ws \<longleftrightarrow> length ws = kMaxActiveWashes
     \<and> (\<forall>i < length ws. \<forall>j < length ws. aw_occupied (ws ! i) \<and> aw_occupied (ws ! j)
          \<and> wash_key (ws ! i) = wash_key (ws ! j) \<longrightarrow> i = j)"

text \<open>The table as a map from targets to washes.\<close>

definition wash_of :: "active_wash list \<Rightarrow> u8 \<times> u8 \<Rightarrow> light_wash_event option" where
  "wash_of ws k = map_option (\<lambda>i. aw_payload (ws ! i)) (find_active_wash_slot (fst k) (snd k) ws)"

lemma first_slot_SomeD: "first_slot p xs = Some i \<Longrightarrow> i < length xs \<and> p (xs ! i) \<and> (\<forall>j < i. \<not> p (xs ! j))"
proof (induction xs arbitrary: i)
  case Nil
  then show ?case by simp
next
  case (Cons x xs)
  then show ?case by (cases i) (auto split: if_splits simp: less_Suc_eq_0_disj)
qed

lemma first_slot_None: "first_slot p xs = None \<longleftrightarrow> (\<forall>i < length xs. \<not> p (xs ! i))"
  by (induction xs) (auto simp: less_Suc_eq_0_disj)

lemma holds_wash_key: "holds_wash c g w \<longleftrightarrow> aw_occupied w \<and> wash_key w = (c, g)"
  by (auto simp: holds_wash_def wash_key_def)

lemma wash_of_iff:
  assumes "wash_inv ws"
  shows "wash_of ws k = Some e \<longleftrightarrow>
    (\<exists>i < length ws. aw_occupied (ws ! i) \<and> wash_key (ws ! i) = k \<and> aw_payload (ws ! i) = e)"
proof (cases "first_slot (holds_wash (fst k) (snd k)) ws")
  case None
  then show ?thesis
    using first_slot_None [of "holds_wash (fst k) (snd k)" ws]
    by (auto simp: wash_of_def find_active_wash_slot_def holds_wash_key)
next
  case (Some i)
  from first_slot_SomeD [OF this] have i: "i < length ws" "aw_occupied (ws ! i)" "wash_key (ws ! i) = k"
    by (simp_all add: holds_wash_key)
  then show ?thesis
    using Some assms by (auto simp: wash_of_def find_active_wash_slot_def wash_inv_def)
qed

lemma wash_of_None:
  "wash_of ws k = None \<longleftrightarrow> (\<forall>i < length ws. aw_occupied (ws ! i) \<longrightarrow> wash_key (ws ! i) \<noteq> k)"
  using first_slot_None [of "holds_wash (fst k) (snd k)" ws]
  by (auto simp: wash_of_def find_active_wash_slot_def holds_wash_key)

text \<open>Writing one slot: with a key that no other slot holds, the map changes at the old and the new key.\<close>

lemma wash_of_update:
  assumes "wash_inv ws" and "i < length ws"
    and "aw_occupied w \<Longrightarrow> \<forall>j < length ws. j \<noteq> i \<and> aw_occupied (ws ! j) \<longrightarrow> wash_key (ws ! j) \<noteq> wash_key w"
  shows "wash_inv (ws[i := w])"
    and "wash_of (ws[i := w]) =
      (let m = (if aw_occupied (ws ! i) then (wash_of ws)(wash_key (ws ! i) := None) else wash_of ws)
       in if aw_occupied w then m(wash_key w \<mapsto> aw_payload w) else m)"
proof -
  show inv: "wash_inv (ws[i := w])" using assms by (auto simp: wash_inv_def nth_list_update) 
  show "wash_of (ws[i := w]) =
      (let m = (if aw_occupied (ws ! i) then (wash_of ws)(wash_key (ws ! i) := None) else wash_of ws)
       in if aw_occupied w then m(wash_key w \<mapsto> aw_payload w) else m)" (is "_ = ?m")
  proof
    fix k
    define other where "other k e \<longleftrightarrow> (\<exists>j < length ws. j \<noteq> i \<and> aw_occupied (ws ! j)
      \<and> wash_key (ws ! j) = k \<and> aw_payload (ws ! j) = e)" for k e
    have new: "wash_of (ws[i := w]) k = Some e \<longleftrightarrow>
        (aw_occupied w \<and> wash_key w = k \<and> aw_payload w = e) \<or> other k e" for k e
      unfolding wash_of_iff [OF inv] other_def using assms(2) by (auto simp: nth_list_update)
    have old: "wash_of ws k = Some e \<longleftrightarrow>
        (aw_occupied (ws ! i) \<and> wash_key (ws ! i) = k \<and> aw_payload (ws ! i) = e) \<or> other k e" for k e
      unfolding wash_of_iff [OF assms(1)] other_def using assms(2) by auto
    have u1: "\<not> other (wash_key (ws ! i)) e" if "aw_occupied (ws ! i)" for e
      using that assms(1,2) unfolding other_def by (auto simp: wash_inv_def)
    have u2: "\<not> other (wash_key w) e" if "aw_occupied w" for e
      using that assms(3) unfolding other_def by blast
    have "wash_of (ws[i := w]) k = Some e \<longleftrightarrow> ?m k = Some e" for e
      using new [of k e] old [of k e] u1 [of e] u2 [of e] by (auto simp: Let_def)
    then show "wash_of (ws[i := w]) k = ?m k" by (metis not_None_eq)
  qed
qed

lemma scan_place_free:
  "\<exists>w \<in> set ws. \<not> aw_occupied w \<Longrightarrow>
    \<exists>j < length ws. scan_place ws i oldest ts = i + j \<and> \<not> aw_occupied (ws ! j)"
proof (induction ws arbitrary: i oldest ts)
  case Nil
  then show ?case by simp
next
  case (Cons w ws)
  show ?case
  proof (cases "aw_occupied w")
    case True
    then have "\<exists>w \<in> set ws. \<not> aw_occupied w" using Cons.prems by auto
    from Cons.IH [OF this, of "i + 1"] True show ?thesis by (fastforce intro: exI [where x = "Suc _"])
  qed (auto intro: exI [where x = 0])
qed

lemma scan_place_oldest:
  "\<forall>w \<in> set ws. aw_occupied w \<Longrightarrow>
    (scan_place ws i oldest ts = oldest \<and> (\<forall>w \<in> set ws. ts \<le> aw_last_broadcast_ms w))
    \<or> (\<exists>j < length ws. scan_place ws i oldest ts = i + j \<and> aw_last_broadcast_ms (ws ! j) < ts
        \<and> (\<forall>w \<in> set ws. aw_last_broadcast_ms (ws ! j) \<le> aw_last_broadcast_ms w))"
proof (induction ws arbitrary: i oldest ts)
  case Nil
  then show ?case by simp
next
  case (Cons w ws)
  note IH = Cons.IH [of "i + 1" "if aw_last_broadcast_ms w < ts then i else oldest"
      "if aw_last_broadcast_ms w < ts then aw_last_broadcast_ms w else ts"]
  have occ: "aw_occupied w" "\<forall>w \<in> set ws. aw_occupied w" using Cons.prems by simp_all
  show ?case
  proof (cases "aw_last_broadcast_ms w < ts")
    case True
    from IH [OF occ(2)] show ?thesis
    proof
      assume "scan_place ws (i + 1) (if aw_last_broadcast_ms w < ts then i else oldest)
          (if aw_last_broadcast_ms w < ts then aw_last_broadcast_ms w else ts)
        = (if aw_last_broadcast_ms w < ts then i else oldest)
        \<and> (\<forall>v \<in> set ws. (if aw_last_broadcast_ms w < ts then aw_last_broadcast_ms w else ts)
            \<le> aw_last_broadcast_ms v)"
      then show ?thesis using True occ(1) by (intro disjI2 exI [where x = 0]) simp
    next
      assume "\<exists>j < length ws. scan_place ws (i + 1) (if aw_last_broadcast_ms w < ts then i else oldest)
          (if aw_last_broadcast_ms w < ts then aw_last_broadcast_ms w else ts) = i + 1 + j
        \<and> aw_last_broadcast_ms (ws ! j) < (if aw_last_broadcast_ms w < ts then aw_last_broadcast_ms w else ts)
        \<and> (\<forall>v \<in> set ws. aw_last_broadcast_ms (ws ! j) \<le> aw_last_broadcast_ms v)"
      then obtain j where "j < length ws" "scan_place ws (i + 1) i (aw_last_broadcast_ms w) = i + 1 + j"
        "aw_last_broadcast_ms (ws ! j) < aw_last_broadcast_ms w"
        "\<forall>v \<in> set ws. aw_last_broadcast_ms (ws ! j) \<le> aw_last_broadcast_ms v" using True by auto
      then show ?thesis using True occ(1) by (intro disjI2 exI [where x = "Suc j"]) auto
    qed
  next
    case False
    from IH [OF occ(2)] False occ(1) show ?thesis
    proof (elim disjE exE conjE)
      fix j assume "j < length ws"
        "scan_place ws (i + 1) (if aw_last_broadcast_ms w < ts then i else oldest)
          (if aw_last_broadcast_ms w < ts then aw_last_broadcast_ms w else ts) = i + 1 + j"
        "aw_last_broadcast_ms (ws ! j) < (if aw_last_broadcast_ms w < ts then aw_last_broadcast_ms w else ts)"
        "\<forall>w \<in> set ws. aw_last_broadcast_ms (ws ! j) \<le> aw_last_broadcast_ms w"
      then show ?thesis using False occ(1) by (intro disjI2 exI [where x = "Suc j"]) auto
    qed (use False in \<open>intro disjI1; simp\<close>)
  qed
qed

text \<open>Where a new wash goes: to a free slot, else in the place of the longest unrefreshed one.\<close>

lemma record_cases:
  assumes "wash_inv ws" and "wash_of ws (c, g) = None"
  obtains i where "i < length ws" and "find_active_wash_slot c g ws = None"
    and "scan_place ws 0 0 (aw_last_broadcast_ms (ws ! 0)) = i"
    and "\<not> aw_occupied (ws ! i) \<or> (\<forall>w \<in> set ws. aw_occupied w \<and> aw_last_broadcast_ms (ws ! i) \<le> aw_last_broadcast_ms w)"
proof -
  have len: "0 < length ws" using assms(1) by (simp add: wash_inv_def)
  have none: "find_active_wash_slot c g ws = None" using assms(2) by (simp add: wash_of_def)
  show ?thesis
  proof (cases "\<exists>w \<in> set ws. \<not> aw_occupied w")
    case True
    from scan_place_free [OF this, of 0 0] that none show ?thesis by force
  next
    case False
    then have "\<forall>w \<in> set ws. aw_occupied w" by blast
    from scan_place_oldest [OF this, of 0 0 "aw_last_broadcast_ms (ws ! 0)"] this len none that [of 0] that
    show ?thesis by force
  qed
qed

lemma record_active_wash_map:
  assumes "wash_inv ws"
  shows "wash_inv (record_active_wash c g ev now ws)"
    and "wash_of (record_active_wash c g ev now ws) = (wash_of ws)((c, g) \<mapsto> ev)
      \<or> wash_of ws (c, g) = None \<and> (\<forall>w \<in> set ws. aw_occupied w)
        \<and> (\<exists>v \<in> set ws. (\<forall>w \<in> set ws. aw_last_broadcast_ms v \<le> aw_last_broadcast_ms w)
            \<and> wash_of (record_active_wash c g ev now ws)
              = (wash_of ws)(wash_key v := None, (c, g) \<mapsto> ev))"
proof -
  let ?w = "\<lparr> aw_occupied = True, aw_target_class = c, aw_target_group = g, aw_payload = ev,
    aw_last_broadcast_ms = now \<rparr>"
  have key: "wash_key ?w = (c, g)" by (simp add: wash_key_def)
  have "wash_inv (record_active_wash c g ev now ws) \<and>
    (wash_of (record_active_wash c g ev now ws) = (wash_of ws)((c, g) \<mapsto> ev)
      \<or> wash_of ws (c, g) = None \<and> (\<forall>w \<in> set ws. aw_occupied w)
        \<and> (\<exists>v \<in> set ws. (\<forall>w \<in> set ws. aw_last_broadcast_ms v \<le> aw_last_broadcast_ms w)
            \<and> wash_of (record_active_wash c g ev now ws)
              = (wash_of ws)(wash_key v := None, (c, g) \<mapsto> ev)))"
  proof (cases "wash_of ws (c, g)")
    case None
    then obtain i where i: "i < length ws" and f: "find_active_wash_slot c g ws = None"
      and p: "scan_place ws 0 0 (aw_last_broadcast_ms (ws ! 0)) = i"
      and o: "\<not> aw_occupied (ws ! i) \<or> (\<forall>w \<in> set ws. aw_occupied w \<and> aw_last_broadcast_ms (ws ! i) \<le> aw_last_broadcast_ms w)"
      by (rule record_cases [OF assms])
    have r: "record_active_wash c g ev now ws = ws[i := ?w]" using f p by (simp add: record_active_wash_def)
    have "\<forall>j < length ws. j \<noteq> i \<and> aw_occupied (ws ! j) \<longrightarrow> wash_key (ws ! j) \<noteq> wash_key ?w"
      using None unfolding wash_of_None key by blast
    note upd = wash_of_update [OF assms i this]
    have "aw_occupied (ws ! i) \<Longrightarrow> wash_key (ws ! i) \<noteq> (c, g)" using None i unfolding wash_of_None by blast
    then show ?thesis unfolding r using upd key o i None by (auto simp: Let_def)
  next
    case (Some e)
    then obtain i where f: "find_active_wash_slot c g ws = Some i" by (auto simp: wash_of_def)
    then have i: "i < length ws" "aw_occupied (ws ! i)" "wash_key (ws ! i) = (c, g)"
      using first_slot_SomeD [of "holds_wash c g" ws i] by (auto simp: find_active_wash_slot_def holds_wash_key)
    have r: "record_active_wash c g ev now ws = ws[i := ?w]" using f by (simp add: record_active_wash_def)
    have "\<forall>j < length ws. j \<noteq> i \<and> aw_occupied (ws ! j) \<longrightarrow> wash_key (ws ! j) \<noteq> wash_key ?w"
      using assms i key by (auto simp: wash_inv_def)
    note upd = wash_of_update [OF assms i(1) this]
    then show ?thesis unfolding r using key i by (simp add: Let_def)
  qed
  then show "wash_inv (record_active_wash c g ev now ws)"
    and "wash_of (record_active_wash c g ev now ws) = (wash_of ws)((c, g) \<mapsto> ev)
      \<or> wash_of ws (c, g) = None \<and> (\<forall>w \<in> set ws. aw_occupied w)
        \<and> (\<exists>v \<in> set ws. (\<forall>w \<in> set ws. aw_last_broadcast_ms v \<le> aw_last_broadcast_ms w)
            \<and> wash_of (record_active_wash c g ev now ws)
              = (wash_of ws)(wash_key v := None, (c, g) \<mapsto> ev))" by blast+
qed

lemma clear_active_wash_map:
  assumes "wash_inv ws"
  shows "wash_inv (clear_active_wash c g ws)"
    and "wash_of (clear_active_wash c g ws) = (wash_of ws)((c, g) := None)"
proof -
  have "wash_inv (clear_active_wash c g ws)
    \<and> wash_of (clear_active_wash c g ws) = (wash_of ws)((c, g) := None)"
  proof (cases "find_active_wash_slot c g ws")
    case None
    then have "wash_of ws (c, g) = None" by (simp add: wash_of_def)
    then show ?thesis using None assms by (auto simp: clear_active_wash_def)
  next
    case (Some i)
    then have i: "i < length ws" "aw_occupied (ws ! i)" "wash_key (ws ! i) = (c, g)"
      using first_slot_SomeD [of "holds_wash c g" ws i] by (auto simp: find_active_wash_slot_def holds_wash_key)
    have "clear_active_wash c g ws = ws[i := (ws ! i)\<lparr> aw_occupied := False \<rparr>]"
      using Some by (simp add: clear_active_wash_def)
    then show ?thesis using wash_of_update [OF assms i(1), of "(ws ! i)\<lparr> aw_occupied := False \<rparr>"] i
      by (simp add: Let_def)
  qed
  then show "wash_inv (clear_active_wash c g ws)"
    and "wash_of (clear_active_wash c g ws) = (wash_of ws)((c, g) := None)" by blast+
qed

text \<open>The table of active washes is a map of bounded size. From a table without duplicate targets,
  recording and clearing keep it so; clearing removes exactly the target's wash; recording sets the
  target's wash and changes no other, except that a new target in a full table takes the place of a
  wash that was broadcast longest ago.\<close>

theorem active_washes_map:
  assumes "wash_inv ws"
  shows "wash_inv (record_active_wash c g ev now ws) \<and> wash_inv (clear_active_wash c g ws)
    \<and> wash_of (clear_active_wash c g ws) = (wash_of ws)((c, g) := None)
    \<and> (wash_of (record_active_wash c g ev now ws) = (wash_of ws)((c, g) \<mapsto> ev)
      \<or> wash_of ws (c, g) = None \<and> (\<forall>w \<in> set ws. aw_occupied w)
        \<and> (\<exists>v \<in> set ws. (\<forall>w \<in> set ws. aw_last_broadcast_ms v \<le> aw_last_broadcast_ms w)
            \<and> wash_of (record_active_wash c g ev now ws)
              = (wash_of ws)(wash_key v := None, (c, g) \<mapsto> ev)))"
  using record_active_wash_map [OF assms] clear_active_wash_map [OF assms] by blast

lemma no_washes_inv: "wash_inv (replicate kMaxActiveWashes no_wash)"
  by (simp add: wash_inv_def no_wash_def)

theorem active_washes_map_witness:
  "wash_of (record_active_wash 0 3 (aw_payload no_wash) 77 (replicate kMaxActiveWashes no_wash)) (0, 3)
    = Some (aw_payload no_wash)"
proof -
  have free: "\<not> (\<forall>w \<in> set (replicate kMaxActiveWashes no_wash). aw_occupied w)" by (simp add: no_wash_def)
  show ?thesis
    using active_washes_map [OF no_washes_inv, of 0 3 "aw_payload no_wash" 77] free
    by (elim conjE disjE) (simp_all del: replicate.simps)
qed

section \<open>The refresh\<close>

definition wash_due :: "u32 \<Rightarrow> active_wash \<Rightarrow> bool" where
  "wash_due now w \<longleftrightarrow> aw_occupied w \<and> now - aw_last_broadcast_ms w \<ge> kWashRefreshPeriodMs"

lemma refresh_slot_idle: "\<not> wash_due (de_now e) (dl_washes s ! i) \<Longrightarrow> refresh_slot e i s = ([], s)"
  by (auto simp: refresh_slot_def wash_due_def not_le Let_def)

lemma refresh_idle: "\<forall>i \<in> set is. \<not> wash_due (de_now e) (dl_washes s ! i) \<Longrightarrow> refresh_from e is s = ([], s)"
  by (induction "is") (simp_all add: refresh_slot_idle)

text \<open>Once a frame went out the airtime cap refuses the rest of the pass.\<close>

lemma refresh_capped:
  "dv_active (dl_driver s) \<Longrightarrow> dv_last_airtime_send_ms (dl_driver s) = de_now e \<Longrightarrow>
    \<exists>s'. refresh_from e is s = ([], s') \<and> dl_washes s' = dl_washes s"
proof (induction "is" arbitrary: s)
  case Nil
  then show ?case by simp
next
  case (Cons i "is")
  let ?d = "dl_driver s" and ?w = "dl_washes s ! i"
  have "send_wash e c g p ?d = (False, [], ?d\<lparr> dv_airtime_drop_count := dv_airtime_drop_count ?d + 1 \<rparr>)" for c g p
    using Cons.prems gated_send_capped [of ?d e] by (simp add: send_wash_def)
  then have "refresh_slot e i s = ([], s) \<or> refresh_slot e i s
      = ([], s\<lparr> dl_driver := ?d\<lparr> dv_airtime_drop_count := dv_airtime_drop_count ?d + 1 \<rparr> \<rparr>)"
    by (simp add: refresh_slot_def Let_def)
  then show ?case
    using Cons.IH [of s] Cons.IH [of "s\<lparr> dl_driver := ?d\<lparr> dv_airtime_drop_count := dv_airtime_drop_count ?d + 1 \<rparr> \<rparr>"]
      Cons.prems by auto
qed

lemma refresh_from_append:
  "refresh_from e (xs @ ys) s =
    (case refresh_from e xs s of (e1, s1) \<Rightarrow> case refresh_from e ys s1 of (e2, s2) \<Rightarrow> (e1 @ e2, s2))"
  by (induction xs arbitrary: s) (simp_all add: case_prod_beta)

text \<open>The refresh repeats one wash at a time, the right one. When washes are due (recorded, and not
  broadcast for ten seconds) and the airtime cap is open, a refresh pass puts exactly one frame on the
  air: that of the first due slot, decoding at a receiver to the recorded event for the recorded target;
  this slot is stamped with the present time and every other slot keeps waiting for the next pass.\<close>

theorem refresh_sends_first_due:
  assumes "wash_inv (dl_washes s)" and "dv_active (dl_driver s)" and "gt_enabled (dl_wire s)" and "de_radio e"
    and "kMinSendIntervalMs \<le> de_now e - dv_last_airtime_send_ms (dl_driver s)"
    and "i < kMaxActiveWashes" and "wash_due (de_now e) (dl_washes s ! i)"
    and "\<forall>j < i. \<not> wash_due (de_now e) (dl_washes s ! j)"
  shows "\<exists>b h s'. refresh_active_washes e True s = ([OnWire (OnAir WASH b)], s')
    \<and> dl_washes s' = (dl_washes s)[i := (dl_washes s ! i)\<lparr> aw_last_broadcast_ms := de_now e \<rparr>]
    \<and> decode_header b h0 = (Ok, h) \<and> h_source_id h = ucast (dv_source_id (dl_driver s))
    \<and> decode_light_wash h (drop kHeaderSize b) out
        = (Ok, wash_payload (aw_target_class (dl_washes s ! i)) (aw_target_group (dl_washes s ! i))
                 (aw_payload (dl_washes s ! i)))"
proof -
  let ?w = "dl_washes s ! i"
  obtain b h d where send: "send_wash e (aw_target_class ?w) (aw_target_group ?w) (aw_payload ?w) (dl_driver s)
      = (True, [OnAir WASH b], d)" "dv_active d" "dv_last_airtime_send_ms d = de_now e"
    "decode_header b h0 = (Ok, h)" "h_source_id h = ucast (dv_source_id (dl_driver s))"
    "decode_light_wash h (drop kHeaderSize b) out
      = (Ok, wash_payload (aw_target_class ?w) (aw_target_group ?w) (aw_payload ?w))"
    by (rule send_wash_ready [OF assms(2,4,5)])
  let ?s1 = "s\<lparr> dl_driver := d, dl_wire := bump (dl_wire s),
    dl_washes := (dl_washes s)[i := ?w\<lparr> aw_last_broadcast_ms := de_now e \<rparr>] \<rparr>"
  have slot: "refresh_slot e i s = ([OnWire (OnAir WASH b)], ?s1)"
    using assms(7) send(1) by (auto simp: refresh_slot_def wash_due_def Let_def)
  have split: "[0..<kMaxActiveWashes] = [0..<i] @ i # [Suc i..<kMaxActiveWashes]"
    using assms(6) by (metis le_add_same_cancel1 less_imp_le upt_conv_Cons upt_add_eq_append zero_le le_add_diff_inverse)
  have before: "refresh_from e [0..<i] s = ([], s)" using assms(8) by (intro refresh_idle) auto
  obtain s' where "refresh_from e [Suc i..<kMaxActiveWashes] ?s1 = ([], s')" "dl_washes s' = dl_washes ?s1"
    using refresh_capped [of ?s1 e "[Suc i..<kMaxActiveWashes]"] send(2,3) by auto
  then have "refresh_active_washes e True s = ([OnWire (OnAir WASH b)], s')"
    using assms(3) before slot by (simp only: refresh_active_washes_def split refresh_from_append) simp
  then show ?thesis using send \<open>dl_washes s' = dl_washes ?s1\<close> by simp
qed

definition open_gate :: gate where
  "open_gate = \<lparr> gt_registered = True, gt_enabled = True, gt_sends = 0 \<rparr>"

definition dal_of :: "driver \<Rightarrow> dal" where
  "dal_of d = \<lparr> dl_driver = d, dl_wire = open_gate, dl_ir = open_gate, dl_screen = open_gate,
     dl_strip = open_gate, dl_devices = [], dl_washes = replicate kMaxActiveWashes no_wash \<rparr>"

definition sample_dal :: dal where
  "sample_dal = (dal_of sample_driver)\<lparr> dl_washes :=
     record_active_wash 0 3 (aw_payload no_wash) 77 (replicate kMaxActiveWashes no_wash) \<rparr>"

lemma sample_dal_washes:
  "dl_washes sample_dal = \<lparr> aw_occupied = True, aw_target_class = 0, aw_target_group = 3,
     aw_payload = aw_payload no_wash, aw_last_broadcast_ms = 77 \<rparr> # replicate 7 no_wash"
proof -
  have "replicate kMaxActiveWashes no_wash = no_wash # replicate 7 no_wash" by (simp add: numeral_eq_Suc)
  moreover have "\<not> aw_occupied no_wash" by (simp add: no_wash_def)
  ultimately show ?thesis
    by (simp add: sample_dal_def record_active_wash_def find_active_wash_slot_def holds_wash_def numeral_eq_Suc)
qed

theorem refresh_sends_first_due_witness:
  "\<exists>b s'. refresh_active_washes (sample_env\<lparr> de_now := 20000 \<rparr>) True sample_dal = ([OnWire (OnAir WASH b)], s')
    \<and> aw_last_broadcast_ms (dl_washes s' ! 0) = 20000"
proof -
  let ?e = "sample_env\<lparr> de_now := 20000 \<rparr>"
  have inv: "wash_inv (dl_washes sample_dal)"
    using record_active_wash_map(1) [OF no_washes_inv] by (simp add: sample_dal_def dal_of_def)
  have d: "dl_driver sample_dal = sample_driver" by (simp add: sample_dal_def dal_of_def)
  have act: "dv_active (dl_driver sample_dal)" using sample_driver_live by (simp add: d drv_live_def)
  have gate: "gt_enabled (dl_wire sample_dal)" by (simp add: sample_dal_def dal_of_def open_gate_def)
  have radio: "de_radio ?e" by (simp add: sample_env_def)
  have cap: "kMinSendIntervalMs \<le> de_now ?e - dv_last_airtime_send_ms (dl_driver sample_dal)"
    unfolding d by (simp add: drv_eval)
  have due: "wash_due (de_now ?e) (dl_washes sample_dal ! 0)" by (simp add: sample_dal_washes wash_due_def)
  obtain b s' where r: "refresh_active_washes ?e True sample_dal = ([OnWire (OnAir WASH b)], s')"
    and w: "dl_washes s' = (dl_washes sample_dal)[0 := (dl_washes sample_dal ! 0)\<lparr> aw_last_broadcast_ms := de_now ?e \<rparr>]"
    using refresh_sends_first_due [OF inv act gate radio cap _ due, of hb_out] by force
  from w have "aw_last_broadcast_ms (dl_washes s' ! 0) = 20000" by (simp add: sample_dal_washes)
  with r show ?thesis by blast
qed

end
