(* ===== verification/Float32.thy ===== *)
theory Float32
  imports Complex_Main Noct_Prelude
begin

text \<open>
  The C++ \<open>float\<close> of the light arithmetic: a finite value is a rational, an operation computes exactly
  and rounds its result to a single-precision number (24 significant bits, ties to even, subnormals
  down to \<open>2 ^ - 149\<close>). The locale \<open>rounding\<close> states what the clients use of the rounding: it is
  monotone, odd, and leaves the integers of the pixel arithmetic as they are; its lemmas bound scaled
  and blended channels. Infinities and NaN do not occur: no program quotient has a zero divisor and no
  value passes \<open>2 ^ 40\<close>.
\<close>

type_synonym flt = rat

definition round_even :: "rat \<Rightarrow> rat" where
  "round_even x =
     (let n = \<lfloor>x\<rfloor>; d = x - of_int n in
      of_int (if d < 1/2 then n else if 1/2 < d then n + 1 else if even n then n else n + 1))"

text \<open>Scaling the argument into \<open>[2^23, 2^24)\<close>, where the numbers of 24 bits are the integers.\<close>

fun fl_up :: "nat \<Rightarrow> rat \<Rightarrow> rat" where
  "fl_up n x =
     (if x < 2 ^ 23 then (case n of 0 \<Rightarrow> round_even x | Suc m \<Rightarrow> fl_up m (2 * x) / 2) else round_even x)"

fun fl_down :: "nat \<Rightarrow> rat \<Rightarrow> rat" where
  "fl_down n x =
     (if 2 ^ 24 \<le> x then (case n of 0 \<Rightarrow> round_even x | Suc m \<Rightarrow> 2 * fl_down m (x / 2)) else fl_up 149 x)"

definition fl :: "rat \<Rightarrow> flt" where
  "fl x = (if x < 0 then - fl_down 104 (- x) else fl_down 104 x)"

text \<open>\<open>static_cast<int>\<close> of a float cuts its fraction off.\<close>

definition fl_int :: "flt \<Rightarrow> int" where
  "fl_int x = (if x < 0 then - \<lfloor>- x\<rfloor> else \<lfloor>x\<rfloor>)"

declare fl_up.simps [simp del] fl_down.simps [simp del]

section \<open>Rounding is monotone and exact on the grid\<close>

lemma round_even_int [simp]: "round_even (of_int i) = of_int i"
  by (simp add: round_even_def)

lemma round_even_cases: "round_even x = of_int \<lfloor>x\<rfloor> \<or> round_even x = of_int \<lfloor>x\<rfloor> + 1"
  by (simp add: round_even_def Let_def)

lemma round_even_mono:
  assumes "x \<le> y"
  shows "round_even x \<le> round_even y"
proof (cases "\<lfloor>x\<rfloor> = \<lfloor>y\<rfloor>")
  case True
  then show ?thesis using assms by (auto simp: round_even_def Let_def)
next
  case False
  then have "\<lfloor>x\<rfloor> + 1 \<le> \<lfloor>y\<rfloor>" using floor_mono [OF assms] by linarith
  then have "of_int \<lfloor>x\<rfloor> + (1 :: rat) \<le> of_int \<lfloor>y\<rfloor>" by (metis of_int_1 of_int_add of_int_le_iff)
  then show ?thesis using round_even_cases [of x] round_even_cases [of y] by auto
qed

lemma round_even_up: "1/2 < d \<Longrightarrow> d < 1 \<Longrightarrow> round_even (of_int n + d) = of_int (n + 1)"
  by (simp add: round_even_def floor_unique [of n])

lemma round_even_numeral [simp]: "round_even (numeral k) = numeral k"
  using round_even_int [of "numeral k"] by simp

lemma fl_up_top: "x \<le> 2 ^ 23 \<Longrightarrow> fl_up n x \<le> 2 ^ 23"
proof (induction n arbitrary: x)
  case 0
  then show ?case using round_even_mono [OF 0] by (simp add: fl_up.simps)
next
  case (Suc n)
  show ?case
  proof (cases "2 * x \<le> 2 ^ 23")
    case True
    then have "fl_up n (2 * x) \<le> 2 ^ 23" by (rule Suc.IH)
    then show ?thesis using Suc.prems round_even_mono [OF Suc.prems] by (simp add: fl_up.simps [of "Suc n" x])
  next
    case False
    then have "fl_up n (2 * x) = round_even (2 * x)" by (simp add: fl_up.simps)
    moreover have "round_even (2 * x) \<le> 2 ^ 24" using round_even_mono [of "2 * x" "2 ^ 24"] Suc.prems by simp
    ultimately show ?thesis using round_even_mono [OF Suc.prems] by (simp add: fl_up.simps [of "Suc n" x])
  qed
qed

lemma fl_up_mono: "x \<le> y \<Longrightarrow> fl_up n x \<le> fl_up n y"
proof (induction n arbitrary: x y)
  case 0
  then show ?case by (simp add: fl_up.simps round_even_mono)
next
  case (Suc n)
  consider "y < 2 ^ 23" | "x < 2 ^ 23" "2 ^ 23 \<le> y" | "2 ^ 23 \<le> x" by linarith
  then show ?case
  proof cases
    case 1
    then show ?thesis using Suc.IH [of "2 * x" "2 * y"] Suc.prems by (simp add: fl_up.simps [of "Suc n"])
  next
    case 2
    have "fl_up (Suc n) x \<le> 2 ^ 23" using fl_up_top [of x "Suc n"] 2 by simp
    also have "\<dots> \<le> round_even y" using round_even_mono [OF 2(2)] by simp
    finally show ?thesis using 2 by (simp add: fl_up.simps [of "Suc n" y])
  next
    case 3
    then show ?thesis using Suc.prems by (simp add: fl_up.simps round_even_mono)
  qed
qed

lemma fl_down_bottom: "2 ^ 24 \<le> x \<Longrightarrow> 2 ^ 24 \<le> fl_down n x"
proof (induction n arbitrary: x)
  case 0
  then show ?case using round_even_mono [OF 0] by (simp add: fl_down.simps)
next
  case (Suc n)
  show ?case
  proof (cases "2 ^ 24 \<le> x / 2")
    case True
    then show ?thesis using Suc.IH [OF True] Suc.prems by (simp add: fl_down.simps [of "Suc n"])
  next
    case False
    then have "fl_down n (x / 2) = fl_up 149 (x / 2)" by (simp add: fl_down.simps)
    also have "\<dots> = round_even (x / 2)" using Suc.prems by (simp add: fl_up.simps)
    finally have "2 ^ 23 \<le> fl_down n (x / 2)" using round_even_mono [of "2 ^ 23" "x / 2"] Suc.prems by simp
    then show ?thesis using Suc.prems by (simp add: fl_down.simps [of "Suc n"])
  qed
qed

lemma fl_down_mono: "x \<le> y \<Longrightarrow> fl_down n x \<le> fl_down n y"
proof (induction n arbitrary: x y)
  case 0
  consider "y < 2 ^ 24" | "x < 2 ^ 24" "2 ^ 24 \<le> y" | "2 ^ 24 \<le> x" by linarith
  then show ?case
  proof cases
    case 1
    then show ?thesis using 0 by (simp add: fl_down.simps fl_up_mono)
  next
    case 2
    have "fl_up 149 x \<le> fl_up 149 (2 ^ 24)" using 2 by (simp add: fl_up_mono)
    also have "\<dots> = 2 ^ 24" by (simp add: fl_up.simps)
    finally show ?thesis using 2 round_even_mono [OF 2(2)] by (simp add: fl_down.simps)
  next
    case 3
    then show ?thesis using 0 by (simp add: fl_down.simps round_even_mono)
  qed
next
  case (Suc n)
  consider "y < 2 ^ 24" | "x < 2 ^ 24" "2 ^ 24 \<le> y" | "2 ^ 24 \<le> x" by linarith
  then show ?case
  proof cases
    case 1
    then show ?thesis using Suc.prems by (simp add: fl_down.simps fl_up_mono)
  next
    case 2
    have "fl_up 149 x \<le> fl_up 149 (2 ^ 24)" using 2 by (simp add: fl_up_mono)
    also have "\<dots> = 2 ^ 24" by (simp add: fl_up.simps)
    also have "\<dots> \<le> fl_down (Suc n) y" using fl_down_bottom [OF 2(2)] .
    finally show ?thesis using 2 by (simp add: fl_down.simps [of "Suc n" x])
  next
    case 3
    then show ?thesis using Suc.IH [of "x / 2" "y / 2"] Suc.prems by (simp add: fl_down.simps [of "Suc n"])
  qed
qed

lemma fl_up_int: "fl_up n (of_int i) = of_int i"
proof (induction n arbitrary: i)
  case 0
  then show ?case by (simp add: fl_up.simps)
next
  case (Suc n)
  have "fl_up n (2 * of_int i) = 2 * of_int i" using Suc.IH [of "2 * i"] by simp
  then show ?case by (simp add: fl_up.simps [of "Suc n"])
qed

lemma fl_up_half: "0 < n \<Longrightarrow> x < 2 ^ 23 \<Longrightarrow> 2 * x = of_int i \<Longrightarrow> fl_up n x = x"
  by (cases n) (simp_all add: fl_up.simps [of "Suc _" x] fl_up_int)

text \<open>A number whose binary digits end within the precision is kept; in general the rounding happens on the
  grid into which the number is scaled.\<close>

lemma fl_up_grid: "m \<le> n \<Longrightarrow> x * 2 ^ m < 2 ^ 23 \<Longrightarrow> x * 2 ^ m = of_int i \<Longrightarrow> 0 \<le> x \<Longrightarrow> fl_up n x = x"
proof (induction m arbitrary: n x)
  case 0
  then show ?case using fl_up_int [of n i] by simp
next
  case (Suc m)
  obtain k where n: "n = Suc k" using Suc.prems(1) by (cases n) auto
  have "x * 1 \<le> x * 2 ^ Suc m" using Suc.prems(4) by (intro mult_left_mono one_le_power) simp_all
  then have "x < 2 ^ 23" using Suc.prems(2) by simp
  moreover have "fl_up k (2 * x) = 2 * x" using Suc.prems n by (intro Suc.IH) (simp_all add: mult.assoc mult.left_commute)
  ultimately show ?case by (simp add: n fl_up.simps [of "Suc k"])
qed

lemma fl_up_scaled:
  "k \<le> n \<Longrightarrow> 2 ^ 23 \<le> x * 2 ^ k \<Longrightarrow> x * 2 ^ k < 2 ^ 24 \<Longrightarrow> fl_up n x = round_even (x * 2 ^ k) / 2 ^ k"
proof (induction k arbitrary: n x)
  case 0
  then show ?case by (simp add: fl_up.simps)
next
  case (Suc k)
  obtain m where n: "n = Suc m" using Suc.prems(1) by (cases n) auto
  have "0 < x * 2 ^ Suc k" using Suc.prems(2) by (rule less_le_trans [rotated]) simp
  then have "0 < x" by (simp add: zero_less_mult_iff)
  then have "x * (2 * 1) \<le> x * (2 * 2 ^ k)" by (intro mult_left_mono one_le_power) simp_all
  then have "x < 2 ^ 23" using Suc.prems(3) by simp
  moreover have "fl_up m (2 * x) = round_even (2 * x * 2 ^ k) / 2 ^ k"
    using Suc.prems n by (intro Suc.IH) (simp_all add: mult.assoc mult.left_commute)
  ultimately show ?case by (simp add: n fl_up.simps [of "Suc m"] mult.assoc mult.left_commute)
qed

lemma fl_down_int: "i < 2 ^ 24 \<Longrightarrow> fl_down n (of_int i) = of_int i"
  using of_int_less_iff [of i "2 ^ 24", where ?'a = rat] by (simp add: fl_down.simps [of n] fl_up_int)

lemma fl_int_exact: "\<bar>i\<bar> < 2 ^ 24 \<Longrightarrow> fl (of_int i) = of_int i"
  using fl_down_int [of i 104] fl_down_int [of "- i" 104] by (simp add: fl_def)

lemma fl_zero [simp]: "fl 0 = 0"
  using fl_int_exact [of 0] by simp

lemma fl_down_nonneg: "0 \<le> x \<Longrightarrow> 0 \<le> fl_down 104 x"
  using fl_down_mono [of 0 x 104] fl_zero by (simp add: fl_def)

lemma fl_mono: "x \<le> y \<Longrightarrow> fl x \<le> fl y"
  using fl_down_mono [of x y 104] fl_down_mono [of "- y" "- x" 104] fl_down_nonneg [of "- x"] fl_down_nonneg [of y]
  by (auto simp: fl_def)

lemma fl_minus: "fl (- x) = - fl x"
  using fl_zero by (cases "x = 0") (auto simp: fl_def)

lemma fl_grid:
  assumes "0 \<le> x" and "m \<le> 149" and "x * 2 ^ m = of_int i" and "x * 2 ^ m < 2 ^ 23"
  shows "fl x = x"
proof -
  have "x * 1 \<le> x * 2 ^ m" using assms(1) by (intro mult_left_mono one_le_power) simp_all
  then have "x < 2 ^ 24" using assms(4) by simp
  then show ?thesis using fl_up_grid [OF assms(2,4,3,1)] assms(1) by (simp add: fl_def fl_down.simps [of 104])
qed

text \<open>The intensity factor \<open>i / 255\<close> is always rounded up, by less than \<open>2 ^ - 24\<close>: its fractional digits
  repeat the byte \<open>i\<close> itself, so the first digit that is cut off is a one.\<close>

lemma fl_div_255:
  assumes "i \<le> 255"
  shows "of_nat i / 255 \<le> fl (of_nat i / 255) \<and> fl (of_nat i / 255) \<le> of_nat i / 255 + 1 / 2 ^ 24"
proof (cases "i = 0 \<or> i = 255")
  case True
  then show ?thesis using fl_int_exact [of 1] by auto
next
  case False
  obtain j where j: "j \<le> 7" "128 \<le> i * 2 ^ j" "i * 2 ^ j \<le> 254"
  proof -
    consider "128 \<le> i" | "64 \<le> i" "i < 128" | "32 \<le> i" "i < 64" | "16 \<le> i" "i < 32" | "8 \<le> i" "i < 16"
      | "4 \<le> i" "i < 8" | "2 \<le> i" "i < 4" | "i = 1" using False by linarith
    then show thesis
    proof cases
      case 1 then show ?thesis using that [of 0] False assms by simp
    next
      case 2 then show ?thesis using that [of 1] by simp
    next
      case 3 then show ?thesis using that [of 2] by simp
    next
      case 4 then show ?thesis using that [of 3] by simp
    next
      case 5 then show ?thesis using that [of 4] by simp
    next
      case 6 then show ?thesis using that [of 5] by simp
    next
      case 7 then show ?thesis using that [of 6] by simp
    next
      case 8 then show ?thesis using that [of 7] by simp
    qed
  qed
  let ?x = "of_nat i / 255 :: rat" and ?b = "i * 2 ^ j"
  have b: "128 \<le> (of_nat ?b :: rat)" "(of_nat ?b :: rat) \<le> 254"
    using j of_nat_mono [OF j(2), where ?'a = rat] of_nat_mono [OF j(3), where ?'a = rat] by simp_all
  have scaled: "?x * 2 ^ (24 + j) = of_int (int ?b * 65793) + of_nat ?b / 255"
    by (simp add: power_add field_simps)
  have re: "round_even (?x * 2 ^ (24 + j)) = of_int (int ?b * 65793 + 1)"
    unfolding scaled using b by (intro round_even_up) simp_all
  have range: "2 ^ 23 \<le> ?x * 2 ^ (24 + j)" "?x * 2 ^ (24 + j) < 2 ^ 24"
    unfolding scaled using b by (simp_all add: field_simps)
  have "fl ?x = fl_up 149 ?x" using assms by (simp add: fl_def fl_down.simps [of 104])
  also have "\<dots> = of_int (int ?b * 65793 + 1) / 2 ^ (24 + j)"
    using fl_up_scaled [OF _ range] j(1) re by simp
  finally have fl: "fl ?x = of_int (int ?b * 65793 + 1) / 2 ^ (24 + j)" .
  have x: "?x = (of_int (int ?b * 65793) + of_nat ?b / 255) / 2 ^ (24 + j)"
    by (subst scaled [symmetric]) simp
  have "fl ?x - ?x = (1 - of_nat ?b / 255) / 2 ^ (24 + j)"
    unfolding fl by (subst x) (simp add: field_simps)
  moreover have "0 \<le> (1 - of_nat ?b / 255) / (2 :: rat) ^ (24 + j)" using b by simp
  moreover have "(1 - of_nat ?b / 255) / (2 :: rat) ^ (24 + j) \<le> 1 / 2 ^ 24"
    using b by (intro frac_le) (simp_all add: power_add)
  ultimately show ?thesis by linarith
qed

section \<open>What the clients use of the rounding\<close>

locale rounding =
  fixes rd :: "rat \<Rightarrow> rat"
  assumes mono: "x \<le> y \<Longrightarrow> rd x \<le> rd y"
    and minus: "rd (- x) = - rd x"
    and whole: "\<bar>i\<bar> < 2 ^ 24 \<Longrightarrow> rd (of_int i) = of_int i"
begin

lemma whole_nat: "n < 2 ^ 24 \<Longrightarrow> rd (of_nat n) = of_nat n"
  using whole [of "int n"] by simp

lemma zero [simp]: "rd 0 = 0"
  using whole [of 0] by simp

lemma one [simp]: "rd 1 = 1"
  using whole [of 1] by simp

lemma nonneg: "0 \<le> x \<Longrightarrow> 0 \<le> rd x"
  using mono [of 0 x] by simp

text \<open>A fraction of a number below it lies in the unit interval.\<close>

lemma unit_quotient:
  assumes "0 \<le> x" and "x \<le> y"
  shows "0 \<le> rd (rd x / rd y) \<and> rd (rd x / rd y) \<le> 1"
proof -
  have "0 \<le> rd x" "rd x \<le> rd y" using assms by (simp_all add: nonneg mono)
  then have "0 \<le> rd x / rd y" "rd x / rd y \<le> 1" by (auto simp: divide_le_eq_1)
  then show ?thesis using nonneg [of "rd x / rd y"] mono [of "rd x / rd y" 1] by simp
qed

lemma unit_complement: "0 \<le> t \<Longrightarrow> t \<le> 1 \<Longrightarrow> 0 \<le> rd (1 - t) \<and> rd (1 - t) \<le> 1"
  using nonneg [of "1 - t"] mono [of "1 - t" 1] by simp

text \<open>Scaling by a factor of the unit interval.\<close>

lemma scaled:
  assumes "0 \<le> x" and "x \<le> of_nat n" and "n < 2 ^ 24" and "0 \<le> t" and "t \<le> 1"
  shows "0 \<le> rd (x * t) \<and> rd (x * t) \<le> of_nat n"
proof -
  have "x * t \<le> of_nat n * 1" using assms by (intro mult_mono) auto
  then show ?thesis using mono [of "x * t" "of_nat n"] whole_nat [OF assms(3)] assms(1,4) by (simp add: nonneg)
qed

text \<open>Blending two channels: \<open>a + (b - a) * t\<close> stays between them.\<close>

lemma blend:
  assumes "a \<le> 255" and "b \<le> 255" and "0 \<le> t" and "t \<le> 1"
  shows "of_nat (min a b) \<le> rd (of_nat a + rd (rd (of_nat b - of_nat a) * t))
    \<and> rd (of_nat a + rd (rd (of_nat b - of_nat a) * t)) \<le> of_nat (max a b)"
proof -
  have d: "rd (of_nat b - of_nat a) = of_nat b - of_nat a"
    using whole [of "int b - int a"] assms by simp
  have e: "min 0 (of_nat b - of_nat a) \<le> rd (rd (of_nat b - of_nat a) * t)
    \<and> rd (rd (of_nat b - of_nat a) * t) \<le> max 0 (of_nat b - of_nat a)"
  proof (cases "a \<le> b")
    case True
    then show ?thesis using scaled [of "of_nat (b - a)" "b - a" t] assms d by (simp add: of_nat_diff)
  next
    case False
    then have "(of_nat b - of_nat a) * t = - (of_nat (a - b) * t)" by (simp add: of_nat_diff algebra_simps)
    moreover have "a - b < 2 ^ 24" using assms(1) by simp
    ultimately show ?thesis using scaled [of "of_nat (a - b)" "a - b" t] assms d minus [of "of_nat (a - b) * t"] False
      by (simp add: of_nat_diff)
  qed
  then have "of_nat (min a b) \<le> of_nat a + rd (rd (of_nat b - of_nat a) * t)"
    "of_nat a + rd (rd (of_nat b - of_nat a) * t) \<le> of_nat (max a b)"
    by (auto simp: min_def max_def split: if_splits)
  from mono [OF this(1)] mono [OF this(2)] show ?thesis
    using whole_nat [of "min a b"] whole_nat [of "max a b"] assms(1,2) by simp
qed

end

interpretation fl: rounding fl
  by unfold_locales (simp_all add: fl_mono fl_minus fl_int_exact)

end
