(* ===== verification/LedStrip.thy ===== *)
theory LedStrip
  imports Float32 Events Wire Settings
begin

text \<open>
  The LED-strip driver (\<open>src/dal/drivers/led_strip_driver.cpp\<close>) over the strip backends
  (\<open>src/hal_stickcplus2/led_strip_stickcplus2.cpp\<close> and its siblings), and the settings it is given at
  mode entry (\<open>DAL::apply_persisted_strip_settings\<close>). One pulse colour and envelope is shared by all
  pixels; a pixel's stamp says when its envelope began, 0 that it has none. Every operation reads the
  clock once; a whole operation is one step, so the two tasks of the firmware interleave between
  operations only. The cosine of the C library is the parameter \<open>cosf\<close>. What reaches the LEDs is the list of
  pixels that \<open>show\<close> pushes.
\<close>

section \<open>The backends\<close>

text \<open>The Atom Lite has one onboard pixel in front of its Grove chain; the Sticks only have the chain.\<close>

datatype strip_board = AtomLiteStrip | StickStrip

fun max_strip_brightness_percent :: "strip_board \<Rightarrow> u8" where
  "max_strip_brightness_percent AtomLiteStrip = 10"
| "max_strip_brightness_percent StickStrip = 50"

fun hal_pixel_count :: "strip_board \<Rightarrow> nat \<Rightarrow> nat" where
  "hal_pixel_count AtomLiteStrip grove_count = 1 + grove_count"
| "hal_pixel_count StickStrip grove_count = grove_count"

fun hal_set_pixel_count :: "strip_board \<Rightarrow> nat \<Rightarrow> nat" where
  "hal_set_pixel_count AtomLiteStrip n =
     (let n = (if n < 1 then 1 else n); grove_n = n - 1 in if grove_n > 288 then 288 else grove_n)"
| "hal_set_pixel_count StickStrip n =
     (let n = (if n < 1 then 1 else n) in if n > 288 then 288 else n)"

section \<open>The driver's state\<close>

record strip_wash =
  sw_active :: bool
  sw_r1 :: u8
  sw_g1 :: u8
  sw_b1 :: u8
  sw_r2 :: u8
  sw_g2 :: u8
  sw_b2 :: u8
  sw_intensity :: u8
  sw_attack_100ms :: u8
  sw_release_100ms :: u8
  sw_cycle_ms :: u16
  sw_ttl_seconds :: u16
  sw_started_ms :: u32
  sw_releasing_started_ms :: u32

record strip_pulse =
  pu_rgb :: rgb
  pu_attack_ms :: u32
  pu_sustain_ms :: u32
  pu_release_ms :: u32

record led_strip =
  sd_enabled :: bool
  sd_board :: "strip_board option"
  sd_grove_count :: nat
  sd_wash :: strip_wash
  sd_pulse :: strip_pulse
  sd_started :: "u32 list"
  sd_rng :: u32
  sd_overlay :: bool
  sd_overlay_rgb :: rgb
  sd_brightness :: u8
  sd_max_brightness :: u8
  sd_group_size :: u16
  sd_send_count :: u32

abbreviation kMaxPixels :: nat where "kMaxPixels \<equiv> 288"
abbreviation kAbsoluteMaxBrightness :: u8 where "kAbsoluteMaxBrightness \<equiv> 50"

definition strip_init :: "strip_board option \<Rightarrow> led_strip" where
  "strip_init board = \<lparr> sd_enabled = True, sd_board = board, sd_grove_count = 29,
     sd_wash = \<lparr> sw_active = False, sw_r1 = 0, sw_g1 = 0, sw_b1 = 0, sw_r2 = 0, sw_g2 = 0, sw_b2 = 0,
       sw_intensity = 0, sw_attack_100ms = 0, sw_release_100ms = 0, sw_cycle_ms = 0, sw_ttl_seconds = 0,
       sw_started_ms = 0, sw_releasing_started_ms = 0 \<rparr>,
     sd_pulse = \<lparr> pu_rgb = (0, 0, 0), pu_attack_ms = 0, pu_sustain_ms = 0, pu_release_ms = 0 \<rparr>,
     sd_started = replicate kMaxPixels 0, sd_rng = 0, sd_overlay = False, sd_overlay_rgb = (0, 0, 0),
     sd_brightness = 100, sd_max_brightness = 100, sd_group_size = 1,
     sd_send_count = 0 \<rparr>"

section \<open>Settings\<close>

definition set_overlay_pixel_0 :: "rgb \<Rightarrow> bool \<Rightarrow> led_strip \<Rightarrow> led_strip" where
  "set_overlay_pixel_0 c e s = s\<lparr> sd_overlay := e, sd_overlay_rgb := c \<rparr>"

definition set_brightness_percent :: "u8 \<Rightarrow> led_strip \<Rightarrow> led_strip" where
  "set_brightness_percent pct s =
     (let pct = (if pct > 100 then 100 else pct);
          pct = (if pct > sd_max_brightness s then sd_max_brightness s else pct);
          pct = (if pct > kAbsoluteMaxBrightness then kAbsoluteMaxBrightness else pct)
      in s\<lparr> sd_brightness := pct \<rparr>)"

definition set_max_brightness_percent :: "u8 \<Rightarrow> led_strip \<Rightarrow> led_strip" where
  "set_max_brightness_percent pct s =
     (let pct = (if pct > 100 then 100 else pct);
          pct = (if pct > kAbsoluteMaxBrightness then kAbsoluteMaxBrightness else pct)
      in s\<lparr> sd_max_brightness := pct,
            sd_brightness := (if sd_brightness s > pct then pct else sd_brightness s) \<rparr>)"

definition set_group_size :: "u16 \<Rightarrow> led_strip \<Rightarrow> led_strip" where
  "set_group_size n s = s\<lparr> sd_group_size := (if n = 0 then 1 else n) \<rparr>"

definition set_pixel_count :: "nat \<Rightarrow> led_strip \<Rightarrow> led_strip" where
  "set_pixel_count n s =
     (case sd_board s of
        None \<Rightarrow> s
      | Some board \<Rightarrow> s\<lparr> sd_grove_count := hal_set_pixel_count board n,
          sd_started := take n (sd_started s) @ replicate (kMaxPixels - n) 0 \<rparr>)"

definition apply_persisted_strip_settings :: "build_cfg \<Rightarrow> nvs \<Rightarrow> led_strip \<Rightarrow> led_strip" where
  "apply_persisted_strip_settings cfg n s =
     (case sd_board s of
        None \<Rightarrow> s
      | Some board \<Rightarrow>
          (set_pixel_count (unat (load_strip_chain_size cfg n))
            (set_group_size (ucast (load_strip_group_size cfg n))
              (set_brightness_percent (load_strip_brightness cfg n)
                (set_max_brightness_percent (max_strip_brightness_percent board) s))))
            \<lparr> sd_enabled := load_strip_enabled n \<rparr>)"

section \<open>Washes\<close>

definition strip_send_wash :: "light_wash_event \<Rightarrow> u32 \<Rightarrow> led_strip \<Rightarrow> bool \<times> led_strip" where
  "strip_send_wash ev now s =
     (if \<not> sd_enabled s \<or> sd_board s = None then (False, s)
      else (True, s\<lparr> sd_wash := \<lparr> sw_active = True, sw_r1 = ew_r1 ev, sw_g1 = ew_g1 ev, sw_b1 = ew_b1 ev,
        sw_r2 = ew_r2 ev, sw_g2 = ew_g2 ev, sw_b2 = ew_b2 ev, sw_intensity = ew_intensity ev,
        sw_attack_100ms = ew_attack ev, sw_release_100ms = ew_release ev, sw_cycle_ms = ew_cycle_ms ev,
        sw_ttl_seconds = ew_ttl_seconds ev, sw_started_ms = now, sw_releasing_started_ms = 0 \<rparr> \<rparr>))"

definition strip_send_wash_end :: "u8 \<Rightarrow> u32 \<Rightarrow> led_strip \<Rightarrow> bool \<times> led_strip" where
  "strip_send_wash_end release_time now s =
     (if \<not> sw_active (sd_wash s) then (False, s)
      else (True, s\<lparr> sd_wash := (sd_wash s)\<lparr>
        sw_release_100ms := (if release_time \<noteq> 0 then release_time else sw_release_100ms (sd_wash s)),
        sw_releasing_started_ms := now \<rparr> \<rparr>))"

section \<open>Pulses\<close>

definition pixmob_time_to_ms :: "u8 \<Rightarrow> u32" where
  "pixmob_time_to_ms bucket =
     (if bucket = 0 then 0 else if bucket = 1 then 32 else if bucket = 2 then 96
      else if bucket = 3 then 192 else if bucket = 4 then 480 else if bucket = 5 then 960
      else if bucket = 6 then 2400 else if bucket = 7 then 3840 else 192)"

definition chance_to_percent :: "u8 \<Rightarrow> u32" where
  "chance_to_percent bucket =
     (if bucket = 0 then 100 else if bucket = 1 then 88 else if bucket = 2 then 67
      else if bucket = 3 then 50 else if bucket = 4 then 32 else if bucket = 5 then 16
      else if bucket = 6 then 10 else if bucket = 7 then 4 else 100)"

text \<open>xorshift32, seeded from the clock at the first call: the value and the new state coincide.\<close>

definition next_random :: "u32 \<Rightarrow> u32 \<Rightarrow> u32" where
  "next_random now rng =
     (let x = (if rng = 0
               then let x = now XOR 0xA5A5A5A5 in if x = 0 then 0xDEADBEEF else x
               else rng);
          x = x XOR push_bit 13 x;
          x = x XOR drop_bit 17 x
      in x XOR push_bit 5 x)"

definition stamp_range :: "nat \<Rightarrow> nat \<Rightarrow> u32 \<Rightarrow> u32 list \<Rightarrow> u32 list" where
  "stamp_range lo hi stamp started = fold (\<lambda>p st. st[p := stamp]) [lo..<hi] started"

text \<open>The loop over the groups: one roll per group, the pixels of a hit group stamped together.\<close>

function roll_groups ::
    "u32 \<Rightarrow> u32 \<Rightarrow> u32 \<Rightarrow> nat \<Rightarrow> nat \<Rightarrow> nat \<Rightarrow> u32 \<Rightarrow> u32 list \<Rightarrow> u32 \<times> u32 list" where
  "roll_groups now pct stamp gsz walk i rng started =
     (if i < walk \<and> 0 < gsz
      then let rng = next_random now rng;
               started = (if rng mod 100 < pct then stamp_range i (min (i + gsz) walk) stamp started else started)
           in roll_groups now pct stamp gsz walk (i + gsz) rng started
      else (rng, started))"
  by auto

termination
  by (relation "measure (\<lambda>(now, pct, stamp, gsz, walk, i, rng, started). walk - i)") auto

declare roll_groups.simps [simp del]

definition latch_pulse :: "lume_pulse \<Rightarrow> strip_pulse" where
  "latch_pulse ev =
     (let a = pixmob_time_to_ms (up_attack ev); su = pixmob_time_to_ms (up_sustain ev);
          re = pixmob_time_to_ms (up_release ev)
      in \<lparr> pu_rgb = (up_r ev, up_g ev, up_b ev), pu_attack_ms = a,
           pu_sustain_ms = (if a + su + re = 0 then 192 else su), pu_release_ms = re \<rparr>)"

definition strip_send :: "lume_pulse \<Rightarrow> u32 \<Rightarrow> led_strip \<Rightarrow> bool \<times> led_strip" where
  "strip_send ev now s =
     (if \<not> sd_enabled s then (False, s)
      else case sd_board s of
        None \<Rightarrow> (False, s)
      | Some board \<Rightarrow>
          let pcount = hal_pixel_count board (sd_grove_count s) in
          if pcount = 0 then (True, s)
          else
            let s = s\<lparr> sd_pulse := latch_pulse ev \<rparr>;
                walk = (if pcount < kMaxPixels then pcount else kMaxPixels);
                stamp = (if now \<noteq> 0 then now else 1)
            in if up_led_mode ev = 1 then
                 (let idx = unat (up_led_modifier2 ev) in
                  (True, if up_led_modifier1 ev > 1 \<or> \<not> idx < walk then s
                         else s\<lparr> sd_started := (sd_started s)[idx := stamp] \<rparr>))
               else if up_led_mode ev = 2 then
                 (let mask = (ucast (up_led_modifier1 ev) :: u16)
                             OR push_bit 8 (ucast (up_led_modifier2 ev AND 0x0F)) in
                  (True, if mask = 0 then s
                         else s\<lparr> sd_started := fold (\<lambda>p st. if bit mask (p mod 12) then st[p := stamp] else st)
                                [0..<walk] (sd_started s) \<rparr>))
               else
                 (let gsz = (if sd_group_size s = 0 then 1 else unat (sd_group_size s));
                      (rng, started) = roll_groups now (chance_to_percent (up_chance ev)) stamp gsz walk 0
                        (sd_rng s) (sd_started s)
                  in (True, s\<lparr> sd_rng := rng, sd_started := started \<rparr>)))"

section \<open>Rendering\<close>

definition clip255 :: "int \<Rightarrow> u8" where
  "clip255 x = (if x < 0 then 0 else if x > 255 then 255 else of_int x)"

definition scale_channel :: "flt \<Rightarrow> u8 \<Rightarrow> u8" where
  "scale_channel bri_mul v =
     (if v = 0 \<or> bri_mul \<le> 0 then 0
      else let scaled = fl_int (fl (fl (of_nat (unat v) * bri_mul) + 1/2))
           in if scaled \<le> 0 then 1 else clip255 scaled)"

definition lerp_u8 :: "u8 \<Rightarrow> u8 \<Rightarrow> flt \<Rightarrow> u8" where
  "lerp_u8 a b t =
     (if t \<le> 0 then a else if t \<ge> 1 then b
      else clip255 (fl_int (fl (of_nat (unat a) + fl (fl (of_nat (unat b) - of_nat (unat a)) * t)))))"

definition units100_to_ms :: "u8 \<Rightarrow> u32" where
  "units100_to_ms units = ucast units * 100"

definition u32_float :: "u32 \<Rightarrow> flt" where
  "u32_float x = fl (of_nat (unat x))"

definition pulse_envelope_fraction :: "u32 \<Rightarrow> u32 \<Rightarrow> u32 \<Rightarrow> u32 \<Rightarrow> u32 \<Rightarrow> flt" where
  "pulse_envelope_fraction start_ms now attack_ms sustain_ms release_ms =
     (if start_ms = 0 then 0
      else
        let elapsed = now - start_ms; total = attack_ms + sustain_ms + release_ms in
        if total = 0 \<or> elapsed \<ge> total then 0
        else if elapsed < attack_ms then fl (u32_float elapsed / u32_float attack_ms)
        else if elapsed < attack_ms + sustain_ms then 1
        else fl (1 - fl (u32_float (elapsed - attack_ms - sustain_ms) / u32_float release_ms)))"

text \<open>\<open>static_cast<float>(M_PI)\<close>\<close>

definition pi_f :: flt where
  "pi_f = 13176795 / 2 ^ 22"

definition drift_position :: "(flt \<Rightarrow> flt) \<Rightarrow> u32 \<Rightarrow> u16 \<Rightarrow> flt" where
  "drift_position cosf elapsed cycle_ms =
     (let phase = fl (fl (fl (2 * pi_f) * u32_float elapsed) / fl (of_nat (unat cycle_ms)))
      in fl (1/2 - fl (1/2 * cosf phase)))"

definition drift_channel :: "u8 \<Rightarrow> u8 \<Rightarrow> flt \<Rightarrow> flt" where
  "drift_channel a b t = fl (of_nat (unat a) + fl (fl (of_nat (unat b) - of_nat (unat a)) * t))"

definition compute_wash_baseline :: "(flt \<Rightarrow> flt) \<Rightarrow> u32 \<Rightarrow> strip_wash \<Rightarrow> (bool \<times> rgb) \<times> strip_wash" where
  "compute_wash_baseline cosf now w =
     (if \<not> sw_active w then ((False, (0, 0, 0)), w)
      else
        let c = (if sw_cycle_ms w \<noteq> 0
                 then let t = drift_position cosf (now - sw_started_ms w) (sw_cycle_ms w)
                      in (drift_channel (sw_r1 w) (sw_r2 w) t, drift_channel (sw_g1 w) (sw_g2 w) t,
                          drift_channel (sw_b1 w) (sw_b2 w) t)
                 else map_rgb (\<lambda>v. of_nat (unat v)) (sw_r1 w, sw_g1 w, sw_b1 w));
            attack_ms = units100_to_ms (sw_attack_100ms w);
            since = now - sw_started_ms w;
            c = (if attack_ms > 0 \<and> sw_releasing_started_ms w = 0 \<and> since < attack_ms
                 then let t = fl (u32_float since / u32_float attack_ms) in map_rgb (\<lambda>x. fl (x * t)) c
                 else c);
            w = (if sw_releasing_started_ms w = 0 \<and> sw_ttl_seconds w \<noteq> 0
                    \<and> now - sw_started_ms w \<ge> ucast (sw_ttl_seconds w) * 1000
                 then w\<lparr> sw_releasing_started_ms := now \<rparr> else w);
            scale = fl (fl (of_nat (unat (sw_intensity w))) / 255);
            out = (\<lambda>c. map_rgb (\<lambda>x. clip255 (fl_int (fl (x * scale)))) c)
        in if sw_releasing_started_ms w \<noteq> 0
           then let release_ms = units100_to_ms (sw_release_100ms w);
                    since = now - sw_releasing_started_ms w
                in if release_ms = 0 \<or> since \<ge> release_ms
                   then ((False, (0, 0, 0)), w\<lparr> sw_active := False \<rparr>)
                   else let fade = fl (1 - fl (u32_float since / u32_float release_ms))
                        in ((True, out (map_rgb (\<lambda>x. fl (x * fade)) c)), w)
           else ((True, out c), w))"

definition render_pixel :: "u32 \<Rightarrow> strip_pulse \<Rightarrow> rgb \<Rightarrow> u32 \<Rightarrow> rgb \<times> u32" where
  "render_pixel now p base stamp =
     (let total = pu_attack_ms p + pu_sustain_ms p + pu_release_ms p in
      if stamp \<noteq> 0 \<and> total > 0
      then let elapsed = now - stamp in
           if elapsed \<ge> total then (base, 0)
           else let alpha = pulse_envelope_fraction stamp now (pu_attack_ms p) (pu_sustain_ms p) (pu_release_ms p)
                in (if alpha > 0
                    then case base of (br, bg, bb) \<Rightarrow> case pu_rgb p of (pr, pg, pb) \<Rightarrow>
                      (lerp_u8 br pr alpha, lerp_u8 bg pg alpha, lerp_u8 bb pb alpha)
                    else base, stamp)
      else (base, stamp))"

definition bri_mul :: "led_strip \<Rightarrow> flt" where
  "bri_mul s = fl (fl (of_nat (unat (sd_brightness s))) / 100)"

definition render_frame :: "(flt \<Rightarrow> flt) \<Rightarrow> u32 \<Rightarrow> led_strip \<Rightarrow> rgb list option \<times> led_strip" where
  "render_frame cosf now s =
     (case sd_board s of
        None \<Rightarrow> (None, s)
      | Some board \<Rightarrow>
          let pcount = hal_pixel_count board (sd_grove_count s) in
          if pcount = 0 then (None, s)
          else
            let ((_, base), wash) = compute_wash_baseline cosf now (sd_wash s);
                walk = (if pcount < kMaxPixels then pcount else kMaxPixels);
                drawn = map (render_pixel now (sd_pulse s) base) (take walk (sd_started s));
                scaled = map_rgb (scale_channel (bri_mul s));
                frame = map (\<lambda>(c, _). scaled c) drawn @ replicate (pcount - walk) (scaled base)
            in (Some (if sd_overlay s then frame[0 := sd_overlay_rgb s] else frame),
                s\<lparr> sd_wash := wash, sd_started := map snd drawn @ drop walk (sd_started s) \<rparr>))"

definition strip_loop_tick :: "(flt \<Rightarrow> flt) \<Rightarrow> u32 \<Rightarrow> led_strip \<Rightarrow> rgb list option \<times> led_strip" where
  "strip_loop_tick cosf now s = (if \<not> sd_enabled s then (None, s) else render_frame cosf now s)"

definition strip_begin :: "led_strip \<Rightarrow> bool \<times> rgb list option" where
  "strip_begin s =
     (case sd_board s of
        None \<Rightarrow> (False, None)
      | Some board \<Rightarrow> (True, Some (replicate (hal_pixel_count board (sd_grove_count s)) (0, 0, 0))))"


section \<open>Rolls\<close>

lemma xorshift_left_zero: "x XOR push_bit k x = 0 \<Longrightarrow> 0 < k \<Longrightarrow> x = (0 :: 'a::len word)"
proof -
  assume x: "x XOR push_bit k x = 0" and k: "0 < k"
  then have shifted: "x = push_bit k x" by (metis xor.left_neutral xor.right_neutral xor_self_eq xor.assoc)
  have "x = push_bit (k * n) x" for n
    by (induction n) (simp_all, metis shifted add.commute push_bit_push_bit)
  moreover have "push_bit (k * LENGTH('a)) x = 0"
    using k by (intro bit_word_eqI) (auto simp: bit_push_bit_iff dest: le_trans [rotated])
  ultimately show "x = 0" by metis
qed

lemma xorshift_right_zero: "x XOR drop_bit k x = 0 \<Longrightarrow> 0 < k \<Longrightarrow> x = (0 :: 'a::len word)"
proof -
  assume x: "x XOR drop_bit k x = 0" and k: "0 < k"
  then have shifted: "x = drop_bit k x" by (metis xor.left_neutral xor.right_neutral xor_self_eq xor.assoc)
  have "x = drop_bit (k * n) x" for n
    by (induction n) (simp_all, metis shifted add.commute drop_bit_drop_bit)
  moreover have "drop_bit (k * LENGTH('a)) x = 0"
    using k by (intro bit_word_eqI) (auto simp: bit_drop_bit_eq dest: bit_imp_le_length)
  ultimately show "x = 0" by metis
qed

lemma next_random_nonzero: "next_random now rng \<noteq> 0"
proof -
  define x where "x = (if rng = 0 then let x = now XOR 0xA5A5A5A5 in if x = 0 then 0xDEADBEEF else x else rng)"
  define y where "y = x XOR push_bit 13 x"
  define z where "z = y XOR drop_bit 17 y"
  have "x \<noteq> 0" by (simp add: x_def Let_def)
  then have "y \<noteq> 0" using xorshift_left_zero [of x 13] by (auto simp: y_def)
  then have "z \<noteq> 0" using xorshift_right_zero [of y 17] by (auto simp: z_def)
  moreover have "next_random now rng = z XOR push_bit 5 z" by (simp add: next_random_def x_def y_def z_def Let_def)
  ultimately show ?thesis using xorshift_left_zero [of z 5] by auto
qed

text \<open>Once the generator is seeded the clock plays no part.\<close>

lemma next_random_seeded: "rng \<noteq> 0 \<Longrightarrow> next_random now rng = next_random now' rng"
  by (simp add: next_random_def)

definition roll :: "u32 \<Rightarrow> u32 \<Rightarrow> nat \<Rightarrow> u32" where
  "roll now rng k = (next_random now ^^ Suc k) rng"

lemma roll_0: "roll now rng 0 = next_random now rng"
  by (simp add: roll_def)

lemma roll_Suc: "roll now rng (Suc k) = roll now (next_random now rng) k"
  by (simp add: roll_def funpow_swap1)

lemma length_stamp_range [simp]: "length (stamp_range lo hi v st) = length st"
proof -
  have "length (fold (\<lambda>p st. st[p := v]) ps st) = length st" for ps by (induction ps arbitrary: st) simp_all
  then show ?thesis by (simp add: stamp_range_def)
qed

lemma fold_stamp_nth:
  "p < length st \<Longrightarrow> fold (\<lambda>p st. if hit p then st[p := v] else st) ps st ! p
    = (if p \<in> set ps \<and> hit p then v else st ! p)"
proof (induction ps arbitrary: st)
  case Nil
  then show ?case by simp
next
  case (Cons q ps)
  then show ?case by (cases "q = p") (auto simp: nth_list_update)
qed

lemma stamp_range_nth:
  "p < length st \<Longrightarrow> stamp_range lo hi v st ! p = (if lo \<le> p \<and> p < hi then v else st ! p)"
  using fold_stamp_nth [of p st "\<lambda>_. True" v "[lo..<hi]"] by (simp add: stamp_range_def)

lemma length_roll_groups [simp]: "length (snd (roll_groups now pct stamp gsz walk i rng st)) = length st"
  by (induction now pct stamp gsz walk i rng st rule: roll_groups.induct)
    (subst roll_groups.simps, simp add: Let_def)

text \<open>The loop against its reference: pixel \<open>p\<close> looks at the roll of its own group.\<close>

lemma roll_groups_nth:
  "0 < gsz \<Longrightarrow> p < length st \<Longrightarrow> snd (roll_groups now pct stamp gsz walk i rng st) ! p
    = (if i \<le> p \<and> p < walk \<and> roll now rng ((p - i) div gsz) mod 100 < pct then stamp else st ! p)"
proof (induction now pct stamp gsz walk i rng st rule: roll_groups.induct)
  case (1 now pct stamp gsz walk i rng st)
  show ?case
  proof (cases "i < walk")
    case False
    then show ?thesis by (subst roll_groups.simps) auto
  next
    case True
    let ?rng = "next_random now rng"
    let ?st = "if ?rng mod 100 < pct then stamp_range i (min (i + gsz) walk) stamp st else st"
    have IH: "snd (roll_groups now pct stamp gsz walk (i + gsz) ?rng ?st) ! p
        = (if i + gsz \<le> p \<and> p < walk \<and> roll now ?rng ((p - (i + gsz)) div gsz) mod 100 < pct then stamp else ?st ! p)"
      using "1.IH" [of ?rng ?st] True "1.prems" by simp
    have st: "?st ! p = (if i \<le> p \<and> p < i + gsz \<and> p < walk \<and> ?rng mod 100 < pct then stamp else st ! p)"
      using "1.prems" by (simp add: stamp_range_nth)
    have "roll now rng ((p - i) div gsz) = (if i + gsz \<le> p then roll now ?rng ((p - (i + gsz)) div gsz) else ?rng)"
      if "i \<le> p"
    proof (cases "i + gsz \<le> p")
      case True
      then have "(p - i) div gsz = Suc ((p - (i + gsz)) div gsz)"
        using "1.prems" le_div_geq [of gsz "p - i"] by simp
      then show ?thesis using True by (simp add: roll_Suc)
    next
      case False
      then show ?thesis using that by (simp add: roll_0)
    qed
    moreover have "roll_groups now pct stamp gsz walk i rng st = roll_groups now pct stamp gsz walk (i + gsz) ?rng ?st"
      using True "1.prems" by (subst roll_groups.simps) (simp add: Let_def)
    ultimately show ?thesis using IH st True "1.prems" by (cases "i \<le> p"; cases "i + gsz \<le> p") simp_all
  qed
qed

lemma roll_groups_rng: "0 < gsz \<Longrightarrow> i < walk \<or> rng \<noteq> 0 \<Longrightarrow> fst (roll_groups now pct stamp gsz walk i rng st) \<noteq> 0"
proof (induction now pct stamp gsz walk i rng st rule: roll_groups.induct)
  case (1 now pct stamp gsz walk i rng st)
  show ?case
    using "1.IH" [OF _ refl refl] "1.prems" next_random_nonzero by (subst roll_groups.simps) (auto simp: Let_def)
qed


section \<open>Well-formed drivers\<close>

definition strip_ok :: "strip_board \<Rightarrow> led_strip \<Rightarrow> bool" where
  "strip_ok board s \<longleftrightarrow> sd_board s = Some board \<and> length (sd_started s) = kMaxPixels \<and> sd_group_size s \<noteq> 0
     \<and> sd_max_brightness s \<le> max_strip_brightness_percent board \<and> sd_brightness s \<le> sd_max_brightness s"

definition pulse_stamp :: "u32 \<Rightarrow> u32" where
  "pulse_stamp now = (if now \<noteq> 0 then now else 1)"

definition tracked :: "strip_board \<Rightarrow> led_strip \<Rightarrow> nat" where
  "tracked board s = min (hal_pixel_count board (sd_grove_count s)) kMaxPixels"

lemma send_cases:
  assumes "sd_board s = Some board" and "sd_enabled s" and "p < tracked board s"
  shows "strip_send ev now s =
    (let t = s\<lparr> sd_pulse := latch_pulse ev \<rparr>; walk = tracked board s in
     (True,
       if up_led_mode ev = 1 then
         (if up_led_modifier1 ev > 1 \<or> \<not> unat (up_led_modifier2 ev) < walk then t
          else t\<lparr> sd_started := (sd_started s)[unat (up_led_modifier2 ev) := pulse_stamp now] \<rparr>)
       else if up_led_mode ev = 2 then
         t\<lparr> sd_started := fold (\<lambda>p st. if bit (pack_repeat_mask (up_led_modifier1 ev) (up_led_modifier2 ev)) (p mod 12)
              then st[p := pulse_stamp now] else st) [0..<walk] (sd_started s) \<rparr>
       else
         (let r = roll_groups now (chance_to_percent (up_chance ev)) (pulse_stamp now)
            (if sd_group_size s = 0 then 1 else unat (sd_group_size s)) walk 0 (sd_rng s) (sd_started s)
          in t\<lparr> sd_rng := fst r, sd_started := snd r \<rparr>)))"
proof -
  have id: "fold (\<lambda>p st. st) ps st = st" for ps and st :: "u32 list" by (induction ps) simp_all
  have pcount: "hal_pixel_count board (sd_grove_count s) \<noteq> 0" using assms(3) by (auto simp: tracked_def)
  have walk: "(if hal_pixel_count board (sd_grove_count s) < kMaxPixels
      then hal_pixel_count board (sd_grove_count s) else kMaxPixels) = tracked board s"
    by (simp add: tracked_def)
  have stamp: "(if now \<noteq> 0 then now else 1) = pulse_stamp now" by (simp add: pulse_stamp_def)
  show ?thesis
    unfolding strip_send_def Let_def assms(1) option.case walk stamp
    using assms(2) pcount by (simp add: pack_repeat_mask_def split_beta id)
qed

text \<open>C24: A pulse rolls once per group and lights or spares whole groups. On a well-formed enabled driver,
  a pulse of LED mode 0 (every mode but 1 and 2) leaves pixel \<open>p\<close> stamped with the present time exactly
  if the roll numbered \<open>p div group size\<close> of the xorshift sequence is below the pulse's chance, and
  untouched otherwise: all pixels of a group share the outcome, the shorter group at the tail included.
  The generator is seeded after the first roll and never falls back to the unseeded state.\<close>

theorem groups_flash_together:
  assumes "strip_ok board s" and "sd_enabled s" and "up_led_mode ev \<notin> {1, 2}" and "p < tracked board s"
  shows "\<exists>s'. strip_send ev now s = (True, s') \<and> sd_rng s' \<noteq> 0 \<and> sd_started s' ! p =
    (if roll now (sd_rng s) (p div unat (sd_group_size s)) mod 100 < chance_to_percent (up_chance ev)
     then pulse_stamp now else sd_started s ! p)"
proof -
  have g: "sd_group_size s \<noteq> 0" "0 < unat (sd_group_size s)" and len: "p < length (sd_started s)"
    using assms(1,4) by (auto simp: strip_ok_def tracked_def unat_gt_0)
  show ?thesis
    using send_cases [OF _ assms(2,4), of ev now] assms g
      roll_groups_nth [OF g(2) len] roll_groups_rng [OF g(2), of 0 "tracked board s"]
    by (simp add: strip_ok_def Let_def)
qed

text \<open>C25: A repeat pattern reaches the strip as it was packed. For every 12-bit mask that a Director packs
  into the two modifier bytes, the pulse stamps exactly the pixels whose position in their tile of
  twelve has its bit set, whatever the group size and the chance.\<close>

theorem pattern_tiles_strip:
  assumes "strip_ok board s" and "sd_enabled s" and "up_led_mode ev = 2"
    and "(up_led_modifier1 ev, up_led_modifier2 ev) = unpack_repeat_mask m" and "p < tracked board s"
  shows "sd_started (snd (strip_send ev now s)) ! p = (if bit m (p mod 12) then pulse_stamp now else sd_started s ! p)"
proof -
  have "pack_repeat_mask (up_led_modifier1 ev) (up_led_modifier2 ev) = take_bit 12 m"
    using pack_unpack_repeat_mask [of m] by (simp flip: assms(4))
  then have mask: "bit (pack_repeat_mask (up_led_modifier1 ev) (up_led_modifier2 ev)) (p mod 12) \<longleftrightarrow> bit m (p mod 12)"
    by (simp add: bit_take_bit_iff)
  have len: "p < length (sd_started s)" using assms(1,5) by (simp add: strip_ok_def tracked_def)
  show ?thesis
    using send_cases [OF _ assms(2,5), of ev now] assms(1,3,5) mask
      fold_stamp_nth [OF len, of "\<lambda>q. bit (pack_repeat_mask (up_led_modifier1 ev) (up_led_modifier2 ev)) (q mod 12)"]
    by (simp add: strip_ok_def Let_def)
qed

section \<open>Runs\<close>

datatype strip_op =
    OpSettings build_cfg nvs
  | OpBrightness u8
  | OpGroupSize u16
  | OpPixelCount nat
  | OpEnable bool
  | OpOverlay rgb bool
  | OpWash light_wash_event
  | OpWashEnd u8
  | OpPulse lume_pulse
  | OpTick

fun strip_step :: "(flt \<Rightarrow> flt) \<Rightarrow> strip_op \<times> u32 \<Rightarrow> led_strip \<Rightarrow> rgb list option \<times> led_strip" where
  "strip_step cosf (OpSettings cfg n, now) s = (None, apply_persisted_strip_settings cfg n s)"
| "strip_step cosf (OpBrightness pct, now) s = (None, set_brightness_percent pct s)"
| "strip_step cosf (OpGroupSize n, now) s = (None, set_group_size n s)"
| "strip_step cosf (OpPixelCount n, now) s = (None, set_pixel_count n s)"
| "strip_step cosf (OpEnable e, now) s = (None, s\<lparr> sd_enabled := e \<rparr>)"
| "strip_step cosf (OpOverlay c e, now) s = (None, set_overlay_pixel_0 c e s)"
| "strip_step cosf (OpWash ev, now) s = (None, snd (strip_send_wash ev now s))"
| "strip_step cosf (OpWashEnd release_time, now) s = (None, snd (strip_send_wash_end release_time now s))"
| "strip_step cosf (OpPulse ev, now) s = (None, snd (strip_send ev now s))"
| "strip_step cosf (OpTick, now) s = strip_loop_tick cosf now s"

fun strip_run :: "(flt \<Rightarrow> flt) \<Rightarrow> (strip_op \<times> u32) list \<Rightarrow> led_strip \<Rightarrow> rgb list list \<times> led_strip" where
  "strip_run cosf [] s = ([], s)"
| "strip_run cosf (c # cs) s =
     (case strip_step cosf c s of (shown, s') \<Rightarrow>
        case strip_run cosf cs s' of (frames, s'') \<Rightarrow> (case shown of None \<Rightarrow> frames | Some f \<Rightarrow> f # frames, s''))"

lemma cap_le_50: "max_strip_brightness_percent board \<le> 50"
  by (cases board) simp_all

lemma length_fold_stamp [simp]: "length (fold (\<lambda>p st. if hit p then st[p := v] else st) ps st) = length st"
  by (induction ps arbitrary: st) simp_all

text \<open>The clamps are minima.\<close>

lemma set_brightness_min:
  "set_brightness_percent pct s = s\<lparr> sd_brightness := min pct (min (sd_max_brightness s) 50) \<rparr>"
proof -
  have "(let pct = (if pct > 100 then 100 else pct); pct = (if pct > m then m else pct)
      in if pct > kAbsoluteMaxBrightness then kAbsoluteMaxBrightness else pct) = min pct (min m 50)" for m
    by (auto simp: min_def word_le_nat_alt word_less_nat_alt word_unat_eq_iff)
  then show ?thesis by (simp add: set_brightness_percent_def Let_def)
qed

lemma set_max_brightness_min:
  "set_max_brightness_percent pct s =
    s\<lparr> sd_max_brightness := min pct 50, sd_brightness := min (sd_brightness s) (min pct 50) \<rparr>"
proof -
  have "(let pct = (if pct > 100 then 100 else pct) in if pct > kAbsoluteMaxBrightness then kAbsoluteMaxBrightness else pct)
      = min pct 50"
    by (auto simp: min_def word_le_nat_alt word_less_nat_alt word_unat_eq_iff)
  then show ?thesis by (simp add: set_max_brightness_percent_def Let_def min_def not_le)
qed

lemma strip_ok_settings:
  assumes "sd_board s = Some board" and "length (sd_started s) = kMaxPixels"
  shows "strip_ok board (apply_persisted_strip_settings cfg n s)"
  using assms cap_le_50 [of board]
  by (simp add: strip_ok_def apply_persisted_strip_settings_def set_pixel_count_def set_group_size_def
      set_brightness_min set_max_brightness_min min.coboundedI2)

lemma strip_ok_send: "strip_ok board s \<Longrightarrow> strip_ok board (snd (strip_send ev now s))"
  by (auto simp: strip_send_def strip_ok_def Let_def split: option.split prod.split)
    (metis length_roll_groups snd_conv)+

lemma strip_ok_render: "strip_ok board s \<Longrightarrow> strip_ok board (snd (render_frame cosf now s))"
  by (auto simp: render_frame_def strip_ok_def Let_def split: prod.split)

lemma strip_ok_setters:
  assumes "strip_ok board s"
  shows "strip_ok board (set_brightness_percent pct s)" and "strip_ok board (set_group_size n s)"
    and "strip_ok board (set_pixel_count k s)" and "strip_ok board (set_overlay_pixel_0 col e s)"
    and "strip_ok board (snd (strip_send_wash ev now s))" and "strip_ok board (snd (strip_send_wash_end rt now s))"
    and "strip_ok board (s\<lparr> sd_enabled := b \<rparr>)"
  using assms
  by (simp_all add: strip_ok_def set_brightness_min set_group_size_def min.coboundedI2 set_pixel_count_def
      set_overlay_pixel_0_def strip_send_wash_def strip_send_wash_end_def)

lemma strip_ok_step:
  assumes "strip_ok board s"
  shows "strip_ok board (snd (strip_step cosf c s))"
proof -
  have board: "sd_board s = Some board" "length (sd_started s) = kMaxPixels" using assms by (simp_all add: strip_ok_def)
  show ?thesis
    by (cases "(cosf, c, s)" rule: strip_step.cases)
      (simp_all add: assms strip_ok_settings [OF board] strip_ok_setters strip_ok_send strip_ok_render strip_loop_tick_def)
qed


section \<open>Channels\<close>

lemma fl_int_mono: "x \<le> y \<Longrightarrow> fl_int x \<le> fl_int y"
  by (auto simp: fl_int_def floor_mono) (metis add.inverse_inverse floor_mono le_minus_iff neg_0_le_iff_le not_le zero_le_floor
      order_trans neg_le_0_iff_le less_imp_le)

lemma unat_clip255: "unat (clip255 x) = nat (min 255 (max 0 x))"
proof -
  have "unat (of_int x :: u8) = nat x" if "0 \<le> x" "x \<le> 255"
    using that by (simp add: unat_eq_nat_uint take_bit_eq_mod uint_word_of_int)
  then show ?thesis by (auto simp: clip255_def)
qed

lemma clip255_nat: "n \<le> 255 \<Longrightarrow> clip255 (int n) = of_nat n"
  by (simp add: clip255_def)

lemma fl_int_of_nat [simp]: "fl_int (of_nat n) = int n"
  by (simp add: fl_int_def)

lemma unit_byte: "0 \<le> x \<Longrightarrow> x \<le> of_nat n \<Longrightarrow> n \<le> 255 \<Longrightarrow> unat (clip255 (fl_int x)) \<le> n"
  using fl_int_mono [of x "of_nat n"] by (simp add: unat_clip255)

lemma byte_between:
  "int a \<le> x \<Longrightarrow> x \<le> int b \<Longrightarrow> b \<le> 255 \<Longrightarrow> a \<le> unat (clip255 x) \<and> unat (clip255 x) \<le> b"
  by (auto simp: unat_clip255)

text \<open>A scaled channel is dark exactly if the authored channel or the brightness is zero.\<close>

lemma scale_channel_zero: "scale_channel m v = 0 \<longleftrightarrow> v = 0 \<or> m \<le> 0"
proof -
  have "clip255 x \<noteq> 0" if "0 < x" for x
  proof -
    have "unat (clip255 x) \<noteq> 0" using that by (simp add: unat_clip255)
    then show ?thesis by auto
  qed
  then show ?thesis by (auto simp: scale_channel_def Let_def not_le)
qed

fun strip_ceiling :: "strip_board \<Rightarrow> nat" where
  "strip_ceiling AtomLiteStrip = 26"
| "strip_ceiling StickStrip = 128"

lemma ceiling_10: "fl_int (fl (fl (255 * fl (fl 10 / 100)) + 1/2)) = 26"
  by code_simp

lemma ceiling_50: "fl_int (fl (fl (255 * fl (fl 50 / 100)) + 1/2)) = 128"
  by code_simp

lemma ceiling_value:
  "fl_int (fl (fl (255 * fl (fl (of_nat (unat (max_strip_brightness_percent board))) / 100)) + 1/2))
    = int (strip_ceiling board)"
  using ceiling_10 ceiling_50 by (cases board) simp_all

lemma scale_channel_ceiling:
  assumes "sd_brightness s \<le> max_strip_brightness_percent board"
  shows "unat (scale_channel (bri_mul s) v) \<le> strip_ceiling board"
proof (cases "v = 0 \<or> bri_mul s \<le> 0")
  case True
  then show ?thesis by (auto simp: scale_channel_def)
next
  case False
  let ?m = "fl (fl (of_nat (unat (max_strip_brightness_percent board))) / 100)"
  have "bri_mul s \<le> ?m" using assms
    by (simp add: bri_mul_def word_le_nat_alt fl.mono divide_right_mono del: of_nat_unat)
  then have "of_nat (unat v) * bri_mul s \<le> 255 * ?m"
    using False of_nat_mono [OF unat_u8_le [of v], where ?'a = rat]
    by (intro mult_mono) (simp_all add: not_le del: of_nat_unat)
  then have "fl (fl (of_nat (unat v) * bri_mul s) + 1/2) \<le> fl (fl (255 * ?m) + 1/2)"
    by (simp add: fl.mono)
  from fl_int_mono [OF this] have "fl_int (fl (fl (of_nat (unat v) * bri_mul s) + 1/2)) \<le> int (strip_ceiling board)"
    by (simp only: ceiling_value)
  moreover have "1 \<le> strip_ceiling board" by (cases board) simp_all
  ultimately show ?thesis by (auto simp: scale_channel_def Let_def unat_clip255)
qed

text \<open>Blending stays between the two colours.\<close>

lemma lerp_u8_between:
  "min a b \<le> lerp_u8 a b t \<and> lerp_u8 a b t \<le> max a b"
proof (cases "0 < t \<and> t < 1")
  case True
  let ?x = "fl (of_nat (unat a) + fl (fl (of_nat (unat b) - of_nat (unat a)) * t))"
  have x: "of_nat (min (unat a) (unat b)) \<le> ?x" "?x \<le> of_nat (max (unat a) (unat b))"
    using fl.blend [of "unat a" "unat b" t] True by simp_all
  have i: "int (min (unat a) (unat b)) \<le> fl_int ?x" "fl_int ?x \<le> int (max (unat a) (unat b))"
    using fl_int_mono [OF x(1)] fl_int_mono [OF x(2)] by (simp_all only: fl_int_of_nat)
  show ?thesis using byte_between [OF i] True
    by (cases "unat a \<le> unat b") (simp_all add: lerp_u8_def word_le_nat_alt min_def max_def del: of_nat_unat)
qed (auto simp: lerp_u8_def)


section \<open>Frames\<close>

definition baseline :: "(flt \<Rightarrow> flt) \<Rightarrow> u32 \<Rightarrow> led_strip \<Rightarrow> rgb" where
  "baseline cosf now s = snd (fst (compute_wash_baseline cosf now (sd_wash s)))"

definition pixel_colour :: "(flt \<Rightarrow> flt) \<Rightarrow> u32 \<Rightarrow> led_strip \<Rightarrow> nat \<Rightarrow> rgb" where
  "pixel_colour cosf now s p =
     (if p < length (sd_started s) then fst (render_pixel now (sd_pulse s) (baseline cosf now s) (sd_started s ! p))
      else baseline cosf now s)"

text \<open>A frame, pixel by pixel.\<close>

lemma render_frame_nth:
  assumes "strip_ok board s" and "render_frame cosf now s = (Some frame, s')"
  shows "length frame = hal_pixel_count board (sd_grove_count s)"
    and "p < length frame \<Longrightarrow> frame ! p =
      (if p = 0 \<and> sd_overlay s then sd_overlay_rgb s
       else map_rgb (scale_channel (bri_mul s)) (pixel_colour cosf now s p))"
    and "p < tracked board s \<Longrightarrow>
      sd_started s' ! p = snd (render_pixel now (sd_pulse s) (baseline cosf now s) (sd_started s ! p))"
    and "s' = s\<lparr> sd_wash := snd (compute_wash_baseline cosf now (sd_wash s)), sd_started := sd_started s' \<rparr>"
    and "length (sd_started s') = kMaxPixels"
proof -
  let ?n = "hal_pixel_count board (sd_grove_count s)"
  let ?px = "map (render_pixel now (sd_pulse s) (baseline cosf now s)) (take (tracked board s) (sd_started s))"
  let ?f = "map (\<lambda>(c, _). map_rgb (scale_channel (bri_mul s)) c) ?px
      @ replicate (?n - tracked board s) (map_rgb (scale_channel (bri_mul s)) (baseline cosf now s))"
  have ok: "sd_board s = Some board" "length (sd_started s) = kMaxPixels" using assms(1) by (simp_all add: strip_ok_def)
  have walk: "(if ?n < kMaxPixels then ?n else kMaxPixels) = tracked board s" by (simp add: tracked_def)
  have n0: "?n \<noteq> 0" using assms(2) ok(1) by (intro notI) (simp add: render_frame_def)
  have "render_frame cosf now s = (Some (if sd_overlay s then ?f[0 := sd_overlay_rgb s] else ?f),
      s\<lparr> sd_wash := snd (compute_wash_baseline cosf now (sd_wash s)),
         sd_started := map snd ?px @ drop (tracked board s) (sd_started s) \<rparr>)"
    unfolding render_frame_def Let_def ok(1) option.case walk using n0 by (simp add: baseline_def split_beta)
  then have fr: "frame = (if sd_overlay s then ?f[0 := sd_overlay_rgb s] else ?f)"
    and s': "s' = s\<lparr> sd_wash := snd (compute_wash_baseline cosf now (sd_wash s)),
         sd_started := map snd ?px @ drop (tracked board s) (sd_started s) \<rparr>"
    using assms(2) by simp_all
  have tr: "tracked board s \<le> length (sd_started s)" "tracked board s \<le> ?n" by (simp_all add: tracked_def ok)
  show len: "length frame = ?n" using tr by (simp add: fr)
  show "frame ! p = (if p = 0 \<and> sd_overlay s then sd_overlay_rgb s
       else map_rgb (scale_channel (bri_mul s)) (pixel_colour cosf now s p))" if "p < length frame"
    using that len tr
    by (auto simp: fr pixel_colour_def nth_append nth_list_update split_beta ok tracked_def)
  show "sd_started s' ! p = snd (render_pixel now (sd_pulse s) (baseline cosf now s) (sd_started s ! p))"
    if "p < tracked board s" using that tr by (simp add: s' nth_append)
  show "s' = s\<lparr> sd_wash := snd (compute_wash_baseline cosf now (sd_wash s)), sd_started := sd_started s' \<rparr>"
    by (simp add: s')
  show "length (sd_started s') = kMaxPixels" using tr ok(2) by (simp add: s')
qed

lemma strip_run_frames:
  assumes "strip_ok board s" and "strip_run cosf calls s = (frames, s')" and "frame \<in> set frames"
  shows "\<exists>t now t'. strip_ok board t \<and> render_frame cosf now t = (Some frame, t')"
  using assms
proof (induction calls arbitrary: s frames)
  case Nil
  then show ?case by simp
next
  case (Cons c cs)
  obtain shown s1 where step: "strip_step cosf c s = (shown, s1)" by (cases "strip_step cosf c s")
  obtain fs s2 where run: "strip_run cosf cs s1 = (fs, s2)" by (cases "strip_run cosf cs s1")
  have ok: "strip_ok board s1" using strip_ok_step [OF Cons.prems(1), of cosf c] step by simp
  from Cons.prems(2,3) step run have "frame \<in> set fs \<or> shown = Some frame" by (auto split: option.splits)
  then show ?case
  proof
    assume "frame \<in> set fs"
    then show ?thesis using Cons.IH [OF ok] run step Cons.prems(2) by simp
  next
    assume "shown = Some frame"
    then have "\<exists>now. render_frame cosf now s = (Some frame, s1)"
      using step by (cases "(cosf, c, s)" rule: strip_step.cases) (auto simp: strip_loop_tick_def split: if_splits)
    then show ?thesis using Cons.prems(1) by blast
  qed
qed

text \<open>C8: No path drives a strip beyond its power budget. Once a mode has applied the stored settings,
  whatever they are, no sequence of operations (brightness changes of any value, washes, pulses, resizes,
  further settings) shows a frame in which a channel of any pixel but the first exceeds the ceiling of
  the board: 26 of 255 on the Atom Lite, which may draw 10 per cent, 128 on the Sticks (50 per cent). The
  first pixel is the status pixel, whose overlay ignores the brightness.\<close>

theorem strip_power_budget:
  assumes "sd_board s = Some board" and "length (sd_started s) = kMaxPixels"
    and "strip_run cosf ((OpSettings cfg n, t0) # calls) s = (frames, s')"
    and "frame \<in> set frames" and "0 < p" and "p < length frame" and "frame ! p = (r, g, b)"
  shows "unat r \<le> strip_ceiling board \<and> unat g \<le> strip_ceiling board \<and> unat b \<le> strip_ceiling board"
proof -
  have "strip_ok board (apply_persisted_strip_settings cfg n s)" using assms(1,2) by (rule strip_ok_settings)
  moreover have "strip_run cosf calls (apply_persisted_strip_settings cfg n s) = (frames, s')"
    using assms(3) by (simp split: prod.splits)
  ultimately obtain t now t' where t: "strip_ok board t" "render_frame cosf now t = (Some frame, t')"
    using strip_run_frames assms(4) by blast
  have "sd_brightness t \<le> max_strip_brightness_percent board" using t(1) by (auto simp: strip_ok_def)
  note ceiling = scale_channel_ceiling [OF this]
  obtain x y z where "pixel_colour cosf now t p = (x, y, z)" by (metis surj_pair)
  then show ?thesis using render_frame_nth(2) [OF t assms(6)] assms(5,7) ceiling by simp
qed

section \<open>The life of a wash\<close>

definition wash_ticks :: "(flt \<Rightarrow> flt) \<Rightarrow> nat list \<Rightarrow> strip_wash \<Rightarrow> strip_wash" where
  "wash_ticks cosf ts w = foldl (\<lambda>w t. snd (compute_wash_baseline cosf (of_nat t) w)) w ts"

text \<open>The timing of a tick, without the colours.\<close>

lemma wash_tick_state:
  "snd (compute_wash_baseline cosf now w) =
    (if \<not> sw_active w then w
     else let rel = (if sw_releasing_started_ms w = 0 \<and> sw_ttl_seconds w \<noteq> 0
                        \<and> now - sw_started_ms w \<ge> ucast (sw_ttl_seconds w) * 1000
                     then now else sw_releasing_started_ms w)
          in w\<lparr> sw_releasing_started_ms := rel,
                sw_active := \<not> (rel \<noteq> 0 \<and> now - rel \<ge> units100_to_ms (sw_release_100ms w)) \<rparr>)"
  by (auto simp: compute_wash_baseline_def Let_def units100_to_ms_def)

lemma wash_dark: "\<not> fst (fst (compute_wash_baseline cosf now w)) \<Longrightarrow> snd (fst (compute_wash_baseline cosf now w)) = (0, 0, 0)"
  by (auto simp: compute_wash_baseline_def Let_def split: if_splits)

lemma wash_shown_iff: "fst (fst (compute_wash_baseline cosf now w)) \<longleftrightarrow> sw_active (snd (compute_wash_baseline cosf now w))"
  by (auto simp: compute_wash_baseline_def Let_def)


lemma wash_ticks_Nil [simp]: "wash_ticks cosf [] w = w"
  by (simp add: wash_ticks_def)

lemma wash_ticks_Cons: "wash_ticks cosf (t # ts) w = wash_ticks cosf ts (snd (compute_wash_baseline cosf (of_nat t) w))"
  by (simp add: wash_ticks_def)

lemma wash_ticks_inactive: "\<not> sw_active w \<Longrightarrow> wash_ticks cosf ts w = w"
  by (induction ts) (simp_all add: wash_ticks_Cons wash_tick_state)

text \<open>Fading since tick \<open>e\<close>: the wash goes out at the first tick that is a release time later.\<close>

lemma wash_ticks_fading:
  assumes "sorted ts" and "\<forall>t \<in> set ts. e \<le> t \<and> t < e + 2 ^ 32" and "of_nat e \<noteq> (0 :: u32)"
  shows "sw_active w \<Longrightarrow> sw_releasing_started_ms w = of_nat e \<Longrightarrow>
    sw_active (wash_ticks cosf ts w) \<longleftrightarrow> (\<forall>t \<in> set ts. t < e + unat (units100_to_ms (sw_release_100ms w)))"
  using assms
proof (induction ts arbitrary: w)
  case Nil
  then show ?case by simp
next
  case (Cons t ts)
  have age: "unat (of_nat t - of_nat e :: u32) = t - e" using Cons.prems by (intro word_age) auto
  let ?R = "unat (units100_to_ms (sw_release_100ms w))"
  have tick: "snd (compute_wash_baseline cosf (of_nat t) w) = w\<lparr> sw_active := t < e + ?R \<rparr>"
    using Cons.prems age by (intro strip_wash.equality) (auto simp: wash_tick_state word_le_nat_alt)
  show ?case
  proof (cases "t < e + ?R")
    case True
    then have "snd (compute_wash_baseline cosf (of_nat t) w) = w"
      using Cons.prems(1) by (intro strip_wash.equality) (simp_all add: tick)
    then show ?thesis using True Cons.IH [of w] Cons.prems by (simp add: wash_ticks_Cons)
  next
    case False
    then have "\<not> sw_active (wash_ticks cosf (t # ts) w)"
      using tick by (simp add: wash_ticks_Cons wash_ticks_inactive)
    then show ?thesis using False by auto
  qed
qed

definition fresh_wash :: "light_wash_event \<Rightarrow> u32 \<Rightarrow> led_strip \<Rightarrow> strip_wash" where
  "fresh_wash ev now s = sd_wash (snd (strip_send_wash ev now s))"

text \<open>C26: A wash lives for its time to live and one release time. Send a wash with a time to live to an
  enabled strip and render at any times in order (for less than the 49 days of the clock, no tick in the
  millisecond the clock reads zero, which is the sentinel of the release). The wash stays active up to
  the first tick \<open>e\<close> at or past its time to live, starts its release there, and is still active after
  all ticks exactly if none of them is a release time or more after \<open>e\<close>. A wash that is not active shows
  black.\<close>

theorem wash_lifetime:
  assumes "sd_enabled s" and "sd_board s \<noteq> None" and "ew_ttl_seconds ev \<noteq> 0"
    and "sorted (t0 # ts)" and "\<forall>t \<in> set ts. t < t0 + 2 ^ 32 \<and> of_nat t \<noteq> (0 :: u32)"
  shows "sw_active (wash_ticks cosf ts (fresh_wash ev (of_nat t0) s)) \<longleftrightarrow>
    (case dropWhile (\<lambda>t. t < t0 + 1000 * unat (ew_ttl_seconds ev)) ts of
       [] \<Rightarrow> True
     | e # es \<Rightarrow> \<forall>t \<in> set (e # es). t < e + 100 * unat (ew_release ev))"
proof -
  define w where "w = fresh_wash ev (of_nat t0) s"
  let ?T = "t0 + 1000 * unat (ew_ttl_seconds ev)" and ?R = "100 * unat (ew_release ev)"
  have w: "sw_active w" "sw_releasing_started_ms w = 0" "sw_started_ms w = of_nat t0"
    "sw_ttl_seconds w = ew_ttl_seconds ev" "sw_release_100ms w = ew_release ev"
    using assms(1,2) by (auto simp: w_def fresh_wash_def strip_send_wash_def)
  have R: "unat (units100_to_ms (sw_release_100ms w)) = ?R"
    using unat_u8_le [of "ew_release ev"]
    by (simp add: units100_to_ms_def w unat_word_ariths unat_ucast_up del: unat_u8_le)
  have T: "unat (ucast (ew_ttl_seconds ev) * 1000 :: u32) = 1000 * unat (ew_ttl_seconds ev)"
    using unat_u16_less [of "ew_ttl_seconds ev"] by (simp add: unat_word_ariths unat_ucast_up)
  have tick: "snd (compute_wash_baseline cosf (of_nat t) w) =
      (if t < ?T then w else w\<lparr> sw_releasing_started_ms := of_nat t, sw_active := 0 < ?R \<rparr>)"
    if "t0 \<le> t" "t < t0 + 2 ^ 32" "of_nat t \<noteq> (0 :: u32)" for t
  proof -
    have "unat (of_nat t - of_nat t0 :: u32) = t - t0" using that by (intro word_age) auto
    then show ?thesis using that w R T assms(3) by (auto simp: wash_tick_state word_le_nat_alt Let_def)
  qed
  have "sw_active (wash_ticks cosf ts w) \<longleftrightarrow> (case dropWhile (\<lambda>t. t < ?T) ts of
       [] \<Rightarrow> True | e # es \<Rightarrow> \<forall>t \<in> set (e # es). t < e + ?R)"
    using assms(4,5)
  proof (induction ts)
    case Nil
    then show ?case by (simp add: w)
  next
    case (Cons t ts)
    show ?case
    proof (cases "t < ?T")
      case True
      then show ?thesis using Cons tick [of t] by (simp add: wash_ticks_Cons)
    next
      case False
      let ?v = "w\<lparr> sw_releasing_started_ms := of_nat t, sw_active := 0 < ?R \<rparr>"
      have v: "snd (compute_wash_baseline cosf (of_nat t) w) = ?v" using tick [of t] False Cons.prems by simp
      have "\<forall>u \<in> set ts. t \<le> u \<and> u < t + 2 ^ 32" using Cons.prems by fastforce
      note fading = wash_ticks_fading [OF _ this, of ?v cosf]
      show ?thesis
      proof (cases "?R = 0")
        case True
        then show ?thesis using False v by (simp add: wash_ticks_Cons wash_ticks_inactive)
      next
        case nz: False
        then show ?thesis using False v fading Cons.prems R w by (simp add: wash_ticks_Cons)
      qed
    qed
  qed
  then show ?thesis by (simp add: w_def)
qed


text \<open>The sentinel of the release: a wash end at clock zero is not recorded.\<close>

lemma wash_end_at_zero_lost:
  "sw_active (sd_wash s) \<Longrightarrow> sw_releasing_started_ms (sd_wash s) = 0 \<Longrightarrow> sw_ttl_seconds (sd_wash s) = 0 \<Longrightarrow>
    sw_active (wash_ticks cosf ts (sd_wash (snd (strip_send_wash_end rt 0 s))))"
proof -
  assume w: "sw_active (sd_wash s)" "sw_releasing_started_ms (sd_wash s) = 0" "sw_ttl_seconds (sd_wash s) = 0"
  have "sw_active (wash_ticks cosf ts w)"
    if "sw_active w" "sw_releasing_started_ms w = 0" "sw_ttl_seconds w = 0" for w
    using that by (induction ts arbitrary: w) (simp_all add: wash_ticks_Cons wash_tick_state)
  then show ?thesis using w by (simp add: strip_send_wash_end_def)
qed

section \<open>The life of a pulse\<close>

definition strip_ticks :: "(flt \<Rightarrow> flt) \<Rightarrow> nat list \<Rightarrow> led_strip \<Rightarrow> led_strip" where
  "strip_ticks cosf ts s = foldl (\<lambda>s t. snd (strip_loop_tick cosf (of_nat t) s)) s ts"

definition envelope_ms :: "strip_pulse \<Rightarrow> u32" where
  "envelope_ms p = pu_attack_ms p + pu_sustain_ms p + pu_release_ms p"

lemma strip_ticks_Nil [simp]: "strip_ticks cosf [] s = s"
  by (simp add: strip_ticks_def)

lemma strip_ticks_Cons: "strip_ticks cosf (t # ts) s = strip_ticks cosf ts (snd (strip_loop_tick cosf (of_nat t) s))"
  by (simp add: strip_ticks_def)

lemma render_frame_some:
  "strip_ok board s \<Longrightarrow> p < tracked board s \<Longrightarrow> \<exists>frame s'. render_frame cosf now s = (Some frame, s')"
  by (auto simp: strip_ok_def render_frame_def tracked_def Let_def split: prod.split)

lemma pixel_armed:
  assumes "unat (now - stamp) < unat (envelope_ms p)"
  shows "snd (render_pixel now p base stamp) = stamp"
  using assms by (auto simp: render_pixel_def envelope_ms_def Let_def word_le_nat_alt)

text \<open>Ticks within the envelope keep a stamped pixel armed and change nothing but the wash and other stamps.\<close>

lemma strip_ticks_armed:
  assumes "strip_ok board s" and "sd_enabled s" and "p < tracked board s" and "sd_started s ! p = of_nat t0"
    and "\<forall>t \<in> set ts. t0 \<le> t \<and> t < t0 + unat (envelope_ms (sd_pulse s))"
  shows "\<exists>w st. strip_ticks cosf ts s = s\<lparr> sd_wash := w, sd_started := st \<rparr> \<and> length st = kMaxPixels
    \<and> st ! p = of_nat t0"
  using assms
proof (induction ts arbitrary: s)
  case Nil
  then show ?case by (intro exI [where x = "sd_wash s"] exI [where x = "sd_started s"]) (simp add: strip_ok_def)
next
  case (Cons t ts)
  obtain frame s1 where tick: "render_frame cosf (of_nat t) s = (Some frame, s1)"
    using render_frame_some [OF Cons.prems(1,3)] by blast
  note nth = render_frame_nth [OF Cons.prems(1) tick]
  have "unat (of_nat t - of_nat t0 :: u32) = t - t0"
    using Cons.prems(5) unat_u32_less [of "envelope_ms (sd_pulse s)"] by (intro word_age) auto
  then have armed: "sd_started s1 ! p = of_nat t0"
    using nth(3) [OF Cons.prems(3)] pixel_armed [of "of_nat t" "of_nat t0" "sd_pulse s" "baseline cosf (of_nat t) s"] Cons.prems(4,5) by auto
  obtain w st where s1: "s1 = s\<lparr> sd_wash := w, sd_started := st \<rparr>" using nth(4) by blast
  have ok: "strip_ok board s1" using strip_ok_render [OF Cons.prems(1), of cosf "of_nat t"] tick by simp
  have "\<exists>w st. strip_ticks cosf ts s1 = s1\<lparr> sd_wash := w, sd_started := st \<rparr> \<and> length st = kMaxPixels
      \<and> st ! p = of_nat t0"
    using Cons.prems armed by (intro Cons.IH ok) (simp_all add: s1 tracked_def)
  then obtain w' st' where "strip_ticks cosf ts s1 = s1\<lparr> sd_wash := w', sd_started := st' \<rparr>"
    "length st' = kMaxPixels" "st' ! p = of_nat t0" by blast
  then show ?case using tick Cons.prems(2)
    by (intro exI [where x = w'] exI [where x = st']) (simp add: strip_ticks_Cons strip_loop_tick_def s1)
qed

text \<open>C9: No pulse is dropped, however the ticks fall. Take a pixel that a pulse has stamped at \<open>t0\<close>, and
  any ticks during its envelope (one in the very millisecond of the pulse included). The next tick, at any
  \<open>t\<close> not 49 days later, shows the pixel in exactly the pulse's colour while the pulse is sustained, in a
  colour that lies channel by channel between the wash behind it and the pulse while it rises or falls,
  and in the wash's colour from the end of the envelope on, all scaled by the device's brightness;
  only then is the stamp cleared.\<close>

theorem pulse_shown_throughout:
  assumes "strip_ok board s" and "sd_enabled s" and "p < tracked board s" and "sd_started s ! p = of_nat t0"
    and "of_nat t0 \<noteq> (0 :: u32)" and "p \<noteq> 0 \<or> \<not> sd_overlay s"
    and "\<forall>t' \<in> set ts. t0 \<le> t' \<and> t' < t0 + unat (envelope_ms (sd_pulse s))"
    and "t0 \<le> t" and "t < t0 + 2 ^ 32" and "0 < envelope_ms (sd_pulse s)"
    and "unat (pu_attack_ms (sd_pulse s)) + unat (pu_sustain_ms (sd_pulse s)) < 2 ^ 32"
  shows "\<exists>frame s' c. strip_loop_tick cosf (of_nat t) (strip_ticks cosf ts s) = (Some frame, s')
    \<and> frame ! p = map_rgb (scale_channel (bri_mul s)) c
    \<and> (let base = baseline cosf (of_nat t) (strip_ticks cosf ts s); pulse = sd_pulse s; d = t - t0 in
       if unat (envelope_ms pulse) \<le> d then c = base \<and> sd_started s' ! p = 0
       else sd_started s' ! p = of_nat t0
         \<and> (unat (pu_attack_ms pulse) \<le> d \<and> d < unat (pu_attack_ms pulse) + unat (pu_sustain_ms pulse)
              \<longrightarrow> c = pu_rgb pulse)
         \<and> rgb_between base (pu_rgb pulse) c)"
proof -
  obtain w st where s1: "strip_ticks cosf ts s = s\<lparr> sd_wash := w, sd_started := st \<rparr>"
    "length st = kMaxPixels" "st ! p = of_nat t0"
    using strip_ticks_armed [OF assms(1-4,7)] by blast
  let ?s = "s\<lparr> sd_wash := w, sd_started := st \<rparr>" and ?p = "sd_pulse s"
  let ?base = "baseline cosf (of_nat t) ?s"
  have ok: "strip_ok board ?s" using assms(1) s1(2) by (simp add: strip_ok_def)
  have tr: "p < tracked board ?s" using assms(3) by (simp add: tracked_def)
  obtain frame s' where tick: "render_frame cosf (of_nat t) ?s = (Some frame, s')"
    using render_frame_some [OF ok tr] by blast
  note nth = render_frame_nth [OF ok tick]
  have age: "unat (of_nat t - of_nat t0 :: u32) = t - t0" using assms(8,9) by (intro word_age) auto
  let ?c = "fst (render_pixel (of_nat t) ?p ?base (of_nat t0))"
  have "p < length frame" using nth(1) assms(3) by (simp add: tracked_def)
  from nth(2) [OF this] have pix: "frame ! p = map_rgb (scale_channel (bri_mul s)) ?c"
    using assms(3,6) s1(2,3) by (auto simp: pixel_colour_def tracked_def bri_mul_def)
  have st': "sd_started s' ! p = snd (render_pixel (of_nat t) ?p ?base (of_nat t0))"
    using nth(3) [OF tr] s1(3) by simp
  have total: "pu_attack_ms ?p + pu_sustain_ms ?p + pu_release_ms ?p = envelope_ms ?p" by (simp add: envelope_ms_def)
  have as: "unat (pu_attack_ms ?p + pu_sustain_ms ?p) = unat (pu_attack_ms ?p) + unat (pu_sustain_ms ?p)"
    using assms(11) by (simp add: unat_word_ariths)
  obtain r g b r' g' b' where rgb: "?base = (r, g, b)" "pu_rgb ?p = (r', g', b')" by (metis surj_pair)
  define alpha where "alpha = pulse_envelope_fraction (of_nat t0) (of_nat t) (pu_attack_ms ?p) (pu_sustain_ms ?p) (pu_release_ms ?p)"
  have over: "render_pixel (of_nat t) ?p ?base (of_nat t0) = (?base, 0)" if "unat (envelope_ms ?p) \<le> t - t0"
    using that age assms(5,10) by (simp add: render_pixel_def total word_le_nat_alt)
  have inside: "render_pixel (of_nat t) ?p ?base (of_nat t0) =
      (if alpha > 0 then (lerp_u8 r r' alpha, lerp_u8 g g' alpha, lerp_u8 b b' alpha) else ?base, of_nat t0)"
    if "\<not> unat (envelope_ms ?p) \<le> t - t0"
    using that age assms(5,10) rgb by (simp add: render_pixel_def total word_le_nat_alt alpha_def Let_def)
  have full: "alpha = 1" if "\<not> unat (envelope_ms ?p) \<le> t - t0" "unat (pu_attack_ms ?p) \<le> t - t0"
    "t - t0 < unat (pu_attack_ms ?p) + unat (pu_sustain_ms ?p)"
    using that age assms(5,10) as total
    by (auto simp: alpha_def pulse_envelope_fraction_def word_le_nat_alt word_less_nat_alt Let_def)
  have blended: "rgb_between ?base (pu_rgb ?p) ?c" if "\<not> unat (envelope_ms ?p) \<le> t - t0"
    using inside [OF that] rgb lerp_u8_between by simp
  show ?thesis
    unfolding s1(1) strip_loop_tick_def
    using assms(2) tick pix st' over inside full blended rgb
    by (intro exI [where x = frame] exI [where x = s'] exI [where x = ?c]) (auto simp: lerp_u8_def Let_def)
qed


section \<open>Examples\<close>

text \<open>A Stick with its default strip of 29 pixels in groups of 12, at the stored brightness of 40.\<close>

definition sample_strip :: led_strip where
  "sample_strip = (strip_init (Some StickStrip))\<lparr> sd_brightness := 40, sd_max_brightness := 50, sd_group_size := 12 \<rparr>"

definition sample_pulse :: lume_pulse where
  "sample_pulse = \<lparr> up_r = 200, up_g = 0, up_b = 40, up_attack = 1, up_sustain = 3, up_release = 4,
     up_chance = 3, up_led_mode = 0, up_led_modifier1 = 0, up_led_modifier2 = 0 \<rparr>"

definition sample_wash :: light_wash_event where
  "sample_wash = \<lparr> ew_r1 = 0, ew_g1 = 90, ew_b1 = 255, ew_r2 = 0, ew_g2 = 90, ew_b2 = 255, ew_attack = 0,
     ew_release = 10, ew_intensity = 255, ew_cycle_ms = 0, ew_ttl_seconds = 5, ew_pulse_response = 0,
     ew_led_mode = 0, ew_led_modifier1 = 0, ew_led_modifier2 = 0 \<rparr>"

lemma sample_strip_ok: "strip_ok StickStrip sample_strip" "sd_enabled sample_strip"
  by (simp_all add: sample_strip_def strip_init_def strip_ok_def)

lemma sample_tracked [simp]: "tracked StickStrip (sample_strip\<lparr> sd_pulse := pu, sd_started := st, sd_wash := w \<rparr>) = 29"
    "tracked StickStrip sample_strip = 29"
  by (simp_all add: sample_strip_def strip_init_def tracked_def)

lemma sample_facts [simp]: "sd_rng sample_strip = 0" "sd_group_size sample_strip = 12"
    "p < 288 \<Longrightarrow> sd_started sample_strip ! p = 0" "up_led_mode sample_pulse = 0" "up_chance sample_pulse = 3"
  by (simp_all add: sample_strip_def strip_init_def sample_pulse_def)

theorem groups_flash_together_witness:
  "\<exists>s'. strip_send sample_pulse 7000 sample_strip = (True, s') \<and> sd_rng s' \<noteq> 0 \<and> sd_started s' ! 25 =
    (if roll 7000 0 2 mod 100 < 50 then 7000 else 0)"
  using groups_flash_together [OF sample_strip_ok, of sample_pulse 25 7000]
  by (simp add: chance_to_percent_def pulse_stamp_def cong: if_cong)

theorem pattern_tiles_strip_witness:
  "sd_started (snd (strip_send (sample_pulse\<lparr> up_led_mode := 2, up_led_modifier1 := 0x05, up_led_modifier2 := 0x08 \<rparr>)
     7000 sample_strip)) ! 14 = 7000"
  using pattern_tiles_strip [OF sample_strip_ok,
      of "sample_pulse\<lparr> up_led_mode := 2, up_led_modifier1 := 0x05, up_led_modifier2 := 0x08 \<rparr>" "0x805" 14 7000]
  by (simp add: unpack_repeat_mask_def sample_strip_def strip_init_def tracked_def pulse_stamp_def)

theorem wash_lifetime_witness:
  "\<not> sw_active (wash_ticks (\<lambda>x. x) [1000, 5999, 6010, 6500, 7010] (fresh_wash sample_wash 1000 sample_strip))
    \<and> sw_active (wash_ticks (\<lambda>x. x) [1000, 5999, 6010, 6500, 7009] (fresh_wash sample_wash 1000 sample_strip))"
  using wash_lifetime [of sample_strip sample_wash 1000 "[1000, 5999, 6010, 6500, 7010]" "\<lambda>x. x"]
    wash_lifetime [of sample_strip sample_wash 1000 "[1000, 5999, 6010, 6500, 7009]" "\<lambda>x. x"]
  by (simp add: sample_wash_def sample_strip_def strip_init_def)

theorem pulse_shown_throughout_witness:
  "\<exists>frame s' c. strip_loop_tick (\<lambda>x. x) 1100
      (strip_ticks (\<lambda>x. x) [1000, 1040] (sample_strip\<lparr> sd_pulse := latch_pulse sample_pulse, sd_started := replicate 288 1000 \<rparr>))
      = (Some frame, s') \<and> frame ! 3 = map_rgb (scale_channel (bri_mul sample_strip)) c \<and> c = (200, 0, 40)"
proof -
  let ?s = "sample_strip\<lparr> sd_pulse := latch_pulse sample_pulse, sd_started := replicate 288 1000 \<rparr>"
  have p: "latch_pulse sample_pulse = \<lparr> pu_rgb = (200, 0, 40), pu_attack_ms = 32, pu_sustain_ms = 192, pu_release_ms = 480 \<rparr>"
    by (simp add: latch_pulse_def sample_pulse_def pixmob_time_to_ms_def)
  have ok: "strip_ok StickStrip ?s" "sd_enabled ?s" using sample_strip_ok by (simp_all add: strip_ok_def)
  have t: "3 < tracked StickStrip ?s" by (simp add: sample_strip_def strip_init_def tracked_def)
  show ?thesis
    using pulse_shown_throughout [OF ok t, of 1000 "[1000, 1040]" 1100 "\<lambda>x. x"]
    by (fastforce simp: p envelope_ms_def bri_mul_def)
qed

text \<open>An Atom Lite with one Grove pixel, asked for full brightness and full white.\<close>

definition strip_cfg :: build_cfg where
  "strip_cfg = \<lparr> bc_retransmits = 2, bc_pairing_window_s = 30, bc_repeater_channel = 0, bc_strip_brightness = 80,
     bc_strip_group_size = 12, bc_strip_chain_size = 29 \<rparr>"

definition budget_calls :: "(strip_op \<times> u32) list" where
  "budget_calls = [(OpPixelCount 2, 1), (OpBrightness 100, 5),
     (OpWash (sample_wash\<lparr> ew_r1 := 255, ew_g1 := 255 \<rparr>), 10), (OpTick, 20)]"

theorem strip_power_budget_witness:
  "\<exists>frame s'. strip_run (\<lambda>x. x) ((OpSettings strip_cfg nvs_empty, 0) # budget_calls) (strip_init (Some AtomLiteStrip))
      = ([frame], s') \<and> length frame = 2
    \<and> (\<forall>r g b. frame ! 1 = (r, g, b) \<longrightarrow> unat r \<le> 26 \<and> unat g \<le> 26 \<and> unat b \<le> 26)"
proof -
  let ?s0 = "strip_init (Some AtomLiteStrip)"
  let ?s4 = "snd (strip_send_wash (sample_wash\<lparr> ew_r1 := 255, ew_g1 := 255 \<rparr>) 10
    (set_brightness_percent 100 (set_pixel_count 2 (apply_persisted_strip_settings strip_cfg nvs_empty ?s0))))"
  have s0: "sd_board ?s0 = Some AtomLiteStrip" "length (sd_started ?s0) = kMaxPixels" by (simp_all add: strip_init_def)
  have ok: "strip_ok AtomLiteStrip ?s4" using strip_ok_settings [OF s0] by (intro strip_ok_setters)
  have grove: "sd_grove_count ?s4 = 1" "sd_enabled ?s4"
    by (simp_all add: strip_init_def apply_persisted_strip_settings_def set_pixel_count_def set_group_size_def
        set_brightness_percent_def set_max_brightness_percent_def strip_send_wash_def load_strip_enabled_def
        nvs_empty_def get_or_def Let_def)
  have tr: "0 < tracked AtomLiteStrip ?s4" by (simp add: tracked_def grove)
  obtain frame s' where tick: "render_frame (\<lambda>x. x) 20 ?s4 = (Some frame, s')"
    using render_frame_some [OF ok tr] by blast
  have run: "strip_run (\<lambda>x. x) ((OpSettings strip_cfg nvs_empty, 0) # budget_calls) ?s0 = ([frame], s')"
    using tick grove by (simp add: budget_calls_def strip_loop_tick_def)
  have len: "length frame = 2" using render_frame_nth(1) [OF ok tick] grove by simp
  show ?thesis using strip_power_budget [OF s0 run, of frame 1] len
    by (intro exI [where x = frame] exI [where x = s'] conjI run) simp_all
qed

end
