(* ===== verification/DmxBridge.thy ===== *)
theory DmxBridge
  imports DmxParser DmxMapper Dal LedStrip
begin

text \<open>
  \<open>DmxBridgeMode\<close> of \<open>src/modes/dmx_bridge_mode.cpp\<close> with the serial adapter
  \<open>src/dal/drivers/dmx_usb_cdc_adapter.cpp\<close>, as built for the Sticks: the bytes of a lighting desk go
  through the Enttec parser; passthrough frames go straight to the radio driver, the universe goes
  through seven channel mappers whose events are rendered by the abstraction layer. The bytes that the
  serial port holds at a poll are an argument of the loop; drawing and the Ethernet variant are outside.
\<close>

record bridge =
  br_parser :: dmx_parser
  br_adapter_active :: bool
  br_bytes_read :: u32
  br_mappers :: "mapper list"
  br_universe :: bytes
  br_active :: bool
  br_enter_ms :: u32
  br_last_frame_seen_ms :: u32
  br_dal :: dal

abbreviation kBlockCount :: nat where "kBlockCount \<equiv> 7"
abbreviation kLabelEspNowBroadcast :: u8 where "kLabelEspNowBroadcast \<equiv> 0x10"

definition kBlockBase :: "nat list" where
  "kBlockBase = [0, 40, 80, 120, 160, 200, 240]"

definition kBlockSize :: "nat list" where
  "kBlockSize = [40, 40, 40, 40, 40, 40, 40]"

text \<open>The string constant \<open>"00:00"\<close>.\<close>

definition kExitClearTarget :: bytes where
  "kExitClearTarget = [0x30, 0x30, 0x3A, 0x30, 0x30]"

definition bridge_init :: "dal \<Rightarrow> bridge" where
  "bridge_init d = \<lparr> br_parser = dmx_parser_init, br_adapter_active = False, br_bytes_read = 0,
     br_mappers = map mapper_init [0, 1, 2, 3, 4, 5, 6], br_universe = replicate 280 0,
     br_active = False, br_enter_ms = 0, br_last_frame_seen_ms = 0, br_dal = d \<rparr>"

text \<open>The sink of the mappers; \<open>ok\<close> answers for the Director's own outputs.\<close>

fun sink_event :: "drv_env \<Rightarrow> bool \<Rightarrow> mapper_event \<Rightarrow> dal \<Rightarrow> dal_event list \<times> dal" where
  "sink_event e ok (OnPulse target ev) s = snd (render_fx e ok target ev s)"
| "sink_event e ok (OnWash target ev) s = snd (render_wash e target ev s)"

fun sink_all :: "drv_env \<Rightarrow> bool \<Rightarrow> mapper_event list \<Rightarrow> dal \<Rightarrow> dal_event list \<times> dal" where
  "sink_all e ok [] s = ([], s)"
| "sink_all e ok (ev # evs) s =
     (case sink_event e ok ev s of (e1, s1) \<Rightarrow> case sink_all e ok evs s1 of (e2, s2) \<Rightarrow> (e1 @ e2, s2))"

definition on_parsed_frame :: "drv_env \<Rightarrow> bridge \<Rightarrow> dal_event list \<times> bridge" where
  "on_parsed_frame e s =
     (if last_was_dmx_packet (br_parser s) then ([], s)
      else if dp_last_label (br_parser s) = kLabelEspNowBroadcast then
        (case send_passthrough e (take (unat (dp_last_payload_len (br_parser s))) (dp_payload_buf (br_parser s)))
                (dl_driver (br_dal s)) of
           (airs, d) \<Rightarrow> (map OnWire airs, s\<lparr> br_dal := (br_dal s)\<lparr> dl_driver := d \<rparr> \<rparr>))
      else ([], s))"

text \<open>The adapter's poll: every pending byte is parsed, each completed frame is handed over at once.\<close>

fun poll_bytes :: "drv_env \<Rightarrow> bytes \<Rightarrow> bridge \<Rightarrow> nat \<times> dal_event list \<times> bridge" where
  "poll_bytes e [] s = (0, [], s)"
| "poll_bytes e (b # bs) s =
     (case feed_byte b (br_parser s) of (r, p) \<Rightarrow>
      let s1 = s\<lparr> br_bytes_read := br_bytes_read s + 1, br_parser := p \<rparr>;
          (e1, s2) = (if r = FrameComplete then on_parsed_frame e s1 else ([], s1))
      in case poll_bytes e bs s2 of (n, e2, s3) \<Rightarrow>
           (if r = FrameComplete then n + 1 else n, e1 @ e2, s3))"

definition poll :: "drv_env \<Rightarrow> bytes \<Rightarrow> bridge \<Rightarrow> nat \<times> dal_event list \<times> bridge" where
  "poll e bs s = (if \<not> br_adapter_active s then (0, [], s) else poll_bytes e bs s)"

definition run_block :: "drv_env \<Rightarrow> bool \<Rightarrow> nat \<Rightarrow> bytes \<Rightarrow> nat \<Rightarrow> bridge \<Rightarrow> dal_event list \<times> bridge" where
  "run_block e ok copied universe_buf i s =
     (let base = kBlockBase ! i; size = kBlockSize ! i
      in if copied < base + size then ([], s)
         else case mapper_process (take size (drop base universe_buf)) (de_now e) (br_mappers s ! i) of
                (evs, m) \<Rightarrow>
                  case sink_all e ok evs (br_dal s) of (out, d) \<Rightarrow>
                    (out, s\<lparr> br_mappers := (br_mappers s)[i := m], br_dal := d \<rparr>))"

fun run_blocks :: "drv_env \<Rightarrow> bool \<Rightarrow> nat \<Rightarrow> bytes \<Rightarrow> nat list \<Rightarrow> bridge \<Rightarrow> dal_event list \<times> bridge" where
  "run_blocks e ok copied u [] s = ([], s)"
| "run_blocks e ok copied u (i # is) s =
     (case run_block e ok copied u i s of (e1, s1) \<Rightarrow>
      case run_blocks e ok copied u is s1 of (e2, s2) \<Rightarrow> (e1 @ e2, s2))"

definition run_mappers :: "drv_env \<Rightarrow> bool \<Rightarrow> bytes \<Rightarrow> nat \<Rightarrow> bridge \<Rightarrow> dal_event list \<times> bridge" where
  "run_mappers e ok universe_buf copied s = run_blocks e ok copied universe_buf [0..<kBlockCount] s"

definition bridge_loop_tick :: "drv_env \<Rightarrow> bool \<Rightarrow> bytes \<Rightarrow> bridge \<Rightarrow> dal_event list \<times> bridge" where
  "bridge_loop_tick e ok bs s =
     (case poll e bs s of (fresh, e1, s1) \<Rightarrow>
      let activity = (fresh > 0 \<or> br_bytes_read s1 \<noteq> br_bytes_read s);
          have_data = (activity \<or> br_last_frame_seen_ms s1 \<noteq> 0);
          s2 = (if activity then s1\<lparr> br_last_frame_seen_ms := de_now e \<rparr> else s1)
      in if have_data \<and> last_was_dmx_packet (br_parser s2) then
           (case copy_dmx_channels (br_parser s2) (Some (br_universe s2)) kUniverseBufferSize of
              (copied, out) \<Rightarrow>
                case run_mappers e ok (the out) (unat copied) (s2\<lparr> br_universe := the out \<rparr>) of
                  (e2, s3) \<Rightarrow> (e1 @ e2, s3))
         else (e1, s2))"

text \<open>The build for the Stick, which also applies its strip settings to its own strip.\<close>

definition bridge_enter :: "build_cfg \<Rightarrow> drv_env \<Rightarrow> bridge \<times> led_strip \<Rightarrow> bridge \<times> led_strip" where
  "bridge_enter cfg e p =
     (case p of (s, strip) \<Rightarrow>
        let d = snd (start_broadcast cfg e (load_director_channel (dv_nvs (dl_driver (br_dal s)))) (dl_driver (br_dal s)))
        in (s\<lparr> br_enter_ms := de_now e, br_last_frame_seen_ms := 0,
               br_mappers := map mapper_reset (br_mappers s),
               br_dal := (br_dal s)\<lparr> dl_driver := d \<rparr>,
               br_parser := dp_reset_counters (dp_reset (br_parser s)), br_bytes_read := 0,
               br_adapter_active := True, br_active := True \<rparr>,
            apply_persisted_strip_settings cfg (dv_nvs d) strip))"

definition bridge_exit :: "drv_env \<Rightarrow> bridge \<Rightarrow> dal_event list \<times> bridge" where
  "bridge_exit e s =
     (case render_wash_end e kExitClearTarget 10 (br_dal s) of (_, out, d) \<Rightarrow>
        (out, s\<lparr> br_dal := d\<lparr> dl_driver := stop_broadcast e (dl_driver d) \<rparr>,
                 br_adapter_active := False, br_active := False \<rparr>))"

section \<open>A universe at rest\<close>

definition blk :: "bytes \<Rightarrow> nat \<Rightarrow> bytes" where
  "blk u i = take 40 (drop (40 * i) u)"

text \<open>Effects mode, no trigger, no strobe: the block asks for its wash and nothing else.\<close>

definition quiet_block :: "bytes \<Rightarrow> bool" where
  "quiet_block b \<longleftrightarrow> length b = 40 \<and> \<not> b ! kRawEnable \<ge> kRawEnableThreshold
     \<and> b ! kPulseTrigger < kTriggerLo \<and> b ! kStrobeRate = 0"

definition block_wash :: "bytes \<Rightarrow> light_wash_event" where
  "block_wash b = wash_event_of (wash_of_block b (b ! kMasterIntensity))"

definition fresh_mapper :: "u8 \<Rightarrow> mapper \<Rightarrow> bool" where
  "fresh_mapper g m \<longleftrightarrow> \<not> mp_raw_active m \<and> \<not> mp_wash_seeded m \<and> mp_target m = mp_target (mapper_init g)"

definition settled_mapper :: "bytes \<Rightarrow> mapper \<Rightarrow> bool" where
  "settled_mapper b m \<longleftrightarrow> \<not> mp_raw_active m \<and> mp_wash_seeded m
     \<and> mp_last_wash m = wash_of_block b (b ! kMasterIntensity)"

lemma quiet_no_pulse: "quiet_block b \<Longrightarrow> \<not> kTriggerHi \<le> b ! kPulseTrigger"
  by (simp add: quiet_block_def not_le)

lemma quiet_first:
  assumes "quiet_block b" and "fresh_mapper g m"
  shows "fst (mapper_process b now m) = [OnWash (mp_target (mapper_init g)) (block_wash b)]
    \<and> settled_mapper b (snd (mapper_process b now m))"
  using assms quiet_no_pulse [OF assms(1)]
  by (simp add: detector_defs quiet_block_def fresh_mapper_def settled_mapper_def block_wash_def Let_def)

lemma quiet_again:
  assumes "quiet_block b" and "settled_mapper b m"
  shows "fst (mapper_process b now m) = [] \<and> settled_mapper b (snd (mapper_process b now m))"
  using assms quiet_no_pulse [OF assms(1)]
  by (simp add: detector_defs quiet_block_def settled_mapper_def Let_def)

fun on_wire :: "dal_event list \<Rightarrow> air list" where
  "on_wire [] = []"
| "on_wire (OnWire a # evs) = a # on_wire evs"
| "on_wire (ToIr c # evs) = on_wire evs"
| "on_wire (ToScreen c # evs) = on_wire evs"
| "on_wire (ToStrip c # evs) = on_wire evs"

lemma on_wire_append [simp]: "on_wire (xs @ ys) = on_wire xs @ on_wire ys"
  by (induction xs rule: on_wire.induct) simp_all

lemma on_wire_map [simp]: "on_wire (map OnWire airs) = airs"
  by (induction airs) simp_all

lemma on_wire_loopback [simp]: "on_wire (fst (wash_loopback c g call s)) = []"
  by (simp add: wash_loopback_def ir_out_def strip_out_def)

lemma loopback_driver [simp]:
  "dl_driver (snd (wash_loopback c g call s)) = dl_driver s"
  "dl_wire (snd (wash_loopback c g call s)) = dl_wire s"
  "dl_washes (snd (wash_loopback c g call s)) = dl_washes s"
  by (simp_all add: wash_loopback_def ir_out_def strip_out_def)

text \<open>The targets of the seven mappers are understood by the abstraction layer.\<close>

lemma mapper_target: "parse_target_class_group (mp_target (mapper_init g)) = Some (0, g)"
proof -
  have "hex_02X (ucast (0 :: u8)) = [0x30, 0x30]" by (simp add: hex_02X_def hex_digit_def)
  then show ?thesis using parse_target_format [of 0 g] by (simp add: mapper_init_def)
qed

lemma kBlockBase_nth: "i < kBlockCount \<Longrightarrow> kBlockBase ! i = 40 * i \<and> kBlockSize ! i = 40"
  by (auto simp: kBlockBase_def kBlockSize_def less_Suc_eq numeral_eq_Suc)

lemma run_block_eq:
  "i < kBlockCount \<Longrightarrow> 280 \<le> copied \<Longrightarrow> run_block e ok copied u i s =
     (case mapper_process (blk u i) (de_now e) (br_mappers s ! i) of
        (evs, m) \<Rightarrow> case sink_all e ok evs (br_dal s) of
          (out, d) \<Rightarrow> (out, s\<lparr> br_mappers := (br_mappers s)[i := m], br_dal := d \<rparr>))"
  using kBlockBase_nth [of i] by (simp add: run_block_def blk_def Let_def)

text \<open>While the airtime cap is closed, a wash is not sent, and its mapper does not know.\<close>

definition capped :: "drv_env \<Rightarrow> dal \<Rightarrow> bool" where
  "capped e s \<longleftrightarrow> dv_active (dl_driver s) \<and> dv_last_airtime_send_ms (dl_driver s) = de_now e"

lemma wash_capped:
  assumes "capped e s"
  shows "on_wire (fst (sink_event e ok (OnWash (mp_target (mapper_init g)) ev) s)) = []
    \<and> capped e (snd (sink_event e ok (OnWash (mp_target (mapper_init g)) ev) s))"
proof -
  have "send_wash e 0 g ev (dl_driver s) =
      (False, [], (dl_driver s)\<lparr> dv_airtime_drop_count := dv_airtime_drop_count (dl_driver s) + 1 \<rparr>)"
    using assms gated_send_capped [of "dl_driver s" e] by (simp add: send_wash_def capped_def)
  then show ?thesis
    using assms by (simp add: render_wash_def mapper_target case_prod_beta capped_def Let_def)
qed

lemma capped_blocks:
  "distinct is \<Longrightarrow> set is \<subseteq> {..<kBlockCount} \<Longrightarrow> 280 \<le> copied \<Longrightarrow> length (br_mappers s) = kBlockCount \<Longrightarrow>
    \<forall>i \<in> set is. quiet_block (blk u i) \<and> fresh_mapper (of_nat i) (br_mappers s ! i) \<Longrightarrow> capped e (br_dal s) \<Longrightarrow>
    on_wire (fst (run_blocks e ok copied u is s)) = []
    \<and> length (br_mappers (snd (run_blocks e ok copied u is s))) = kBlockCount
    \<and> (\<forall>i \<in> set is. settled_mapper (blk u i) (br_mappers (snd (run_blocks e ok copied u is s)) ! i))
    \<and> (\<forall>i. i \<notin> set is \<longrightarrow> br_mappers (snd (run_blocks e ok copied u is s)) ! i = br_mappers s ! i)"
proof (induction "is" arbitrary: s)
  case Nil
  then show ?case by simp
next
  case (Cons i "is")
  let ?m = "mapper_process (blk u i) (de_now e) (br_mappers s ! i)"
  let ?w = "OnWash (mp_target (mapper_init (of_nat i))) (block_wash (blk u i))"
  have i: "i < kBlockCount" "i \<notin> set is" using Cons.prems(1,2) by auto
  have q: "quiet_block (blk u i)" "fresh_mapper (of_nat i) (br_mappers s ! i)" using Cons.prems(5) by auto
  note m = quiet_first [OF q, of "de_now e"]
  note w = wash_capped [OF Cons.prems(6), of ok "of_nat i" "block_wash (blk u i)"]
  let ?s1 = "s\<lparr> br_mappers := (br_mappers s)[i := snd ?m], br_dal := snd (sink_event e ok ?w (br_dal s)) \<rparr>"
  have step: "run_block e ok copied u i s = (fst (sink_event e ok ?w (br_dal s)), ?s1)"
    using run_block_eq [OF i(1) Cons.prems(3), of e ok u s] m by (simp add: case_prod_beta)
  have "on_wire (fst (run_blocks e ok copied u is ?s1)) = []
    \<and> length (br_mappers (snd (run_blocks e ok copied u is ?s1))) = kBlockCount
    \<and> (\<forall>j \<in> set is. settled_mapper (blk u j) (br_mappers (snd (run_blocks e ok copied u is ?s1)) ! j))
    \<and> (\<forall>j. j \<notin> set is \<longrightarrow> br_mappers (snd (run_blocks e ok copied u is ?s1)) ! j = br_mappers ?s1 ! j)"
    using Cons.prems i w by (intro Cons.IH) (auto simp: nth_list_update)
  then show ?case using i m w Cons.prems(4) by (auto simp: step case_prod_beta nth_list_update)
qed

definition settled_blocks :: "bytes \<Rightarrow> bridge \<Rightarrow> bool" where
  "settled_blocks u s \<longleftrightarrow> length (br_mappers s) = kBlockCount
     \<and> (\<forall>i < kBlockCount. quiet_block (blk u i) \<and> settled_mapper (blk u i) (br_mappers s ! i))"

lemma settled_blocks_run:
  "settled_blocks u s \<Longrightarrow> set is \<subseteq> {..<kBlockCount} \<Longrightarrow> 280 \<le> copied \<Longrightarrow>
    fst (run_blocks e ok copied u is s) = [] \<and> settled_blocks u (snd (run_blocks e ok copied u is s))"
proof (induction "is" arbitrary: s)
  case Nil
  then show ?case by simp
next
  case (Cons i "is")
  let ?m = "mapper_process (blk u i) (de_now e) (br_mappers s ! i)"
  have i: "i < kBlockCount" using Cons.prems(2) by simp
  have m: "fst ?m = [] \<and> settled_mapper (blk u i) (snd ?m)"
    using Cons.prems(1) i by (intro quiet_again) (auto simp: settled_blocks_def)
  let ?s1 = "s\<lparr> br_mappers := (br_mappers s)[i := snd ?m] \<rparr>"
  have step: "run_block e ok copied u i s = ([], ?s1)"
    using run_block_eq [OF i Cons.prems(3), of e ok u s] m by (simp add: case_prod_beta)
  have "settled_blocks u ?s1" using Cons.prems(1) m i by (auto simp: settled_blocks_def nth_list_update)
  then show ?case using Cons.IH [of ?s1] Cons.prems step by (simp add: case_prod_beta)
qed

text \<open>The first universe: one wash on the air, for everybody, and all mappers believe theirs was sent.\<close>

definition first_universe :: "drv_env \<Rightarrow> bytes \<Rightarrow> bridge \<Rightarrow> bool" where
  "first_universe e u s \<longleftrightarrow> length u = 280 \<and> (\<forall>i < kBlockCount. quiet_block (blk u i))
     \<and> length (br_mappers s) = kBlockCount \<and> (\<forall>i < kBlockCount. fresh_mapper (of_nat i) (br_mappers s ! i))
     \<and> gt_enabled (dl_wire (br_dal s)) \<and> dv_active (dl_driver (br_dal s)) \<and> de_radio e
     \<and> kMinSendIntervalMs \<le> de_now e - dv_last_airtime_send_ms (dl_driver (br_dal s))"

lemma first_run:
  assumes "first_universe e u s"
  obtains b h where "on_wire (fst (run_mappers e ok u 280 s)) = [OnAir WASH b]"
    and "settled_blocks u (snd (run_mappers e ok u 280 s))"
    and "decode_header b h0 = (Ok, h)" and "h_source_id h = ucast (dv_source_id (dl_driver (br_dal s)))"
    and "decode_light_wash h (drop kHeaderSize b) out = (Ok, wash_payload 0 0 (block_wash (blk u 0)))"
    and "h_hop_count h = 0" and "h_sequence_number h = dv_seq_num (dl_driver (br_dal s))"
proof -
  let ?d = "br_dal s" and ?m = "mapper_process (blk u 0) (de_now e) (br_mappers s ! 0)"
  let ?w = "OnWash (mp_target (mapper_init 0)) (block_wash (blk u 0))"
  note f = assms [unfolded first_universe_def]
  have q: "quiet_block (blk u 0)" "fresh_mapper 0 (br_mappers s ! 0)" using f by (auto dest: spec [where x = 0])
  note m = quiet_first [OF q, of "de_now e"]
  obtain b h dr where send: "send_wash e 0 0 (block_wash (blk u 0)) (dl_driver ?d) = (True, [OnAir WASH b], dr)"
    "dv_active dr" "dv_last_airtime_send_ms dr = de_now e"
    "decode_header b h0 = (Ok, h)" "h_source_id h = ucast (dv_source_id (dl_driver ?d))"
    "decode_light_wash h (drop kHeaderSize b) out = (Ok, wash_payload 0 0 (block_wash (blk u 0)))"
    "h_hop_count h = 0" "h_sequence_number h = dv_seq_num (dl_driver ?d)"
    using f by (elim conjE) (rule send_wash_ready; blast)
  obtain out d1 where sink: "sink_event e ok ?w ?d = (out, d1)" by fastforce
  have o: "on_wire out = [OnAir WASH b]" "capped e d1"
    using sink send f by (auto simp: render_wash_def mapper_target case_prod_beta capped_def Let_def)
  let ?s1 = "s\<lparr> br_mappers := (br_mappers s)[0 := snd ?m], br_dal := d1 \<rparr>"
  have step: "run_block e ok 280 u 0 s = (out, ?s1)"
    using run_block_eq [of 0 280 e ok u s] m sink by (simp add: case_prod_beta)
  have "[0..<kBlockCount] = 0 # [1..<kBlockCount]" by (simp add: upt_rec)
  then have run: "run_mappers e ok u 280 s
      = (out @ fst (run_blocks e ok 280 u [1..<kBlockCount] ?s1), snd (run_blocks e ok 280 u [1..<kBlockCount] ?s1))"
    by (simp only: run_mappers_def run_blocks.simps step) (simp add: case_prod_beta)
  have rest: "on_wire (fst (run_blocks e ok 280 u [1..<kBlockCount] ?s1)) = []
    \<and> length (br_mappers (snd (run_blocks e ok 280 u [1..<kBlockCount] ?s1))) = kBlockCount
    \<and> (\<forall>i \<in> set [1..<kBlockCount]. settled_mapper (blk u i) (br_mappers (snd (run_blocks e ok 280 u [1..<kBlockCount] ?s1)) ! i))
    \<and> (\<forall>i. i \<notin> set [1..<kBlockCount] \<longrightarrow> br_mappers (snd (run_blocks e ok 280 u [1..<kBlockCount] ?s1)) ! i = br_mappers ?s1 ! i)"
    using f o(2) by (intro capped_blocks) auto
  have "settled_mapper (blk u i) (br_mappers (snd (run_blocks e ok 280 u [1..<kBlockCount] ?s1)) ! i)"
    if "i < kBlockCount" for i
    using rest that m f by (cases "i = 0") auto
  then have "settled_blocks u (snd (run_mappers e ok u 280 s))"
    using rest f by (simp add: run settled_blocks_def)
  then show ?thesis using that o(1) rest send(4-8) by (simp add: run)
qed

text \<open>The desk holds its look: the loop runs the mappers on the same universe again and again.\<close>

fun hold_look :: "bytes \<Rightarrow> (drv_env \<times> bool) list \<Rightarrow> bridge \<Rightarrow> dal_event list \<times> bridge" where
  "hold_look u [] s = ([], s)"
| "hold_look u ((e, ok) # cs) s =
     (case run_mappers e ok u 280 s of (e1, s1) \<Rightarrow> case hold_look u cs s1 of (e2, s2) \<Rightarrow> (e1 @ e2, s2))"

lemma hold_settled: "settled_blocks u s \<Longrightarrow> fst (hold_look u cs s) = []"
proof (induction cs arbitrary: s)
  case Nil
  then show ?case by simp
next
  case (Cons c cs)
  obtain e ok where c: "c = (e, ok)" by (cases c)
  have "fst (run_mappers e ok u 280 s) = [] \<and> settled_blocks u (snd (run_mappers e ok u 280 s))"
    unfolding run_mappers_def by (rule settled_blocks_run [OF Cons.prems]) auto
  then show ?case using Cons.IH c by (simp add: case_prod_beta)
qed

text \<open>The bridge loses the washes of the groups. When the first universe of a session arrives, every
  one of the seven mappers emits the wash of its block and counts it as sent, but the radio driver takes
  only one frame in 50 ms: only the wash for everybody (group 0) goes on the air. As long as the desk
  holds that look, for however many loops and whatever the times, nothing more is ever sent: the groups
  1 to 6 do not get the washes that the desk shows for them.\<close>

theorem bridge_group_washes_lost:
  assumes "first_universe e u s"
  shows "\<exists>b h. on_wire (fst (run_mappers e ok u 280 s)) = [OnAir WASH b]
    \<and> decode_header b h0 = (Ok, h)
    \<and> decode_light_wash h (drop kHeaderSize b) out = (Ok, wash_payload 0 0 (block_wash (blk u 0)))
    \<and> (\<forall>cs. fst (hold_look u cs (snd (run_mappers e ok u 280 s))) = [])"
  by (rule first_run [OF assms, of ok h0 out]) (use hold_settled in blast)

definition sample_bridge :: bridge where
  "sample_bridge = (bridge_init (dal_of sample_driver))\<lparr> br_adapter_active := True, br_active := True \<rparr>"

text \<open>A desk that shows a dim green on everybody and a dim red on group 3.\<close>

definition sample_universe :: bytes where
  "sample_universe = (replicate 280 0)[0 := 255, 11 := 40, 17 := 255, 120 := 255, 130 := 40, 137 := 255]"

lemma seven: "i < kBlockCount \<Longrightarrow> i = 0 \<or> i = 1 \<or> i = 2 \<or> i = 3 \<or> i = 4 \<or> i = 5 \<or> i = 6"
  by arith

lemma sample_first_universe: "first_universe (sample_env\<lparr> de_now := 5000 \<rparr>) sample_universe sample_bridge"
proof -
  let ?e = "sample_env\<lparr> de_now := 5000 \<rparr>"
  have quiet: "quiet_block (blk sample_universe i)" if "i < kBlockCount" for i
    using seven [OF that] by (elim disjE) (simp_all add: quiet_block_def blk_def sample_universe_def)
  have fresh: "fresh_mapper (of_nat i) (br_mappers sample_bridge ! i)" if "i < kBlockCount" for i
    using seven [OF that] by (elim disjE) (simp_all add: sample_bridge_def bridge_init_def fresh_mapper_def mapper_init_def)
  have d: "dl_driver (br_dal sample_bridge) = sample_driver"
    by (simp add: sample_bridge_def bridge_init_def dal_of_def)
  have "dv_active sample_driver" using sample_driver_live by (simp add: drv_live_def)
  moreover have "kMinSendIntervalMs \<le> de_now ?e - dv_last_airtime_send_ms sample_driver"
    by (simp add: drv_eval)
  ultimately show ?thesis
    using quiet fresh by (simp add: first_universe_def d) (simp add: sample_universe_def sample_bridge_def
        bridge_init_def dal_of_def open_gate_def sample_env_def)
qed

theorem bridge_group_washes_lost_witness:
  "fst (hold_look sample_universe [(sample_env\<lparr> de_now := 5050 \<rparr>, True), (sample_env\<lparr> de_now := 9000 \<rparr>, True)]
      (snd (run_mappers (sample_env\<lparr> de_now := 5000 \<rparr>) True sample_universe 280 sample_bridge))) = []"
  using bridge_group_washes_lost [OF sample_first_universe, of True hb_out] by blast

section \<open>From the desk to the receiver\<close>

lemma poll_no_passthrough:
  "\<forall>f \<in> set (fst (feed_all bs (br_parser s))). fst f \<noteq> kLabelEspNowBroadcast \<Longrightarrow>
    poll_bytes e bs s = (length (fst (feed_all bs (br_parser s))), [],
      s\<lparr> br_bytes_read := br_bytes_read s + of_nat (length bs), br_parser := snd (feed_all bs (br_parser s)) \<rparr>)"
proof (induction bs arbitrary: s)
  case Nil
  then show ?case by simp
next
  case (Cons b bs)
  obtain r p where f: "feed_byte b (br_parser s) = (r, p)" by fastforce
  let ?s1 = "s\<lparr> br_bytes_read := br_bytes_read s + 1, br_parser := p \<rparr>"
  have rest: "\<forall>f \<in> set (fst (feed_all bs (br_parser ?s1))). fst f \<noteq> kLabelEspNowBroadcast"
    using Cons.prems f by (auto simp: case_prod_beta split: if_splits)
  have cb: "r = FrameComplete \<Longrightarrow> on_parsed_frame e ?s1 = ([], ?s1)"
    using Cons.prems f by (simp add: on_parsed_frame_def case_prod_beta)
  show ?case using Cons.IH [OF rest] f cb by (simp add: case_prod_beta Let_def add.assoc)
qed

text \<open>What the desk shows is what the receivers show. The bytes of one DMX packet with at least 280
  channels arrive at an idle parser in one poll, in any session's first universe: the loop puts on the
  air exactly one frame; a receiver decodes it to a wash for everybody whose anchor colour, scaled by the
  intensity it carries, is the colour that the bridge's own preview computes from the first block.\<close>

theorem desk_wash_reaches_receivers:
  assumes "first_universe e (take 280 chs) s" and "280 \<le> length chs" and "length chs \<le> 599"
    and "br_adapter_active s" and "dp_state (br_parser s) = WaitStart" and "dp_inv (br_parser s)"
    and "length (br_universe s) = 280"
  shows "\<exists>b h p. on_wire (fst (bridge_loop_tick e ok (enttec_frame (kLabelOutputOnlySendDmx, 0 # chs)) s)) = [OnAir WASH b]
    \<and> decode_header b h0 = (Ok, h) \<and> h_source_id h = ucast (dv_source_id (dl_driver (br_dal s)))
    \<and> h_sequence_number h = dv_seq_num (dl_driver (br_dal s)) \<and> h_hop_count h = 0
    \<and> decode_light_wash h (drop kHeaderSize b) out = (Ok, p)
    \<and> p = wash_payload 0 0 (block_wash (take 40 chs)) \<and> lw_target_class p = 0 \<and> lw_target_group p = 0
    \<and> preview_rgb (take 40 chs) = (scale_byte (lw_r1 p) (lw_intensity p),
        scale_byte (lw_g1 p) (lw_intensity p), scale_byte (lw_b1 p) (lw_intensity p))"
proof -
  let ?u = "take 280 chs" and ?bs = "enttec_frame (kLabelOutputOnlySendDmx, 0 # chs)"
  obtain new q where feed: "feed_all ?bs (br_parser s) = (new, q)" by fastforce
  have "new = [(kLabelOutputOnlySendDmx, 0 # chs)] \<and> last_was_dmx_packet q
    \<and> copy_dmx_channels q (Some (br_universe s)) kUniverseBufferSize
      = (of_nat 280, Some (copy_into (br_universe s) (take 280 chs)))"
    by (rule idle_dmx_copied [OF assms(5,6,3) _ _ feed]) (use assms(2,7) in simp_all)
  then have q: "feed_all ?bs (br_parser s) = ([(kLabelOutputOnlySendDmx, 0 # chs)], q)"
    and dmx: "last_was_dmx_packet q"
    and copy: "copy_dmx_channels q (Some (br_universe s)) kUniverseBufferSize = (280, Some ?u)"
    using feed assms(2,7) by (simp_all add: copy_into_def poke_def)
  let ?s1 = "s\<lparr> br_bytes_read := br_bytes_read s + of_nat (length ?bs), br_parser := q \<rparr>"
  have poll: "poll e ?bs s = (1, [], ?s1)"
    using poll_no_passthrough [of ?bs s e] q assms(4) by (simp add: poll_def)
  have tick: "fst (bridge_loop_tick e ok ?bs s)
      = fst (run_mappers e ok ?u 280 (?s1\<lparr> br_last_frame_seen_ms := de_now e, br_universe := ?u \<rparr>))"
    using poll dmx copy by (simp add: bridge_loop_tick_def case_prod_beta)
  have fu: "first_universe e ?u (?s1\<lparr> br_last_frame_seen_ms := de_now e, br_universe := ?u \<rparr>)"
    using assms(1) by (simp add: first_universe_def)
  obtain b h where r: "on_wire (fst (bridge_loop_tick e ok ?bs s)) = [OnAir WASH b]"
    "decode_header b h0 = (Ok, h)" "h_source_id h = ucast (dv_source_id (dl_driver (br_dal s)))"
    "decode_light_wash h (drop kHeaderSize b) out = (Ok, wash_payload 0 0 (block_wash (blk ?u 0)))"
    "h_hop_count h = 0" "h_sequence_number h = dv_seq_num (dl_driver (br_dal s))"
    unfolding tick by (rule first_run [OF fu, of ok h0 out]) auto
  have "blk ?u 0 = take 40 chs" by (simp add: blk_def min_def)
  moreover have "quiet_block (blk ?u 0)" using assms(1) by (simp add: first_universe_def)
  ultimately show ?thesis using r
    by (intro exI [of _ b] exI [of _ h] exI [of _ "wash_payload 0 0 (block_wash (blk ?u 0))"])
      (simp add: wash_payload_def block_wash_def wash_event_of_def wash_of_block_def preview_rgb_def quiet_block_def Let_def)
qed

theorem desk_wash_reaches_receivers_witness:
  "\<exists>b h p. on_wire (fst (bridge_loop_tick (sample_env\<lparr> de_now := 5000 \<rparr>) True
        (enttec_frame (kLabelOutputOnlySendDmx, 0 # sample_universe)) sample_bridge)) = [OnAir WASH b]
    \<and> decode_light_wash h (drop kHeaderSize b) (wash_payload 0 0 (aw_payload no_wash)) = (Ok, p)
    \<and> (scale_byte (lw_r1 p) (lw_intensity p), scale_byte (lw_g1 p) (lw_intensity p),
       scale_byte (lw_b1 p) (lw_intensity p)) = (0, 40, 0)"
proof -
  have len: "length sample_universe = 280" by (simp add: sample_universe_def)
  have fu: "first_universe (sample_env\<lparr> de_now := 5000 \<rparr>) (take 280 sample_universe) sample_bridge"
    using sample_first_universe len by simp
  have p: "dp_state (br_parser sample_bridge) = WaitStart" "dp_inv (br_parser sample_bridge)"
    using dp_inv_init by (simp_all add: sample_bridge_def bridge_init_def dmx_parser_init_def)
  have u: "br_adapter_active sample_bridge" "length (br_universe sample_bridge) = 280"
    by (simp_all add: sample_bridge_def bridge_init_def)
  have v: "preview_rgb (take 40 sample_universe) = (0, 40, 0)"
    by (simp add: preview_rgb_def sample_universe_def scale_byte_def Let_def)
  from desk_wash_reaches_receivers [OF fu _ _ u(1) p u(2), of True hb_out "wash_payload 0 0 (aw_payload no_wash)"]
  show ?thesis by (auto simp: len v)
qed

text \<open>Leaving the mode ends the wash of everybody only: the washes recorded for the groups stay in the
  table, where the refresh of a later Director session finds them.\<close>

lemma exit_keeps_group_washes:
  assumes "wash_inv (dl_washes (br_dal s))" and "k \<noteq> (0, 0)"
  shows "wash_of (dl_washes (br_dal (snd (bridge_exit e s)))) k = wash_of (dl_washes (br_dal s)) k"
proof -
  have t: "parse_target_class_group kExitClearTarget = Some (0, 0)"
    by (simp add: parse_target_class_group_def kExitClearTarget_def strtoul16_def is_hex_def hex_value_def
        isspace_def Let_def)
  have "wash_of (clear_active_wash 0 0 (dl_washes (br_dal s))) k = wash_of (dl_washes (br_dal s)) k"
    using clear_active_wash_map(2) [OF assms(1), of 0 0] assms(2) by simp
  then show ?thesis
    by (simp add: bridge_exit_def render_wash_end_def t case_prod_beta Let_def)
qed

end
