(* ===== verification/LumeMode.thy ===== *)
theory LumeMode
  imports Events Dedup Frames Settings Tofu Telemetry ConfigChannel ConfigApply "HOL-Library.Signed_Division"
begin

text \<open>
  \<open>LumeMode\<close> of \<open>src/modes/lume_mode.cpp\<close>: the receiver. Frames arrive on the radio task, pass the
  admission gates and are handed to the output bindings; the main loop drains what was deferred, relays,
  beacons the census, and follows the link: no-signal edge, fallback wash, channel scan, lock expiry.
  One definition per member function. What a call does to the outside is the list of \<open>lume_event\<close>s it
  returns. The clock, the radio's answers, the capabilities of the host, the registry of bindings and the
  build's constants are the record \<open>lume_env\<close>, the clock read once per call, and with them the flag
  \<open>ble_pair_active_\<close>, whose life belongs to the Bluetooth pairing window. That window, the bindings' own
  ticks and all drawing on the display and the strip are not modelled.
\<close>

section \<open>Bindings and events\<close>

text \<open>What the mode asks of an output binding: its class, whether it relays to devices with groups of
  their own, whether it may render on the radio task, whether it can wash; and whether the host's
  capabilities allow it, and whether it is the infrared one.\<close>

record binding =
  bd_class :: u8
  bd_is_relay :: bool
  bd_can_render_in_callback :: bool
  bd_can_wash :: bool
  bd_required :: Capability
  bd_pixmob :: bool

definition pixmob_ir_binding :: binding where
  "pixmob_ir_binding = \<lparr> bd_class = 1, bd_is_relay = True, bd_can_render_in_callback = False,
     bd_can_wash = True, bd_required = CapIRTx, bd_pixmob = True \<rparr>"

definition led_strip_binding :: binding where
  "led_strip_binding = \<lparr> bd_class = 1, bd_is_relay = False, bd_can_render_in_callback = True,
     bd_can_wash = True, bd_required = CapAddressableLeds, bd_pixmob = False \<rparr>"

definition lume_text_binding :: binding where
  "lume_text_binding = \<lparr> bd_class = 4, bd_is_relay = False, bd_can_render_in_callback = True,
     bd_can_wash = False, bd_required = CapDisplayText, bd_pixmob = False \<rparr>"

datatype render_call =
    OnLightPulse lume_pulse
  | OnLightWash light_wash_payload
  | OnLightWashEnd u8 u8 u8 u8
  | OnLightWashPulse lume_pulse
  | OnTextDisplay text_display_payload
  | OnBitmapHeader bitmap_header_payload
  | OnBitmapPlane bitmap_plane_payload
  | OnClearScreen clear_screen_payload

text \<open>What the mode logs of its fallback wash.\<close>

datatype fallback_edge = FbStart | FbFade | FbRecovery

text \<open>\<open>Render i c g call\<close>: the binding in slot \<open>i\<close> is called with \<open>set_current_target(c, g)\<close>.\<close>

datatype lume_event =
    Render nat u8 u8 render_call
  | Fallback fallback_edge
  | BindingEnter nat
  | BindingExit nat
  | RadioBegin u8
  | RadioEnd
  | SetChannel u8
  | RelayTx bytes
  | CensusTx bytes
  | AckTx bytes
  | AnnounceTx bytes

section \<open>State and environment\<close>

record lume_env =
  le_now :: u32
  le_radio :: bool
  le_begin_ok :: bool
  le_has :: "Capability \<Rightarrow> bool"
  le_registry :: "binding list"
  le_rnd :: u32
  le_mac :: bytes
  le_host_id :: u8
  le_cfg :: build_cfg
  le_ble_pair :: bool

record lume =
  lm_radio_active :: bool
  lm_rx_count :: u32
  lm_last_rx_ms :: u32
  lm_last_source_id :: u16
  lm_last_msg_type :: u8
  lm_no_signal :: bool
  lm_offset_valid :: bool
  lm_offset_ms :: "32 word"
  lm_offset_source :: u16
  lm_fallback_active :: bool
  lm_fallback_faded :: bool
  lm_lock_acquired_ms :: u32
  lm_bindings :: "binding list"
  lm_channel_pref :: u8
  lm_listen_chan :: u8
  lm_last_chan_switch_ms :: u32
  lm_group :: u8
  lm_numonces :: numonce_lru
  lm_burst_active :: bool
  lm_burst_end_ms :: u32
  lm_burst_next_emit_ms :: u32
  lm_config_tx_seq :: u8
  lm_ack_flash_end_ms :: u32
  lm_quality :: signal_quality
  lm_tofu :: tofu_lock
  lm_pending_light :: bool
  lm_pending_light_payload :: light_pulse_payload
  lm_repeat_en :: bool
  lm_pending_repeat :: bool
  lm_pending_len :: nat
  lm_pending_buf :: bytes
  lm_repeats_emitted :: u32
  lm_last_census_ms :: u32
  lm_census_uid :: bytes
  lm_needs_repaint :: bool
  lm_dedup :: dedup
  lm_nvs :: nvs

abbreviation kNoSignalMs :: u32 where "kNoSignalMs \<equiv> 3000"
abbreviation kFallbackEnterMs :: u32 where "kFallbackEnterMs \<equiv> 10000"
abbreviation kFallbackFadeStartMs :: u32 where "kFallbackFadeStartMs \<equiv> 40000"
abbreviation kChannelDwellMs :: u32 where "kChannelDwellMs \<equiv> 2000"
abbreviation kRescanMs :: u32 where "kRescanMs \<equiv> 10000"
abbreviation kPairingBurstDurationMs :: u32 where "kPairingBurstDurationMs \<equiv> 10000"
abbreviation kPairingBurstEmitPeriodMs :: u32 where "kPairingBurstEmitPeriodMs \<equiv> 250"
abbreviation kAckFlashDurationMs :: u32 where "kAckFlashDurationMs \<equiv> 500"
abbreviation kLumeCensusIntervalMs :: u32 where "kLumeCensusIntervalMs \<equiv> 1000"
abbreviation kLumeRepeatBufSize :: nat where "kLumeRepeatBufSize \<equiv> 250"
abbreviation kMaxActiveBindings :: nat where "kMaxActiveBindings \<equiv> 8"

definition kScanOrder :: "u8 list" where
  "kScanOrder = [11, 1, 6]"

definition zero_light_pulse :: light_pulse_payload where
  "zero_light_pulse = \<lparr> lp_target_class = 0, lp_target_group = 0, lp_r = 0, lp_g = 0, lp_b = 0,
     lp_attack = 0, lp_sustain = 0, lp_release = 0, lp_chance = 0, lp_led_mode = 0,
     lp_led_modifier1 = 0, lp_led_modifier2 = 0 \<rparr>"

definition lume_init :: "nvs \<Rightarrow> lume" where
  "lume_init n = \<lparr> lm_radio_active = False, lm_rx_count = 0, lm_last_rx_ms = 0, lm_last_source_id = 0,
     lm_last_msg_type = 0xFF, lm_no_signal = False, lm_offset_valid = False, lm_offset_ms = 0,
     lm_offset_source = 0, lm_fallback_active = False, lm_fallback_faded = False,
     lm_lock_acquired_ms = 0, lm_bindings = [], lm_channel_pref = 0, lm_listen_chan = 1,
     lm_last_chan_switch_ms = 0, lm_group = 0, lm_numonces = numonce_init, lm_burst_active = False,
     lm_burst_end_ms = 0, lm_burst_next_emit_ms = 0, lm_config_tx_seq = 0, lm_ack_flash_end_ms = 0,
     lm_quality = sq_reset, lm_tofu = tofu_init, lm_pending_light = False,
     lm_pending_light_payload = zero_light_pulse, lm_repeat_en = False, lm_pending_repeat = False,
     lm_pending_len = 0, lm_pending_buf = replicate kLumeRepeatBufSize 0, lm_repeats_emitted = 0,
     lm_last_census_ms = 0, lm_census_uid = [0, 0, 0], lm_needs_repaint = False,
     lm_dedup = dedup_init, lm_nvs = n \<rparr>"

section \<open>Fan-out\<close>

text \<open>Every fan-out walks the active bindings in slot order and calls those that the filter keeps.\<close>

definition fan_out :: "(binding \<Rightarrow> bool) \<Rightarrow> u8 \<Rightarrow> u16 \<Rightarrow> render_call \<Rightarrow> lume \<Rightarrow> lume_event list" where
  "fan_out keep cls grp call s =
     map (\<lambda>(i, b). Render i cls (ucast grp) call) (filter (\<lambda>(i, b). keep b) (enumerate 0 (lm_bindings s)))"

text \<open>Class: 0 or the binding's own. Group: 0 or the Lume's own, for bindings that do not relay.\<close>

definition class_ok :: "u8 \<Rightarrow> binding \<Rightarrow> bool" where
  "class_ok target_class b \<longleftrightarrow> target_class = 0 \<or> target_class = bd_class b"

definition group_ok :: "u16 \<Rightarrow> lume \<Rightarrow> bool" where
  "group_ok target_group s \<longleftrightarrow> target_group = 0 \<or> target_group = ucast (lm_group s)"

definition wanted :: "u8 \<Rightarrow> u16 \<Rightarrow> lume \<Rightarrow> binding \<Rightarrow> bool" where
  "wanted cls grp s b \<longleftrightarrow> class_ok cls b \<and> (bd_is_relay b \<or> group_ok grp s)"

definition pulse_of :: "light_pulse_payload \<Rightarrow> lume_pulse" where
  "pulse_of p = \<lparr> up_r = lp_r p, up_g = lp_g p, up_b = lp_b p, up_attack = lp_attack p,
     up_sustain = lp_sustain p, up_release = lp_release p, up_chance = lp_chance p,
     up_led_mode = lp_led_mode p, up_led_modifier1 = lp_led_modifier1 p,
     up_led_modifier2 = lp_led_modifier2 p \<rparr>"

definition wash_pulse_of :: "light_wash_pulse_payload \<Rightarrow> lume_pulse" where
  "wash_pulse_of p = \<lparr> up_r = wp_r p, up_g = wp_g p, up_b = wp_b p, up_attack = wp_attack p,
     up_sustain = wp_sustain p, up_release = wp_release p, up_chance = wp_chance p,
     up_led_mode = wp_led_mode p, up_led_modifier1 = wp_led_modifier1 p,
     up_led_modifier2 = wp_led_modifier2 p \<rparr>"

definition fan_out_light_pulse :: "light_pulse_payload \<Rightarrow> lume \<Rightarrow> lume_event list" where
  "fan_out_light_pulse p s =
     fan_out (\<lambda>b. \<not> bd_can_render_in_callback b \<and> wanted (lp_target_class p) (lp_target_group p) s b)
       (lp_target_class p) (lp_target_group p) (OnLightPulse (pulse_of p)) s"

definition fan_out_light_pulse_inline :: "light_pulse_payload \<Rightarrow> lume \<Rightarrow> lume_event list" where
  "fan_out_light_pulse_inline p s =
     fan_out (\<lambda>b. bd_can_render_in_callback b \<and> wanted (lp_target_class p) (lp_target_group p) s b)
       (lp_target_class p) (lp_target_group p) (OnLightPulse (pulse_of p)) s"

definition fan_out_light_wash :: "light_wash_payload \<Rightarrow> lume \<Rightarrow> lume_event list" where
  "fan_out_light_wash p s =
     fan_out (\<lambda>b. bd_can_wash b \<and> wanted (lw_target_class p) (lw_target_group p) s b)
       (lw_target_class p) (lw_target_group p) (OnLightWash p) s"

definition fan_out_light_wash_end :: "light_wash_end_payload \<Rightarrow> lume \<Rightarrow> lume_event list" where
  "fan_out_light_wash_end p s =
     fan_out (\<lambda>b. bd_can_wash b \<and> wanted (we_target_class p) (we_target_group p) s b)
       (we_target_class p) (we_target_group p)
       (OnLightWashEnd (we_release_time p) (we_led_mode p) (we_led_modifier1 p) (we_led_modifier2 p)) s"

definition fan_out_light_wash_pulse :: "light_wash_pulse_payload \<Rightarrow> lume \<Rightarrow> lume_event list" where
  "fan_out_light_wash_pulse p s =
     fan_out (\<lambda>b. bd_can_wash b \<and> wanted (wp_target_class p) (wp_target_group p) s b)
       (wp_target_class p) (wp_target_group p) (OnLightWashPulse (wash_pulse_of p)) s"

text \<open>The display family has no class on the wire: it goes to the bindings of class \<open>Display\<close>.\<close>

definition fan_out_display :: "u16 \<Rightarrow> render_call \<Rightarrow> lume \<Rightarrow> lume_event list" where
  "fan_out_display grp call s = fan_out (\<lambda>b. bd_class b = 4 \<and> group_ok grp s) 4 grp call s"

definition fan_out_text_display :: "text_display_payload \<Rightarrow> lume \<Rightarrow> lume_event list" where
  "fan_out_text_display p = fan_out_display (td_target_group p) (OnTextDisplay p)"

definition fan_out_bitmap_header :: "bitmap_header_payload \<Rightarrow> lume \<Rightarrow> lume_event list" where
  "fan_out_bitmap_header p = fan_out_display (bh_target_group p) (OnBitmapHeader p)"

definition fan_out_bitmap_plane :: "bitmap_plane_payload \<Rightarrow> lume \<Rightarrow> lume_event list" where
  "fan_out_bitmap_plane p = fan_out_display (bp_target_group p) (OnBitmapPlane p)"

definition fan_out_clear_screen :: "clear_screen_payload \<Rightarrow> lume \<Rightarrow> lume_event list" where
  "fan_out_clear_screen p = fan_out_display (cs_target_group p) (OnClearScreen p)"

section \<open>Fallback wash\<close>

definition fallback_wash :: light_wash_payload where
  "fallback_wash = \<lparr> lw_target_class = 0, lw_target_group = 0, lw_r1 = 20, lw_g1 = 0, lw_b1 = 80,
     lw_r2 = 0, lw_g2 = 20, lw_b2 = 80, lw_attack = 30, lw_release = 50, lw_intensity = 60,
     lw_cycle_ms = 10000, lw_ttl_seconds = 0, lw_pulse_response = 0, lw_led_mode = 0,
     lw_led_modifier1 = 0, lw_led_modifier2 = 0 \<rparr>"

definition fallback_end :: "u8 \<Rightarrow> light_wash_end_payload" where
  "fallback_end ticks = \<lparr> we_target_class = 0, we_target_group = 0, we_release_time = ticks,
     we_led_mode = 0, we_led_modifier1 = 0, we_led_modifier2 = 0 \<rparr>"

definition emit_fallback_wash_start :: "lume \<Rightarrow> lume_event list" where
  "emit_fallback_wash_start s = fan_out_light_wash fallback_wash s @ [Fallback FbStart]"

definition emit_fallback_wash_fade :: "lume \<Rightarrow> lume_event list" where
  "emit_fallback_wash_fade s = fan_out_light_wash_end (fallback_end 255) s @ [Fallback FbFade]"

definition emit_fallback_wash_recovery :: "lume \<Rightarrow> lume_event list" where
  "emit_fallback_wash_recovery s = fan_out_light_wash_end (fallback_end 5) s @ [Fallback FbRecovery]"

section \<open>Entering and leaving\<close>

text \<open>Which bindings of the registry the host activates: those its capabilities allow, but not the
  infrared one beside an enabled strip (\<open>sendRaw\<close> blocks for 30 ms); at most eight.\<close>

definition select_bindings :: "lume_env \<Rightarrow> nvs \<Rightarrow> binding list" where
  "select_bindings e n =
     (let strip_active = le_has e CapAddressableLeds \<and> load_strip_enabled n in
      take kMaxActiveBindings
        (filter (\<lambda>b. le_has e (bd_required b) \<and> \<not> (bd_pixmob b \<and> strip_active)) (le_registry e)))"

definition lume_enter :: "lume_env \<Rightarrow> lume \<Rightarrow> lume_event list \<times> lume" where
  "lume_enter e s =
     (let pref = load_lume_channel (lm_nvs s);
          (group, n) = load_lume_group (le_rnd e) (lm_nvs s);
          chan = (if pref = 0 then 11 else pref);
          bs = select_bindings e n;
          s1 = s\<lparr> lm_rx_count := 0, lm_last_rx_ms := 0, lm_last_source_id := 0,
                  lm_last_msg_type := 0xFF, lm_radio_active := False, lm_no_signal := False,
                  lm_fallback_active := False, lm_fallback_faded := False, lm_lock_acquired_ms := 0,
                  lm_tofu := tofu_clear (lm_tofu s), lm_dedup := dedup_init, lm_pending_light := False,
                  lm_pending_repeat := False, lm_pending_len := 0, lm_channel_pref := pref,
                  lm_repeat_en := load_lume_repeat_enabled (lm_nvs s), lm_group := group, lm_nvs := n,
                  lm_quality := sq_reset, lm_listen_chan := chan, lm_last_chan_switch_ms := le_now e,
                  lm_bindings := bs \<rparr>;
          entered = map BindingEnter [0..<length bs]
      in if le_radio e
         then (entered @ [RadioBegin chan],
               s1\<lparr> lm_radio_active := le_begin_ok e,
                   lm_census_uid := [le_mac e ! 3, le_mac e ! 4, le_mac e ! 5] \<rparr>)
         else (entered, s1))"

definition enter_pairing_burst :: "lume_env \<Rightarrow> lume \<Rightarrow> lume" where
  "enter_pairing_burst e s =
     (if lm_burst_active s then s
      else if le_ble_pair e then s
      else s\<lparr> lm_burst_active := True, lm_burst_end_ms := le_now e + kPairingBurstDurationMs,
              lm_burst_next_emit_ms := le_now e \<rparr>)"

definition exit_pairing_burst :: "lume \<Rightarrow> lume" where
  "exit_pairing_burst s = (if \<not> lm_burst_active s then s else s\<lparr> lm_burst_active := False \<rparr>)"

definition lume_exit :: "lume_env \<Rightarrow> lume \<Rightarrow> lume_event list \<times> lume" where
  "lume_exit e s =
     (let s1 = (if lm_burst_active s then exit_pairing_burst s else s);
          ended = (if lm_radio_active s1 \<and> le_radio e then [RadioEnd] else []);
          exited = map BindingExit (rev [0..<length (lm_bindings s1)])
      in (ended @ exited, s1\<lparr> lm_radio_active := False, lm_bindings := [] \<rparr>))"

section \<open>Configuration frames\<close>

definition next_config_seq :: "lume \<Rightarrow> u8" where
  "next_config_seq s = (if lm_config_tx_seq s = 0xFF then 1 else lm_config_tx_seq s + 1)"

definition emit_uid_announce :: "lume_env \<Rightarrow> lume \<Rightarrow> lume_event list \<times> lume" where
  "emit_uid_announce e s =
     (let uid = load_device_uid (lm_nvs s);
          fn = load_friendly_name 21 (lm_nvs s);
          p = \<lparr> ua_uid = uid, ua_secret = load_device_secret (lm_nvs s), ua_role = 0x02,
                ua_host = le_host_id e, ua_friendly_name_len = of_nat (length fn),
                ua_friendly_name = copy_into (replicate 20 0) fn \<rparr>;
          seq = next_config_seq s;
          hdr = zero_header\<lparr> h_source_id := ucast uid, h_sequence_number := seq, h_hop_count := 0 \<rparr>;
          (n, buf) = encode_uid_announce (replicate (kHeaderSize + kUidAnnounceMaxPayloadLen) 0) hdr p
      in (if n > 0 \<and> le_radio e then [AnnounceTx (take n buf)] else [],
          s\<lparr> lm_config_tx_seq := seq \<rparr>))"

definition emit_config_ack :: "lume_env \<Rightarrow> u64 \<Rightarrow> u8 \<Rightarrow> u8 \<Rightarrow> lume \<Rightarrow> lume_event list \<times> lume" where
  "emit_config_ack e numonce status applied_keys s =
     (let uid = load_device_uid (lm_nvs s);
          p = \<lparr> ca_responder_uid = uid, ca_responder_numonce = write_u64_le numonce,
                ca_status = status, ca_applied_keys = applied_keys \<rparr>;
          seq = next_config_seq s;
          hdr = zero_header\<lparr> h_source_id := ucast uid, h_sequence_number := seq, h_hop_count := 0 \<rparr>;
          (n, buf) = encode_config_ack (replicate (kHeaderSize + kConfigAckPayloadLen) 0) hdr p
      in (if n > 0 \<and> le_radio e then [AckTx (take n buf)] else [],
          s\<lparr> lm_config_tx_seq := seq \<rparr>))"

definition on_config_write :: "lume_env \<Rightarrow> bytes \<Rightarrow> lume \<Rightarrow> lume_event list \<times> lume" where
  "on_config_write e m s =
     (let secret = load_device_secret (lm_nvs s);
          self_uid = load_device_uid (lm_nvs s);
          actx = \<lparr> ac_role = Lume, ac_value_out_of_range = False, ac_nvs = lm_nvs s \<rparr>;
          (detail, guard, actx') = process_config_write m self_uid secret
              (Some (apply_config_entry (le_cfg e))) (lm_numonces s) actx;
          s1 = s\<lparr> lm_numonces := guard, lm_nvs := ac_nvs actx' \<rparr>
      in if rd_result detail = Accepted then
           let status = (if ac_value_out_of_range actx' then 0x82 else 0x00);
               (evs, s2) = emit_config_ack e (rd_numonce detail) status (rd_applied_keys detail) s1
           in (evs, s2\<lparr> lm_ack_flash_end_ms := le_now e + kAckFlashDurationMs \<rparr>)
         else ([], s1))"

section \<open>Reception\<close>

text \<open>The frame counts as a sign of life: the no-signal mark falls, a fallback wash is faded out.\<close>

definition note_alive :: "lume_env \<Rightarrow> header \<Rightarrow> lume \<Rightarrow> lume_event list \<times> lume" where
  "note_alive e hdr s =
     (let was_no_signal = lm_no_signal s;
          s1 = s\<lparr> lm_rx_count := lm_rx_count s + 1, lm_last_rx_ms := le_now e, lm_no_signal := False \<rparr>;
          (evs, s2) = (if lm_fallback_active s1
                       then let s1' = s1\<lparr> lm_fallback_active := False, lm_fallback_faded := False \<rparr>
                            in (emit_fallback_wash_recovery s1', s1')
                       else ([], s1));
          s3 = (if was_no_signal \<or> lm_rx_count s2 = 1 then s2\<lparr> lm_lock_acquired_ms := lm_last_rx_ms s2 \<rparr> else s2);
          s4 = (if was_no_signal then s3\<lparr> lm_needs_repaint := True \<rparr> else s3)
      in (evs, s4\<lparr> lm_last_source_id := h_source_id hdr, lm_last_msg_type := mt_code (h_message_type hdr) \<rparr>))"

text \<open>The smoothed offset of the Director's clock, in signed 32-bit arithmetic (an overflow, which C++
  leaves undefined, wraps here); the division truncates.\<close>

definition smooth_offset :: "32 word \<Rightarrow> 32 word \<Rightarrow> 32 word" where
  "smooth_offset old raw = word_of_int (sint (old * 9 + raw) sdiv 10)"

definition zero_heartbeat :: heartbeat_payload where
  "zero_heartbeat = \<lparr> hb_tick = 0, hb_days_since_2026 = 0, hb_centiseconds_today = 0 \<rparr>"

definition track_offset :: "header \<Rightarrow> bytes \<Rightarrow> lume \<Rightarrow> lume" where
  "track_offset hdr m s =
     (if h_message_type hdr = Heartbeat \<and> length m - kHeaderSize \<ge> kHeartbeatPayloadLen then
        (case decode_heartbeat hdr (drop kHeaderSize m) zero_heartbeat of (r, hb) \<Rightarrow>
          if r \<noteq> Ok then s
          else
            let valid = lm_offset_valid s \<and> h_source_id hdr = lm_offset_source s;
                raw = hb_tick hb - lm_last_rx_ms s
            in if \<not> valid
               then s\<lparr> lm_offset_ms := raw, lm_offset_source := h_source_id hdr, lm_offset_valid := True \<rparr>
               else s\<lparr> lm_offset_ms := smooth_offset (lm_offset_ms s) raw \<rparr>)
      else s)"

definition stage_relay :: "header \<Rightarrow> bytes \<Rightarrow> lume \<Rightarrow> lume" where
  "stage_relay hdr m s =
     (if lm_repeat_en s \<and> h_hop_count hdr < kMaxHopCount \<and> length m \<le> kLumeRepeatBufSize
      then s\<lparr> lm_pending_buf := copy_into (lm_pending_buf s) (set_hop_count m (h_hop_count hdr + 1)),
              lm_pending_len := length m, lm_pending_repeat := True \<rparr>
      else s)"

text \<open>The value-initialised payloads.\<close>

definition zero_light_wash :: light_wash_payload where
  "zero_light_wash = \<lparr> lw_target_class = 0, lw_target_group = 0, lw_r1 = 0, lw_g1 = 0, lw_b1 = 0,
     lw_r2 = 0, lw_g2 = 0, lw_b2 = 0, lw_attack = 0, lw_release = 0, lw_intensity = 0, lw_cycle_ms = 0,
     lw_ttl_seconds = 0, lw_pulse_response = 0, lw_led_mode = 0, lw_led_modifier1 = 0,
     lw_led_modifier2 = 0 \<rparr>"

definition zero_light_wash_pulse :: light_wash_pulse_payload where
  "zero_light_wash_pulse = \<lparr> wp_target_class = 0, wp_target_group = 0, wp_r = 0, wp_g = 0, wp_b = 0,
     wp_attack = 0, wp_sustain = 0, wp_release = 0, wp_chance = 0, wp_led_mode = 0,
     wp_led_modifier1 = 0, wp_led_modifier2 = 0 \<rparr>"

definition zero_text_display :: text_display_payload where
  "zero_text_display = \<lparr> td_target_group = 0, td_r = 0, td_g = 0, td_b = 0, td_ttl_ms = 0,
     td_header_len = 0, td_header = replicate 64 0, td_body_len = 0, td_body = replicate 128 0 \<rparr>"

definition zero_bitmap_header :: bitmap_header_payload where
  "zero_bitmap_header = \<lparr> bh_target_group = 0, bh_width = 0, bh_height = 0, bh_plane_count = 0,
     bh_colours = replicate 8 (0, 0, 0), bh_fit = 0, bh_zoom_pct = 0, bh_overwrite = 0, bh_checksum = 0,
     bh_ttl_ms = 0 \<rparr>"

definition zero_bitmap_plane :: bitmap_plane_payload where
  "zero_bitmap_plane = \<lparr> bp_target_group = 0, bp_plane_index = 0, bp_byte_offset = 0, bp_data_len = 0,
     bp_data = replicate 235 0 \<rparr>"

definition zero_clear_screen :: clear_screen_payload where
  "zero_clear_screen = \<lparr> cs_target_group = 0, cs_clear_text = 0, cs_clear_bitmap = 0 \<rparr>"

text \<open>A fan-out follows a decode that succeeds.\<close>

definition when_ok :: "DecodeResult \<times> 'p \<Rightarrow> ('p \<Rightarrow> 'e list) \<Rightarrow> 'e list" where
  "when_ok d f = (case d of (r, p) \<Rightarrow> if r = Ok then f p else [])"

text \<open>Pulses: at once for the bindings that may render on the radio task, queued for the others.\<close>

definition dispatch_pulse :: "header \<Rightarrow> bytes \<Rightarrow> lume \<Rightarrow> lume_event list \<times> lume" where
  "dispatch_pulse hdr m s =
     (if h_message_type hdr = LightPulse \<and> length m = kHeaderSize + kLightPulsePayloadLen then
        (case decode_light_pulse hdr (drop kHeaderSize m) zero_light_pulse of (r, p) \<Rightarrow>
          if r = Ok
          then (fan_out_light_pulse_inline p s, s\<lparr> lm_pending_light_payload := p, lm_pending_light := True \<rparr>)
          else ([], s))
      else ([], s))"

definition dispatch_wash :: "header \<Rightarrow> bytes \<Rightarrow> lume \<Rightarrow> lume_event list" where
  "dispatch_wash hdr m s =
     (if h_message_type hdr = LightWash \<and> length m = kHeaderSize + kLightWashPayloadLen
      then when_ok (decode_light_wash hdr (drop kHeaderSize m) zero_light_wash)
             (\<lambda>p. fan_out_light_wash p s) else [])
     @ (if h_message_type hdr = LightWashEnd \<and> length m = kHeaderSize + kLightWashEndPayloadLen
        then when_ok (decode_light_wash_end hdr (drop kHeaderSize m) (fallback_end 0))
               (\<lambda>p. fan_out_light_wash_end p s) else [])
     @ (if h_message_type hdr = LightWashPulse \<and> length m = kHeaderSize + kLightWashPulsePayloadLen
        then when_ok (decode_light_wash_pulse hdr (drop kHeaderSize m) zero_light_wash_pulse)
               (\<lambda>p. fan_out_light_wash_pulse p s) else [])"

definition dispatch_display :: "header \<Rightarrow> bytes \<Rightarrow> lume \<Rightarrow> lume_event list" where
  "dispatch_display hdr m s =
     (if h_message_type hdr = TextDisplay \<and> length m \<ge> kHeaderSize + kTextDisplayMinPayloadLen
      then when_ok (decode_text_display hdr (drop kHeaderSize m) zero_text_display)
             (\<lambda>p. fan_out_text_display p s) else [])
     @ (if h_message_type hdr = BitmapHeader \<and> length m = kHeaderSize + kBitmapHeaderPayloadLen
        then when_ok (decode_bitmap_header hdr (drop kHeaderSize m) zero_bitmap_header)
               (\<lambda>p. fan_out_bitmap_header p s) else [])
     @ (if h_message_type hdr = BitmapPlane \<and> length m \<ge> kHeaderSize + kBitmapPlaneMinPayloadLen
        then when_ok (decode_bitmap_plane hdr (drop kHeaderSize m) zero_bitmap_plane)
               (\<lambda>p. fan_out_bitmap_plane p s) else [])
     @ (if h_message_type hdr = ClearScreen \<and> length m = kHeaderSize + kClearScreenPayloadLen
        then when_ok (decode_clear_screen hdr (drop kHeaderSize m) zero_clear_screen)
               (\<lambda>p. fan_out_clear_screen p s) else [])"

definition dispatch :: "lume_env \<Rightarrow> header \<Rightarrow> bytes \<Rightarrow> lume \<Rightarrow> lume_event list \<times> lume" where
  "dispatch e hdr m s =
     (case dispatch_pulse hdr m s of (evs, s1) \<Rightarrow>
      let evs = evs @ dispatch_wash hdr m s1 in
      case message_type_required_capability (h_message_type hdr) of
        Some cap \<Rightarrow> if \<not> le_has e cap then (evs, s1) else (evs @ dispatch_display hdr m s1, s1)
      | None \<Rightarrow> (evs @ dispatch_display hdr m s1, s1))"

text \<open>A frame of the show, past the gates of the header.\<close>

definition on_show_frame :: "lume_env \<Rightarrow> header \<Rightarrow> bytes \<Rightarrow> lume \<Rightarrow> lume_event list \<times> lume" where
  "on_show_frame e hdr m s =
     (case tofu_admit (h_message_type hdr) (h_source_id hdr) (lm_listen_chan s) (le_now e) (lm_tofu s) of (ok, lock) \<Rightarrow>
      let s0 = s\<lparr> lm_tofu := lock \<rparr> in
      if \<not> ok then ([], s0)
      else
        case note_alive e hdr s0 of (evs, s1) \<Rightarrow>
        let k = (h_source_id hdr, h_sequence_number hdr) in
        if seen_recently k (lm_dedup s1) then (evs, s1)
        else
          let s2 = s1\<lparr> lm_dedup := mark_seen k (lm_dedup s1),
                       lm_quality := note_frame (ucast (h_source_id hdr)) (h_sequence_number hdr)
                                       (lm_last_rx_ms s1) (lm_quality s1) \<rparr>;
              s3 = track_offset hdr m s2;
              s4 = stage_relay hdr m s3
          in case dispatch e hdr m s4 of (evs', s5) \<Rightarrow> (evs @ evs', s5))"

definition lume_on_recv :: "lume_env \<Rightarrow> bytes \<Rightarrow> lume \<Rightarrow> lume_event list \<times> lume" where
  "lume_on_recv e m s =
     (case decode_header m zero_header of (r, hdr) \<Rightarrow>
      if r \<noteq> Ok then ([], s)
      else if h_message_type hdr = RepeaterHeartbeat then ([], s)
      else if h_message_type hdr = UidAnnounce \<or> h_message_type hdr = ConfigAck then ([], s)
      else if h_message_type hdr = ConfigWrite then on_config_write e m s
      else if h_hop_count hdr > kMaxHopCount then ([], s)
      else on_show_frame e hdr m s)"

section \<open>Main loop\<close>

definition tick_pairing_burst :: "lume_env \<Rightarrow> lume \<Rightarrow> lume_event list \<times> lume" where
  "tick_pairing_burst e s =
     (if le_now e \<ge> lm_burst_end_ms s then ([], exit_pairing_burst s)
      else if le_now e \<ge> lm_burst_next_emit_ms s then
        case emit_uid_announce e s of (evs, s1) \<Rightarrow>
          (evs, s1\<lparr> lm_burst_next_emit_ms := le_now e + kPairingBurstEmitPeriodMs \<rparr>)
      else ([], s))"

definition drain_light :: "lume \<Rightarrow> lume_event list \<times> lume" where
  "drain_light s =
     (if lm_pending_light s
      then let s1 = s\<lparr> lm_pending_light := False \<rparr> in (fan_out_light_pulse (lm_pending_light_payload s1) s1, s1)
      else ([], s))"

definition drain_relay :: "lume_env \<Rightarrow> lume \<Rightarrow> lume_event list \<times> lume" where
  "drain_relay e s =
     (if lm_pending_repeat s then
        let s1 = s\<lparr> lm_pending_repeat := False \<rparr>
        in if le_radio e
           then ([RelayTx (take (lm_pending_len s1) (lm_pending_buf s1))],
                 s1\<lparr> lm_repeats_emitted := lm_repeats_emitted s1 + 1 \<rparr>)
           else ([], s1)
      else ([], s))"

definition lume_uptime_s :: "u32 \<Rightarrow> u16" where
  "lume_uptime_s now = (let up = now div 1000 in if up > 0xFFFF then 0xFFFF else ucast up)"

definition emit_repeat_census :: "lume_env \<Rightarrow> lume \<Rightarrow> lume_event list \<times> lume" where
  "emit_repeat_census e s =
     (if \<not> lm_repeat_en s \<or> \<not> lm_radio_active s then ([], s)
      else if \<not> tl_has_lock (lm_tofu s) \<or> lm_no_signal s then ([], s)
      else if le_now e - lm_last_census_ms s < kLumeCensusIntervalMs then ([], s)
      else let s1 = s\<lparr> lm_last_census_ms := le_now e \<rparr> in
        if \<not> le_radio e then ([], s1)
        else let hdr = zero_header\<lparr> h_source_id := kBroadcastSourceId, h_sequence_number := 0,
                                    h_hop_count := 0 \<rparr>;
                 p = \<lparr> rh_uid = lm_census_uid s1, rh_channel = lm_listen_chan s1,
                       rh_uptime_s = lume_uptime_s (le_now e), rh_relayed_count = lm_repeats_emitted s1 \<rparr>;
                 (n, buf) = encode_repeater_heartbeat
                              (replicate (kHeaderSize + kRepeaterHeartbeatPayloadLen) 0) hdr p
             in (if n > 0 then [CensusTx (take n buf)] else [], s1))"

text \<open>The age of the last frame, 0 when the radio task stamped it after the loop read the clock.\<close>

definition age_since_rx :: "lume_env \<Rightarrow> lume \<Rightarrow> u32" where
  "age_since_rx e s = (if le_now e \<ge> lm_last_rx_ms s then le_now e - lm_last_rx_ms s else 0)"

definition service_fallback :: "lume_env \<Rightarrow> lume \<Rightarrow> lume_event list \<times> lume" where
  "service_fallback e s =
     (if lm_rx_count s > 0 then
        let (e1, s1) = (if \<not> lm_fallback_active s \<and> age_since_rx e s > kFallbackEnterMs
                        then let s' = s\<lparr> lm_fallback_active := True \<rparr> in (emit_fallback_wash_start s', s')
                        else ([], s));
            (e2, s2) = (if lm_fallback_active s1 \<and> \<not> lm_fallback_faded s1
                           \<and> age_since_rx e s1 > kFallbackFadeStartMs
                        then let s' = s1\<lparr> lm_fallback_faded := True \<rparr> in (emit_fallback_wash_fade s', s')
                        else ([], s1))
        in (e1 @ e2, s2)
      else ([], s))"

text \<open>The index of the channel in the scan order, 0 when it is not there; the next one follows.\<close>

definition next_scan_channel :: "u8 \<Rightarrow> u8" where
  "next_scan_channel c =
     (let i = (case find_idx (\<lambda>x. x = c) kScanOrder of Some i \<Rightarrow> i | None \<Rightarrow> 0)
      in kScanOrder ! ((i + 1) mod 3))"

definition lume_service_scan :: "lume_env \<Rightarrow> lume \<Rightarrow> lume_event list \<times> lume" where
  "lume_service_scan e s =
     (let should_rescan = lm_rx_count s > 0 \<and> age_since_rx e s > kRescanMs;
          scanning = lm_channel_pref s = 0 \<and> (lm_rx_count s = 0 \<or> should_rescan)
      in if scanning \<and> le_now e - lm_last_chan_switch_ms s \<ge> kChannelDwellMs
         then let c = next_scan_channel (lm_listen_chan s)
              in (if le_radio e then [SetChannel c] else [],
                  s\<lparr> lm_listen_chan := c, lm_last_chan_switch_ms := le_now e,
                     lm_tofu := tofu_clear (lm_tofu s) \<rparr>)
         else ([], s))"

text \<open>The deferred pulse, the repaint, the staged relay and the census, in this order.\<close>

definition drain_queues :: "lume_env \<Rightarrow> lume \<Rightarrow> lume_event list \<times> lume" where
  "drain_queues e s =
     (case drain_light s of (e1, s1) \<Rightarrow>
      case drain_relay e (s1\<lparr> lm_needs_repaint := False \<rparr>) of (e2, s2) \<Rightarrow>
      case emit_repeat_census e s2 of (e3, s3) \<Rightarrow> (e1 @ e2 @ e3, s3))"

text \<open>The link: the no-signal edge ends the pass; else fallback, scan and lock expiry.\<close>

definition follow_link :: "lume_env \<Rightarrow> lume \<Rightarrow> lume_event list \<times> lume" where
  "follow_link e s =
     (if lm_rx_count s > 0 \<and> \<not> lm_no_signal s \<and> age_since_rx e s > kNoSignalMs
      then ([], s\<lparr> lm_no_signal := True, lm_last_chan_switch_ms := le_now e \<rparr>)
      else
        case service_fallback e s of (e1, s1) \<Rightarrow>
        case lume_service_scan e s1 of (e2, s2) \<Rightarrow>
          (e1 @ e2, s2\<lparr> lm_tofu := snd (tofu_tick (le_now e) (lm_tofu s2)) \<rparr>))"

definition lume_loop_tick :: "lume_env \<Rightarrow> lume \<Rightarrow> lume_event list \<times> lume" where
  "lume_loop_tick e s =
     (if le_ble_pair e then ([], s)
      else if lm_burst_active s then tick_pairing_burst e s
      else
        case drain_queues e s of (e1, s1) \<Rightarrow>
        case follow_link e s1 of (e2, s2) \<Rightarrow> (e1 @ e2, s2))"

text \<open>Pixel 0 of a strip on a host without a display: acknowledgement flash, search blink, fresh lock, or
  released to the show. The colour and whether the overlay is on.\<close>

definition status_overlay :: "lume_env \<Rightarrow> lume \<Rightarrow> (u8 \<times> u8 \<times> u8) \<times> bool" where
  "status_overlay e s =
     (if le_now e < lm_ack_flash_end_ms s then ((255, 255, 255), True)
      else if lm_no_signal s \<or> lm_rx_count s = 0
      then ((0, if le_now e mod 1000 < 500 then 96 else 0, 0), True)
      else if le_now e - lm_lock_acquired_ms s < 1000 then ((0, 160, 0), True)
      else ((0, 0, 0), False))"

section \<open>Signal bars\<close>

definition signal_bars_from_age :: "lume_env \<Rightarrow> lume \<Rightarrow> int" where
  "signal_bars_from_age e s =
     (if lm_rx_count s = 0 then 0
      else let age = age_since_rx e s in
        if age < 500 then 4 else if age < 1000 then 3 else if age < 2000 then 2
        else if age < kNoSignalMs then 1 else 0)"

definition signal_bars :: "lume_env \<Rightarrow> lume \<Rightarrow> int" where
  "signal_bars e s =
     (if lm_no_signal s \<or> lm_rx_count s = 0 then 0
      else let q = bars (lm_quality s) in
        if q < 0 then signal_bars_from_age e s
        else let a = signal_bars_from_age e s in if q < a then q else a)"

section \<open>Runs\<close>

text \<open>The radio task calls \<open>on_recv\<close> and the main loop \<open>loop_tick\<close>, in any order and with any clocks; the
  log holds the events of every call.\<close>

datatype lume_call = LumeRecv bytes | LumeTick

fun lume_apply :: "lume_call \<times> lume_env \<Rightarrow> lume \<Rightarrow> lume_event list \<times> lume" where
  "lume_apply (LumeRecv m, e) s = lume_on_recv e m s"
| "lume_apply (LumeTick, e) s = lume_loop_tick e s"

fun lume_run :: "(lume_call \<times> lume_env) list \<Rightarrow> lume \<Rightarrow> lume_event list list \<times> lume" where
  "lume_run [] s = ([], s)"
| "lume_run (c # cs) s =
     (case lume_apply c s of (evs, s1) \<Rightarrow> case lume_run cs s1 of (log, s2) \<Rightarrow> (evs # log, s2))"

lemma lume_run_Cons:
  "fst (lume_run (c # cs) s) = fst (lume_apply c s) # fst (lume_run cs (snd (lume_apply c s)))"
  "snd (lume_run (c # cs) s) = snd (lume_run cs (snd (lume_apply c s)))"
  by (simp_all add: case_prod_beta)

declare lume_run.simps(2) [simp del]
declare lume_run_Cons [simp]

lemma length_lume_run [simp]: "length (fst (lume_run cs s)) = length cs"
  by (induction cs arbitrary: s) simp_all

text \<open>A frame of the show: one that reaches the Director lock.\<close>

definition show_frame :: "bytes \<Rightarrow> header \<Rightarrow> bool" where
  "show_frame m hdr \<longleftrightarrow> decode_header m zero_header = (Ok, hdr)
     \<and> h_message_type hdr \<notin> {RepeaterHeartbeat, UidAnnounce, ConfigAck, ConfigWrite}
     \<and> h_hop_count hdr \<le> kMaxHopCount"

lemma on_recv_show: "show_frame m hdr \<Longrightarrow> lume_on_recv e m s = on_show_frame e hdr m s"
  by (auto simp: show_frame_def lume_on_recv_def not_less)

lemma on_recv_not_show:
  "(\<And>hdr. \<not> show_frame m hdr) \<Longrightarrow> lume_on_recv e m s = ([], s) \<or> lume_on_recv e m s = on_config_write e m s"
  by (fastforce simp: show_frame_def lume_on_recv_def not_less split: prod.splits)

lemma on_recv_cases:
  obtains (shown) hdr where "show_frame m hdr" "lume_on_recv e m s = on_show_frame e hdr m s"
  | (config) "\<forall>hdr. \<not> show_frame m hdr" "lume_on_recv e m s = on_config_write e m s"
  | (ignored) "\<forall>hdr. \<not> show_frame m hdr" "lume_on_recv e m s = ([], s)"
  using on_recv_show on_recv_not_show by metis

lemma show_frame_unique: "show_frame m h1 \<Longrightarrow> show_frame m h2 \<Longrightarrow> h1 = h2"
  by (simp add: show_frame_def)

section \<open>What configuration touches\<close>

text \<open>Everything of the state but the settings, the replay guard, the acknowledgement counter, the flash
  and the pairing burst.\<close>

definition show_view :: "lume \<Rightarrow> lume" where
  "show_view s = s\<lparr> lm_nvs := nvs_empty, lm_numonces := numonce_init, lm_config_tx_seq := 0,
     lm_ack_flash_end_ms := 0, lm_burst_active := False, lm_burst_end_ms := 0, lm_burst_next_emit_ms := 0 \<rparr>"

lemma show_view_sel:
  "lm_bindings (show_view s) = lm_bindings s"
  "lm_group (show_view s) = lm_group s"
  "lm_tofu (show_view s) = lm_tofu s"
  "lm_dedup (show_view s) = lm_dedup s"
  "lm_rx_count (show_view s) = lm_rx_count s"
  "lm_last_rx_ms (show_view s) = lm_last_rx_ms s"
  "lm_listen_chan (show_view s) = lm_listen_chan s"
  "lm_fallback_active (show_view s) = lm_fallback_active s"
  "lm_fallback_faded (show_view s) = lm_fallback_faded s"
  "lm_pending_repeat (show_view s) = lm_pending_repeat s"
  "lm_pending_len (show_view s) = lm_pending_len s"
  "lm_pending_buf (show_view s) = lm_pending_buf s"
  "lm_repeat_en (show_view s) = lm_repeat_en s"
  "lm_channel_pref (show_view s) = lm_channel_pref s"
  "lm_no_signal (show_view s) = lm_no_signal s"
  "lm_last_chan_switch_ms (show_view s) = lm_last_chan_switch_ms s"
  by (simp_all add: show_view_def)

lemma show_viewD:
  assumes "show_view s = show_view s'"
  shows "lm_bindings s = lm_bindings s'"
    "lm_group s = lm_group s'"
    "lm_tofu s = lm_tofu s'"
    "lm_dedup s = lm_dedup s'"
    "lm_rx_count s = lm_rx_count s'"
    "lm_last_rx_ms s = lm_last_rx_ms s'"
    "lm_listen_chan s = lm_listen_chan s'"
    "lm_fallback_active s = lm_fallback_active s'"
    "lm_fallback_faded s = lm_fallback_faded s'"
    "lm_pending_repeat s = lm_pending_repeat s'"
    "lm_pending_len s = lm_pending_len s'"
    "lm_pending_buf s = lm_pending_buf s'"
    "lm_repeat_en s = lm_repeat_en s'"
    "lm_channel_pref s = lm_channel_pref s'"
    "lm_no_signal s = lm_no_signal s'"
    "lm_last_chan_switch_ms s = lm_last_chan_switch_ms s'"
  using assms by (metis show_view_sel)+

fun is_ack :: "lume_event \<Rightarrow> bool" where
  "is_ack (AckTx m) = True"
| "is_ack (Render i c g r) = False"
| "is_ack (Fallback f) = False"
| "is_ack (BindingEnter i) = False"
| "is_ack (BindingExit i) = False"
| "is_ack (RadioBegin c) = False"
| "is_ack RadioEnd = False"
| "is_ack (SetChannel c) = False"
| "is_ack (RelayTx m) = False"
| "is_ack (CensusTx m) = False"
| "is_ack (AnnounceTx m) = False"

lemma emit_config_ack_show:
  "list_all is_ack (fst (emit_config_ack e n st k s)) \<and> show_view (snd (emit_config_ack e n st k s)) = show_view s"
  by (simp add: emit_config_ack_def show_view_def Let_def case_prod_beta)

lemma on_config_write_show:
  "list_all is_ack (fst (on_config_write e m s)) \<and> show_view (snd (on_config_write e m s)) = show_view s"
  using emit_config_ack_show by (simp add: on_config_write_def show_view_def Let_def case_prod_beta)

text \<open>C27: Management traffic never reaches the show. A configuration command, an announcement, an
  acknowledgement, a census beacon, a frame whose hop count is past the limit, or bytes that are no
  frame at all, whoever sent them: the Lume renders nothing, relays nothing, changes no channel, and
  its Director lock, duplicate ring, link statistics, queues and clocks stay as they were; all it may
  send is an acknowledgement.\<close>

theorem management_leaves_show:
  assumes "\<And>hdr. \<not> show_frame m hdr"
  shows "list_all is_ack (fst (lume_on_recv e m s)) \<and> show_view (snd (lume_on_recv e m s)) = show_view s"
  using on_recv_not_show [OF assms, of e s] on_config_write_show [of e m s] by auto

text \<open>A Lume with a strip, an infrared sender and a text display, used by the examples.\<close>

definition lume_env_at :: "u32 \<Rightarrow> lume_env" where
  "lume_env_at t = \<lparr> le_now = t, le_radio = True, le_begin_ok = True, le_has = (\<lambda>c. True),
     le_registry = [pixmob_ir_binding, led_strip_binding, lume_text_binding], le_rnd = 0,
     le_mac = [0, 0, 0, 1, 2, 3], le_host_id = 1,
     le_cfg = \<lparr> bc_retransmits = 2, bc_pairing_window_s = 30, bc_repeater_channel = 0,
       bc_strip_brightness = 1, bc_strip_group_size = 12, bc_strip_chain_size = 29 \<rparr>,
     le_ble_pair = False \<rparr>"

definition lume_sample :: lume where
  "lume_sample = (lume_init nvs_empty)\<lparr> lm_bindings := [pixmob_ir_binding, led_strip_binding, lume_text_binding],
     lm_group := 5, lm_listen_chan := 1, lm_channel_pref := 1, lm_repeat_en := True, lm_radio_active := True \<rparr>"

theorem management_leaves_show_witness:
  "show_view (snd (lume_on_recv (lume_env_at 7) (write_header zero_header UidAnnounce 0) lume_sample))
    = show_view lume_sample"
proof -
  have "\<not> show_frame (write_header zero_header UidAnnounce 0) hdr" for hdr
    using decode_write_header [of 0 "[]" zero_header UidAnnounce zero_header] by (auto simp: show_frame_def)
  from management_leaves_show [OF this] show ?thesis by blast
qed

section \<open>Fan-out\<close>

text \<open>The events of a fan-out are the kept slots, in order, each once.\<close>

lemma fan_out_iff:
  "ev \<in> set (fan_out keep cls grp call s) \<longleftrightarrow>
    (\<exists>i < length (lm_bindings s). keep (lm_bindings s ! i) \<and> ev = Render i cls (ucast grp) call)"
  by (force simp: fan_out_def in_set_enumerate_eq)

lemma fan_out_distinct: "distinct (fan_out keep cls grp call s)"
proof -
  have "distinct (filter (\<lambda>(i, b). keep b) (enumerate 0 (lm_bindings s)))" by simp
  moreover have "inj_on (\<lambda>(i, b). Render i cls (ucast grp) call) (set (enumerate 0 (lm_bindings s)))"
    by (auto simp: inj_on_def in_set_enumerate_eq)
  ultimately show ?thesis by (auto simp: fan_out_def distinct_map intro: inj_on_subset)
qed

lemma fan_out_state_cong:
  "lm_bindings s = lm_bindings s' \<Longrightarrow> fan_out keep cls grp call s = fan_out keep cls grp call s'"
  by (simp add: fan_out_def)

lemmas fan_outs = fan_out_light_pulse_def fan_out_light_pulse_inline_def fan_out_light_wash_def
  fan_out_light_wash_end_def fan_out_light_wash_pulse_def fan_out_text_display_def
  fan_out_bitmap_header_def fan_out_bitmap_plane_def fan_out_clear_screen_def fan_out_display_def

definition slots :: "lume_event list \<Rightarrow> nat list" where
  "slots evs = concat (map (\<lambda>ev. case ev of Render i c g r \<Rightarrow> [i] | _ \<Rightarrow> []) evs)"

lemma slots_fan_out:
  "slots (fan_out keep cls grp call s) = filter (\<lambda>i. keep (lm_bindings s ! i)) [0..<length (lm_bindings s)]"
proof -
  have "slots (map (\<lambda>x. Render (f x) cls (ucast grp) call) xs) = map f xs" for f and xs :: "nat list"
    by (induction xs) (auto simp: slots_def)
  moreover have "enumerate 0 xs = map (\<lambda>i. (i, xs ! i)) [0..<length xs]" for xs :: "binding list"
    by (rule nth_equalityI) (simp_all add: nth_enumerate_eq)
  ultimately show ?thesis by (simp add: fan_out_def filter_map comp_def case_prod_beta)
qed

text \<open>A pulse reaches every binding it is meant for, once. The radio task serves the bindings that may
  render there, the main loop serves the others when it drains the queue; together they call each
  active binding whose class and group match (relays whatever the group) exactly once, with the
  colour, times, chance and LED addressing of the frame, and no other binding.\<close>

theorem pulse_dispatched_once:
  "distinct (slots (fan_out_light_pulse_inline p s @ fan_out_light_pulse p s))
   \<and> set (slots (fan_out_light_pulse_inline p s @ fan_out_light_pulse p s)) =
     {i. i < length (lm_bindings s) \<and> wanted (lp_target_class p) (lp_target_group p) s (lm_bindings s ! i)}
   \<and> set (fan_out_light_pulse_inline p s @ fan_out_light_pulse p s) \<subseteq>
     {Render i (lp_target_class p) (ucast (lp_target_group p)) (OnLightPulse (pulse_of p)) | i. True}"
proof -
  have "slots (xs @ ys) = slots xs @ slots ys" for xs ys by (simp add: slots_def)
  then show ?thesis
    by (auto simp: fan_out_light_pulse_inline_def fan_out_light_pulse_def slots_fan_out fan_out_iff)
qed

text \<open>Groups above 255 are folded by a relay. The fan-out narrows the 16-bit group of the frame to the
  8 bits of \<open>set_current_target\<close>, which its comment calls safe because the filter lets through 0 and
  the Lume's own group only; but a relay is not filtered. A pulse for group 256 is so handed to the
  infrared relay as group 0, every bracelet, and one for group 256 + g as group g.\<close>

theorem relay_folds_group:
  assumes "lm_bindings s ! i = pixmob_ir_binding" and "i < length (lm_bindings s)"
    and "lp_target_class p \<in> {0, 1}" and "lp_target_group p = 256 + ucast (g :: u8)"
  shows "Render i (lp_target_class p) g (OnLightPulse (pulse_of p)) \<in> set (fan_out_light_pulse p s)"
proof -
  have "(ucast (256 + ucast g :: u16) :: u8) = g"
    using mod_less [OF le_less_trans [OF unat_u8_le [of g], of 256]]
    by (simp add: word_unat_eq_iff unsigned_ucast_eq unat_word_ariths take_bit_eq_mod mod_mod_cancel)
  then show ?thesis using assms
    by (auto simp: fan_out_light_pulse_def fan_out_iff pixmob_ir_binding_def wanted_def class_ok_def)
qed

theorem relay_folds_group_witness:
  "Render 0 0 0 (OnLightPulse (pulse_of (zero_light_pulse\<lparr> lp_target_group := 256 \<rparr>)))
    \<in> set (fan_out_light_pulse (zero_light_pulse\<lparr> lp_target_group := 256 \<rparr>) lume_sample)"
proof -
  let ?p = "zero_light_pulse\<lparr> lp_target_group := 256 \<rparr>"
  have "lm_bindings lume_sample ! 0 = pixmob_ir_binding" "0 < length (lm_bindings lume_sample)"
    by (simp_all add: lume_sample_def)
  moreover have "lp_target_class ?p \<in> {0, 1}" "lp_target_group ?p = 256 + ucast (0 :: u8)"
    by (simp_all add: zero_light_pulse_def)
  ultimately have "Render 0 (lp_target_class ?p) 0 (OnLightPulse (pulse_of ?p)) \<in> set (fan_out_light_pulse ?p lume_sample)"
    by (rule relay_folds_group)
  then show ?thesis by (simp add: zero_light_pulse_def)
qed

section \<open>The Director's clock\<close>

lemma sdiv_ten: "(v :: int) sdiv 10 = (if v \<ge> 0 then v div 10 else - ((- v) div 10))"
  by (auto simp: signed_divide_int_def sgn_if)

lemma sint_small: "- 2147483648 \<le> v \<Longrightarrow> v < 2147483648 \<Longrightarrow> sint (word_of_int v :: 32 word) = v"
  by (simp add: signed_of_int signed_take_bit_int_eq_self)

text \<open>The smoothed clock offset stays between the old offset and the new measurement, as long as
  neither exceeds a tenth of the 32-bit range (2.4 days): the ninefold does not overflow there.\<close>

lemma smooth_offset_between:
  assumes "\<bar>sint old\<bar> \<le> 214748364" and "\<bar>sint raw\<bar> \<le> 214748364"
  shows "min (sint old) (sint raw) \<le> sint (smooth_offset old raw)
    \<and> sint (smooth_offset old raw) \<le> max (sint old) (sint raw)"
proof -
  let ?v = "sint old * 9 + sint raw"
  have "old * 9 + raw = word_of_int ?v" by simp
  moreover have "sint (word_of_int ?v :: 32 word) = ?v" using assms by (intro sint_small) linarith+
  ultimately have sum: "sint (old * 9 + raw) = ?v" by (simp only:)
  have q: "min (sint old) (sint raw) \<le> ?v sdiv 10 \<and> ?v sdiv 10 \<le> max (sint old) (sint raw)"
    unfolding sdiv_ten min_def max_def by (simp split: if_splits) linarith
  then have "sint (smooth_offset old raw) = ?v sdiv 10"
    unfolding smooth_offset_def sum using assms by (intro sint_small) linarith+
  then show ?thesis using q by simp
qed

lemma sdiv_ten_near: "\<bar>(v :: int) - 10 * (v sdiv 10)\<bar> \<le> 9"
  unfolding sdiv_ten by (simp split: if_splits) linarith

text \<open>A steady Director clock is a fixed point of the smoothing exactly while it is less than about 2.48
  days away from the Lume's. Beyond that the ninefold in the smoothing overflows the signed 32-bit
  range, and the very next heartbeat throws the offset off although the measurement has not changed.\<close>

theorem offset_stable_iff:
  "smooth_offset d d = d \<longleftrightarrow> \<bar>sint d\<bar> \<le> 214748364"
proof
  assume "\<bar>sint d\<bar> \<le> 214748364"
  from smooth_offset_between [OF this this] have "sint (smooth_offset d d) = sint d" by simp
  then show "smooth_offset d d = d" by (simp add: signed_word_eqI)
next
  assume eq: "smooth_offset d d = d"
  let ?w = "sint (d * 9 + d)"
  have w: "- 2147483648 \<le> ?w" "?w < 2147483648"
    using sint_greater_eq [of "d * 9 + d"] sint_less [of "d * 9 + d"] by simp_all
  have q: "- 2147483648 \<le> ?w sdiv 10" "?w sdiv 10 < 2147483648" using w unfolding sdiv_ten by auto
  have "?w sdiv 10 = sint d" using eq sint_small [OF q] by (simp add: smooth_offset_def)
  then have near: "\<bar>?w - 10 * sint d\<bar> \<le> 9" using sdiv_ten_near [of ?w] by simp
  have "(word_of_int ?w :: 32 word) = word_of_int (10 * sint d)" by simp
  then have "(2 :: int) ^ LENGTH(32) dvd ?w - 10 * sint d"
    unfolding word_of_int_eq_iff take_bit_eq_mod mod_eq_dvd_iff .
  moreover have "(2 :: int) ^ LENGTH(32) = 4294967296" by simp
  ultimately have "4294967296 dvd ?w - 10 * sint d" by (simp only:)
  then have "?w = 10 * sint d" using near dvd_imp_le_int [of "?w - 10 * sint d" 4294967296] by auto
  then show "\<bar>sint d\<bar> \<le> 214748364" using w by linarith
qed

section \<open>The main loop\<close>

lemma drain_light_state: "snd (drain_light s) = s\<lparr> lm_pending_light := False \<rparr>"
  by (simp add: drain_light_def Let_def)

lemma drain_relay_state: "\<exists>x. snd (drain_relay e s) = s\<lparr> lm_pending_repeat := False, lm_repeats_emitted := x \<rparr>"
proof
  show "snd (drain_relay e s) = s\<lparr> lm_pending_repeat := False,
      lm_repeats_emitted := lm_repeats_emitted (snd (drain_relay e s)) \<rparr>"
    by (rule lume.equality) (simp_all add: drain_relay_def Let_def)
qed

lemma emit_census_state: "\<exists>y. snd (emit_repeat_census e s) = s\<lparr> lm_last_census_ms := y \<rparr>"
proof
  show "snd (emit_repeat_census e s) = s\<lparr> lm_last_census_ms := lm_last_census_ms (snd (emit_repeat_census e s)) \<rparr>"
    by (rule lume.equality) (simp_all add: emit_repeat_census_def Let_def case_prod_beta)
qed

lemma drain_queues_state:
  "\<exists>x y. snd (drain_queues e s) = s\<lparr> lm_pending_light := False, lm_needs_repaint := False,
     lm_pending_repeat := False, lm_repeats_emitted := x, lm_last_census_ms := y \<rparr>"
proof -
  obtain x where "snd (drain_relay e (s\<lparr> lm_pending_light := False, lm_needs_repaint := False \<rparr>))
      = s\<lparr> lm_pending_light := False, lm_needs_repaint := False, lm_pending_repeat := False, lm_repeats_emitted := x \<rparr>"
    using drain_relay_state [of e "s\<lparr> lm_pending_light := False, lm_needs_repaint := False \<rparr>"] by auto
  then show ?thesis
    using emit_census_state [of e "s\<lparr> lm_pending_light := False, lm_needs_repaint := False, lm_pending_repeat := False, lm_repeats_emitted := x \<rparr>"]
    by (auto simp: drain_queues_def case_prod_beta drain_light_state)
qed

text \<open>What the queues emit.\<close>

lemma drain_queues_events:
  assumes "ev \<in> set (fst (drain_queues e s))"
  shows "(lm_pending_light s \<and> ev \<in> set (fan_out_light_pulse (lm_pending_light_payload s) s))
   \<or> (lm_pending_repeat s \<and> ev = RelayTx (take (lm_pending_len s) (lm_pending_buf s)))
   \<or> (\<exists>m. ev = CensusTx m)"
proof -
  have census: "\<exists>m. ev = CensusTx m" if "ev \<in> set (fst (emit_repeat_census e r))" for r
    using that by (auto simp: emit_repeat_census_def Let_def case_prod_beta split: if_splits)
  have relay: "lm_pending_repeat r \<and> ev = RelayTx (take (lm_pending_len r) (lm_pending_buf r))"
    if "ev \<in> set (fst (drain_relay e r))" for r
    using that by (auto simp: drain_relay_def Let_def split: if_splits)
  have light: "snd (drain_light s) = s\<lparr> lm_pending_light := False \<rparr>"
    "fst (drain_light s) = (if lm_pending_light s
       then fan_out_light_pulse (lm_pending_light_payload s) (s\<lparr> lm_pending_light := False \<rparr>) else [])"
    by (simp_all add: drain_light_def Let_def)
  have cong: "fan_out_light_pulse p (s\<lparr> lm_pending_light := False \<rparr>) = fan_out_light_pulse p s" for p
    by (simp add: fan_outs fan_out_def wanted_def group_ok_def)
  show ?thesis using assms relay [of "s\<lparr> lm_pending_light := False, lm_needs_repaint := False \<rparr>"] census
    by (auto simp: drain_queues_def case_prod_beta light cong split: if_splits)
qed

lemma drain_queues_quiet:
  "Fallback f \<notin> set (fst (drain_queues e s))" "SetChannel c \<notin> set (fst (drain_queues e s))"
  by (auto dest!: drain_queues_events simp: fan_outs fan_out_iff)

text \<open>While frames keep coming, the link does nothing but set the no-signal mark.\<close>

lemma follow_link_alive:
  assumes "lm_rx_count s \<noteq> 0" and "age_since_rx e s \<le> 10000"
    and "le_now e < tl_last_frame_ms (lm_tofu s) \<or> le_now e - tl_last_frame_ms (lm_tofu s) < kTofuTimeoutMs"
  shows "follow_link e s =
    (if \<not> lm_no_signal s \<and> age_since_rx e s > kNoSignalMs
     then ([], s\<lparr> lm_no_signal := True, lm_last_chan_switch_ms := le_now e \<rparr>) else ([], s))"
proof -
  have "\<not> kFallbackEnterMs < age_since_rx e s" "\<not> kFallbackFadeStartMs < age_since_rx e s"
    using assms(2) by (simp_all add: not_less) (erule order_trans, simp)
  then have fb: "service_fallback e s = ([], s)" "lume_service_scan e s = ([], s)"
    using assms(1) by (simp_all add: service_fallback_def lume_service_scan_def Let_def)
  have "tofu_tick (le_now e) (lm_tofu s) = (False, lm_tofu s)"
    using assms(3) by (auto simp: tofu_tick_def Let_def not_le)
  then show ?thesis using assms(1) by (simp add: follow_link_def fb word_neq_0_conv)
qed

lemma tick_burst_state:
  "\<exists>b x y. snd (tick_pairing_burst e s) = s\<lparr> lm_burst_active := b, lm_burst_next_emit_ms := x, lm_config_tx_seq := y \<rparr>"
proof -
  have "snd (tick_pairing_burst e s) = s\<lparr> lm_burst_active := lm_burst_active (snd (tick_pairing_burst e s)),
      lm_burst_next_emit_ms := lm_burst_next_emit_ms (snd (tick_pairing_burst e s)),
      lm_config_tx_seq := lm_config_tx_seq (snd (tick_pairing_burst e s)) \<rparr>"
    by (rule lume.equality)
       (simp_all add: tick_pairing_burst_def exit_pairing_burst_def emit_uid_announce_def Let_def case_prod_beta)
  then show ?thesis by blast
qed

lemma tick_burst_events: "ev \<in> set (fst (tick_pairing_burst e s)) \<Longrightarrow> \<exists>m. ev = AnnounceTx m"
  by (auto simp: tick_pairing_burst_def emit_uid_announce_def Let_def case_prod_beta split: if_splits)

lemma tick_burst_quiet:
  "Fallback f \<notin> set (fst (tick_pairing_burst e s))" "SetChannel c \<notin> set (fst (tick_pairing_burst e s))"
  by (auto dest!: tick_burst_events)

section \<open>A frame that overtakes the loop\<close>

text \<open>The stamp of a frame may lie ahead of the loop's clock, because the radio task preempts the loop.
  Such a loop sees the age 0: whatever the state, it neither raises the no-signal mark, nor starts or
  fades the fallback wash, nor hops to another channel, nor drops the Director lock.\<close>

theorem overtaking_frame_harmless:
  assumes "le_now e < lm_last_rx_ms s" and "lm_rx_count s > 0" and "tl_last_frame_ms (lm_tofu s) = lm_last_rx_ms s"
  shows "case lume_loop_tick e s of (evs, s') \<Rightarrow>
    lm_no_signal s' = lm_no_signal s \<and> lm_tofu s' = lm_tofu s \<and> lm_listen_chan s' = lm_listen_chan s
    \<and> (\<forall>f. Fallback f \<notin> set evs) \<and> (\<forall>c. SetChannel c \<notin> set evs)"
proof -
  obtain x y where d: "snd (drain_queues e s) = s\<lparr> lm_pending_light := False, lm_needs_repaint := False,
      lm_pending_repeat := False, lm_repeats_emitted := x, lm_last_census_ms := y \<rparr>"
    using drain_queues_state by blast
  have "age_since_rx e (snd (drain_queues e s)) = 0" using assms(1) unfolding d by (auto simp: age_since_rx_def)
  then have link: "follow_link e (snd (drain_queues e s)) = ([], snd (drain_queues e s))"
    using assms follow_link_alive [of "snd (drain_queues e s)" e] by (simp add: d word_neq_0_conv)
  obtain b u v where "snd (tick_pairing_burst e s) = s\<lparr> lm_burst_active := b, lm_burst_next_emit_ms := u, lm_config_tx_seq := v \<rparr>"
    using tick_burst_state by blast
  then show ?thesis using link d drain_queues_quiet tick_burst_quiet by (auto simp: lume_loop_tick_def case_prod_beta)
qed

theorem overtaking_frame_harmless_witness:
  "lm_listen_chan (snd (lume_loop_tick (lume_env_at 100)
      (lume_sample\<lparr> lm_rx_count := 1, lm_last_rx_ms := 101, lm_no_signal := True,
         lm_tofu := \<lparr> tl_has_lock = True, tl_locked_id = 7, tl_last_frame_ms = 101 \<rparr> \<rparr>))) = 1"
proof -
  let ?s = "lume_sample\<lparr> lm_rx_count := 1, lm_last_rx_ms := 101, lm_no_signal := True,
    lm_tofu := \<lparr> tl_has_lock = True, tl_locked_id = 7, tl_last_frame_ms = 101 \<rparr> \<rparr>"
  have "le_now (lume_env_at 100) < lm_last_rx_ms ?s" "lm_rx_count ?s > 0"
    "tl_last_frame_ms (lm_tofu ?s) = lm_last_rx_ms ?s" by (simp_all add: lume_env_at_def)
  from overtaking_frame_harmless [OF this] show ?thesis by (simp add: case_prod_beta lume_sample_def)
qed

end
