(* ===== verification/LumeRun.thy ===== *)
theory LumeRun
  imports LumeMode
begin

text \<open>
  Runs of the receiver (\<open>src/modes/lume_mode.cpp\<close>, modelled in \<open>LumeMode\<close>): receptions and loops in any
  order. What is relayed, which fallback edges are logged, and, as long as one Director is heard at
  least every ten seconds, exactly what is rendered.
\<close>

section \<open>What one reception does\<close>

text \<open>The frame is admitted, and not a duplicate.\<close>

definition admitted :: "lume_env \<Rightarrow> header \<Rightarrow> lume \<Rightarrow> bool" where
  "admitted e hdr s \<longleftrightarrow>
     fst (tofu_admit (h_message_type hdr) (h_source_id hdr) (lm_listen_chan s) (le_now e) (lm_tofu s))"

definition fresh_key :: "header \<Rightarrow> lume \<Rightarrow> bool" where
  "fresh_key hdr s \<longleftrightarrow> \<not> seen_recently (h_source_id hdr, h_sequence_number hdr) (lm_dedup s)"

lemma note_alive_events:
  "fst (note_alive e hdr s) = (if lm_fallback_active s then emit_fallback_wash_recovery s else [])"
  by (simp add: note_alive_def Let_def emit_fallback_wash_recovery_def fan_outs fan_out_def wanted_def group_ok_def)

lemma note_alive_state:
  "lm_bindings (snd (note_alive e hdr s)) = lm_bindings s" "lm_group (snd (note_alive e hdr s)) = lm_group s"
  "lm_tofu (snd (note_alive e hdr s)) = lm_tofu s" "lm_dedup (snd (note_alive e hdr s)) = lm_dedup s"
  "lm_rx_count (snd (note_alive e hdr s)) = lm_rx_count s + 1" "lm_last_rx_ms (snd (note_alive e hdr s)) = le_now e"
  "lm_listen_chan (snd (note_alive e hdr s)) = lm_listen_chan s" "lm_fallback_active (snd (note_alive e hdr s)) = False"
  "lm_pending_repeat (snd (note_alive e hdr s)) = lm_pending_repeat s"
  "lm_pending_len (snd (note_alive e hdr s)) = lm_pending_len s"
  "lm_pending_buf (snd (note_alive e hdr s)) = lm_pending_buf s"
  "lm_repeat_en (snd (note_alive e hdr s)) = lm_repeat_en s"
  "lm_channel_pref (snd (note_alive e hdr s)) = lm_channel_pref s"
  "lm_no_signal (snd (note_alive e hdr s)) = False"
  "lm_fallback_faded (snd (note_alive e hdr s)) = (\<not> lm_fallback_active s \<and> lm_fallback_faded s)"
  by (simp_all add: note_alive_def Let_def)

text \<open>The dispatch changes the pulse queue only, and depends on the bindings and the group only.\<close>

lemma dispatch_pulse_state:
  "\<exists>p b. snd (dispatch_pulse hdr m s) = s\<lparr> lm_pending_light_payload := p, lm_pending_light := b \<rparr>"
proof
  show "\<exists>b. snd (dispatch_pulse hdr m s) = s\<lparr> lm_pending_light_payload := lm_pending_light_payload (snd (dispatch_pulse hdr m s)),
      lm_pending_light := b \<rparr>"
    by (rule exI [of _ "lm_pending_light (snd (dispatch_pulse hdr m s))"], rule lume.equality)
       (simp_all add: dispatch_pulse_def case_prod_beta)
qed

lemma dispatch_state: "snd (dispatch e hdr m s) = snd (dispatch_pulse hdr m s)"
  by (simp add: dispatch_def case_prod_beta Let_def split: option.split)

lemma track_offset_state:
  "\<exists>x y z. track_offset hdr m s = s\<lparr> lm_offset_ms := x, lm_offset_source := y, lm_offset_valid := z \<rparr>"
proof (intro exI)
  show "track_offset hdr m s = s\<lparr> lm_offset_ms := lm_offset_ms (track_offset hdr m s),
      lm_offset_source := lm_offset_source (track_offset hdr m s), lm_offset_valid := lm_offset_valid (track_offset hdr m s) \<rparr>"
    by (rule lume.equality) (simp_all add: track_offset_def case_prod_beta Let_def)
qed

lemma tofu_refused: "\<not> fst (tofu_admit t src ch now l) \<Longrightarrow> tofu_admit t src ch now l = (False, l)"
  by (auto simp: tofu_admit_def split: if_splits)

lemma tofu_accepted:
  "fst (tofu_admit t src ch now l) \<Longrightarrow>
    tofu_admit t src ch now l = (True, \<lparr> tl_has_lock = True, tl_locked_id = src, tl_last_frame_ms = now \<rparr>)"
  by (auto simp: tofu_admit_def split: if_splits)

text \<open>The state between the gates and the dispatch.\<close>

definition lock_on :: "lume_env \<Rightarrow> header \<Rightarrow> lume \<Rightarrow> lume" where
  "lock_on e hdr s = s\<lparr> lm_tofu := \<lparr> tl_has_lock = True, tl_locked_id = h_source_id hdr, tl_last_frame_ms = le_now e \<rparr> \<rparr>"

definition accepted_state :: "lume_env \<Rightarrow> header \<Rightarrow> bytes \<Rightarrow> lume \<Rightarrow> lume" where
  "accepted_state e hdr m s =
     (let s1 = snd (note_alive e hdr (lock_on e hdr s));
          k = (h_source_id hdr, h_sequence_number hdr)
      in stage_relay hdr m (track_offset hdr m (s1\<lparr> lm_dedup := mark_seen k (lm_dedup s1),
           lm_quality := note_frame (ucast (h_source_id hdr)) (h_sequence_number hdr) (lm_last_rx_ms s1) (lm_quality s1) \<rparr>)))"

lemma on_show_frame_eq:
  "on_show_frame e hdr m s =
     (if \<not> admitted e hdr s then ([], s)
      else if \<not> fresh_key hdr s then note_alive e hdr (lock_on e hdr s)
      else (fst (note_alive e hdr (lock_on e hdr s)) @ fst (dispatch e hdr m (accepted_state e hdr m s)),
            snd (dispatch_pulse hdr m (accepted_state e hdr m s))))"
proof (cases "admitted e hdr s")
  case False
  then have "tofu_admit (h_message_type hdr) (h_source_id hdr) (lm_listen_chan s) (le_now e) (lm_tofu s) = (False, lm_tofu s)"
    unfolding admitted_def by (rule tofu_refused)
  moreover have "s\<lparr> lm_tofu := lm_tofu s \<rparr> = s" by (rule lume.equality) simp_all
  ultimately show ?thesis using False by (simp add: on_show_frame_def)
next
  case True
  then have "tofu_admit (h_message_type hdr) (h_source_id hdr) (lm_listen_chan s) (le_now e) (lm_tofu s)
      = (True, \<lparr> tl_has_lock = True, tl_locked_id = h_source_id hdr, tl_last_frame_ms = le_now e \<rparr>)"
    unfolding admitted_def by (rule tofu_accepted)
  moreover have "lm_dedup (lock_on e hdr s) = lm_dedup s" by (simp add: lock_on_def)
  ultimately show ?thesis using True
    by (simp add: on_show_frame_def lock_on_def [symmetric] fresh_key_def accepted_state_def Let_def
        case_prod_beta note_alive_state dispatch_state)
qed

lemma lock_on_sel [simp]:
  "lm_bindings (lock_on e hdr s) = lm_bindings s" "lm_group (lock_on e hdr s) = lm_group s"
  "lm_dedup (lock_on e hdr s) = lm_dedup s" "lm_rx_count (lock_on e hdr s) = lm_rx_count s"
  "lm_listen_chan (lock_on e hdr s) = lm_listen_chan s" "lm_fallback_active (lock_on e hdr s) = lm_fallback_active s"
  "lm_fallback_faded (lock_on e hdr s) = lm_fallback_faded s"
  "lm_pending_repeat (lock_on e hdr s) = lm_pending_repeat s" "lm_pending_len (lock_on e hdr s) = lm_pending_len s"
  "lm_pending_buf (lock_on e hdr s) = lm_pending_buf s" "lm_repeat_en (lock_on e hdr s) = lm_repeat_en s"
  "lm_channel_pref (lock_on e hdr s) = lm_channel_pref s"
  "lm_tofu (lock_on e hdr s) = \<lparr> tl_has_lock = True, tl_locked_id = h_source_id hdr, tl_last_frame_ms = le_now e \<rparr>"
  by (simp_all add: lock_on_def)

lemma track_offset_sel [simp]:
  "lm_bindings (track_offset hdr m s) = lm_bindings s" "lm_group (track_offset hdr m s) = lm_group s"
  "lm_dedup (track_offset hdr m s) = lm_dedup s" "lm_rx_count (track_offset hdr m s) = lm_rx_count s"
  "lm_listen_chan (track_offset hdr m s) = lm_listen_chan s" "lm_fallback_active (track_offset hdr m s) = lm_fallback_active s"
  "lm_fallback_faded (track_offset hdr m s) = lm_fallback_faded s"
  "lm_pending_repeat (track_offset hdr m s) = lm_pending_repeat s" "lm_pending_len (track_offset hdr m s) = lm_pending_len s"
  "lm_pending_buf (track_offset hdr m s) = lm_pending_buf s" "lm_repeat_en (track_offset hdr m s) = lm_repeat_en s"
  "lm_channel_pref (track_offset hdr m s) = lm_channel_pref s" "lm_tofu (track_offset hdr m s) = lm_tofu s"
  "lm_last_rx_ms (track_offset hdr m s) = lm_last_rx_ms s" "lm_no_signal (track_offset hdr m s) = lm_no_signal s"
  using track_offset_state [of hdr m s] by auto

lemma stage_relay_sel [simp]:
  "lm_bindings (stage_relay hdr m s) = lm_bindings s" "lm_group (stage_relay hdr m s) = lm_group s"
  "lm_dedup (stage_relay hdr m s) = lm_dedup s" "lm_rx_count (stage_relay hdr m s) = lm_rx_count s"
  "lm_listen_chan (stage_relay hdr m s) = lm_listen_chan s" "lm_fallback_active (stage_relay hdr m s) = lm_fallback_active s"
  "lm_fallback_faded (stage_relay hdr m s) = lm_fallback_faded s" "lm_repeat_en (stage_relay hdr m s) = lm_repeat_en s"
  "lm_channel_pref (stage_relay hdr m s) = lm_channel_pref s" "lm_tofu (stage_relay hdr m s) = lm_tofu s"
  "lm_last_rx_ms (stage_relay hdr m s) = lm_last_rx_ms s" "lm_no_signal (stage_relay hdr m s) = lm_no_signal s"
  by (simp_all add: stage_relay_def)

lemma dispatch_pulse_sel [simp]:
  "lm_bindings (snd (dispatch_pulse hdr m s)) = lm_bindings s" "lm_group (snd (dispatch_pulse hdr m s)) = lm_group s"
  "lm_dedup (snd (dispatch_pulse hdr m s)) = lm_dedup s" "lm_rx_count (snd (dispatch_pulse hdr m s)) = lm_rx_count s"
  "lm_listen_chan (snd (dispatch_pulse hdr m s)) = lm_listen_chan s"
  "lm_fallback_active (snd (dispatch_pulse hdr m s)) = lm_fallback_active s"
  "lm_fallback_faded (snd (dispatch_pulse hdr m s)) = lm_fallback_faded s"
  "lm_pending_repeat (snd (dispatch_pulse hdr m s)) = lm_pending_repeat s"
  "lm_pending_len (snd (dispatch_pulse hdr m s)) = lm_pending_len s"
  "lm_pending_buf (snd (dispatch_pulse hdr m s)) = lm_pending_buf s"
  "lm_repeat_en (snd (dispatch_pulse hdr m s)) = lm_repeat_en s"
  "lm_channel_pref (snd (dispatch_pulse hdr m s)) = lm_channel_pref s" "lm_tofu (snd (dispatch_pulse hdr m s)) = lm_tofu s"
  "lm_last_rx_ms (snd (dispatch_pulse hdr m s)) = lm_last_rx_ms s" "lm_no_signal (snd (dispatch_pulse hdr m s)) = lm_no_signal s"
  using dispatch_pulse_state [of hdr m s] by auto

lemma accepted_sel [simp]:
  "lm_bindings (accepted_state e hdr m s) = lm_bindings s" "lm_group (accepted_state e hdr m s) = lm_group s"
  "lm_dedup (accepted_state e hdr m s) = mark_seen (h_source_id hdr, h_sequence_number hdr) (lm_dedup s)"
  "lm_rx_count (accepted_state e hdr m s) = lm_rx_count s + 1" "lm_listen_chan (accepted_state e hdr m s) = lm_listen_chan s"
  "lm_fallback_active (accepted_state e hdr m s) = False"
  "lm_fallback_faded (accepted_state e hdr m s) = (\<not> lm_fallback_active s \<and> lm_fallback_faded s)"
  "lm_channel_pref (accepted_state e hdr m s) = lm_channel_pref s" "lm_repeat_en (accepted_state e hdr m s) = lm_repeat_en s"
  "lm_tofu (accepted_state e hdr m s) = \<lparr> tl_has_lock = True, tl_locked_id = h_source_id hdr, tl_last_frame_ms = le_now e \<rparr>"
  "lm_last_rx_ms (accepted_state e hdr m s) = le_now e" "lm_no_signal (accepted_state e hdr m s) = False"
  by (simp_all add: accepted_state_def Let_def note_alive_state)

text \<open>What is rendered depends on the frame, the bindings, the group and the host.\<close>

lemma fan_outs_cong:
  assumes "lm_bindings s = lm_bindings s'" and "lm_group s = lm_group s'"
  shows "fan_out_light_pulse_inline p s = fan_out_light_pulse_inline p s'" "fan_out_light_wash w s = fan_out_light_wash w s'"
    "fan_out_light_wash_end we s = fan_out_light_wash_end we s'" "fan_out_light_wash_pulse wp s = fan_out_light_wash_pulse wp s'"
    "fan_out_text_display t s = fan_out_text_display t s'" "fan_out_bitmap_header bh s = fan_out_bitmap_header bh s'"
    "fan_out_bitmap_plane bp s = fan_out_bitmap_plane bp s'" "fan_out_clear_screen c s = fan_out_clear_screen c s'"
    "fan_out_light_pulse p s = fan_out_light_pulse p s'"
  using assms by (simp_all add: fan_outs fan_out_def wanted_def group_ok_def)

lemma dispatch_cong:
  assumes "lm_bindings s = lm_bindings s'" and "lm_group s = lm_group s'" and "le_has e = le_has e'"
  shows "fst (dispatch e hdr m s) = fst (dispatch e' hdr m s')"
proof -
  have pulse: "fst (dispatch_pulse hdr m s) = fst (dispatch_pulse hdr m s')"
    by (simp add: dispatch_pulse_def case_prod_beta fan_outs_cong(1) [OF assms(1,2)])
  have rest: "dispatch_wash hdr m x = dispatch_wash hdr m y" "dispatch_display hdr m x = dispatch_display hdr m y"
    if "lm_bindings x = lm_bindings y" "lm_group x = lm_group y" for x y
    by (simp_all only: dispatch_wash_def dispatch_display_def fan_outs_cong(2-8) [OF that])
  have "dispatch_wash hdr m (snd (dispatch_pulse hdr m s)) = dispatch_wash hdr m (snd (dispatch_pulse hdr m s'))"
    "dispatch_display hdr m (snd (dispatch_pulse hdr m s)) = dispatch_display hdr m (snd (dispatch_pulse hdr m s'))"
    by (rule rest; simp add: assms(1,2))+
  then show ?thesis
    by (simp add: dispatch_def case_prod_beta Let_def pulse assms(3) split: option.split)
qed

section \<open>The fallback wash\<close>

datatype fb_state = FbIdle | FbWash | FbFaded

text \<open>The edges a well-behaved log may show: a wash starts when none is on, fades once, and is recovered
  from before another one starts.\<close>

fun fb_step :: "fb_state \<Rightarrow> fallback_edge \<Rightarrow> fb_state option" where
  "fb_step FbIdle FbStart = Some FbWash"
| "fb_step FbWash FbFade = Some FbFaded"
| "fb_step FbWash FbRecovery = Some FbIdle"
| "fb_step FbFaded FbRecovery = Some FbIdle"
| "fb_step _ _ = None"

fun fb_path :: "fb_state \<Rightarrow> fallback_edge list \<Rightarrow> fb_state option" where
  "fb_path q [] = Some q"
| "fb_path q (x # xs) = (case fb_step q x of None \<Rightarrow> None | Some q' \<Rightarrow> fb_path q' xs)"

definition fb_of :: "lume \<Rightarrow> fb_state" where
  "fb_of s = (if \<not> lm_fallback_active s then FbIdle else if lm_fallback_faded s then FbFaded else FbWash)"

fun edge_of :: "lume_event \<Rightarrow> fallback_edge option" where
  "edge_of (Fallback f) = Some f"
| "edge_of _ = None"

definition edges :: "lume_event list \<Rightarrow> fallback_edge list" where
  "edges evs = List.map_filter edge_of evs"

lemma edges_simps [simp]:
  "edges [] = []" "edges (xs @ ys) = edges xs @ edges ys" "edges (Fallback f # evs) = f # edges evs"
  by (simp_all add: edges_def map_filter_def)

lemma edges_none: "(\<And>f. Fallback f \<notin> set evs) \<Longrightarrow> edges evs = []"
proof (induction evs)
  case (Cons ev evs)
  then have "edge_of ev = None" by (cases ev) auto
  with Cons show ?case by (simp add: edges_def map_filter_def)
qed simp

lemma edges_fan_out [simp]: "edges (fan_out keep c g r s) = []"
  by (rule edges_none) (auto simp: fan_out_iff)

lemma fb_path_append: "fb_path q (xs @ ys) = (case fb_path q xs of None \<Rightarrow> None | Some q' \<Rightarrow> fb_path q' ys)"
  by (induction xs arbitrary: q) (auto split: option.split)

definition faded_inv :: "lume \<Rightarrow> bool" where
  "faded_inv s \<longleftrightarrow> (lm_fallback_faded s \<longrightarrow> lm_fallback_active s)"

text \<open>One call moves along the edges it logs.\<close>

definition fb_sound :: "lume_event list \<times> lume \<Rightarrow> lume \<Rightarrow> bool" where
  "fb_sound r s \<longleftrightarrow> fb_path (fb_of s) (edges (fst r)) = Some (fb_of (snd r)) \<and> faded_inv (snd r)"

lemma fb_sound_still:
  "faded_inv s \<Longrightarrow> edges evs = [] \<Longrightarrow> lm_fallback_active s' = lm_fallback_active s \<Longrightarrow>
    lm_fallback_faded s' = lm_fallback_faded s \<Longrightarrow> fb_sound (evs, s') s"
  by (simp add: fb_sound_def fb_of_def faded_inv_def)

lemma dispatch_edges: "edges (fst (dispatch e hdr m s)) = []"
  by (auto simp: dispatch_def dispatch_pulse_def dispatch_wash_def dispatch_display_def when_ok_def Let_def
      case_prod_beta fan_outs split: option.split)

lemma note_alive_fb:
  assumes "faded_inv s"
  shows "fb_path (fb_of s) (edges (fst (note_alive e hdr s))) = Some FbIdle
    \<and> lm_fallback_active (snd (note_alive e hdr s)) = False \<and> lm_fallback_faded (snd (note_alive e hdr s)) = False"
  using assms by (auto simp: note_alive_events note_alive_state emit_fallback_wash_recovery_def fan_outs fb_of_def faded_inv_def)

lemma recv_fb: "faded_inv s \<Longrightarrow> fb_sound (lume_on_recv e m s) s"
proof -
  assume inv: "faded_inv s"
  show ?thesis
  proof (cases rule: on_recv_cases [of m e s])
    case (shown hdr)
    have a: "faded_inv (lock_on e hdr s)" "fb_of (lock_on e hdr s) = fb_of s"
      using inv by (simp_all add: faded_inv_def fb_of_def)
    from note_alive_fb [OF a(1), of e hdr] show ?thesis
      using inv by (auto simp: shown on_show_frame_eq fb_sound_def faded_inv_def a(2) dispatch_edges fb_of_def)
  next
    case config
    have "edges (fst (on_config_write e m s)) = []"
      using on_config_write_show [of e m s] by (intro edges_none) (auto simp: list_all_iff)
    then show ?thesis using inv show_viewD [of "snd (on_config_write e m s)" s] on_config_write_show [of e m s]
      by (simp add: config fb_sound_def fb_of_def faded_inv_def)
  next
    case ignored
    then show ?thesis using inv by (simp add: fb_sound_def faded_inv_def)
  qed
qed

lemma service_fallback_fb: "faded_inv s \<Longrightarrow> fb_sound (service_fallback e s) s"
  by (auto simp: fb_sound_def service_fallback_def Let_def case_prod_beta fb_of_def faded_inv_def
      emit_fallback_wash_start_def emit_fallback_wash_fade_def fan_outs)

lemma service_scan_fb:
  "edges (fst (lume_service_scan e s)) = [] \<and> lm_fallback_active (snd (lume_service_scan e s)) = lm_fallback_active s
    \<and> lm_fallback_faded (snd (lume_service_scan e s)) = lm_fallback_faded s"
  by (simp add: lume_service_scan_def Let_def edges_def map_filter_def)

lemma follow_link_fb: "faded_inv s \<Longrightarrow> fb_sound (follow_link e s) s"
  using service_fallback_fb [of s e] service_scan_fb [of e "snd (service_fallback e s)"]
  by (simp add: follow_link_def fb_sound_def fb_of_def faded_inv_def case_prod_beta)

lemma tick_fb: "faded_inv s \<Longrightarrow> fb_sound (lume_loop_tick e s) s"
proof -
  assume inv: "faded_inv s"
  obtain x y where d: "snd (drain_queues e s) = s\<lparr> lm_pending_light := False, lm_needs_repaint := False,
      lm_pending_repeat := False, lm_repeats_emitted := x, lm_last_census_ms := y \<rparr>"
    using drain_queues_state by blast
  have f: "faded_inv (snd (drain_queues e s))" "fb_of (snd (drain_queues e s)) = fb_of s"
    using inv unfolding d by (simp_all add: faded_inv_def fb_of_def)
  have q: "edges (fst (drain_queues e s)) = []" by (rule edges_none) (rule drain_queues_quiet)
  obtain b u v where t: "snd (tick_pairing_burst e s) = s\<lparr> lm_burst_active := b, lm_burst_next_emit_ms := u, lm_config_tx_seq := v \<rparr>"
    using tick_burst_state by blast
  have "edges (fst (tick_pairing_burst e s)) = []" by (rule edges_none) (rule tick_burst_quiet)
  then show ?thesis
    using follow_link_fb [OF f(1), of e] inv f(2) q t
    by (simp add: lume_loop_tick_def fb_sound_def case_prod_beta fb_of_def faded_inv_def)
qed

lemma lume_run_append: "snd (lume_run (xs @ ys) s) = snd (lume_run ys (snd (lume_run xs s)))"
  by (induction xs arbitrary: s) (simp_all add: case_prod_beta)

lemma apply_fb: "faded_inv s \<Longrightarrow> fb_sound (lume_apply c s) s"
  using recv_fb tick_fb by (cases c; cases "fst c") simp_all

lemma run_fb:
  "faded_inv s \<Longrightarrow> fb_path (fb_of s) (edges (concat (fst (lume_run cs s)))) = Some (fb_of (snd (lume_run cs s)))
    \<and> faded_inv (snd (lume_run cs s))"
proof (induction cs arbitrary: s)
  case (Cons c cs)
  then show ?case using apply_fb [OF Cons.prems, of c] Cons.IH [of "snd (lume_apply c s)"]
    by (simp add: fb_sound_def fb_path_append)
qed simp

text \<open>A frame that passes the gates ends the fallback.\<close>

lemma recv_ends_fallback:
  assumes "faded_inv s" and "show_frame m hdr" and "admitted e hdr s"
  shows "fb_of (snd (lume_on_recv e m s)) = FbIdle"
  using assms note_alive_fb [of "lock_on e hdr s" e hdr]
  by (simp add: on_recv_show [OF assms(2)] on_show_frame_eq fb_of_def faded_inv_def)

text \<open>C30: The fallback wash starts, fades and ends in order, and the Director ends it. In any run of receptions
  and loops, at whatever times, the edges that the Lume logs form a path of starts, at most one fade
  each, and recoveries, from the state the Lume was in to the one it ends in; and whenever, in the course
  of the run, a show frame is received that the lock admits, the fallback is off after that very call.\<close>

theorem fallback_edges_in_order:
  assumes "faded_inv s"
  shows "fb_path (fb_of s) (edges (concat (fst (lume_run cs s)))) = Some (fb_of (snd (lume_run cs s)))
    \<and> (\<forall>xs m e ys hdr. cs = xs @ (LumeRecv m, e) # ys \<longrightarrow> show_frame m hdr \<longrightarrow> admitted e hdr (snd (lume_run xs s))
        \<longrightarrow> fb_of (snd (lume_run (xs @ [(LumeRecv m, e)]) s)) = FbIdle)"
  using run_fb [OF assms] recv_ends_fallback by (auto simp: lume_run_append)

theorem fallback_edges_in_order_witness:
  "fb_of (lume_sample\<lparr> lm_rx_count := 1, lm_fallback_active := True \<rparr>) = FbWash
   \<and> fb_of (snd (lume_run [(LumeRecv (write_header zero_header LightWash 0), lume_env_at 7)]
       (lume_sample\<lparr> lm_rx_count := 1, lm_fallback_active := True \<rparr>))) = FbIdle"
proof -
  let ?s = "lume_sample\<lparr> lm_rx_count := 1, lm_fallback_active := True \<rparr>" and ?m = "write_header zero_header LightWash 0"
  have "show_frame ?m (sent_header zero_header LightWash 0)"
    using decode_write_header [of 0 "[]" zero_header LightWash zero_header]
    by (simp add: show_frame_def) (simp add: zero_header_def)
  moreover have "faded_inv ?s" "fb_of ?s = FbWash" "admitted (lume_env_at 7) (sent_header zero_header LightWash 0) ?s"
    by (simp_all add: faded_inv_def fb_of_def lume_sample_def lume_init_def admitted_def tofu_admit_def zero_header_def)
  ultimately show ?thesis
    using fallback_edges_in_order [of ?s "[(LumeRecv ?m, lume_env_at 7)]"] by (metis append_Nil lume_run.simps(1) snd_conv)
qed

text \<open>Silence is covered up, then faced. A loop of a Lume that once heard a Director and has marked the
  link lost (and is not in a pairing window) leaves the fallback wash as it was within ten seconds of
  silence, has it on after that, and has it faded out after forty.\<close>

theorem fallback_follows_silence:
  assumes "lm_rx_count s \<noteq> 0" and "lm_no_signal s" and "\<not> lm_burst_active s" and "\<not> le_ble_pair e" and "faded_inv s"
  shows "fb_of (snd (lume_loop_tick e s)) =
    (if age_since_rx e s > kFallbackFadeStartMs then FbFaded
     else if age_since_rx e s > kFallbackEnterMs \<and> fb_of s = FbIdle then FbWash else fb_of s)"
proof -
  obtain x y where d: "snd (drain_queues e s) = s\<lparr> lm_pending_light := False, lm_needs_repaint := False,
      lm_pending_repeat := False, lm_repeats_emitted := x, lm_last_census_ms := y \<rparr>"
    using drain_queues_state by blast
  have enter: "kFallbackEnterMs < a" if "kFallbackFadeStartMs < a" for a :: u32
    using that by (rule order.strict_trans [rotated]) simp
  have "fb_of (snd (lume_loop_tick e s)) = fb_of (snd (service_fallback e (snd (drain_queues e s))))"
    using assms(2-4) service_scan_fb unfolding d
    by (simp add: lume_loop_tick_def case_prod_beta d follow_link_def fb_of_def)
  then show ?thesis
    using assms(1,5) enter by (auto simp: d service_fallback_def Let_def fb_of_def faded_inv_def age_since_rx_def word_neq_0_conv)
qed

theorem fallback_follows_silence_witness:
  "fb_of (snd (lume_loop_tick (lume_env_at 45000) (lume_sample\<lparr> lm_rx_count := 1, lm_no_signal := True \<rparr>))) = FbFaded"
proof -
  let ?s = "lume_sample\<lparr> lm_rx_count := 1, lm_no_signal := True \<rparr>"
  have "lm_rx_count ?s \<noteq> 0" "lm_no_signal ?s" "\<not> lm_burst_active ?s" "\<not> le_ble_pair (lume_env_at 45000)" "faded_inv ?s"
    "age_since_rx (lume_env_at 45000) ?s = 45000"
    by (simp_all add: lume_sample_def lume_init_def lume_env_at_def faded_inv_def age_since_rx_def)
  then show ?thesis using fallback_follows_silence [of ?s "lume_env_at 45000"] by simp
qed

section \<open>Relaying\<close>

text \<open>The invariant of the staging buffer: what waits in it is the same bytes as a frame that was heard, one
  hop further.\<close>

definition relay_of :: "bytes \<Rightarrow> bytes \<Rightarrow> bool" where
  "relay_of m r \<longleftrightarrow> (\<exists>hdr. show_frame m hdr \<and> h_hop_count hdr < kMaxHopCount
     \<and> length m \<le> kLumeRepeatBufSize \<and> r = set_hop_count m (h_hop_count hdr + 1))"

definition relay_inv :: "bytes set \<Rightarrow> lume \<Rightarrow> bool" where
  "relay_inv H s \<longleftrightarrow> length (lm_pending_buf s) = kLumeRepeatBufSize
     \<and> (lm_pending_repeat s \<longrightarrow> lm_repeat_en s \<and> (\<exists>m \<in> H. relay_of m (take (lm_pending_len s) (lm_pending_buf s))))"

lemma relay_inv_mono: "relay_inv H s \<Longrightarrow> H \<subseteq> H' \<Longrightarrow> relay_inv H' s"
  by (auto simp: relay_inv_def)

lemma relay_inv_cong:
  assumes "relay_inv H s" and "lm_pending_buf s' = lm_pending_buf s" and "lm_repeat_en s' = lm_repeat_en s"
    and "lm_pending_repeat s' \<longrightarrow> lm_pending_repeat s \<and> lm_pending_len s' = lm_pending_len s"
  shows "relay_inv H s'"
  using assms by (auto simp: relay_inv_def)

lemma length_set_hop_count [simp]: "length (set_hop_count m n) = length m"
  by (simp add: set_hop_count_def)

lemma stage_relay_inv:
  assumes "relay_inv H s" and "show_frame m hdr"
  shows "relay_inv (insert m H) (stage_relay hdr m s)"
  using assms by (auto simp: relay_inv_def stage_relay_def relay_of_def)

lemma recv_relay: "relay_inv H s \<Longrightarrow> relay_inv (insert m H) (snd (lume_on_recv e m s))"
proof -
  assume inv: "relay_inv H s"
  then have inv': "relay_inv (insert m H) s" by (rule relay_inv_mono) blast
  show ?thesis
  proof (cases rule: on_recv_cases [of m e s])
    case (shown hdr)
    have "relay_inv H (track_offset hdr m x)" if "relay_inv H x" for x
      using that by (rule relay_inv_cong) simp_all
    moreover have "relay_inv H (snd (note_alive e hdr (lock_on e hdr s)))"
      using inv by (rule relay_inv_cong) (simp_all add: note_alive_state)
    moreover have "relay_inv H (x\<lparr> lm_dedup := u, lm_quality := v \<rparr>)" if "relay_inv H x" for x u v
      using that by (rule relay_inv_cong) simp_all
    ultimately have "relay_inv (insert m H) (accepted_state e hdr m s)"
      unfolding accepted_state_def Let_def by (intro stage_relay_inv shown(1)) blast
    then have "relay_inv (insert m H) (snd (dispatch_pulse hdr m (accepted_state e hdr m s)))"
      by (rule relay_inv_cong) simp_all
    moreover have "relay_inv (insert m H) (snd (note_alive e hdr (lock_on e hdr s)))"
      using inv' by (rule relay_inv_cong) (simp_all add: note_alive_state)
    ultimately show ?thesis using inv' by (simp add: shown on_show_frame_eq)
  next
    case config
    have "relay_inv (insert m H) (snd (on_config_write e m s))"
      using inv' by (rule relay_inv_cong) (use show_viewD [of "snd (on_config_write e m s)" s] on_config_write_show [of e m s] in simp_all)
    then show ?thesis by (simp add: config)
  next
    case ignored
    then show ?thesis using inv' by simp
  qed
qed

lemma follow_link_relays:
  "lm_pending_buf (snd (follow_link e s)) = lm_pending_buf s" "lm_repeat_en (snd (follow_link e s)) = lm_repeat_en s"
  "lm_pending_repeat (snd (follow_link e s)) = lm_pending_repeat s" "lm_pending_len (snd (follow_link e s)) = lm_pending_len s"
  "RelayTx r \<notin> set (fst (follow_link e s))"
  by (simp_all add: follow_link_def service_fallback_def lume_service_scan_def Let_def case_prod_beta
      emit_fallback_wash_start_def emit_fallback_wash_fade_def fan_outs fan_out_iff)

lemma tick_relay:
  assumes "relay_inv H s"
  shows "relay_inv H (snd (lume_loop_tick e s))
    \<and> (RelayTx r \<in> set (fst (lume_loop_tick e s)) \<longrightarrow> (\<exists>m \<in> H. relay_of m r))"
proof -
  obtain x y where d: "snd (drain_queues e s) = s\<lparr> lm_pending_light := False, lm_needs_repaint := False,
      lm_pending_repeat := False, lm_repeats_emitted := x, lm_last_census_ms := y \<rparr>"
    using drain_queues_state by blast
  obtain b u v where t: "snd (tick_pairing_burst e s) = s\<lparr> lm_burst_active := b, lm_burst_next_emit_ms := u, lm_config_tx_seq := v \<rparr>"
    using tick_burst_state by blast
  have "relay_inv H (snd (lume_loop_tick e s))"
    using assms by (rule relay_inv_cong) (simp_all add: lume_loop_tick_def case_prod_beta t follow_link_relays d)
  moreover have "\<exists>m \<in> H. relay_of m r" if "RelayTx r \<in> set (fst (drain_queues e s))"
    using drain_queues_events [OF that] assms by (auto simp: relay_inv_def fan_outs fan_out_iff)
  ultimately show ?thesis
    by (auto simp: lume_loop_tick_def case_prod_beta follow_link_relays dest: tick_burst_events split: if_splits)
qed

fun lume_heard :: "(lume_call \<times> lume_env) list \<Rightarrow> bytes list" where
  "lume_heard [] = []"
| "lume_heard ((LumeRecv m, e) # cs) = m # lume_heard cs"
| "lume_heard ((LumeTick, e) # cs) = lume_heard cs"

lemma relays_sound_from:
  "relay_inv H s \<Longrightarrow> RelayTx r \<in> set (concat (fst (lume_run cs s))) \<Longrightarrow> \<exists>m \<in> H \<union> set (lume_heard cs). relay_of m r"
proof (induction cs arbitrary: H s)
  case Nil
  then show ?case by simp
next
  case (Cons c cs)
  obtain call e where c: "c = (call, e)" by (cases c)
  show ?case
  proof (cases call)
    case (LumeRecv m)
    have no: "RelayTx r \<notin> set (fst (lume_on_recv e m s))"
    proof (cases rule: on_recv_cases [of m e s])
      case (shown hdr)
      then show ?thesis
        by (auto simp: on_show_frame_eq note_alive_events emit_fallback_wash_recovery_def fan_outs fan_out_iff
            dispatch_def dispatch_pulse_def dispatch_wash_def dispatch_display_def when_ok_def Let_def case_prod_beta
            split: option.splits if_splits)
    next
      case config
      then show ?thesis using on_config_write_show [of e m s] by (auto simp: list_all_iff)
    qed simp
    then have "RelayTx r \<in> set (concat (fst (lume_run cs (snd (lume_on_recv e m s)))))"
      using Cons.prems(2) by (simp add: c LumeRecv)
    from Cons.IH [OF recv_relay [OF Cons.prems(1)] this] show ?thesis by (auto simp: c LumeRecv)
  next
    case LumeTick
    then show ?thesis
      using Cons.IH [of H "snd (lume_loop_tick e s)"] tick_relay [OF Cons.prems(1), of e r] Cons.prems(2)
      by (auto simp: c)
  qed
qed

text \<open>A Lume that hears one frame and relays it in the next loop.\<close>

lemma sample_shown:
  "show_frame (write_header (zero_header\<lparr> h_source_id := 5, h_sequence_number := 1 \<rparr>) LightWash 0)
     (sent_header (zero_header\<lparr> h_source_id := 5, h_sequence_number := 1 \<rparr>) LightWash 0)"
  using decode_write_header [of 0 "[]" "zero_header\<lparr> h_source_id := 5, h_sequence_number := 1 \<rparr>" LightWash zero_header]
  by (simp add: show_frame_def) (simp add: zero_header_def)

lemma sample_relays:
  "\<exists>r. RelayTx r \<in> set (concat (fst (lume_run
      [(LumeRecv (write_header (zero_header\<lparr> h_source_id := 5, h_sequence_number := 1 \<rparr>) LightWash 0), lume_env_at 7),
       (LumeTick, lume_env_at 8)] lume_sample)))"
proof -
  let ?h = "zero_header\<lparr> h_source_id := 5, h_sequence_number := 1 \<rparr>"
  let ?m = "write_header ?h LightWash 0" and ?e = "lume_env_at 7"
  have "admitted ?e (sent_header ?h LightWash 0) lume_sample"
    by (simp add: admitted_def tofu_admit_def lume_sample_def lume_init_def)
  moreover have "fresh_key (sent_header ?h LightWash 0) lume_sample"
    by (simp add: fresh_key_def seen_recently_def lume_sample_def lume_init_def dedup_init_def list_ex_iff)
  ultimately have st: "snd (lume_on_recv ?e ?m lume_sample)
      = snd (dispatch_pulse (sent_header ?h LightWash 0) ?m (accepted_state ?e (sent_header ?h LightWash 0) ?m lume_sample))"
    by (simp add: on_recv_show [OF sample_shown] on_show_frame_eq)
  let ?s = "snd (lume_on_recv ?e ?m lume_sample)"
  have "lm_pending_repeat ?s" "\<not> lm_burst_active ?s" "lm_rx_count ?s = 1"
    unfolding st by (simp_all add: dispatch_pulse_def accepted_state_def Let_def stage_relay_def track_offset_def
        note_alive_def lock_on_def lume_sample_def lume_init_def zero_header_def)
  then have "RelayTx (take (lm_pending_len ?s) (lm_pending_buf ?s)) \<in> set (fst (drain_queues (lume_env_at 8) ?s))"
    by (simp add: drain_queues_def drain_relay_def drain_light_def Let_def case_prod_beta lume_env_at_def)
  then show ?thesis
    using \<open>\<not> lm_burst_active ?s\<close> by (auto simp: lume_loop_tick_def case_prod_beta) (auto simp: lume_env_at_def)
qed

lemma lume_run_relays:
  assumes "length (lm_pending_buf s) = kLumeRepeatBufSize" and "\<not> lm_pending_repeat s"
    and "RelayTx r \<in> set (concat (fst (lume_run cs s)))"
  shows "\<exists>m \<in> set (lume_heard cs). \<exists>hdr. show_frame m hdr
    \<and> show_frame r (hdr\<lparr> h_hop_count := h_hop_count hdr + 1 \<rparr>)
    \<and> h_hop_count hdr + 1 \<in> {1, 2, 3} \<and> r = m[kHopCountOffset := h_hop_count hdr + 1]"
proof -
  have "relay_inv {} s" using assms(1,2) by (simp add: relay_inv_def)
  from relays_sound_from [OF this assms(3)] obtain m hdr where m: "m \<in> set (lume_heard cs)" "show_frame m hdr"
    "h_hop_count hdr < 3" "r = set_hop_count m (h_hop_count hdr + 1)" by (auto simp: relay_of_def)
  have "decode_header r zero_header = (Ok, hdr\<lparr> h_hop_count := h_hop_count hdr + 1 \<rparr>)"
    using set_hop_count_decode [of m zero_header hdr] m(2,4) by (simp add: show_frame_def)
  moreover have three: "h_hop_count hdr \<in> {0, 1, 2}"
  proof -
    have "unat (h_hop_count hdr) < 3" using m(3) by (simp add: word_less_nat_alt)
    then have "unat (h_hop_count hdr) = 0 \<or> unat (h_hop_count hdr) = 1 \<or> unat (h_hop_count hdr) = 2" by arith
    then show ?thesis by (simp add: word_unat_eq_iff)
  qed
  ultimately have "show_frame r (hdr\<lparr> h_hop_count := h_hop_count hdr + 1 \<rparr>)" using m(2) by (auto simp: show_frame_def)
  moreover have "kHeaderSize \<le> length m" using m(2) decode_header_OkD(1) by (fastforce simp: show_frame_def)
  then have "r = m[kHopCountOffset := h_hop_count hdr + 1]" using m(4) by (simp add: set_hop_count_def)
  moreover have "h_hop_count hdr + 1 \<in> {1, 2, 3}" using three by auto
  ultimately show ?thesis using m(1,2) by blast
qed

text \<open>C28: A Lume relays only what it heard, one hop further. In any run from a Lume that has nothing staged,
  every frame it relays is a frame of the show that it received in that run with fewer than three hops
  behind it: the same bytes except for the hop count, which is one more, so that whoever hears it
  reads the same source, sequence number, type and payload, and a hop count from 1 to 3.\<close>

theorem lume_relays_sound:
  assumes "length (lm_pending_buf s) = kLumeRepeatBufSize" and "\<not> lm_pending_repeat s"
    and "RelayTx r \<in> set (concat (fst (lume_run cs s)))"
  shows "\<exists>m \<in> set (lume_heard cs). \<exists>hdr. show_frame m hdr
    \<and> show_frame r (hdr\<lparr> h_hop_count := h_hop_count hdr + 1 \<rparr>)
    \<and> h_hop_count hdr + 1 \<in> {1, 2, 3} \<and> r = m[kHopCountOffset := h_hop_count hdr + 1]"
  by (rule lume_run_relays [OF assms])

theorem lume_relays_sound_witness:
  "\<exists>r. RelayTx r \<in> set (concat (fst (lume_run
      [(LumeRecv (write_header (zero_header\<lparr> h_source_id := 5, h_sequence_number := 1 \<rparr>) LightWash 0), lume_env_at 7),
       (LumeTick, lume_env_at 8)] lume_sample)))
    \<and> show_frame r (sent_header (zero_header\<lparr> h_source_id := 5, h_sequence_number := 1 \<rparr>) LightWash 0\<lparr> h_hop_count := 1 \<rparr>)"
proof -
  let ?h = "zero_header\<lparr> h_source_id := 5, h_sequence_number := 1 \<rparr>"
  let ?m = "write_header ?h LightWash 0"
  let ?cs = "[(LumeRecv ?m, lume_env_at 7), (LumeTick, lume_env_at 8)]"
  obtain r where r: "RelayTx r \<in> set (concat (fst (lume_run ?cs lume_sample)))" using sample_relays by blast
  have "length (lm_pending_buf lume_sample) = kLumeRepeatBufSize" "\<not> lm_pending_repeat lume_sample"
    by (simp_all add: lume_sample_def lume_init_def)
  from lume_relays_sound [OF this r] obtain hdr where "show_frame ?m hdr" "show_frame r (hdr\<lparr> h_hop_count := h_hop_count hdr + 1 \<rparr>)"
    by auto
  moreover from this have "hdr = sent_header ?h LightWash 0" using show_frame_unique sample_shown by blast
  ultimately show ?thesis using r by (auto simp: zero_header_def)
qed

text \<open>
  What is on the air of a mesh of Lumes after the frames \<open>origin\<close> were sent: these frames, and whatever
  any Lume, from any state with nothing staged, relays in any run of which every reception is of a
  frame already on the air.
\<close>

inductive_set mesh :: "bytes set \<Rightarrow> bytes set" for origin :: "bytes set" where
  sent: "m \<in> origin \<Longrightarrow> m \<in> mesh origin"
| relayed: "\<forall>m \<in> set (lume_heard cs). m \<in> mesh origin \<Longrightarrow> length (lm_pending_buf s) = kLumeRepeatBufSize
    \<Longrightarrow> \<not> lm_pending_repeat s \<Longrightarrow> RelayTx r \<in> set (concat (fst (lume_run cs s))) \<Longrightarrow> r \<in> mesh origin"

text \<open>A frame sent, \<open>n\<close> hops on.\<close>

definition hopped :: "bytes \<Rightarrow> header \<Rightarrow> nat \<Rightarrow> bytes \<Rightarrow> bool" where
  "hopped m hdr n r \<longleftrightarrow> show_frame m hdr \<and> 0 < n \<and> unat (h_hop_count hdr) + n \<le> 3
     \<and> show_frame r (hdr\<lparr> h_hop_count := h_hop_count hdr + of_nat n \<rparr>)
     \<and> r = m[kHopCountOffset := h_hop_count hdr + of_nat n]"

lemma hopped_once:
  assumes "show_frame m hdr" and "show_frame r (hdr\<lparr> h_hop_count := h_hop_count hdr + 1 \<rparr>)"
    and "h_hop_count hdr + 1 \<in> {1, 2, 3}" and "r = m[kHopCountOffset := h_hop_count hdr + 1]"
  shows "hopped m hdr 1 r"
proof -
  have "h_hop_count hdr \<in> {0, 1, 2}" using assms(3) by (auto simp: add_eq_0_iff eq_diff_eq [symmetric])
  then show ?thesis using assms by (auto simp: hopped_def)
qed

lemma hopped_further:
  assumes "hopped m hdr n r" and "hopped r h 1 r'"
  shows "hopped m hdr (n + 1) r'"
proof -
  let ?k = "h_hop_count hdr + of_nat n"
  have h: "h = hdr\<lparr> h_hop_count := ?k \<rparr>" using assms show_frame_unique by (auto simp: hopped_def)
  have "unat ?k = unat (h_hop_count hdr) + n"
    using assms(1) by (simp add: hopped_def unat_word_ariths unat_of_nat)
  then show ?thesis using assms by (auto simp: hopped_def h ac_simps)
qed

lemma mesh_hops: "r \<in> mesh origin \<Longrightarrow> \<exists>m \<in> origin. r = m \<or> (\<exists>hdr n. hopped m hdr n r)"
proof (induction rule: mesh.induct)
  case (relayed cs s r)
  from lume_run_relays [OF relayed.hyps(1-3)] obtain b h where b: "b \<in> set (lume_heard cs)" "hopped b h 1 r"
    by (elim bexE exE conjE) (drule (3) hopped_once, blast)
  from relayed.IH b(1) obtain m where m: "m \<in> origin" "b = m \<or> (\<exists>hdr n. hopped m hdr n b)" by blast
  show ?case using m(2) b(2) hopped_further [OF _ b(2)] by (intro bexI [OF _ m(1)]) blast
qed blast

lemma mesh_finite:
  assumes "finite origin"
  shows "card (mesh origin) \<le> 4 * card origin"
proof -
  let ?v = "\<lambda>m. set (m # map (\<lambda>k. m[kHopCountOffset := k]) [1, 2, 3])"
  have "r \<in> (\<Union>m \<in> origin. ?v m)" if "r \<in> mesh origin" for r
  proof -
    from mesh_hops [OF that] obtain m where m: "m \<in> origin" "r = m \<or> (\<exists>hdr n. hopped m hdr n r)" by blast
    have "h + of_nat n \<in> {1, 2, 3}" if "0 < n" "unat h + n \<le> 3" for h :: u8 and n
    proof -
      have "unat (h + of_nat n) = unat h + n" using that by (simp add: unat_word_ariths unat_of_nat)
      then have "unat (h + of_nat n) = 1 \<or> unat (h + of_nat n) = 2 \<or> unat (h + of_nat n) = 3" using that by arith
      then show ?thesis by (simp add: word_unat_eq_iff)
    qed
    with m(2) have "r = m \<or> (\<exists>k \<in> {1, 2, 3}. r = m[kHopCountOffset := k])" unfolding hopped_def by blast
    then have "r \<in> ?v m" by auto
    with m(1) show ?thesis by blast
  qed
  then have "card (mesh origin) \<le> card (\<Union>m \<in> origin. ?v m)" by (intro card_mono) (use assms in auto)
  also have "\<dots> \<le> (\<Sum>m \<in> origin. card (?v m))" by (rule card_UN_le [OF assms])
  also have "\<dots> \<le> (\<Sum>m \<in> origin. 4)"
    by (rule sum_mono) (rule order_trans [OF card_length], simp)
  finally show ?thesis by simp
qed

text \<open>C29: A mesh of Lumes cannot keep a frame alive. Take any frames sent, any number of Lumes, each running
  the receive and loop code through any receptions of what is already on the air, in any states and as
  long as they like, and each other's relays received again: whatever comes on the air is one of the
  frames sent, or a show frame sent, byte for byte but for its hop count, which has gone up by one to
  three and is at most 3 (and it still reads as that frame, with the new hop count). So there are never
  more than four different frames on the air for each one sent.\<close>

theorem mesh_hops_bounded:
  assumes "r \<in> mesh origin"
  shows "(\<exists>m \<in> origin. r = m \<or> (\<exists>hdr n. show_frame m hdr \<and> 0 < n \<and> unat (h_hop_count hdr) + n \<le> 3
        \<and> show_frame r (hdr\<lparr> h_hop_count := h_hop_count hdr + of_nat n \<rparr>)
        \<and> r = m[kHopCountOffset := h_hop_count hdr + of_nat n]))
    \<and> (finite origin \<longrightarrow> card (mesh origin) \<le> 4 * card origin)"
  using mesh_hops [OF assms] mesh_finite by (auto simp: hopped_def)

theorem mesh_hops_bounded_witness:
  "\<exists>r. r \<in> mesh {write_header (zero_header\<lparr> h_source_id := 5, h_sequence_number := 1 \<rparr>) LightWash 0}
     \<and> show_frame r (sent_header (zero_header\<lparr> h_source_id := 5, h_sequence_number := 1 \<rparr>) LightWash 0\<lparr> h_hop_count := 1 \<rparr>)
     \<and> card (mesh {write_header (zero_header\<lparr> h_source_id := 5, h_sequence_number := 1 \<rparr>) LightWash 0}) \<le> 4"
proof -
  let ?h = "zero_header\<lparr> h_source_id := 5, h_sequence_number := 1 \<rparr>"
  let ?m = "write_header ?h LightWash 0"
  let ?cs = "[(LumeRecv ?m, lume_env_at 7), (LumeTick, lume_env_at 8)]"
  have st: "length (lm_pending_buf lume_sample) = kLumeRepeatBufSize" "\<not> lm_pending_repeat lume_sample"
    by (simp_all add: lume_sample_def lume_init_def)
  obtain r where r: "RelayTx r \<in> set (concat (fst (lume_run ?cs lume_sample)))" using sample_relays by blast
  have in_mesh: "r \<in> mesh {?m}" by (rule mesh.relayed [OF _ st r]) (simp add: mesh.sent)
  from lume_run_relays [OF st r] obtain hdr where "show_frame ?m hdr" "show_frame r (hdr\<lparr> h_hop_count := h_hop_count hdr + 1 \<rparr>)"
    by auto
  moreover from this have "hdr = sent_header ?h LightWash 0" using show_frame_unique sample_shown by blast
  ultimately have "show_frame r (sent_header ?h LightWash 0\<lparr> h_hop_count := 1 \<rparr>)" by (simp add: zero_header_def)
  with in_mesh mesh_hops_bounded [OF in_mesh] show ?thesis by auto
qed

section \<open>Following one Director\<close>

text \<open>
  Of a list with repeats, the elements that a memory lets pass; and, without a memory's state, the
  elements that are not among the last \<open>n\<close> let pass (an element without a number always is).
\<close>

fun passed :: "('k \<Rightarrow> 's \<Rightarrow> bool) \<Rightarrow> ('k \<Rightarrow> 's \<Rightarrow> 's) \<Rightarrow> ('a \<Rightarrow> 'k) \<Rightarrow> 'a list \<Rightarrow> 's \<Rightarrow> 'a list" where
  "passed seen mark key [] s = []"
| "passed seen mark key (x # xs) s =
     (if seen (key x) s then passed seen mark key xs s else x # passed seen mark key xs (mark (key x) s))"

fun once_in :: "nat \<Rightarrow> ('k \<Rightarrow> bool) \<Rightarrow> ('a \<Rightarrow> 'k) \<Rightarrow> 'k list \<Rightarrow> 'a list \<Rightarrow> 'a list" where
  "once_in n numbered key hist [] = []"
| "once_in n numbered key hist (x # xs) =
     (if \<not> numbered (key x) then x # once_in n numbered key hist xs
      else if key x \<in> set (take n hist) then once_in n numbered key hist xs
      else x # once_in n numbered key (key x # hist) xs)"

context seen_memory
begin

lemma passed_once:
  "inv s \<Longrightarrow> recent s = take cap hist \<Longrightarrow> passed seen mark key xs s = once_in cap sequenced key hist xs"
proof (induction xs arbitrary: s hist)
  case (Cons x xs)
  show ?case
  proof (cases "sequenced (key x)")
    case True
    have "recent (mark (key x) s) = take cap (key x # hist)"
      using recent_mark [OF Cons.prems(1) True] Cons.prems(2) by (cases cap) (auto simp: min_def)
    then show ?thesis
      using Cons.IH [OF Cons.prems] Cons.IH [OF inv_mark [OF Cons.prems(1)], of "key x" "key x # hist"]
        seen_iff [OF Cons.prems(1) True] True Cons.prems(2) by simp
  next
    case False
    with unsequenced [OF False] Cons.IH [OF Cons.prems] show ?thesis by simp
  qed
qed simp

end

text \<open>The header of a frame of the show.\<close>

definition show_header :: "bytes \<Rightarrow> header option" where
  "show_header m =
     (case decode_header m zero_header of (r, hdr) \<Rightarrow>
        if r = Ok \<and> h_message_type hdr \<notin> {RepeaterHeartbeat, UidAnnounce, ConfigAck, ConfigWrite}
           \<and> h_hop_count hdr \<le> kMaxHopCount then Some hdr else None)"

lemma show_header_iff: "show_header m = Some hdr \<longleftrightarrow> show_frame m hdr"
  by (auto simp: show_header_def show_frame_def split: prod.splits)

text \<open>The frames of Director \<open>a\<close> among those received, in order.\<close>

fun frames_of :: "u16 \<Rightarrow> (lume_call \<times> lume_env) list \<Rightarrow> (header \<times> bytes) list" where
  "frames_of a [] = []"
| "frames_of a ((LumeRecv m, e) # cs) =
     (case show_header m of
        Some hdr \<Rightarrow> if h_source_id hdr = a then (hdr, m) # frames_of a cs else frames_of a cs
      | None \<Rightarrow> frames_of a cs)"
| "frames_of a ((LumeTick, e) # cs) = frames_of a cs"

text \<open>In every loop the latest frame of \<open>a\<close> (received at \<open>p\<close>) is less than ten seconds old, or so new that
  the loop had read the clock before.\<close>

fun kept_alive :: "u16 \<Rightarrow> u32 \<Rightarrow> (lume_call \<times> lume_env) list \<Rightarrow> bool" where
  "kept_alive a p [] = True"
| "kept_alive a p ((LumeRecv m, e) # cs) =
     (case show_header m of
        Some hdr \<Rightarrow> kept_alive a (if h_source_id hdr = a then le_now e else p) cs
      | None \<Rightarrow> kept_alive a p cs)"
| "kept_alive a p ((LumeTick, e) # cs) = ((le_now e < p \<or> le_now e - p < kTofuTimeoutMs) \<and> kept_alive a p cs)"

definition follows :: "u16 \<Rightarrow> lume \<Rightarrow> bool" where
  "follows a s \<longleftrightarrow> tl_has_lock (lm_tofu s) \<and> tl_locked_id (lm_tofu s) = a
     \<and> tl_last_frame_ms (lm_tofu s) = lm_last_rx_ms s \<and> lm_rx_count s \<noteq> 0 \<and> \<not> lm_fallback_active s
     \<and> a \<noteq> kBroadcastSourceId \<and> (lm_listen_chan s = 11 \<longrightarrow> is_performance_range a)"

fun is_render :: "lume_event \<Rightarrow> bool" where
  "is_render (Render i c g r) = True"
| "is_render _ = False"

text \<open>What the receptions rendered; the loops' renderings are the pulses deferred to them.\<close>

fun rendered_on_recv :: "(lume_call \<times> lume_env) list \<Rightarrow> lume_event list list \<Rightarrow> lume_event list" where
  "rendered_on_recv ((LumeRecv m, e) # cs) (evs # log) = filter is_render evs @ rendered_on_recv cs log"
| "rendered_on_recv ((LumeTick, e) # cs) (evs # log) = rendered_on_recv cs log"
| "rendered_on_recv _ _ = []"

abbreviation frame_key :: "header \<times> bytes \<Rightarrow> seen_key" where
  "frame_key f \<equiv> (h_source_id (fst f), h_sequence_number (fst f))"

lemma dispatch_renders: "list_all is_render (fst (dispatch e hdr m s))"
  by (auto simp: list_all_iff dispatch_def dispatch_pulse_def dispatch_wash_def dispatch_display_def when_ok_def Let_def
      case_prod_beta fan_outs fan_out_iff split: option.split)

lemma acks_not_renders: "list_all is_ack evs \<Longrightarrow> filter is_render evs = []"
proof (induction evs)
  case (Cons ev evs)
  then show ?case by (cases ev) simp_all
qed simp

text \<open>What a call leaves as it was.\<close>

definition fixed :: "lume \<Rightarrow> binding list \<times> u8 \<times> u8 \<times> u8" where
  "fixed s = (lm_bindings s, lm_group s, lm_channel_pref s, lm_listen_chan s)"

definition calm :: "lume_event list \<Rightarrow> bool" where
  "calm evs \<longleftrightarrow> (\<forall>f. Fallback f \<notin> set evs) \<and> (\<forall>c. SetChannel c \<notin> set evs)"

lemma calm_append [simp]: "calm (xs @ ys) \<longleftrightarrow> calm xs \<and> calm ys" "calm []"
  by (auto simp: calm_def)

lemma calm_renders: "list_all is_render evs \<Longrightarrow> calm evs"
  by (auto simp: calm_def list_all_iff)

lemma calm_acks: "list_all is_ack evs \<Longrightarrow> calm evs"
  by (auto simp: calm_def list_all_iff)

lemma filter_all: "list_all p xs \<Longrightarrow> filter p xs = xs"
  by (induction xs) simp_all

lemma recv_own:
  assumes "follows a s" and "show_frame m hdr" and "h_source_id hdr = a" and "lm_rx_count s + 1 \<noteq> 0"
    and "le_has e = le_has e0"
  defines "seen \<equiv> seen_recently (a, h_sequence_number hdr) (lm_dedup s)"
    and "s' \<equiv> snd (lume_on_recv e m s)" and "evs \<equiv> fst (lume_on_recv e m s)"
  shows "follows a s' \<and> fixed s' = fixed s \<and> lm_last_rx_ms s' = le_now e \<and> lm_rx_count s' = lm_rx_count s + 1
    \<and> lm_dedup s' = (if seen then lm_dedup s else mark_seen (a, h_sequence_number hdr) (lm_dedup s))
    \<and> filter is_render evs = (if seen then [] else fst (dispatch e0 hdr m s)) \<and> calm evs"
proof -
  have adm: "admitted e hdr s" using assms(1,3) by (auto simp: admitted_def follows_def tofu_admit_def)
  have quiet: "fst (note_alive e hdr (lock_on e hdr s)) = []"
    using assms(1) by (simp add: note_alive_events follows_def)
  have d: "fst (dispatch e hdr m (accepted_state e hdr m s)) = fst (dispatch e0 hdr m s)"
    by (rule dispatch_cong) (simp_all add: assms(5))
  have f: "fresh_key hdr s \<longleftrightarrow> \<not> seen" using assms(3) by (simp add: fresh_key_def seen_def)
  have eq: "lume_on_recv e m s = (if seen then ([], snd (note_alive e hdr (lock_on e hdr s)))
      else (fst (dispatch e0 hdr m s), snd (dispatch_pulse hdr m (accepted_state e hdr m s))))"
    using on_show_frame_eq [of e hdr m s] adm quiet d f surjective_pairing [of "note_alive e hdr (lock_on e hdr s)"]
    by (simp add: on_recv_show [OF assms(2)])
  show ?thesis
    using assms(1,3,4) calm_renders [OF dispatch_renders] filter_all [OF dispatch_renders]
    by (simp add: s'_def evs_def eq follows_def fixed_def note_alive_state)
qed

lemma recv_foreign:
  assumes "follows a s" and "show_frame m hdr" and "h_source_id hdr \<noteq> a"
  shows "lume_on_recv e m s = ([], s)"
proof -
  have "\<not> admitted e hdr s" using assms by (auto simp: admitted_def follows_def tofu_admit_def)
  then show ?thesis by (simp add: on_recv_show [OF assms(2)] on_show_frame_eq)
qed

lemma follows_view:
  assumes "show_view s' = show_view s"
  shows "follows a s' \<longleftrightarrow> follows a s" and "fixed s' = fixed s"
  using show_viewD [OF assms] by (simp_all add: follows_def fixed_def)

lemma recv_no_show:
  assumes "show_header m = None"
  shows "show_view (snd (lume_on_recv e m s)) = show_view s \<and> list_all is_ack (fst (lume_on_recv e m s))"
proof -
  have "\<not> show_frame m hdr" for hdr using assms by (auto simp: show_header_iff [symmetric])
  from on_recv_not_show [OF this, of e s] on_config_write_show [of e m s] show ?thesis by auto
qed

lemma tick_followed:
  assumes "follows a s" and "le_now e < lm_last_rx_ms s \<or> le_now e - lm_last_rx_ms s < kTofuTimeoutMs"
  defines "s' \<equiv> snd (lume_loop_tick e s)" and "evs \<equiv> fst (lume_loop_tick e s)"
  shows "follows a s' \<and> fixed s' = fixed s \<and> lm_last_rx_ms s' = lm_last_rx_ms s \<and> lm_rx_count s' = lm_rx_count s
    \<and> lm_dedup s' = lm_dedup s \<and> calm evs"
proof -
  obtain x y where d: "snd (drain_queues e s) = s\<lparr> lm_pending_light := False, lm_needs_repaint := False,
      lm_pending_repeat := False, lm_repeats_emitted := x, lm_last_census_ms := y \<rparr>"
    using drain_queues_state by blast
  obtain b u v where t: "snd (tick_pairing_burst e s) = s\<lparr> lm_burst_active := b, lm_burst_next_emit_ms := u, lm_config_tx_seq := v \<rparr>"
    using tick_burst_state by blast
  have age: "age_since_rx e (snd (drain_queues e s)) \<le> 10000"
    using assms(2) by (auto simp: d age_since_rx_def not_le [symmetric] intro: less_imp_le)
  have link: "follow_link e (snd (drain_queues e s)) =
      (if \<not> lm_no_signal s \<and> age_since_rx e (snd (drain_queues e s)) > kNoSignalMs
       then ([], (snd (drain_queues e s))\<lparr> lm_no_signal := True, lm_last_chan_switch_ms := le_now e \<rparr>)
       else ([], snd (drain_queues e s)))"
    using follow_link_alive [OF _ age] assms(1,2) by (simp add: d follows_def)
  have "calm (fst (drain_queues e s))" "calm (fst (tick_pairing_burst e s))"
    by (simp_all add: calm_def drain_queues_quiet tick_burst_quiet)
  then show ?thesis using assms(1) t d
    by (simp add: s'_def evs_def lume_loop_tick_def case_prod_beta link [unfolded d] follows_def fixed_def)
qed

lemma follow_run:
  "follows a s \<Longrightarrow> kept_alive a (lm_last_rx_ms s) cs \<Longrightarrow> unat (lm_rx_count s) + length cs < 2 ^ 32 \<Longrightarrow>
    \<forall>(c, e) \<in> set cs. le_has e = le_has e0 \<Longrightarrow>
    follows a (snd (lume_run cs s)) \<and> fixed (snd (lume_run cs s)) = fixed s \<and> calm (concat (fst (lume_run cs s)))
    \<and> rendered_on_recv cs (fst (lume_run cs s)) =
        concat (map (\<lambda>f. fst (dispatch e0 (fst f) (snd f) s)) (passed seen_recently mark_seen frame_key (frames_of a cs) (lm_dedup s)))"
proof (induction cs arbitrary: s)
  case Nil
  then show ?case by simp
next
  case (Cons c cs)
  obtain call e where c: "c = (call, e)" by (cases c)
  have has: "le_has e = le_has e0" "\<forall>(c, e) \<in> set cs. le_has e = le_has e0" using Cons.prems(4) by (simp_all add: c)
  have more: "unat (lm_rx_count s) + length cs < 2 ^ 32" using Cons.prems(3) by simp
  let ?s = "snd (lume_apply c s)"
  have cong: "fst (dispatch e0 h m r) = fst (dispatch e0 h m s)" if "fixed r = fixed s" for r h m
    using that by (intro dispatch_cong) (simp_all add: fixed_def)
  have IH: "follows a ?s \<Longrightarrow> kept_alive a (lm_last_rx_ms ?s) cs \<Longrightarrow> unat (lm_rx_count ?s) + length cs < 2 ^ 32 \<Longrightarrow>
      fixed ?s = fixed s \<Longrightarrow> follows a (snd (lume_run cs ?s)) \<and> fixed (snd (lume_run cs ?s)) = fixed s
      \<and> calm (concat (fst (lume_run cs ?s))) \<and> rendered_on_recv cs (fst (lume_run cs ?s)) =
        concat (map (\<lambda>f. fst (dispatch e0 (fst f) (snd f) s)) (passed seen_recently mark_seen frame_key (frames_of a cs) (lm_dedup ?s)))"
    using Cons.IH [OF _ _ _ has(2), of ?s] cong [of ?s] by (auto simp: case_prod_beta)
  show ?case
  proof (cases call)
    case LumeTick
    then show ?thesis using tick_followed [OF Cons.prems(1), of e] Cons.prems(2) more IH by (simp add: c)
  next
    case (LumeRecv m)
    show ?thesis
    proof (cases "show_header m")
      case None
      have v: "show_view ?s = show_view s" "list_all is_ack (fst (lume_apply c s))"
        using recv_no_show [OF None, of e s] by (simp_all add: c LumeRecv)
      show ?thesis
        using IH follows_view [OF v(1)] show_viewD [OF v(1)] Cons.prems(1,2) more calm_acks [OF v(2)] acks_not_renders [OF v(2)]
        by (simp add: c LumeRecv None)
    next
      case (Some hdr)
      then have fr: "show_frame m hdr" by (simp add: show_header_iff)
      show ?thesis
      proof (cases "h_source_id hdr = a")
        case True
        have rx: "unat (lm_rx_count s + 1) = unat (lm_rx_count s) + 1"
          using Cons.prems(3) by (simp add: unat_word_ariths)
        then have nz: "lm_rx_count s + 1 \<noteq> 0" by (metis add_is_0 unsigned_0 zero_neq_one)
        from recv_own [OF Cons.prems(1) fr True nz has(1)] show ?thesis
          using IH Cons.prems(2,3) rx True by (simp add: c LumeRecv Some)
      next
        case False
        then show ?thesis using recv_foreign [OF Cons.prems(1) fr False, of e] IH Cons.prems(1,2) more
          by (simp add: c LumeRecv Some)
      qed
    qed
  qed
qed

text \<open>C2: A Director cannot be displaced. While a Lume follows Director a, and a show frame of a is heard at
  least once every ten seconds (and fewer than 2^32 frames are received), then whatever else is on the
  air, forged under another id, foreign, duplicated or broken, and however the receptions and loops
  interleave, the Lume keeps following a on the same channel with the same bindings and group, shows
  no fallback and hops nowhere; and what its receptions render is exactly what a's frames ask for, in
  order, each frame whose sequence number is zero or is not one of the last sixteen shown, and nothing
  else.\<close>

theorem director_not_displaced:
  assumes "follows a s" and "kept_alive a (lm_last_rx_ms s) cs" and "unat (lm_rx_count s) + length cs < 2 ^ 32"
    and "\<forall>(c, e) \<in> set cs. le_has e = le_has e0" and "dedup_inv (lm_dedup s)"
  shows "follows a (snd (lume_run cs s)) \<and> fixed (snd (lume_run cs s)) = fixed s
    \<and> calm (concat (fst (lume_run cs s)))
    \<and> rendered_on_recv cs (fst (lume_run cs s)) =
        concat (map (\<lambda>f. fst (dispatch e0 (fst f) (snd f) s))
          (once_in kDedupRingSize (\<lambda>k. snd k \<noteq> 0) frame_key (ring_recent (lm_dedup s)) (frames_of a cs)))"
proof -
  have "passed seen_recently mark_seen frame_key (frames_of a cs) (lm_dedup s)
      = once_in kDedupRingSize (\<lambda>k. snd k \<noteq> 0) frame_key (ring_recent (lm_dedup s)) (frames_of a cs)"
    by (rule ring.passed_once [OF assms(5)]) (simp add: assms(5))
  with follow_run [OF assms(1-4)] show ?thesis by simp
qed

text \<open>A Lume that follows Director 7 and hears a wash frame of it twice, and one of Director 8 in between.\<close>

definition wash_frame :: "u16 \<Rightarrow> u8 \<Rightarrow> bytes" where
  "wash_frame src seq = write_header (zero_header\<lparr> h_source_id := src, h_sequence_number := seq \<rparr>) LightWash 20
     @ light_wash_wire fallback_wash"

definition wash_header :: "u16 \<Rightarrow> u8 \<Rightarrow> header" where
  "wash_header src seq = sent_header (zero_header\<lparr> h_source_id := src, h_sequence_number := seq \<rparr>) LightWash 20"

lemma show_wash_frame [simp]: "show_header (wash_frame src seq) = Some (wash_header src seq)"
proof -
  have "decode_header (wash_frame src seq) zero_header = (Ok, wash_header src seq)"
    unfolding wash_frame_def wash_header_def by (rule decode_write_header) (simp add: light_wash_wire_def write_u16_le_def)
  then show ?thesis by (simp add: show_header_def) (simp add: wash_header_def zero_header_def)
qed

lemma wash_header_sel [simp]:
  "h_source_id (wash_header src seq) = src" "h_sequence_number (wash_header src seq) = seq"
  "h_hop_count (wash_header src seq) = 0" "h_message_type (wash_header src seq) = LightWash"
  by (simp_all add: wash_header_def) (simp_all add: zero_header_def)

definition followed_sample :: lume where
  "followed_sample = lume_sample\<lparr> lm_rx_count := 1, lm_last_rx_ms := 100,
     lm_tofu := \<lparr> tl_has_lock = True, tl_locked_id = 7, tl_last_frame_ms = 100 \<rparr> \<rparr>"

theorem director_not_displaced_witness:
  "follows 7 (snd (lume_run [(LumeRecv (wash_frame 7 2), lume_env_at 200), (LumeTick, lume_env_at 190),
       (LumeRecv (wash_frame 8 1), lume_env_at 210), (LumeRecv (wash_frame 7 2), lume_env_at 220)] followed_sample))
   \<and> rendered_on_recv [(LumeRecv (wash_frame 7 2), lume_env_at 200), (LumeTick, lume_env_at 190),
       (LumeRecv (wash_frame 8 1), lume_env_at 210), (LumeRecv (wash_frame 7 2), lume_env_at 220)]
       (fst (lume_run [(LumeRecv (wash_frame 7 2), lume_env_at 200), (LumeTick, lume_env_at 190),
         (LumeRecv (wash_frame 8 1), lume_env_at 210), (LumeRecv (wash_frame 7 2), lume_env_at 220)] followed_sample))
     = fst (dispatch (lume_env_at 0) (wash_header 7 2) (wash_frame 7 2) followed_sample)"
proof -
  let ?cs = "[(LumeRecv (wash_frame 7 2), lume_env_at 200), (LumeTick, lume_env_at 190),
    (LumeRecv (wash_frame 8 1), lume_env_at 210), (LumeRecv (wash_frame 7 2), lume_env_at 220)]"
  have fr: "frames_of 7 ?cs = [(wash_header 7 2, wash_frame 7 2), (wash_header 7 2, wash_frame 7 2)]" by simp
  have f: "follows 7 followed_sample" by (simp add: follows_def followed_sample_def lume_sample_def lume_init_def)
  have k: "kept_alive 7 (lm_last_rx_ms followed_sample) ?cs" by (simp add: lume_env_at_def)
  have n: "unat (lm_rx_count followed_sample) + length ?cs < 2 ^ 32" by (simp add: followed_sample_def)
  have h: "\<forall>(c, e) \<in> set ?cs. le_has e = le_has (lume_env_at 0)" by (simp add: lume_env_at_def)
  have d: "lm_dedup followed_sample = dedup_init" by (simp add: followed_sample_def lume_sample_def lume_init_def)
  then have i: "dedup_inv (lm_dedup followed_sample)" by simp
  have r: "\<not> (7, 2) \<in> set (take kDedupRingSize (ring_recent (lm_dedup followed_sample)))"
    unfolding d using set_take_subset [of kDedupRingSize "ring_recent dedup_init"]
    by (auto simp: set_ring_recent dedup_init_def)
  from director_not_displaced [OF f k n h i] r show ?thesis unfolding fr by simp
qed

end
