(* ===== verification/LumeScan.thy ===== *)
theory LumeScan
  imports LumeRun
begin

text \<open>
  The cold-start channel hunt of the Lume (\<open>src/modes/lume_mode.cpp\<close>, \<open>loop_tick\<close>): the mode's own loops
  and receptions, as timed events, beside a Director that sends its frames on one of the channels in its
  own time. A frame reaches the Lume when the Lume is on the Director's channel.
\<close>

definition hunt_env :: "lume_env \<Rightarrow> nat \<Rightarrow> lume_env" where
  "hunt_env e t = e\<lparr> le_now := of_nat t, le_ble_pair := False \<rparr>"

text \<open>The main loop comes round, or the Director sends a frame.\<close>

datatype hunt_event = HuntLoop | DirectorSends bytes

fun hunt_step :: "u8 \<Rightarrow> lume_env \<Rightarrow> hunt_event \<times> nat \<Rightarrow> lume \<Rightarrow> lume" where
  "hunt_step c e (HuntLoop, t) s = snd (lume_loop_tick (hunt_env e t) s)"
| "hunt_step c e (DirectorSends m, t) s =
     (if lm_listen_chan s = c then snd (lume_on_recv (hunt_env e t) m s) else s)"

definition hunting :: "nat \<Rightarrow> nat \<Rightarrow> lume \<Rightarrow> bool" where
  "hunting i q s \<longleftrightarrow> lm_channel_pref s = 0 \<and> lm_rx_count s = 0 \<and> \<not> lm_burst_active s \<and> \<not> tl_has_lock (lm_tofu s)
     \<and> \<not> lm_fallback_active s
     \<and> i < 3 \<and> lm_listen_chan s = kScanOrder ! i \<and> lm_last_chan_switch_ms s = of_nat q"

definition found :: "u16 \<Rightarrow> u8 \<Rightarrow> nat \<Rightarrow> lume \<Rightarrow> bool" where
  "found a c p s \<longleftrightarrow> follows a s \<and> lm_channel_pref s = 0 \<and> lm_listen_chan s = c \<and> \<not> lm_burst_active s
     \<and> lm_last_rx_ms s = of_nat p"

text \<open>The Director's frame: of the show, sequenced or not, by an eligible sender for the channel.\<close>

definition director_frame :: "u16 \<Rightarrow> u8 \<Rightarrow> bytes \<Rightarrow> bool" where
  "director_frame a c m \<longleftrightarrow> (\<exists>hdr. show_frame m hdr \<and> h_source_id hdr = a) \<and> a \<noteq> kBroadcastSourceId
     \<and> (c = 11 \<longrightarrow> is_performance_range a)"

lemma next_in_order: "i < 3 \<Longrightarrow> next_scan_channel (kScanOrder ! i) = kScanOrder ! ((i + 1) mod 3)"
proof -
  assume "i < 3"
  then have "i = 0 \<or> i = 1 \<or> i = 2" by arith
  then show ?thesis by (auto simp: next_scan_channel_def kScanOrder_def)
qed

lemma kScanOrder_inj: "i < 3 \<Longrightarrow> k < 3 \<Longrightarrow> kScanOrder ! i = kScanOrder ! k \<longleftrightarrow> i = k"
  by (auto simp: kScanOrder_def numeral_3_eq_3 less_Suc_eq)

text \<open>A burst only begins with a button press.\<close>

lemma burst_sel [simp]:
  "lm_burst_active (snd (note_alive e hdr s)) = lm_burst_active s" "lm_burst_active (lock_on e hdr s) = lm_burst_active s"
  "lm_burst_active (stage_relay hdr m s) = lm_burst_active s"
  "lm_burst_active (track_offset hdr m s) = lm_burst_active s"
  "lm_burst_active (snd (dispatch_pulse hdr m s)) = lm_burst_active s"
  using track_offset_state [of hdr m s] dispatch_pulse_state [of hdr m s]
  by (auto simp: note_alive_def Let_def lock_on_def stage_relay_def)

lemma burst_kept:
  "show_frame m hdr \<Longrightarrow> lm_burst_active (snd (lume_on_recv e m s)) = lm_burst_active s"
  by (simp add: on_recv_show on_show_frame_eq accepted_state_def Let_def)

lemma first_frame_found:
  assumes "director_frame a c m" and "lm_listen_chan s = c" and "\<not> lm_burst_active s" and "lm_channel_pref s = 0"
    and "\<not> tl_has_lock (lm_tofu s) \<or> tl_locked_id (lm_tofu s) = a" and "lm_rx_count s + 1 \<noteq> 0"
  shows "found a c t (snd (lume_on_recv (hunt_env e t) m s))
    \<and> lm_rx_count (snd (lume_on_recv (hunt_env e t) m s)) = lm_rx_count s + 1"
proof -
  obtain hdr where h: "show_frame m hdr" "h_source_id hdr = a" using assms(1) by (auto simp: director_frame_def)
  have "admitted (hunt_env e t) hdr s"
    using assms h(2) by (auto simp: admitted_def tofu_admit_def director_frame_def)
  then show ?thesis using assms h(2) burst_kept [OF h(1), of "hunt_env e t" s]
    by (auto simp: found_def follows_def on_recv_show [OF h(1)] on_show_frame_eq note_alive_state director_frame_def hunt_env_def)
qed

text \<open>One loop of a hunting Lume, and of one that has found its Director.\<close>

lemma hunting_loop:
  assumes "hunting i q s" and "q \<le> t" and "t - q < 2 ^ 32"
  shows "hunting (if t - q < 2000 then i else (i + 1) mod 3) (if t - q < 2000 then q else t)
    (snd (lume_loop_tick (hunt_env e t) s))"
proof -
  let ?e = "hunt_env e t"
  obtain x y where d: "snd (drain_queues ?e s) = s\<lparr> lm_pending_light := False, lm_needs_repaint := False,
      lm_pending_repeat := False, lm_repeats_emitted := x, lm_last_census_ms := y \<rparr>"
    using drain_queues_state by blast
  have h: "lm_channel_pref s = 0" "lm_rx_count s = 0" "\<not> lm_burst_active s" "\<not> tl_has_lock (lm_tofu s)"
    "\<not> lm_fallback_active s" "i < 3" "lm_listen_chan s = kScanOrder ! i" "lm_last_chan_switch_ms s = of_nat q"
    using assms(1) by (simp_all add: hunting_def)
  have "unat (le_now ?e - lm_last_chan_switch_ms s) = t - q"
    using word_age [OF assms(2,3)] h(8) by (simp add: hunt_env_def)
  then have due: "kChannelDwellMs \<le> le_now ?e - lm_last_chan_switch_ms s \<longleftrightarrow> \<not> t - q < 2000"
    by (simp add: word_le_nat_alt not_less)
  have env: "\<not> le_ble_pair ?e" "le_now ?e = of_nat t" by (simp_all add: hunt_env_def)
  have nxt: "next_scan_channel (kScanOrder ! i) = kScanOrder ! ((i + 1) mod 3)" by (rule next_in_order [OF h(6)])
  show ?thesis
  proof (cases "t - q < 2000")
    case True
    then have "\<not> kChannelDwellMs \<le> le_now ?e - lm_last_chan_switch_ms s" using due by simp
    then have "snd (lume_loop_tick ?e s) = snd (drain_queues ?e s)\<lparr> lm_tofu := lm_tofu s \<rparr>"
      using h env(1) by (simp add: lume_loop_tick_def case_prod_beta follow_link_def service_fallback_def
          lume_service_scan_def tofu_tick_def d)
    then show ?thesis using True h by (simp add: hunting_def d)
  next
    case False
    then have "kChannelDwellMs \<le> le_now ?e - lm_last_chan_switch_ms s" using due by simp
    then have "snd (lume_loop_tick ?e s) = snd (drain_queues ?e s)\<lparr> lm_listen_chan := kScanOrder ! ((i + 1) mod 3),
        lm_last_chan_switch_ms := le_now ?e, lm_tofu := tofu_init \<rparr>"
      using h env(1) nxt by (simp add: lume_loop_tick_def case_prod_beta follow_link_def service_fallback_def
          lume_service_scan_def tofu_tick_def d tofu_clear_init Let_def tofu_init_def)
    then show ?thesis using False h env(2) by (simp add: hunting_def d tofu_init_def)
  qed
qed

lemma found_loop:
  assumes "found a c p s" and "p \<le> t" and "t < p + 10000"
  shows "found a c p (snd (lume_loop_tick (hunt_env e t) s))
    \<and> lm_rx_count (snd (lume_loop_tick (hunt_env e t) s)) = lm_rx_count s"
proof -
  let ?e = "hunt_env e t"
  obtain x y where d: "snd (drain_queues ?e s) = s\<lparr> lm_pending_light := False, lm_needs_repaint := False,
      lm_pending_repeat := False, lm_repeats_emitted := x, lm_last_census_ms := y \<rparr>"
    using drain_queues_state by blast
  have f: "follows a s" "\<not> lm_burst_active s" "lm_last_rx_ms s = of_nat p" using assms(1) by (simp_all add: found_def)
  have "unat (le_now ?e - lm_last_rx_ms s) = t - p" using word_age [OF assms(2)] assms(3) f(3) by (simp add: hunt_env_def)
  then have "le_now ?e - lm_last_rx_ms s < kTofuTimeoutMs" using assms(2,3) by (simp add: word_less_nat_alt)
  from tick_followed [OF f(1) disjI2 [OF this]] have st: "follows a (snd (lume_loop_tick ?e s))"
    "fixed (snd (lume_loop_tick ?e s)) = fixed s" "lm_last_rx_ms (snd (lume_loop_tick ?e s)) = lm_last_rx_ms s"
    "lm_rx_count (snd (lume_loop_tick ?e s)) = lm_rx_count s" by simp_all
  have "lm_burst_active (snd (follow_link ?e r)) = lm_burst_active r" for r
    by (simp add: follow_link_def service_fallback_def lume_service_scan_def Let_def case_prod_beta)
  then have "\<not> lm_burst_active (snd (lume_loop_tick ?e s))"
    using f(2) by (simp add: lume_loop_tick_def case_prod_beta d)
  then show ?thesis using st assms(1) by (simp add: found_def fixed_def)
qed

text \<open>
  Time goes forward, the loop is never more than \<open>g\<close> milliseconds late, and the Director sends at least
  every \<open>period\<close> milliseconds. (\<open>l\<close> and \<open>b\<close> are the times of the last loop and of the last frame sent.)
\<close>

fun timely :: "nat \<Rightarrow> nat \<Rightarrow> (bytes \<Rightarrow> bool) \<Rightarrow> nat \<Rightarrow> nat \<Rightarrow> (hunt_event \<times> nat) list \<Rightarrow> bool" where
  "timely g period ok l b [] = True"
| "timely g period ok l b ((HuntLoop, t) # evs) =
     (l \<le> t \<and> b \<le> t \<and> t \<le> l + g \<and> t \<le> b + period \<and> timely g period ok t b evs)"
| "timely g period ok l b ((DirectorSends m, t) # evs) =
     (l \<le> t \<and> b \<le> t \<and> t \<le> l + g \<and> t \<le> b + period \<and> ok m \<and> timely g period ok l t evs)"

text \<open>Once found, the Director is kept: it is heard again before the lock or the link can lapse.\<close>

lemma found_run:
  "found a c b s \<Longrightarrow> timely g period (director_frame a c) l b evs \<Longrightarrow> period < 10000 \<Longrightarrow>
    unat (lm_rx_count s) + length evs < 2 ^ 32 \<Longrightarrow>
    follows a (fold (hunt_step c e) evs s) \<and> lm_listen_chan (fold (hunt_step c e) evs s) = c"
proof (induction evs arbitrary: s l b)
  case Nil
  then show ?case by (simp add: found_def)
next
  case (Cons ev evs)
  obtain x t where ev: "ev = (x, t)" by (cases ev)
  show ?case
  proof (cases x)
    case HuntLoop
    have "found a c b (hunt_step c e ev s) \<and> lm_rx_count (hunt_step c e ev s) = lm_rx_count s"
      using found_loop [OF Cons.prems(1), of t e] Cons.prems(2,3) by (simp add: ev HuntLoop)
    then show ?thesis using Cons.IH [of b "hunt_step c e ev s" t] Cons.prems(2-4) by (simp add: ev HuntLoop)
  next
    case (DirectorSends m)
    have rx: "unat (lm_rx_count s + 1) = unat (lm_rx_count s) + 1" using Cons.prems(4) by (simp add: unat_word_ariths)
    then have "lm_rx_count s + 1 \<noteq> 0" by (metis add_is_0 unsigned_0 zero_neq_one)
    then have "found a c t (hunt_step c e ev s) \<and> lm_rx_count (hunt_step c e ev s) = lm_rx_count s + 1"
      using first_frame_found [of a c m s t e] Cons.prems(1,2) by (simp add: ev DirectorSends found_def follows_def)
    then show ?thesis using Cons.IH [of t "hunt_step c e ev s" l] Cons.prems(2-4) rx by (simp add: ev DirectorSends)
  qed
qed

text \<open>On a channel before the Director's the hunt moves on after a dwell time; on the Director's it stays until
  the next frame, which comes before the dwell time is over.\<close>

lemma hunting_run:
  assumes "k < 3" and "period < 2000" and "g + 2000 < 2 ^ 32"
  shows "hunting i r s \<Longrightarrow> i \<le> k \<Longrightarrow> r \<le> q + i * (2000 + g) \<Longrightarrow> r \<le> l \<Longrightarrow> l < r + 2000 \<Longrightarrow> (i = k \<longrightarrow> b \<le> r) \<Longrightarrow>
    timely g period (director_frame a (kScanOrder ! k)) l b evs \<Longrightarrow> evs \<noteq> [] \<Longrightarrow>
    q + 2 * (2000 + g) + period < snd (last evs) \<Longrightarrow> length evs < 2 ^ 32 \<Longrightarrow>
    follows a (fold (hunt_step (kScanOrder ! k) e) evs s)
      \<and> lm_listen_chan (fold (hunt_step (kScanOrder ! k) e) evs s) = kScanOrder ! k"
proof (induction evs arbitrary: i r s l b)
  case Nil
  then show ?case by simp
next
  case (Cons ev evs)
  obtain x t where ev: "ev = (x, t)" by (cases ev)
  let ?c = "kScanOrder ! k" and ?s = "hunt_step (kScanOrder ! k) e ev s"
  have time: "l \<le> t" "b \<le> t" "t \<le> l + g" "t \<le> b + period" using Cons.prems(7) by (cases x; simp add: ev)+
  have early: "t \<le> q + 2 * (2000 + g) + period"
  proof (cases "i = k")
    case True
    have "i * (2000 + g) \<le> 2 * (2000 + g)" using Cons.prems(2) assms(1) by (intro mult_le_mono1) simp
    with True Cons.prems(3,6) time(4) show ?thesis by linarith
  next
    case False
    then have "i * (2000 + g) \<le> 1 * (2000 + g)" using Cons.prems(2) assms(1) by (intro mult_le_mono1) simp
    with Cons.prems(3) have "r \<le> q + (2000 + g)" unfolding mult_1 by (metis add_left_mono order_trans)
    with Cons.prems(5) time(3) show ?thesis by simp
  qed
  then have more: "evs \<noteq> []" using Cons.prems(9) by (auto simp: ev)
  show ?case
  proof (cases x)
    case HuntLoop
    let ?i = "if t - r < 2000 then i else (i + 1) mod 3" and ?r = "if t - r < 2000 then r else t"
    have h: "hunting ?i ?r ?s"
      using hunting_loop [OF Cons.prems(1), of t e] Cons.prems(4,5) time assms(3) by (simp add: ev HuntLoop)
    have stay: "t - r < 2000" if "i = k" using that Cons.prems(6) time(4) assms(2) by simp
    have i: "\<not> t - r < 2000 \<Longrightarrow> (i + 1) mod 3 = i + 1 \<and> i < k" using stay Cons.prems(2) assms(1) by (cases "i = k") auto
    have next_r: "?r \<le> q + ?i * (2000 + g)"
      using Cons.prems(3,5) time(3) i by (simp add: algebra_simps)
    have b: "?i = k \<longrightarrow> b \<le> ?r" using Cons.prems(6) time(2) by simp
    have le: "?i \<le> k" using Cons.prems(2) i by auto
    have l: "?r \<le> t" "t < ?r + 2000" using Cons.prems(4) time(1) by auto
    have t: "timely g period (director_frame a ?c) t b evs" using Cons.prems(7) by (simp add: ev HuntLoop)
    from Cons.IH [OF h le next_r l b t more] more Cons.prems(9,10) show ?thesis by simp
  next
    case (DirectorSends m)
    have ch: "lm_listen_chan s = ?c \<longleftrightarrow> i = k" using Cons.prems(1) kScanOrder_inj [OF _ assms(1)] by (simp add: hunting_def)
    have t: "timely g period (director_frame a ?c) l t evs" "director_frame a ?c m"
      using Cons.prems(7) by (simp_all add: ev DirectorSends)
    show ?thesis
    proof (cases "i = k")
      case True
      have f: "found a ?c t ?s \<and> lm_rx_count ?s = 1"
        using first_frame_found [OF t(2), of s t e] ch True Cons.prems(1) by (simp add: ev DirectorSends hunting_def)
      have n: "unat (lm_rx_count ?s) + length evs < 2 ^ 32" using f Cons.prems(10) by simp
      from found_run [OF conjunct1 [OF f] t(1) _ n] assms(2) show ?thesis by simp
    next
      case False
      then have s: "?s = s" using ch by (simp add: ev DirectorSends)
      have "i = k \<longrightarrow> t \<le> r" using False by simp
      from Cons.IH [OF Cons.prems(1-5) this t(1) more] more Cons.prems(9,10) show ?thesis by (simp add: s)
    qed
  qed
qed

text \<open>C7: A Lume that is switched on finds its Director. In automatic mode it enters on channel 11 and hunts
  over 11, 1 and 6. One Director, with an id of its own (not the broadcast id, and a performance id if
  it is on channel 11), sends show frames on one of these channels, and at least its heartbeat, once a
  second give or take a delay d of its loop below a second; the Lume's own loop is at most g
  milliseconds late; loops and frames fall at any times beside one another, and a frame sent while the
  Lume is on another channel is lost. Then once two dwell times, two loop delays and one heartbeat have
  gone by the Lume follows that Director on its channel, and it still does at the end of the run, whatever the
  clock's epoch. (There are fewer than 2^32 events.)\<close>

theorem lume_finds_director:
  assumes "le_now e0 = of_nat q" and "load_lume_channel (lm_nvs s) = 0" and "\<not> lm_burst_active s"
    and "c \<in> set kScanOrder" and "d < 1000" and "g + 2000 < 2 ^ 32"
    and "timely g (1000 + d) (director_frame a c) q q evs" and "evs \<noteq> []"
    and "q + 2 * (2000 + g) + (1000 + d) < snd (last evs)" and "length evs < 2 ^ 32"
  shows "follows a (fold (hunt_step c e) evs (snd (lume_enter e0 s)))
    \<and> lm_listen_chan (fold (hunt_step c e) evs (snd (lume_enter e0 s))) = c"
proof -
  obtain k where "k < length kScanOrder" and c: "c = kScanOrder ! k"
    using assms(4) by (auto simp only: in_set_conv_nth)
  then have k: "k < 3" by (simp add: kScanOrder_def)
  have "hunting 0 q (snd (lume_enter e0 s))"
    using assms(1-3) by (simp add: hunting_def lume_enter_def Let_def case_prod_beta tofu_clear_init kScanOrder_def)
  from hunting_run [OF k _ assms(6) this _ _ _ _ _ assms(7) [unfolded c] assms(8,9,10)] assms(5)
  show ?thesis by (simp add: c)
qed

text \<open>A Director on channel 6 whose heartbeats come one and a half seconds apart, and a Lume whose loop is slow.\<close>

definition hunt_sample :: "(hunt_event \<times> nat) list" where
  "hunt_sample = [(DirectorSends (wash_frame 7 1), 1000), (HuntLoop, 1500), (DirectorSends (wash_frame 7 2), 2500),
     (HuntLoop, 3000), (DirectorSends (wash_frame 7 3), 4000), (HuntLoop, 4500), (DirectorSends (wash_frame 7 4), 5500),
     (HuntLoop, 6000), (DirectorSends (wash_frame 7 5), 7000), (HuntLoop, 7500), (DirectorSends (wash_frame 7 6), 8500),
     (HuntLoop, 9000)]"

theorem lume_finds_director_witness:
  "follows 7 (fold (hunt_step 6 (lume_env_at 0)) hunt_sample (snd (lume_enter (lume_env_at 100) (lume_init nvs_empty))))"
proof -
  have q: "le_now (lume_env_at 100) = of_nat 100" by (simp add: lume_env_at_def)
  have n: "load_lume_channel (lm_nvs (lume_init nvs_empty)) = 0" "\<not> lm_burst_active (lume_init nvs_empty)"
    by (simp_all add: lume_init_def load_lume_channel_def get_or_def nvs_empty_def)
  have d: "director_frame 7 6 (wash_frame 7 seq)" for seq
    by (auto simp: director_frame_def show_header_iff [symmetric])
  have t: "timely 1600 (1000 + 500) (director_frame 7 6) 100 100 hunt_sample" by (simp add: hunt_sample_def d)
  show ?thesis
    by (rule lume_finds_director [OF q n _ _ _ t, THEN conjunct1]) (simp_all add: kScanOrder_def hunt_sample_def)
qed

end
