(* ===== verification/LumeStrip.thy ===== *)
theory LumeStrip
  imports LumeScan LedStrip DmxMapper
begin

text \<open>
  The LED-strip binding of a Lume (\<open>src/output_bindings/lume_led_strip.cpp\<close>): the calls that a Lume's
  fan-outs make reach the strip driver. What a Lume hands its bindings in one reception or loop is the
  list of \<open>Render\<close> events; \<open>deliver_strip\<close> plays the strip's share of it to the driver. The dimming of the
  driver, computed with floats, is shown to be the integer dimming of the desk's preview.
\<close>

section \<open>The binding\<close>

definition strip_wash_event :: "light_wash_payload \<Rightarrow> light_wash_event" where
  "strip_wash_event p = \<lparr> ew_r1 = lw_r1 p, ew_g1 = lw_g1 p, ew_b1 = lw_b1 p, ew_r2 = lw_r2 p, ew_g2 = lw_g2 p,
     ew_b2 = lw_b2 p, ew_attack = lw_attack p, ew_release = lw_release p, ew_intensity = lw_intensity p,
     ew_cycle_ms = lw_cycle_ms p, ew_ttl_seconds = lw_ttl_seconds p, ew_pulse_response = lw_pulse_response p,
     ew_led_mode = lw_led_mode p, ew_led_modifier1 = lw_led_modifier1 p, ew_led_modifier2 = lw_led_modifier2 p \<rparr>"

definition counted :: "bool \<times> led_strip \<Rightarrow> led_strip" where
  "counted r = (snd r)\<lparr> sd_send_count := sd_send_count (snd r) + 1 \<rparr>"

fun led_strip_call :: "render_call \<Rightarrow> u32 \<Rightarrow> led_strip \<Rightarrow> led_strip" where
  "led_strip_call (OnLightPulse ev) now s = (if \<not> sd_enabled s then s else counted (strip_send ev now s))"
| "led_strip_call (OnLightWash p) now s =
     (if \<not> sd_enabled s then s else counted (strip_send_wash (strip_wash_event p) now s))"
| "led_strip_call (OnLightWashEnd release_time led_mode modifier1 modifier2) now s =
     (if \<not> sd_enabled s then s else counted (strip_send_wash_end release_time now s))"
| "led_strip_call (OnLightWashPulse ev) now s = (if \<not> sd_enabled s then s else counted (strip_send ev now s))"
| "led_strip_call _ now s = s"

definition strip_event :: "binding list \<Rightarrow> u32 \<Rightarrow> lume_event \<Rightarrow> led_strip \<Rightarrow> led_strip" where
  "strip_event bs now ev s =
     (case ev of
        Render i cls grp call \<Rightarrow> if i < length bs \<and> bs ! i = led_strip_binding then led_strip_call call now s else s
      | _ \<Rightarrow> s)"

definition deliver_strip :: "binding list \<Rightarrow> u32 \<Rightarrow> lume_event list \<Rightarrow> led_strip \<Rightarrow> led_strip" where
  "deliver_strip bs now evs s = fold (strip_event bs now) evs s"

section \<open>Float dimming is integer dimming\<close>

definition dim :: "u8 \<Rightarrow> u8 \<Rightarrow> u8" where
  "dim intensity v = clip255 (fl_int (fl (of_nat (unat v) * fl (fl (of_nat (unat intensity)) / 255))))"

lemma frac_bound: "R \<le> 254 \<Longrightarrow> V \<le> 255 \<Longrightarrow> (N * 255 + R) / 255 + V / 2 ^ 24 \<le> N + 254 / 255 + (255 / 2 ^ 24 :: rat)"
  by (simp add: field_simps)

text \<open>The strip's float dimming is the desk's integer dimming. For every channel and every intensity, the
  driver's \<open>int(v * (intensity / 255.0f))\<close> in single precision is exactly \<open>v * intensity div 255\<close>, the
  \<open>scale_byte\<close> with which the bridge computes its preview: no rounding ever tips it to a neighbour.\<close>

theorem float_dim_is_scale_byte: "dim i v = scale_byte v i"
proof -
  let ?n = "unat v * unat i div 255" and ?r = "unat v * unat i mod 255"
  let ?c = "fl (of_nat (unat i) / 255)" and ?y = "of_nat (unat v) * fl (of_nat (unat i) / 255)"
  have i: "fl (of_nat (unat i)) = of_nat (unat i)" by (rule fl.whole_nat [OF le_less_trans [OF unat_u8_le]]) simp
  have c: "of_nat (unat i) / 255 \<le> ?c" "?c \<le> of_nat (unat i) / 255 + 1 / 2 ^ 24"
    using fl_div_255 [of "unat i"] by simp_all
  have v: "of_nat (unat v) \<le> (255 :: rat)" using of_nat_mono [OF unat_u8_le [of v], where ?'a = rat] by simp
  have prod: "of_nat (unat v) * of_nat (unat i) = (of_nat ?n * 255 + of_nat ?r :: rat)"
  proof -
    have "(of_nat (unat v * unat i) :: rat) = of_nat (?n * 255 + ?r)" by (simp only: div_mult_mod_eq)
    then show ?thesis by (simp only: of_nat_mult of_nat_add of_nat_numeral)
  qed
  have r: "of_nat ?r \<le> (254 :: rat)"
    using of_nat_mono [of ?r 254, where ?'a = rat] by (simp add: mod_less_eq_dividend less_Suc_eq_le [symmetric])
  have n: "?n \<le> 255" using mult_le_mono [of "unat v" 255 "unat i" 255] by (simp add: div_le_mono)
  have low: "of_nat ?n \<le> ?y"
  proof -
    have "of_nat ?n \<le> (of_nat ?n * 255 + of_nat ?r) / (255 :: rat)" by simp
    also have "\<dots> = of_nat (unat v) * (of_nat (unat i) / 255)" by (simp only: prod [symmetric] times_divide_eq_right)
    also have "\<dots> \<le> ?y" by (rule mult_left_mono [OF c(1) of_nat_0_le_iff])
    finally show ?thesis .
  qed
  have high: "?y \<le> of_nat ?n + 1 - 1 / 2 ^ 9"
  proof -
    have "?y \<le> of_nat (unat v) * (of_nat (unat i) / 255 + 1 / 2 ^ 24)" by (rule mult_left_mono [OF c(2) of_nat_0_le_iff])
    also have "\<dots> = (of_nat ?n * 255 + of_nat ?r) / 255 + of_nat (unat v) / 2 ^ 24"
      by (simp add: distrib_left prod del: of_nat_unat)
    also have "\<dots> \<le> of_nat ?n + 254 / 255 + 255 / 2 ^ 24"
      by (rule frac_bound [OF r v])
    also have "\<dots> \<le> of_nat ?n + 1 - 1 / 2 ^ 9" by simp
    finally show ?thesis .
  qed
  have exact: "fl (of_nat ?n + 1 - 1 / 2 ^ 9) = of_nat ?n + 1 - 1 / 2 ^ 9"
  proof (rule fl_grid [where m = 9])
    show "(of_nat ?n + 1 - 1 / 2 ^ 9 :: rat) * 2 ^ 9 = of_int (int ?n * 512 + 511)" by (simp add: algebra_simps)
    show "(of_nat ?n + 1 - 1 / 2 ^ 9 :: rat) * 2 ^ 9 < 2 ^ 23"
      using of_nat_mono [OF n, where ?'a = rat] by (simp add: algebra_simps)
  qed simp_all
  have "of_nat ?n \<le> fl ?y" using fl.mono [OF low] fl.whole_nat [of ?n] n by simp
  moreover have "fl ?y < of_nat ?n + 1" using fl.mono [OF high] exact by simp
  ultimately have "fl_int (fl ?y) = int ?n"
    by (auto simp: fl_int_def intro!: floor_unique dest: order_trans [OF of_nat_0_le_iff])
  then show ?thesis using n by (simp add: dim_def i clip255_nat scale_byte_def del: of_nat_unat)
qed


section \<open>A wash on the strip\<close>

text \<open>Between the end of the attack and the time to live, a wash without drift is its anchor colour, dimmed.\<close>

lemma steady_baseline:
  assumes "sw_active w" and "sw_releasing_started_ms w = 0" and "sw_cycle_ms w = 0"
    and "units100_to_ms (sw_attack_100ms w) \<le> now - sw_started_ms w"
    and "sw_ttl_seconds w = 0 \<or> now - sw_started_ms w < ucast (sw_ttl_seconds w) * 1000"
  shows "snd (fst (compute_wash_baseline cosf now w)) = map_rgb (dim (sw_intensity w)) (sw_r1 w, sw_g1 w, sw_b1 w)"
  using assms by (auto simp: compute_wash_baseline_def dim_def Let_def not_le not_less)

lemma strip_event_ok: "strip_ok board s \<Longrightarrow> strip_ok board (strip_event bs now ev s)"
proof -
  assume ok: "strip_ok board s"
  have counted: "strip_ok board (counted r)" if "strip_ok board (snd r)" for r
    using that by (simp add: strip_ok_def counted_def)
  have "strip_ok board (led_strip_call call now s)" for call
    using ok by (cases "(call, now, s)" rule: led_strip_call.cases) (simp_all add: counted strip_ok_send strip_ok_setters)
  then show ?thesis using ok by (simp add: strip_event_def split: lume_event.split)
qed

lemma led_strip_call_enabled: "sd_enabled (led_strip_call call now s) = sd_enabled s"
  by (cases "(call, now, s)" rule: led_strip_call.cases)
    (auto simp: counted_def strip_send_def strip_send_wash_def strip_send_wash_end_def Let_def split: option.split prod.split)

lemma strip_event_enabled: "sd_enabled (strip_event bs now ev s) = sd_enabled s"
  by (simp add: strip_event_def led_strip_call_enabled split: lume_event.split)

lemma deliver_strip_ok:
  "strip_ok board s \<Longrightarrow> strip_ok board (deliver_strip bs now evs s)"
  unfolding deliver_strip_def by (induction evs arbitrary: s) (simp_all add: strip_event_ok)

lemma deliver_strip_enabled: "sd_enabled (deliver_strip bs now evs s) = sd_enabled s"
  unfolding deliver_strip_def by (induction evs arbitrary: s) (simp_all add: strip_event_enabled)

lemma deliver_strip_append: "deliver_strip bs now (xs @ ys) s = deliver_strip bs now ys (deliver_strip bs now xs s)"
  by (simp add: deliver_strip_def)

text \<open>A fan-out of one wash that includes the strip leaves exactly this wash on it.\<close>

lemma deliver_wash:
  assumes "strip_ok board s" and "sd_enabled s"
    and "\<forall>ev \<in> set evs. \<exists>i. ev = Render i cls grp (OnLightWash p)"
    and "Render i cls grp (OnLightWash p) \<in> set evs" and "i < length bs" and "bs ! i = led_strip_binding"
  shows "sd_wash (deliver_strip bs now evs s) = fresh_wash (strip_wash_event p) now s"
proof -
  let ?w = "fresh_wash (strip_wash_event p) now s"
  have step: "sd_wash (strip_event bs now ev t) = ?w"
    if "ev \<in> set evs" "strip_ok board t" "sd_enabled t" "sd_wash t = ?w \<or> ev = Render i cls grp (OnLightWash p)" for ev t
    using that assms
    by (auto simp: strip_event_def counted_def fresh_wash_def strip_send_wash_def strip_ok_def)
  have keep: "sd_wash (fold (strip_event bs now) es t) = ?w"
    if "set es \<subseteq> set evs" "strip_ok board t" "sd_enabled t" "sd_wash t = ?w" for es t
    using that by (induction es arbitrary: t) (simp_all add: step strip_event_ok strip_event_enabled)
  obtain xs ys where evs: "evs = xs @ Render i cls grp (OnLightWash p) # ys" using assms(4) by (meson split_list)
  let ?t = "deliver_strip bs now xs s"
  have t: "strip_ok board ?t" "sd_enabled ?t" using assms(1,2) by (simp_all add: deliver_strip_ok deliver_strip_enabled)
  show ?thesis
    unfolding evs deliver_strip_append
    using keep [of ys "strip_event bs now (Render i cls grp (OnLightWash p)) ?t"] step [OF assms(4) t]
    by (auto simp: deliver_strip_def evs strip_event_ok strip_event_enabled t [unfolded deliver_strip_def])
qed

end
