(* ===== verification/PixMobIr.thy ===== *)
theory PixMobIr
  imports Dal
begin

text \<open>
  The PixMob infrared driver (\<open>src/dal/drivers/pixmob_ir_driver.cpp\<close>). The bracelets know no wash: the driver
  keeps one wash per group (0 to 9, 0 for every bracelet) and repeats it as a command that holds its
  colour for 3840 ms. A pulse over a wash is a sparkle followed by a recovery command, unless its envelope
  is long. The pulse trains come from the builders of \<open>PixMob\<close>; their buffer is the driver's 80 entries,
  whose contents no builder reads. Times and chances are the enumerators; \<open>esp_random\<close> is the roll of
  the environment, \<open>ie_after\<close> the clock after a burst, which blocks.
\<close>

section \<open>State\<close>

record ir_wash =
  iw_active :: bool
  iw_a :: rgb
  iw_b :: rgb
  iw_cycle_ms :: u16
  iw_attack_100ms :: u8
  iw_started_ms :: u32
  iw_next_refresh_ms :: u32
  iw_refresh_interval_ms :: u32

record pixmob_ir =
  pi_internal :: bool
  pi_external :: bool
  pi_slots :: "ir_wash list"

record ir_env =
  ie_now :: u32
  ie_after :: u32
  ie_roll :: u32
  ie_ir :: bool
  ie_ext :: bool

datatype ir_tx = IrInternal "u16 list" | IrExternal "u16 list"

abbreviation kPulseBufSize :: nat where "kPulseBufSize \<equiv> 80"
abbreviation kIrWashSlots :: nat where "kIrWashSlots \<equiv> 10"
abbreviation kWashRefreshMaxMs :: u32 where "kWashRefreshMaxMs \<equiv> 3000"
abbreviation kWashRefreshMinMs :: u32 where "kWashRefreshMinMs \<equiv> 250"
abbreviation kWashRefreshSnapshotsPerCycle :: u32 where "kWashRefreshSnapshotsPerCycle \<equiv> 20"
abbreviation kZeroWashReleaseTime100ms :: u8 where "kZeroWashReleaseTime100ms \<equiv> 3"
abbreviation kLongPulseEnvelopeMs :: u32 where "kLongPulseEnvelopeMs \<equiv> 1000"
abbreviation kPostPulseRefreshMarginMs :: u32 where "kPostPulseRefreshMarginMs \<equiv> 100"

definition no_ir_wash :: ir_wash where
  "no_ir_wash = \<lparr> iw_active = False, iw_a = (0, 0, 0), iw_b = (0, 0, 0), iw_cycle_ms = 0, iw_attack_100ms = 0,
     iw_started_ms = 0, iw_next_refresh_ms = 0, iw_refresh_interval_ms = 0 \<rparr>"

definition pixmob_ir_init :: pixmob_ir where
  "pixmob_ir_init = \<lparr> pi_internal = True, pi_external = False, pi_slots = replicate kIrWashSlots no_ir_wash \<rparr>"

definition pulse_buf :: "u16 list" where
  "pulse_buf = replicate kPulseBufSize 0"

section \<open>Emitters\<close>

definition transmit :: "ir_env \<Rightarrow> pixmob_ir \<Rightarrow> u16 list \<Rightarrow> ir_tx list" where
  "transmit e s pulses_us =
     (if pi_internal s \<and> ie_ir e then [IrInternal pulses_us] else [])
     @ (if pi_external s \<and> ie_ext e then [IrExternal pulses_us] else [])"

text \<open>A build that reports no entries is not sent.\<close>

definition transmit_built :: "ir_env \<Rightarrow> pixmob_ir \<Rightarrow> nat \<times> u16 list \<Rightarrow> ir_tx list" where
  "transmit_built e s r = (case r of (n, buf) \<Rightarrow> if n \<noteq> 0 then transmit e s (take n buf) else [])"

section \<open>Times, chances and colours\<close>

definition kPixmobTimeMs :: "u32 list" where
  "kPixmobTimeMs = [0, 32, 96, 192, 480, 960, 2400, 3840]"

definition ir_time_to_ms :: "pixmob_time \<Rightarrow> u32" where
  "ir_time_to_ms t = kPixmobTimeMs ! unat (time_code t AND 0x07)"

definition should_prefilter_chance :: "pixmob_chance \<Rightarrow> bool" where
  "should_prefilter_chance c \<longleftrightarrow> chance_code c \<ge> chance_code CHANCE_32"

definition kRenderThreshold :: "u32 list" where
  "kRenderThreshold = [255, 224, 170, 128, 82, 41, 26, 10]"

text \<open>The Director's roll for a low chance: the pulse is skipped at or above the threshold.\<close>

definition chance_skipped :: "pixmob_chance \<Rightarrow> u32 \<Rightarrow> bool" where
  "chance_skipped c roll \<longleftrightarrow>
     should_prefilter_chance c \<and> roll AND 0xFF \<ge> kRenderThreshold ! unat (chance_code c AND 0x07)"

definition sparkle_chance :: "pixmob_chance \<Rightarrow> pixmob_chance" where
  "sparkle_chance c = (if should_prefilter_chance c then CHANCE_100 else c)"

definition blend_channel :: "u32 \<Rightarrow> u8 \<Rightarrow> u8 \<Rightarrow> u8" where
  "blend_channel blend_q10 a b = ucast (drop_bit 10 (ucast a * (1024 - blend_q10) + ucast b * blend_q10 :: u32))"

definition drift_blend_q10 :: "u32 \<Rightarrow> u32 \<Rightarrow> u32" where
  "drift_blend_q10 since cycle_ms =
     (let elapsed = since mod cycle_ms;
          phase_q10 = (elapsed * 1024) div cycle_ms
      in if phase_q10 < 512 then phase_q10 * 2 else (1024 - phase_q10) * 2)"

definition compute_drift_rgb :: "ir_wash \<Rightarrow> u32 \<Rightarrow> rgb" where
  "compute_drift_rgb w now =
     (if iw_cycle_ms w = 0 then iw_a w
      else
        let q = drift_blend_q10 (now - iw_started_ms w) (ucast (iw_cycle_ms w)) in
        case iw_a w of (r1, g1, b1) \<Rightarrow> case iw_b w of (r2, g2, b2) \<Rightarrow>
          (blend_channel q r1 r2, blend_channel q g1 g2, blend_channel q b1 b2))"

text \<open>The bucket nearest to a time in units of 100 ms; the first one wins a tie.\<close>

definition quantize_100ms_to_pixmob_time :: "u8 \<Rightarrow> u8" where
  "quantize_100ms_to_pixmob_time units =
     (let target = int (unat units) * 100;
          diff = (\<lambda>i. \<bar>int (unat (kPixmobTimeMs ! i)) - target\<bar>)
      in of_nat (fst (fold (\<lambda>i (best, best_diff). if diff i < best_diff then (i, diff i) else (best, best_diff))
           [1..<8] (0, diff 0))))"

section \<open>Washes\<close>

definition wash_command :: "u8 \<Rightarrow> rgb \<Rightarrow> nat \<times> u16 list" where
  "wash_command group_id c =
     (case c of (r, g, b) \<Rightarrow>
        buildSingleColor pulse_buf r g b T_0_MS T_3840_MS T_0_MS CHANCE_100 group_id)"

definition fire_wash_refresh :: "ir_env \<Rightarrow> pixmob_ir \<Rightarrow> nat \<Rightarrow> ir_wash \<Rightarrow> ir_tx list" where
  "fire_wash_refresh e s group_id w =
     transmit_built e s (wash_command (of_nat group_id)
       (if iw_cycle_ms w > 0 then compute_drift_rgb w (ie_now e) else iw_a w))"

definition ir_send_wash_end :: "u8 \<Rightarrow> u8 \<Rightarrow> ir_env \<Rightarrow> pixmob_ir \<Rightarrow> bool \<times> ir_tx list \<times> pixmob_ir" where
  "ir_send_wash_end target_group release_time e s =
     (let i = unat target_group in
      if i \<ge> kIrWashSlots then (False, [], s)
      else if \<not> iw_active (pi_slots s ! i) then (False, [], s)
      else
        (True,
         if release_time > 0
         then transmit_built e s (buildSingleColor pulse_buf 0 0 0
                (time_of_code (quantize_100ms_to_pixmob_time release_time)) T_0_MS T_0_MS CHANCE_100 target_group)
         else [],
         s\<lparr> pi_slots := (pi_slots s)[i := (pi_slots s ! i)\<lparr> iw_active := False \<rparr>] \<rparr>))"

definition refresh_interval :: "u16 \<Rightarrow> u32" where
  "refresh_interval cycle_ms =
     (if cycle_ms = 0 then kWashRefreshMaxMs
      else let interval = ucast cycle_ms div kWashRefreshSnapshotsPerCycle;
               interval = (if interval < kWashRefreshMinMs then kWashRefreshMinMs else interval)
           in if interval > kWashRefreshMaxMs then kWashRefreshMaxMs else interval)"

definition ir_send_wash :: "u8 \<Rightarrow> light_wash_event \<Rightarrow> ir_env \<Rightarrow> pixmob_ir \<Rightarrow> bool \<times> ir_tx list \<times> pixmob_ir" where
  "ir_send_wash target_group ev e s =
     (let i = unat target_group in
      if i \<ge> kIrWashSlots then (False, [], s)
      else if ew_r1 ev = 0 \<and> ew_g1 ev = 0 \<and> ew_b1 ev = 0 \<and> ew_r2 ev = 0 \<and> ew_g2 ev = 0 \<and> ew_b2 ev = 0
        \<and> ew_intensity ev = 0
      then ir_send_wash_end target_group kZeroWashReleaseTime100ms e s
      else
        let interval = refresh_interval (ew_cycle_ms ev);
            w = \<lparr> iw_active = True, iw_a = (ew_r1 ev, ew_g1 ev, ew_b1 ev), iw_b = (ew_r2 ev, ew_g2 ev, ew_b2 ev),
                  iw_cycle_ms = ew_cycle_ms ev, iw_attack_100ms = ew_attack ev, iw_started_ms = ie_now e,
                  iw_next_refresh_ms = ie_now e + interval, iw_refresh_interval_ms = interval \<rparr>
        in (True, fire_wash_refresh e s i w, s\<lparr> pi_slots := (pi_slots s)[i := w] \<rparr>))"

section \<open>Pulses\<close>

definition ir_send :: "u8 \<Rightarrow> rgb_pulse_event \<Rightarrow> ir_env \<Rightarrow> pixmob_ir \<Rightarrow> bool \<times> ir_tx list \<times> pixmob_ir" where
  "ir_send group_id ev e s =
     (let i = unat group_id in
      if i < kIrWashSlots \<and> iw_active (pi_slots s ! i)
      then
        if chance_skipped (rp_chance ev) (ie_roll e) then (True, [], s)
        else
          let w = pi_slots s ! i;
              wash = (if iw_cycle_ms w > 0 then compute_drift_rgb w (ie_now e) else iw_a w);
              effective_sustain = (if rp_sustain ev = T_0_MS then T_32_MS else rp_sustain ev);
              envelope_ms = ir_time_to_ms (rp_attack ev) + ir_time_to_ms (rp_sustain ev) + ir_time_to_ms (rp_release ev);
              skip_recovery = (envelope_ms > kLongPulseEnvelopeMs);
              sparkle_release = (if skip_recovery then rp_release ev else T_0_MS);
              (n, buf) = buildSingleColor pulse_buf (rp_r ev) (rp_g ev) (rp_b ev) (rp_attack ev)
                 effective_sustain sparkle_release (sparkle_chance (rp_chance ev)) group_id
          in if n = 0 then (False, [], s)
             else
               let tx = transmit e s (take n buf) in
               if skip_recovery
               then let next_after_pulse = ie_after e + envelope_ms + kPostPulseRefreshMarginMs
                    in (True, tx,
                        if iw_next_refresh_ms w < next_after_pulse
                        then s\<lparr> pi_slots := (pi_slots s)[i := w\<lparr> iw_next_refresh_ms := next_after_pulse \<rparr>] \<rparr>
                        else s)
               else (True, tx @ transmit_built e s (wash_command group_id wash), s)
      else if chance_skipped (rp_chance ev) (ie_roll e) then (True, [], s)
      else
        let (n, buf) = buildSingleColor pulse_buf (rp_r ev) (rp_g ev) (rp_b ev) (rp_attack ev) (rp_sustain ev)
              (rp_release ev) (sparkle_chance (rp_chance ev)) group_id
        in if n = 0 then (False, [], s) else (True, transmit e s (take n buf), s))"

definition ir_send_wash_pulse :: "u8 \<Rightarrow> rgb_pulse_event \<Rightarrow> ir_env \<Rightarrow> pixmob_ir \<Rightarrow> bool \<times> ir_tx list \<times> pixmob_ir" where
  "ir_send_wash_pulse target_group ev e s =
     (let i = unat target_group in
      if i \<ge> kIrWashSlots then ir_send target_group ev e s
      else if \<not> iw_active (pi_slots s ! i) then ir_send target_group ev e s
      else
        let w = pi_slots s ! i;
            (wr, wg, wb) = (if iw_cycle_ms w > 0 then compute_drift_rgb w (ie_now e) else iw_a w);
            (n, buf) = buildTwoColors pulse_buf (rp_r ev) (rp_g ev) (rp_b ev) wr wg wb
        in if n = 0 then (False, [], s)
           else (True, transmit e s (take n buf),
                 s\<lparr> pi_slots := (pi_slots s)[i := w\<lparr> iw_next_refresh_ms := ie_now e + iw_refresh_interval_ms w \<rparr>] \<rparr>))"

text \<open>The assignment of a group: the new id into slot 0, then slot 0 active.\<close>

definition ir_assign_group :: "u8 \<Rightarrow> ir_env \<Rightarrow> pixmob_ir \<Rightarrow> bool \<times> ir_tx list" where
  "ir_assign_group new_group_id e s =
     (if new_group_id < 1 \<or> new_group_id > 31 then (False, [])
      else case buildSetGroupId pulse_buf 0 new_group_id 0 of (n, buf) \<Rightarrow>
        if n = 0 then (False, [])
        else let tx = transmit e s (take n buf) in
          case buildSetGroupSel pulse_buf 0 0 of (n, buf) \<Rightarrow>
            if n = 0 then (False, tx) else (True, tx @ transmit e s (take n buf)))"

section \<open>The loop\<close>

definition refresh_due :: "u32 \<Rightarrow> ir_wash \<Rightarrow> bool" where
  "refresh_due now w \<longleftrightarrow> iw_active w \<and> \<not> now < iw_next_refresh_ms w"

fun ir_refresh :: "ir_env \<Rightarrow> pixmob_ir \<Rightarrow> nat \<Rightarrow> ir_wash list \<Rightarrow> ir_tx list \<times> ir_wash list" where
  "ir_refresh e s g [] = ([], [])"
| "ir_refresh e s g (w # ws) =
     (case ir_refresh e s (Suc g) ws of (tx, ws') \<Rightarrow>
        if refresh_due (ie_now e) w
        then (fire_wash_refresh e s g w @ tx,
              w\<lparr> iw_next_refresh_ms := ie_now e + iw_refresh_interval_ms w \<rparr> # ws')
        else (tx, w # ws'))"

definition ir_loop_tick :: "ir_env \<Rightarrow> pixmob_ir \<Rightarrow> ir_tx list \<times> pixmob_ir" where
  "ir_loop_tick e s =
     (case ir_refresh e s 0 (pi_slots s) of (tx, ws) \<Rightarrow> (tx, s\<lparr> pi_slots := ws \<rparr>))"


section \<open>What the bracelets hear\<close>

text \<open>The commands a bracelet in view of the built-in emitter decodes.\<close>

definition heard :: "ir_tx list \<Rightarrow> pixmob_command list" where
  "heard tx = List.map_filter
     (\<lambda>x. case x of IrInternal us \<Rightarrow> Option.bind (decode_pulses us) parse_command | IrExternal _ \<Rightarrow> None) tx"

lemma heard_Nil [simp]: "heard [] = []"
  by (simp add: heard_def)

lemma ir_heard_append [simp]: "heard (xs @ ys) = heard xs @ heard ys"
  by (simp add: heard_def map_filter_def)

definition seen :: "ir_env \<Rightarrow> pixmob_ir \<Rightarrow> bool" where
  "seen e s \<longleftrightarrow> pi_internal s \<and> ie_ir e"

lemma command_heard:
  assumes "seen e s" and "build_command cmd pulse_buf = (n, buf)"
  shows "n \<noteq> 0" and "heard (transmit e s (take n buf)) = [on_air cmd]"
proof -
  have b: "n \<noteq> 0 \<and> Option.bind (decode_pulses (take n buf)) parse_command = Some (on_air cmd)"
    using pixmob_command_on_air [OF _ assms(2)] by (simp add: pulse_buf_def)
  then show "n \<noteq> 0" by simp
  show "heard (transmit e s (take n buf)) = [on_air cmd]"
    using assms(1) b by (simp add: heard_def transmit_def seen_def map_filter_def)
qed

lemma built_heard: "seen e s \<Longrightarrow> heard (transmit_built e s (build_command cmd pulse_buf)) = [on_air cmd]"
  using command_heard [of e s cmd] by (cases "build_command cmd pulse_buf") (simp add: transmit_built_def)

definition wash_hold :: "u8 \<Rightarrow> rgb \<Rightarrow> pixmob_command" where
  "wash_hold group_id c =
     (case c of (r, g, b) \<Rightarrow> SingleColor r g b T_0_MS T_3840_MS T_0_MS CHANCE_100 group_id)"

lemma wash_command_build: "wash_command group_id c = build_command (wash_hold group_id c) pulse_buf"
  by (cases c) (simp add: wash_command_def wash_hold_def)

text \<open>The colour a wash has at a given time.\<close>

definition wash_colour :: "ir_wash \<Rightarrow> u32 \<Rightarrow> rgb" where
  "wash_colour w now = (if iw_cycle_ms w > 0 then compute_drift_rgb w now else iw_a w)"

lemma refresh_heard:
  "seen e s \<Longrightarrow> heard (fire_wash_refresh e s i w) = [on_air (wash_hold (of_nat i) (wash_colour w (ie_now e)))]"
  using built_heard [of e s "wash_hold (of_nat i) (wash_colour w (ie_now e))"]
  by (simp add: fire_wash_refresh_def wash_command_build wash_colour_def)

definition ir_ok :: "pixmob_ir \<Rightarrow> bool" where
  "ir_ok s \<longleftrightarrow> length (pi_slots s) = kIrWashSlots
     \<and> (\<forall>w \<in> set (pi_slots s). iw_active w \<longrightarrow> 250 \<le> unat (iw_refresh_interval_ms w) \<and> unat (iw_refresh_interval_ms w) \<le> 3000)"

lemma refresh_interval_range: "250 \<le> unat (refresh_interval c) \<and> unat (refresh_interval c) \<le> 3000"
  by (auto simp: refresh_interval_def Let_def word_less_nat_alt not_less)

definition envelope_of :: "rgb_pulse_event \<Rightarrow> u32" where
  "envelope_of ev = ir_time_to_ms (rp_attack ev) + ir_time_to_ms (rp_sustain ev) + ir_time_to_ms (rp_release ev)"

lemma sparkle_sent:
  assumes "seen e s" and "unat grp < kIrWashSlots" and "iw_active (pi_slots s ! unat grp)"
    and "\<not> chance_skipped (rp_chance ev) (ie_roll e)" and "ir_ok s"
  shows "\<exists>tx s'. ir_send grp ev e s = (True, tx, s')
    \<and> (let sparkle = (\<lambda>re. on_air (SingleColor (rp_r ev) (rp_g ev) (rp_b ev) (rp_attack ev)
             (if rp_sustain ev = T_0_MS then T_32_MS else rp_sustain ev) re (sparkle_chance (rp_chance ev)) grp))
       in if envelope_of ev \<le> 1000
          then heard tx = [sparkle T_0_MS, on_air (wash_hold grp (wash_colour (pi_slots s ! unat grp) (ie_now e)))]
            \<and> s' = s
          else heard tx = [sparkle (rp_release ev)] \<and> iw_active (pi_slots s' ! unat grp)
            \<and> ie_after e + envelope_of ev + 100 \<le> iw_next_refresh_ms (pi_slots s' ! unat grp))"
proof -
  let ?w = "pi_slots s ! unat grp"
  let ?sustain = "if rp_sustain ev = T_0_MS then T_32_MS else rp_sustain ev"
  let ?release = "if envelope_of ev > 1000 then rp_release ev else T_0_MS"
  let ?cmd = "SingleColor (rp_r ev) (rp_g ev) (rp_b ev) (rp_attack ev) ?sustain ?release
      (sparkle_chance (rp_chance ev)) grp"
  obtain n buf where nb: "build_command ?cmd pulse_buf = (n, buf)" by (cases "build_command ?cmd pulse_buf")
  note h = command_heard [OF assms(1) nb]
  have rec: "heard (transmit_built e s (wash_command grp (wash_colour ?w (ie_now e))))
      = [on_air (wash_hold grp (wash_colour ?w (ie_now e)))]"
    unfolding wash_command_build by (rule built_heard [OF assms(1)])
  have len: "unat grp < length (pi_slots s)" using assms(2,5) by (simp add: ir_ok_def)
  have send: "ir_send grp ev e s =
      (if envelope_of ev > 1000
       then (True, transmit e s (take n buf),
         if iw_next_refresh_ms ?w < ie_after e + envelope_of ev + 100
         then s\<lparr> pi_slots := (pi_slots s)[unat grp := ?w\<lparr> iw_next_refresh_ms := ie_after e + envelope_of ev + 100 \<rparr>] \<rparr>
         else s)
       else (True, transmit e s (take n buf) @ transmit_built e s (wash_command grp (wash_colour ?w (ie_now e))), s))"
    using assms(2,3,4) h(1) nb
    by (simp add: ir_send_def wash_colour_def envelope_of_def Let_def)
  show ?thesis
    using send h(2) rec assms(3) len
    by (cases "envelope_of ev \<le> 1000") (auto simp: Let_def not_le not_less)
qed

text \<open>C22: A sparkle over a wash leaves the wash as it was. On a group with an active wash, a pulse is either
  skipped by the Director's own roll, which it makes for the low chances, and then nothing is sent and
  nothing changes; or it reaches the bracelets as the sparkle (held at least 32 ms), at full chance if
  the Director rolled. Then, if its envelope is at most a second, the next and last command restores
  exactly the colour the wash has at that moment, held like a refresh, and the refresh schedule is
  unchanged. A longer pulse plays its own release, no command follows, and the next refresh is at least
  the envelope and 100 ms away.\<close>

theorem sparkle_returns_to_wash:
  assumes "seen e s" and "unat grp < kIrWashSlots" and "iw_active (pi_slots s ! unat grp)" and "ir_ok s"
  shows "if should_prefilter_chance (rp_chance ev) \<and> ie_roll e AND 0xFF \<ge> kRenderThreshold ! unat (chance_code (rp_chance ev) AND 0x07)
    then ir_send grp ev e s = (True, [], s)
    else \<exists>tx s'. ir_send grp ev e s = (True, tx, s')
    \<and> (let sparkle = (\<lambda>re. on_air (SingleColor (rp_r ev) (rp_g ev) (rp_b ev) (rp_attack ev)
             (if rp_sustain ev = T_0_MS then T_32_MS else rp_sustain ev) re (sparkle_chance (rp_chance ev)) grp))
       in if envelope_of ev \<le> 1000
          then heard tx = [sparkle T_0_MS, on_air (wash_hold grp (wash_colour (pi_slots s ! unat grp) (ie_now e)))]
            \<and> s' = s
          else heard tx = [sparkle (rp_release ev)] \<and> iw_active (pi_slots s' ! unat grp)
            \<and> ie_after e + envelope_of ev + 100 \<le> iw_next_refresh_ms (pi_slots s' ! unat grp))"
  unfolding chance_skipped_def [symmetric]
proof (split if_split, intro conjI impI)
  assume "chance_skipped (rp_chance ev) (ie_roll e)"
  then show "ir_send grp ev e s = (True, [], s)" using assms by (simp add: ir_send_def Let_def)
qed (rule sparkle_sent [OF assms(1-3) _ assms(4)])

section \<open>The refresh keeps a wash up\<close>

lemma length_ir_refresh: "length (snd (ir_refresh e s g ws)) = length ws"
  by (induction e s g ws rule: ir_refresh.induct) (auto split: prod.splits)

lemma ir_refresh_nth:
  "j < length ws \<Longrightarrow> snd (ir_refresh e s g ws) ! j =
    (if refresh_due (ie_now e) (ws ! j)
     then (ws ! j)\<lparr> iw_next_refresh_ms := ie_now e + iw_refresh_interval_ms (ws ! j) \<rparr> else ws ! j)"
  by (induction e s g ws arbitrary: j rule: ir_refresh.induct) (auto split: prod.splits simp: nth_Cons')

lemma ir_refresh_heard:
  "seen e s \<Longrightarrow> j < length ws \<Longrightarrow> refresh_due (ie_now e) (ws ! j) \<Longrightarrow>
    on_air (wash_hold (of_nat (g + j)) (wash_colour (ws ! j) (ie_now e))) \<in> set (heard (fst (ir_refresh e s g ws)))"
proof (induction e s g ws arbitrary: j rule: ir_refresh.induct)
  case (1 e s g)
  then show ?case by simp
next
  case (2 e s g w ws)
  then show ?case
  proof (cases j)
    case 0
    then show ?thesis using 2(2,4) refresh_heard [of e s g w] by (auto split: prod.splits)
  next
    case (Suc k)
    then show ?thesis using 2(1) [of k] 2(2-4) by (auto split: prod.splits)
  qed
qed

text \<open>Ticks at given times, with what each one sends.\<close>

fun ir_ticks :: "(nat \<Rightarrow> ir_env) \<Rightarrow> nat list \<Rightarrow> pixmob_ir \<Rightarrow> (nat \<times> ir_tx list) list \<times> pixmob_ir" where
  "ir_ticks env [] s = ([], s)"
| "ir_ticks env (t # ts) s =
     (case ir_loop_tick (env t) s of (tx, s1) \<Rightarrow>
        case ir_ticks env ts s1 of (rest, s2) \<Rightarrow> ((t, tx) # rest, s2))"

text \<open>The batch sent at a time holds the colour that the wash of group \<open>i\<close> has then.\<close>

definition holds_group :: "nat \<Rightarrow> ir_wash \<Rightarrow> nat \<times> ir_tx list \<Rightarrow> bool" where
  "holds_group i w b \<longleftrightarrow> on_air (wash_hold (of_nat i) (wash_colour w (of_nat (fst b)))) \<in> set (heard (snd b))"

lemma wash_colour_schedule [simp]: "wash_colour (w\<lparr> iw_next_refresh_ms := n \<rparr>) now = wash_colour w now"
  by (simp add: wash_colour_def compute_drift_rgb_def)

definition clock_env :: "(nat \<Rightarrow> ir_env) \<Rightarrow> bool" where
  "clock_env env \<longleftrightarrow> (\<forall>t. ie_now (env t) = of_nat t \<and> ie_ir (env t))"

lemma ticks_hold:
  assumes "clock_env env" and "i < kIrWashSlots" and "iw_active w"
    and "iw_refresh_interval_ms w = of_nat k" and "0 < k" and "k \<le> 3000"
  shows "pi_internal s \<Longrightarrow> length (pi_slots s) = kIrWashSlots \<Longrightarrow>
    pi_slots s ! i = w\<lparr> iw_next_refresh_ms := of_nat (u + k) \<rparr> \<Longrightarrow> holds_group i w (u, txu) \<Longrightarrow> u \<le> p \<Longrightarrow> p < u + k \<Longrightarrow>
    sorted (p # ts) \<Longrightarrow> \<forall>j < length ts. ts ! j \<le> (p # ts) ! j + g \<Longrightarrow> \<forall>t \<in> set (p # ts). t + 3000 < 2 ^ 32 \<Longrightarrow>
    fst (ir_ticks env ts s) = xs @ (t, tx) # ys \<Longrightarrow>
    \<exists>b \<in> set ((u, txu) # xs). holds_group i w b \<and> fst b \<le> t \<and> t < fst b + k + g"
proof (induction ts arbitrary: s u txu p xs)
  case Nil
  then show ?case by simp
next
  case (Cons t1 ts)
  obtain tx1 s1 where tick: "ir_loop_tick (env t1) s = (tx1, s1)" by (cases "ir_loop_tick (env t1) s")
  obtain rest s2 where rest: "ir_ticks env ts s1 = (rest, s2)" by (cases "ir_ticks env ts s1")
  let ?e = "env t1"
  have e: "ie_now ?e = of_nat t1" "seen ?e s" using assms(1) Cons.prems(1) by (simp_all add: clock_env_def seen_def)
  have s1: "s1 = s\<lparr> pi_slots := snd (ir_refresh ?e s 0 (pi_slots s)) \<rparr>" "tx1 = fst (ir_refresh ?e s 0 (pi_slots s))"
    using tick by (auto simp: ir_loop_tick_def split: prod.splits)
  have i: "i < length (pi_slots s)" using Cons.prems(2) assms(2) by simp
  have t1: "p \<le> t1" "t1 \<le> p + g" "t1 + 3000 < 2 ^ 32" using Cons.prems(7-9) by (auto dest: spec [of _ 0])
  have next_nat: "unat (of_nat (u + k) :: u32) = u + k" "unat (of_nat t1 :: u32) = t1"
    using Cons.prems(5,9) assms(6) t1 by (simp_all only: unat_of_nat take_bit_eq_mod) simp_all
  have due: "refresh_due (ie_now ?e) (pi_slots s ! i) \<longleftrightarrow> u + k \<le> t1"
    using Cons.prems(3) assms(3) next_nat e(1) by (simp add: refresh_due_def word_less_nat_alt not_less)
  have gaps: "\<forall>j < length ts. ts ! j \<le> (t1 # ts) ! j + g"
    using Cons.prems(8) by (metis Suc_less_eq length_Cons nth_Cons_Suc)
  have evs: "(t1, tx1) # rest = xs @ (t, tx) # ys" using Cons.prems(10) tick rest by simp
  show ?case
  proof (cases xs)
    case Nil
    then have "t = t1" using evs by simp
    then show ?thesis using Nil Cons.prems(4-6) t1 by auto
  next
    case (Cons x xs')
    then have x: "x = (t1, tx1)" and evs': "fst (ir_ticks env ts s1) = xs' @ (t, tx) # ys" using evs rest by simp_all
    show ?thesis
    proof (cases "u + k \<le> t1")
      case True
      then have w1: "pi_slots s1 ! i = w\<lparr> iw_next_refresh_ms := of_nat (t1 + k) \<rparr>"
        using ir_refresh_nth [OF i, of ?e s 0] due e(1) assms(4) Cons.prems(3) s1(1) by simp
      have hold: "holds_group i w (t1, tx1)"
        using ir_refresh_heard [OF e(2) i, of 0] True due s1(2) Cons.prems(3) e(1) by (simp add: holds_group_def)
      have "\<exists>b \<in> set ((t1, tx1) # xs'). holds_group i w b \<and> fst b \<le> t \<and> t < fst b + k + g"
        by (rule Cons.IH [of s1 t1 tx1 t1, OF _ _ w1 hold _ _ _ gaps _ evs'])
          (use Cons.prems t1 assms(5) in \<open>simp_all add: s1(1) length_ir_refresh\<close>)
      then show ?thesis using Cons x by auto
    next
      case False
      then have w1: "pi_slots s1 ! i = w\<lparr> iw_next_refresh_ms := of_nat (u + k) \<rparr>"
        using ir_refresh_nth [OF i, of ?e s 0] due s1(1) Cons.prems(3) by simp
      have "\<exists>b \<in> set ((u, txu) # xs'). holds_group i w b \<and> fst b \<le> t \<and> t < fst b + k + g"
        by (rule Cons.IH [of s1 u txu t1, OF _ _ w1 Cons.prems(4) _ _ _ gaps _ evs'])
          (use Cons.prems t1 False in \<open>simp_all add: s1(1) length_ir_refresh\<close>)
      then show ?thesis using Cons by auto
    qed
  qed
qed

text \<open>C12: A wash never lapses on the bracelets. After a wash for one of the ten groups (not the all-zero one)
  and any run of loop ticks that come at most \<open>g\<close> milliseconds apart, with \<open>g\<close> at most 840, on a clock
  that does not wrap: at every tick some earlier command (the first one or a refresh) for this
  group was sent less than 3840 ms before, so its hold has not ended, and the group's colour is
  held without a gap.\<close>

theorem bracelet_wash_held:
  assumes "clock_env env" and "unat grp < kIrWashSlots" and "pi_internal s" and "length (pi_slots s) = kIrWashSlots"
    and "\<not> (ew_r1 ev = 0 \<and> ew_g1 ev = 0 \<and> ew_b1 ev = 0 \<and> ew_r2 ev = 0 \<and> ew_g2 ev = 0 \<and> ew_b2 ev = 0 \<and> ew_intensity ev = 0)"
    and "ir_send_wash grp ev (env t0) s = (ok, tx0, s0)"
    and "sorted (t0 # ts)" and "\<forall>j < length ts. ts ! j \<le> (t0 # ts) ! j + g" and "g \<le> 840"
    and "\<forall>t \<in> set (t0 # ts). t + 3000 < 2 ^ 32"
    and "fst (ir_ticks env ts s0) = xs @ (t, tx) # ys"
  shows "\<exists>b \<in> set ((t0, tx0) # xs). holds_group (unat grp) (pi_slots s0 ! unat grp) b
    \<and> fst b \<le> t \<and> t < fst b + 3840"
proof -
  let ?i = "unat grp" and ?I = "refresh_interval (ew_cycle_ms ev)"
  let ?w = "\<lparr> iw_active = True, iw_a = (ew_r1 ev, ew_g1 ev, ew_b1 ev), iw_b = (ew_r2 ev, ew_g2 ev, ew_b2 ev),
      iw_cycle_ms = ew_cycle_ms ev, iw_attack_100ms = ew_attack ev, iw_started_ms = of_nat t0,
      iw_next_refresh_ms = of_nat t0 + ?I, iw_refresh_interval_ms = ?I \<rparr>"
  have e: "ie_now (env t0) = of_nat t0" "seen (env t0) s" using assms(1,3) by (simp_all add: clock_env_def seen_def)
  have s0: "tx0 = fire_wash_refresh (env t0) s ?i ?w" "s0 = s\<lparr> pi_slots := (pi_slots s)[?i := ?w] \<rparr>"
    using assms(2,5,6) e(1) by (auto simp: ir_send_wash_def Let_def)
  have w: "pi_slots s0 ! ?i = ?w" using assms(2,4) by (simp add: s0(2))
  have hold: "holds_group ?i ?w (t0, tx0)" using refresh_heard [OF e(2), of ?i ?w] e(1) by (simp add: holds_group_def s0(1))
  have "\<exists>b \<in> set ((t0, tx0) # xs). holds_group ?i ?w b \<and> fst b \<le> t \<and> t < fst b + unat ?I + g"
    by (rule ticks_hold [OF assms(1,2), where s = s0 and u = t0 and p = t0 and ts = ts and ys = ys and tx = tx])
      (use assms hold refresh_interval_range [of "ew_cycle_ms ev"] in \<open>simp_all add: s0(2)\<close>)
  then show ?thesis unfolding w using assms(9) refresh_interval_range [of "ew_cycle_ms ev"] by fastforce
qed

section \<open>Colours and times\<close>

lemma argmin_fold:
  "fold (\<lambda>i (best, best_diff). if f i < best_diff then (i, f i) else (best, best_diff)) xs (b, f b) = (r, d) \<Longrightarrow>
    r \<in> insert b (set xs) \<and> d = f r \<and> (\<forall>x \<in> insert b (set xs). f r \<le> f x)" for f :: "'a \<Rightarrow> 'b::linorder"
proof (induction xs arbitrary: b)
  case Nil
  then show ?case by auto
next
  case (Cons x xs)
  show ?case
  proof (cases "f x < f b")
    case True
    then show ?thesis using Cons.IH [of x] Cons.prems by (auto intro: order_trans)
  next
    case False
    then show ?thesis using Cons.IH [of b] Cons.prems by (auto intro: order_trans)
  qed
qed

text \<open>The release of a wash is quantised to the nearest bucket. For every duration in units of 100 ms, the
  bucket that the loop picks is one of the protocol's eight, and no bucket of the protocol lies closer to it.\<close>

theorem nearest_bucket:
  "\<exists>t. quantize_100ms_to_pixmob_time u = time_code t
    \<and> (\<forall>t'. \<bar>int (unat (ir_time_to_ms t)) - 100 * int (unat u)\<bar> \<le> \<bar>int (unat (ir_time_to_ms t')) - 100 * int (unat u)\<bar>)"
proof -
  let ?f = "\<lambda>i. \<bar>int (unat (kPixmobTimeMs ! i)) - int (unat u) * 100\<bar>"
  let ?fold = "fold (\<lambda>i (best, best_diff). if ?f i < best_diff then (i, ?f i) else (best, best_diff)) [1..<8] (0, ?f 0)"
  obtain r d where rd: "?fold = (r, d)" by fastforce
  have "insert 0 (set [1..<8]) = {..<8}" by auto
  with argmin_fold [OF rd] have r: "r < 8" and least: "\<forall>i < 8. ?f r \<le> ?f i" by (simp_all only: lessThan_iff) blast
  have code: "\<exists>t. time_code t = of_nat i \<and> ir_time_to_ms t = kPixmobTimeMs ! i" if "i < 8" for i
  proof -
    from that have "i \<in> {0, 1, 2, 3, 4, 5, 6, 7}" by auto
    then show ?thesis
      by (elim insertE; intro exI [of _ "all_times ! i"]) (simp_all add: all_times_def ir_time_to_ms_def)
  qed
  obtain t where t: "time_code t = of_nat r" "ir_time_to_ms t = kPixmobTimeMs ! r" using code [OF r] by blast
  have "?f r \<le> \<bar>int (unat (ir_time_to_ms t')) - int (unat u) * 100\<bar>" for t'
    using least by (cases t') (simp_all add: ir_time_to_ms_def)
  moreover have "quantize_100ms_to_pixmob_time u = of_nat r"
    unfolding quantize_100ms_to_pixmob_time_def Let_def rd by simp
  ultimately show ?thesis using t by (intro exI [of _ t]) (simp add: mult.commute)
qed


lemma unat_mult_u32: "unat x * unat y < 2 ^ 32 \<Longrightarrow> unat (x * y :: u32) = unat x * unat y"
  by (simp add: unat_mult_lem [THEN iffD1])

lemma unat_plus_u32: "unat x + unat y < 2 ^ 32 \<Longrightarrow> unat (x + y :: u32) = unat x + unat y"
  by (simp add: unat_add_lem [THEN iffD1])

lemma drift_blend_range:
  assumes "0 < cycle_ms" and "unat cycle_ms < 65536"
  shows "unat (drift_blend_q10 since cycle_ms) \<le> 1024"
proof -
  define e where "e = since mod cycle_ms"
  define p where "p = (e * 1024) div cycle_ms"
  have c: "0 < unat cycle_ms" using assms(1) by (simp add: unat_gt_0 word_neq_0_conv)
  have e: "unat e < unat cycle_ms" unfolding e_def unat_mod using c by (rule mod_less_divisor)
  then have "unat (e * 1024) = unat e * 1024" using assms(2) by (subst unat_mult_u32) simp_all
  moreover have "unat e * 1024 div unat cycle_ms < 1024"
    using e c by (metis div_less_iff_less_mult mult.commute mult_less_mono1 zero_less_numeral)
  ultimately have p: "unat p < 1024" unfolding p_def unat_div by simp
  have "drift_blend_q10 since cycle_ms = (if p < 512 then p * 2 else (1024 - p) * 2)"
    by (simp add: drift_blend_q10_def p_def e_def Let_def)
  moreover have "unat (p * 2) \<le> 1024" if "p < 512"
  proof -
    have "unat p < 512" using that by (simp add: word_less_nat_alt)
    then show ?thesis by (subst unat_mult_u32) simp_all
  qed
  moreover have "unat ((1024 - p) * 2) \<le> 1024" if "\<not> p < 512"
  proof -
    have "512 \<le> unat p" using that by (simp add: word_less_nat_alt)
    moreover have "unat (1024 - p) = 1024 - unat p" using p by (subst unat_sub) (simp_all add: word_le_nat_alt)
    ultimately show ?thesis by (subst unat_mult_u32) simp_all
  qed
  ultimately show ?thesis by simp
qed

lemma blend_channel_between:
  assumes "unat q \<le> 1024"
  shows "min a b \<le> blend_channel q a b \<and> blend_channel q a b \<le> max a b"
proof -
  let ?x = "unat a * (1024 - unat q) + unat b * unat q"
  have q: "unat (1024 - q) = 1024 - unat q" using assms by (subst unat_sub) (simp_all add: word_le_nat_alt)
  have le: "min (unat a) (unat b) * 1024 \<le> ?x" "?x \<le> max (unat a) (unat b) * 1024"
  proof -
    have s: "c * (1024 - unat q) + c * unat q = c * 1024" for c using assms by (simp flip: add_mult_distrib2)
    show "min (unat a) (unat b) * 1024 \<le> ?x" using s [of "min (unat a) (unat b)"]
      by (metis add_le_mono min.cobounded1 min.cobounded2 mult_le_mono1)
    show "?x \<le> max (unat a) (unat b) * 1024" using s [of "max (unat a) (unat b)"]
      by (metis add_le_mono max.cobounded1 max.cobounded2 mult_le_mono1)
  qed
  have m: "max (unat a) (unat b) \<le> 255" by simp
  have "?x \<le> 255 * 1024" using le(2) mult_le_mono1 [OF m, of 1024] by (rule le_trans)
  then have small: "?x < 2 ^ 32" by (rule le_less_trans) simp
  have parts: "unat (ucast a * (1024 - q) :: u32) = unat a * (1024 - unat q)" "unat (ucast b * q :: u32) = unat b * unat q"
    using small by (subst unat_mult_u32; simp add: unat_ucast_up q)+
  have "unat (ucast a * (1024 - q) + ucast b * q :: u32) = ?x"
    using small by (subst unat_plus_u32) (simp_all add: parts)
  then have "unat (blend_channel q a b) = take_bit 8 (?x div 1024)"
    by (simp add: blend_channel_def unsigned_ucast_eq unat_drop_bit_eq drop_bit_eq_div unat_div)
  moreover have "?x div 1024 < 2 ^ 8" using div_le_mono [OF \<open>?x \<le> 255 * 1024\<close>, of 1024] by simp
  ultimately have "unat (blend_channel q a b) = ?x div 1024" by (simp add: take_bit_nat_eq_self)
  moreover have "min (unat a) (unat b) \<le> ?x div 1024" using le(1) by (simp add: less_eq_div_iff_mult_less_eq)
  moreover have "?x div 1024 \<le> max (unat a) (unat b)" using div_le_mono [OF le(2), of 1024] by simp
  ultimately show ?thesis by (auto simp: word_le_nat_alt min_def max_def split: if_splits)
qed

text \<open>C23: A drifting wash stays between its anchors and returns to the first. Whatever the clock, each
  channel of the colour that a refresh sends lies between the two anchors, no intermediate result
  overflows, and at the start of the wash and after every whole cycle it is exactly the first anchor.\<close>

theorem drift_between_anchors:
  "rgb_between (iw_a w) (iw_b w) (wash_colour w now)
    \<and> (j * unat (iw_cycle_ms w) < 2 ^ 32 \<longrightarrow>
        wash_colour w (iw_started_ms w + of_nat (j * unat (iw_cycle_ms w))) = iw_a w)"
proof -
  obtain r g b r' g' b' where rgb: "iw_a w = (r, g, b)" "iw_b w = (r', g', b')" by (metis surj_pair)
  show ?thesis
  proof (cases "iw_cycle_ms w = 0")
    case True
    then show ?thesis by (simp add: wash_colour_def rgb)
  next
    case False
    let ?c = "ucast (iw_cycle_ms w) :: u32"
    have c: "0 < ?c" "unat ?c < 65536" "unat ?c = unat (iw_cycle_ms w)"
      using False unat_u16_less [of "iw_cycle_ms w"]
      by (simp_all add: unat_ucast_up word_neq_0_conv [symmetric] word_unat_eq_iff)
    have bt: "rgb_between (iw_a w) (iw_b w) (wash_colour w now)"
      using blend_channel_between [OF drift_blend_range [OF c(1,2), of "now - iw_started_ms w"]]
      by (simp add: wash_colour_def compute_drift_rgb_def rgb Let_def)
    have "wash_colour w (iw_started_ms w + of_nat (j * unat (iw_cycle_ms w))) = iw_a w"
      if "j * unat (iw_cycle_ms w) < 2 ^ 32"
    proof -
      have "unat (of_nat (j * unat (iw_cycle_ms w)) :: u32) = j * unat (iw_cycle_ms w)"
        using that by (simp add: unat_of_nat take_bit_nat_eq_self del: of_nat_mult)
      then have "of_nat (j * unat (iw_cycle_ms w)) mod ?c = (0 :: u32)"
        by (simp add: word_unat_eq_iff unat_mod c(3) del: of_nat_mult)
      then have z: "drift_blend_q10 (of_nat (j * unat (iw_cycle_ms w))) ?c = 0"
        by (simp add: drift_blend_q10_def del: of_nat_mult)
      have a: "blend_channel 0 x y = x" for x y
        using blend_channel_between [of 0 x x] by (auto simp: blend_channel_def intro: antisym)
      show ?thesis using False z a by (simp add: wash_colour_def compute_drift_rgb_def rgb del: of_nat_mult)
    qed
    with bt show ?thesis by simp
  qed
qed


text \<open>The comparison with the next refresh does not survive the wrap of the clock: a refresh whose successor
  lies past the wrap is due again at every tick until the clock wraps.\<close>

lemma refresh_floods_before_wrap:
  "iw_active w \<Longrightarrow> now + iw_refresh_interval_ms w < now \<Longrightarrow> now \<le> now' \<Longrightarrow>
    refresh_due now' (w\<lparr> iw_next_refresh_ms := now + iw_refresh_interval_ms w \<rparr>)"
  by (auto simp: refresh_due_def)

section \<open>Behind the DAL\<close>

text \<open>The calls that \<open>DAL\<close> hands the driver.\<close>

fun ir_local_call :: "local_call \<Rightarrow> ir_env \<Rightarrow> pixmob_ir \<Rightarrow> ir_tx list \<times> pixmob_ir" where
  "ir_local_call (LcPulse grp ev) e s = snd (ir_send grp ev e s)"
| "ir_local_call (LcWash grp ev) e s = snd (ir_send_wash grp ev e s)"
| "ir_local_call (LcWashEnd grp release_time) e s = snd (ir_send_wash_end grp release_time e s)"
| "ir_local_call (LcWashPulse grp ev) e s = snd (ir_send_wash_pulse grp ev e s)"

lemma ir_send_wash_ok: "ir_ok s \<Longrightarrow> ir_ok (snd (snd (ir_send_wash grp ev e s)))"
  using refresh_interval_range [of "ew_cycle_ms ev"]
  by (auto simp: ir_ok_def ir_send_wash_def ir_send_wash_end_def Let_def dest!: set_update_subset_insert [THEN subsetD])

lemma ir_send_wash_end_ok: "ir_ok s \<Longrightarrow> ir_ok (snd (snd (ir_send_wash_end grp rt e s)))"
  by (auto simp: ir_ok_def ir_send_wash_end_def Let_def dest!: set_update_subset_insert [THEN subsetD])

lemma ir_send_ok: "ir_ok s \<Longrightarrow> ir_ok (snd (snd (ir_send grp ev e s)))"
  by (auto simp: ir_ok_def ir_send_def Let_def split: prod.split dest!: set_update_subset_insert [THEN subsetD])

lemma ir_send_wash_pulse_ok: "ir_ok s \<Longrightarrow> ir_ok (snd (snd (ir_send_wash_pulse grp ev e s)))"
  using ir_send_ok [of s grp ev e]
  by (auto simp: ir_send_wash_pulse_def Let_def split: prod.split)
    (auto simp: ir_ok_def dest!: set_update_subset_insert [THEN subsetD])

lemma ir_local_call_ok: "ir_ok s \<Longrightarrow> ir_ok (snd (ir_local_call c e s))"
  by (cases c) (simp_all add: ir_send_ok ir_send_wash_ok ir_send_wash_end_ok ir_send_wash_pulse_ok)

text \<open>The bracelets do not dim. The intensity of a wash plays no part in what the driver sends: with at least
  one channel set, a wash whose intensity is zero (the master fader down) sends the same commands and
  keeps the same slot as at full intensity, and a bracelet hears its undimmed anchor colour.\<close>

theorem intensity_ignored:
  assumes "seen e s" and "unat grp < kIrWashSlots" and "ew_cycle_ms ev = 0"
    and "(ew_r1 ev, ew_g1 ev, ew_b1 ev) \<noteq> (0, 0, 0)"
  shows "ir_local_call (LcWash grp (ev\<lparr> ew_intensity := 0 \<rparr>)) e s = ir_local_call (LcWash grp ev) e s
    \<and> heard (fst (ir_local_call (LcWash grp (ev\<lparr> ew_intensity := 0 \<rparr>)) e s))
      = [on_air (wash_hold grp (ew_r1 ev, ew_g1 ev, ew_b1 ev))]"
  using assms refresh_heard [OF assms(1), of "unat grp"]
  by (auto simp: ir_send_wash_def Let_def wash_colour_def)

section \<open>Examples\<close>

definition ir_env_at :: "nat \<Rightarrow> ir_env" where
  "ir_env_at t = \<lparr> ie_now = of_nat t, ie_after = of_nat t + 30, ie_roll = 7, ie_ir = True, ie_ext = False \<rparr>"

definition teal_wash :: light_wash_event where
  "teal_wash = \<lparr> ew_r1 = 0, ew_g1 = 120, ew_b1 = 120, ew_r2 = 200, ew_g2 = 0, ew_b2 = 120, ew_attack = 0,
     ew_release = 5, ew_intensity = 200, ew_cycle_ms = 0, ew_ttl_seconds = 0, ew_pulse_response = 0,
     ew_led_mode = 0, ew_led_modifier1 = 0, ew_led_modifier2 = 0 \<rparr>"

definition ir_sample :: pixmob_ir where
  "ir_sample = snd (snd (ir_send_wash 2 teal_wash (ir_env_at 1000) pixmob_ir_init))"

definition spark :: rgb_pulse_event where
  "spark = \<lparr> rp_r = 252, rp_g = 0, rp_b = 8, rp_attack = T_0_MS, rp_sustain = T_0_MS, rp_release = T_192_MS,
     rp_chance = CHANCE_16, rp_led_mode = 0, rp_led_modifier1 = 0, rp_led_modifier2 = 0 \<rparr>"

lemma ir_init_ok: "ir_ok pixmob_ir_init"
  by (simp add: ir_ok_def pixmob_ir_init_def no_ir_wash_def)

lemma ir_sample_slot: "pi_slots ir_sample ! 2 = \<lparr> iw_active = True, iw_a = (0, 120, 120), iw_b = (200, 0, 120),
    iw_cycle_ms = 0, iw_attack_100ms = 0, iw_started_ms = 1000, iw_next_refresh_ms = 4000, iw_refresh_interval_ms = 3000 \<rparr>"
    "pi_internal ir_sample"
  by (simp_all add: ir_sample_def ir_send_wash_def teal_wash_def pixmob_ir_init_def ir_env_at_def refresh_interval_def Let_def)

theorem sparkle_returns_to_wash_witness:
  "\<exists>tx. ir_send 2 spark (ir_env_at 1500) ir_sample = (True, tx, ir_sample)
    \<and> heard tx = [SingleColor 252 0 8 T_0_MS T_32_MS T_0_MS CHANCE_100 2,
                  SingleColor 0 120 120 T_0_MS T_3840_MS T_0_MS CHANCE_100 2]"
proof -
  have h: "seen (ir_env_at 1500) ir_sample" by (simp add: seen_def ir_sample_slot ir_env_at_def)
  have c: "\<not> chance_skipped (rp_chance spark) (ie_roll (ir_env_at 1500))"
    by (simp add: chance_skipped_def spark_def ir_env_at_def kRenderThreshold_def should_prefilter_chance_def)
  have ok: "ir_ok ir_sample" unfolding ir_sample_def by (rule ir_send_wash_ok [OF ir_init_ok])
  show ?thesis
    using sparkle_returns_to_wash [OF h, of 2 spark, folded chance_skipped_def] c ok
    by (auto simp: ir_sample_slot spark_def envelope_of_def ir_time_to_ms_def kPixmobTimeMs_def wash_hold_def
        wash_colour_def sparkle_chance_def should_prefilter_chance_def)
qed

theorem bracelet_wash_held_witness:
  "\<exists>b \<in> set ((1000, fst (snd (ir_send_wash 2 teal_wash (ir_env_at 1000) pixmob_ir_init)))
      # fst (ir_ticks ir_env_at [1700, 2500, 3300, 4100] ir_sample)).
    holds_group 2 (pi_slots ir_sample ! 2) b \<and> fst b \<le> 4900 \<and> 4900 < fst b + 3840"
proof -
  have "\<exists>ok tx0 s0. ir_send_wash 2 teal_wash (ir_env_at 1000) pixmob_ir_init = (ok, tx0, s0)" by (metis surj_pair)
  then obtain ok tx0 where w: "ir_send_wash 2 teal_wash (ir_env_at 1000) pixmob_ir_init = (ok, tx0, ir_sample)"
    by (auto simp: ir_sample_def)
  have split: "\<exists>tx. fst (ir_ticks ir_env_at (ts @ [t]) s) = fst (ir_ticks ir_env_at ts s) @ (t, tx) # []" for ts t s
    by (induction ts arbitrary: s) (auto simp: split_beta)
  obtain tx where s: "fst (ir_ticks ir_env_at [1700, 2500, 3300, 4100, 4900] ir_sample)
      = fst (ir_ticks ir_env_at [1700, 2500, 3300, 4100] ir_sample) @ (4900, tx) # []"
    using split [of "[1700, 2500, 3300, 4100]" 4900 ir_sample] unfolding append.simps by blast
  have g: "\<forall>j < length [1700, 2500, 3300, 4100, 4900 :: nat].
      [1700, 2500, 3300, 4100, 4900] ! j \<le> [1000, 1700, 2500, 3300, 4100, 4900] ! j + (840 :: nat)"
    by (auto simp: less_Suc_eq nth_Cons')
  show ?thesis
    using bracelet_wash_held [of ir_env_at 2 pixmob_ir_init teal_wash 1000 ok tx0 ir_sample "[1700, 2500, 3300, 4100, 4900]" 840,
        OF _ _ _ _ _ w _ g _ _ s] w
    by (simp add: clock_env_def ir_env_at_def pixmob_ir_init_def teal_wash_def)
qed

theorem drift_between_anchors_witness:
  "wash_colour ((pi_slots ir_sample ! 2)\<lparr> iw_cycle_ms := 5000 \<rparr>) (1000 + of_nat (3 * 5000)) = (0, 120, 120)"
  using drift_between_anchors [of "(pi_slots ir_sample ! 2)\<lparr> iw_cycle_ms := 5000 \<rparr>" 0 3]
  by (simp add: ir_sample_slot)

theorem intensity_ignored_witness:
  "heard (fst (ir_local_call (LcWash 2 (teal_wash\<lparr> ew_intensity := 0 \<rparr>)) (ir_env_at 0) pixmob_ir_init))
    = [SingleColor 0 120 120 T_0_MS T_3840_MS T_0_MS CHANCE_100 2]"
proof -
  have "seen (ir_env_at 0) pixmob_ir_init" by (simp add: seen_def ir_env_at_def pixmob_ir_init_def)
  moreover have "ew_cycle_ms teal_wash = 0" "ew_r1 teal_wash = 0" "ew_g1 teal_wash = 120" "ew_b1 teal_wash = 120"
    by (simp_all add: teal_wash_def)
  ultimately show ?thesis
    using intensity_ignored [of "ir_env_at 0" pixmob_ir_init 2 teal_wash] by (auto simp: wash_hold_def)
qed

end
