(* ===== verification/PropertyBag.thy ===== *)
theory PropertyBag
  imports Noct_Prelude
begin

text \<open>
  The property bags of the plugins (\<open>src/plugins/property_bag.cpp\<close>, \<open>include/plugins/plugin.h\<close>): typed, bounded
  settings of shows, visualisations and bindings. The firmware's bag keeps them in NVS behind a
  write-through cache of eight entries; the native build keeps them in one vector. A property value is
  the tagged union of the source: a type and the 32 bits of the union, read little-endian. The
  \<open>Preferences\<close> library is the typed map \<open>flash\<close>, with what it may refuse (opening a namespace, storing
  an entry) in the environment. The locale \<open>property_store\<close> is the contract of a bag; both builds
  implement it.
\<close>

section \<open>Values and schemas\<close>

datatype PropertyType = PropBool | PropU8 | PropU16 | PropColour | PropEnum

record property_value =
  pv_type :: PropertyType
  pv_raw :: u32

definition no_property :: property_value where
  "no_property = \<lparr> pv_type = PropBool, pv_raw = 0 \<rparr>"

definition from_bool :: "bool \<Rightarrow> property_value" where
  "from_bool v = \<lparr> pv_type = PropBool, pv_raw = (if v then 1 else 0) \<rparr>"

definition from_u8 :: "u8 \<Rightarrow> property_value" where
  "from_u8 v = \<lparr> pv_type = PropU8, pv_raw = ucast v \<rparr>"

definition from_u16 :: "u16 \<Rightarrow> property_value" where
  "from_u16 v = \<lparr> pv_type = PropU16, pv_raw = ucast v \<rparr>"

definition from_colour :: "u32 \<Rightarrow> property_value" where
  "from_colour v = \<lparr> pv_type = PropColour, pv_raw = v \<rparr>"

definition from_enum :: "u8 \<Rightarrow> property_value" where
  "from_enum v = \<lparr> pv_type = PropEnum, pv_raw = ucast v \<rparr>"

definition as_bool :: "property_value \<Rightarrow> bool" where
  "as_bool p \<longleftrightarrow> (ucast (pv_raw p) :: u8) \<noteq> 0"

definition as_u8 :: "property_value \<Rightarrow> u8" where
  "as_u8 p = ucast (pv_raw p)"

definition as_u16 :: "property_value \<Rightarrow> u16" where
  "as_u16 p = ucast (pv_raw p)"

definition as_colour :: "property_value \<Rightarrow> u32" where
  "as_colour p = pv_raw p"

definition as_enum :: "property_value \<Rightarrow> u8" where
  "as_enum p = ucast (pv_raw p)"

record property_def =
  pd_key :: "string option"
  pd_type :: PropertyType
  pd_default :: property_value
  pd_min :: property_value
  pd_max :: property_value

datatype PluginKind = Visualisation | OutputBinding | Show

record plugin =
  pg_kind :: PluginKind
  pg_id :: "string option"
  pg_properties :: "property_def list"

definition find_def :: "plugin \<Rightarrow> string option \<Rightarrow> property_def option" where
  "find_def p key =
     (case key of None \<Rightarrow> None | Some k \<Rightarrow> find (\<lambda>d. pd_key d = Some k) (pg_properties p))"

definition clamp :: "'a::linorder \<Rightarrow> 'a \<Rightarrow> 'a \<Rightarrow> 'a" where
  "clamp lo hi v = (let v = (if v < lo then lo else v) in if v > hi then hi else v)"

definition clamp_to_bounds :: "property_def \<Rightarrow> property_value \<Rightarrow> property_value" where
  "clamp_to_bounds d v =
     (case pd_type d of
        PropU8 \<Rightarrow> from_u8 (clamp (as_u8 (pd_min d)) (as_u8 (pd_max d)) (as_u8 v))
      | PropU16 \<Rightarrow> from_u16 (clamp (as_u16 (pd_min d)) (as_u16 (pd_max d)) (as_u16 v))
      | PropEnum \<Rightarrow> from_enum (clamp (as_enum (pd_min d)) (as_enum (pd_max d)) (as_enum v))
      | _ \<Rightarrow> v)"

fun kind_prefix :: "PluginKind \<Rightarrow> string" where
  "kind_prefix Visualisation = ''nv_''"
| "kind_prefix OutputBinding = ''nb_''"
| "kind_prefix Show = ''ns_''"

definition compose_namespace :: "plugin \<Rightarrow> string" where
  "compose_namespace p =
     (let pid = (case pg_id p of None \<Rightarrow> ''unknown'' | Some s \<Rightarrow> if s = [] then ''unknown'' else s)
      in kind_prefix (pg_kind p) @ take 12 pid)"

section \<open>Flash\<close>

datatype flash_item = FlashU8 u8 | FlashU16 u16 | FlashU32 u32

type_synonym flash = "string \<times> string \<Rightarrow> flash_item option"

record prefs_env =
  pe_open_read :: bool
  pe_open_write :: bool
  pe_put :: bool

definition get_uchar :: "flash \<Rightarrow> string \<Rightarrow> string \<Rightarrow> u8 \<Rightarrow> u8" where
  "get_uchar fl ns k d = (case fl (ns, k) of Some (FlashU8 v) \<Rightarrow> v | _ \<Rightarrow> d)"

definition get_bool :: "flash \<Rightarrow> string \<Rightarrow> string \<Rightarrow> bool \<Rightarrow> bool" where
  "get_bool fl ns k d \<longleftrightarrow> get_uchar fl ns k (if d then 1 else 0) = 1"

definition get_ushort :: "flash \<Rightarrow> string \<Rightarrow> string \<Rightarrow> u16 \<Rightarrow> u16" where
  "get_ushort fl ns k d = (case fl (ns, k) of Some (FlashU16 v) \<Rightarrow> v | _ \<Rightarrow> d)"

definition get_uint :: "flash \<Rightarrow> string \<Rightarrow> string \<Rightarrow> u32 \<Rightarrow> u32" where
  "get_uint fl ns k d = (case fl (ns, k) of Some (FlashU32 v) \<Rightarrow> v | _ \<Rightarrow> d)"

definition read_from_nvs :: "prefs_env \<Rightarrow> flash \<Rightarrow> string \<Rightarrow> string \<Rightarrow> property_def \<Rightarrow> property_value" where
  "read_from_nvs e fl ns k d =
     (if \<not> pe_open_read e then pd_default d
      else clamp_to_bounds d
        (if fl (ns, k) = None then pd_default d
         else case pd_type d of
             PropBool \<Rightarrow> from_bool (get_bool fl ns k (as_bool (pd_default d)))
           | PropU8 \<Rightarrow> from_u8 (get_uchar fl ns k (as_u8 (pd_default d)))
           | PropEnum \<Rightarrow> from_enum (get_uchar fl ns k (as_u8 (pd_default d)))
           | PropU16 \<Rightarrow> from_u16 (get_ushort fl ns k (as_u16 (pd_default d)))
           | PropColour \<Rightarrow> from_colour (get_uint fl ns k (as_colour (pd_default d)))))"

definition item_of :: "property_def \<Rightarrow> property_value \<Rightarrow> flash_item" where
  "item_of d v =
     (case pd_type d of
        PropBool \<Rightarrow> FlashU8 (if as_bool v then 1 else 0)
      | PropU8 \<Rightarrow> FlashU8 (as_u8 v)
      | PropU16 \<Rightarrow> FlashU16 (as_u16 v)
      | PropColour \<Rightarrow> FlashU32 (as_colour v)
      | PropEnum \<Rightarrow> FlashU8 (as_enum v))"

definition write_to_nvs ::
    "prefs_env \<Rightarrow> flash \<Rightarrow> string \<Rightarrow> string \<Rightarrow> property_def \<Rightarrow> property_value \<Rightarrow> bool \<times> flash" where
  "write_to_nvs e fl ns k d v =
     (if \<not> pe_open_write e then (False, fl)
      else
        let put = (pe_put e \<and> length k \<le> 15);
            fl' = (if put then fl((ns, k) \<mapsto> item_of d v) else fl) in
        (put \<or> (pd_type d = PropBool \<and> get_bool fl' ns k False = as_bool v), fl'))"

section \<open>The firmware's bag\<close>

abbreviation kCacheSize :: nat where "kCacheSize \<equiv> 8"

record bag =
  bg_plugin :: plugin
  bg_cache :: "(string \<times> property_value) option list"
  bg_flash :: flash

definition bag_new :: "plugin \<Rightarrow> flash \<Rightarrow> bag" where
  "bag_new p fl = \<lparr> bg_plugin = p, bg_cache = replicate kCacheSize None, bg_flash = fl \<rparr>"

definition holds_key :: "string \<Rightarrow> (string \<times> property_value) option \<Rightarrow> bool" where
  "holds_key k c = (case c of None \<Rightarrow> False | Some (k', v) \<Rightarrow> k' = k)"

definition find_cache_slot :: "string \<Rightarrow> (string \<times> property_value) option list \<Rightarrow> nat option" where
  "find_cache_slot k = find_idx (holds_key k)"

definition free_cache_slot :: "(string \<times> property_value) option list \<Rightarrow> nat" where
  "free_cache_slot cache = (case find_idx (\<lambda>c. c = None) cache of Some i \<Rightarrow> i | None \<Rightarrow> 0)"

definition cache_put ::
    "string \<Rightarrow> property_value \<Rightarrow> (string \<times> property_value) option list \<Rightarrow> (string \<times> property_value) option list" where
  "cache_put k v cache =
     (let slot = (case find_cache_slot k cache of Some i \<Rightarrow> i | None \<Rightarrow> free_cache_slot cache)
      in cache[slot := Some (take 15 k, v)])"

definition cached :: "string \<Rightarrow> (string \<times> property_value) option list \<Rightarrow> property_value option" where
  "cached k cache = (case find_cache_slot k cache of None \<Rightarrow> None | Some i \<Rightarrow> map_option snd (cache ! i))"

definition bag_get :: "prefs_env \<Rightarrow> string option \<Rightarrow> bag \<Rightarrow> property_value \<times> bag" where
  "bag_get e key b =
     (case find_def (bg_plugin b) key of
        None \<Rightarrow> (no_property, b)
      | Some d \<Rightarrow>
          (case cached (the key) (bg_cache b) of
             Some v \<Rightarrow> (clamp_to_bounds d v, b)
           | None \<Rightarrow>
               let v = read_from_nvs e (bg_flash b) (compose_namespace (bg_plugin b)) (the key) d
               in (v, b\<lparr> bg_cache := cache_put (the key) v (bg_cache b) \<rparr>)))"

definition bag_set :: "prefs_env \<Rightarrow> string option \<Rightarrow> property_value \<Rightarrow> bag \<Rightarrow> bool \<times> bag" where
  "bag_set e key v b =
     (case find_def (bg_plugin b) key of
        None \<Rightarrow> (False, b)
      | Some d \<Rightarrow>
          if pd_type d \<noteq> pv_type v then (False, b)
          else
            let clamped = clamp_to_bounds d v;
                (ok, fl) = write_to_nvs e (bg_flash b) (compose_namespace (bg_plugin b)) (the key) d clamped;
                b1 = b\<lparr> bg_flash := fl \<rparr>
            in (ok, if ok then b1\<lparr> bg_cache := cache_put (the key) clamped (bg_cache b1) \<rparr> else b1))"

section \<open>The native bag\<close>

record native_entry =
  ne_ns :: string
  ne_key :: string
  ne_value :: property_value

definition native_find :: "string \<Rightarrow> string \<Rightarrow> native_entry list \<Rightarrow> property_value option" where
  "native_find ns k es = map_option ne_value (find (\<lambda>e. ne_ns e = ns \<and> ne_key e = k) es)"

fun native_put :: "string \<Rightarrow> string \<Rightarrow> property_value \<Rightarrow> native_entry list \<Rightarrow> native_entry list" where
  "native_put ns k v [] = [\<lparr> ne_ns = ns, ne_key = k, ne_value = v \<rparr>]"
| "native_put ns k v (e # es) =
     (if ne_ns e = ns \<and> ne_key e = k then e\<lparr> ne_value := v \<rparr> # es else e # native_put ns k v es)"

definition native_get :: "plugin \<Rightarrow> string option \<Rightarrow> native_entry list \<Rightarrow> property_value" where
  "native_get p key es =
     (case find_def p key of
        None \<Rightarrow> no_property
      | Some d \<Rightarrow>
          clamp_to_bounds d (case native_find (compose_namespace p) (the key) es of
            Some v \<Rightarrow> v | None \<Rightarrow> pd_default d))"

definition native_set :: "plugin \<Rightarrow> string option \<Rightarrow> property_value \<Rightarrow> native_entry list \<Rightarrow> bool \<times> native_entry list" where
  "native_set p key v es =
     (case find_def p key of
        None \<Rightarrow> (False, es)
      | Some d \<Rightarrow>
          if pd_type d \<noteq> pv_type v then (False, es)
          else (True, native_put (compose_namespace p) (the key) (clamp_to_bounds d v) es))"

section \<open>Runs of calls\<close>

text \<open>
  What a caller does with a bag, and the abstract store both builds implement: one value per key, a
  write accepted exactly when the key is declared and the type is its declared one.
\<close>

datatype bag_call = Get "string option" | Put "string option" property_value

datatype bag_reply = Got property_value | Taken bool

fun run_calls ::
    "(string option \<Rightarrow> 's \<Rightarrow> property_value \<times> 's) \<Rightarrow> (string option \<Rightarrow> property_value \<Rightarrow> 's \<Rightarrow> bool \<times> 's) \<Rightarrow>
     bag_call list \<Rightarrow> 's \<Rightarrow> bag_reply list \<times> 's" where
  "run_calls get put [] s = ([], s)"
| "run_calls get put (Get k # cs) s =
     (let (v, s1) = get k s; (rs, s2) = run_calls get put cs s1 in (Got v # rs, s2))"
| "run_calls get put (Put k v # cs) s =
     (let (ok, s1) = put k v s; (rs, s2) = run_calls get put cs s1 in (Taken ok # rs, s2))"

definition spec_get :: "string option \<Rightarrow> (string option \<Rightarrow> property_value) \<Rightarrow> property_value \<times> (string option \<Rightarrow> property_value)" where
  "spec_get k m = (m k, m)"

definition spec_set ::
    "plugin \<Rightarrow> string option \<Rightarrow> property_value \<Rightarrow> (string option \<Rightarrow> property_value) \<Rightarrow> bool \<times> (string option \<Rightarrow> property_value)" where
  "spec_set p k v m =
     (case find_def p k of
        Some d \<Rightarrow> if pd_type d = pv_type v then (True, m(k := clamp_to_bounds d v)) else (False, m)
      | None \<Rightarrow> (False, m))"

text \<open>A value a constructor of \<open>PropertyValue\<close> can build: nothing above its member's width.\<close>

fun wf_value :: "property_value \<Rightarrow> bool" where
  "wf_value v = (case pv_type v of
      PropBool \<Rightarrow> pv_raw v \<le> 1
    | PropU8 \<Rightarrow> pv_raw v < 256
    | PropEnum \<Rightarrow> pv_raw v < 256
    | PropU16 \<Rightarrow> pv_raw v < 65536
    | PropColour \<Rightarrow> True)"

fun wf_call :: "bag_call \<Rightarrow> bool" where
  "wf_call (Get k) = True"
| "wf_call (Put k v) = wf_value v"

locale property_store =
  fixes p :: plugin
    and get :: "string option \<Rightarrow> 's \<Rightarrow> property_value \<times> 's"
    and put :: "string option \<Rightarrow> property_value \<Rightarrow> 's \<Rightarrow> bool \<times> 's"
    and inv :: "'s \<Rightarrow> bool"
    and view :: "'s \<Rightarrow> string option \<Rightarrow> property_value"
  assumes get_ok: "inv s \<Longrightarrow> fst (get k s) = view s k \<and> view (snd (get k s)) = view s \<and> inv (snd (get k s))"
    and put_ok: "inv s \<Longrightarrow> wf_value v \<Longrightarrow>
      (fst (put k v s), view (snd (put k v s))) = spec_set p k v (view s) \<and> inv (snd (put k v s))"
begin

lemma run_refines:
  assumes "inv s" and "\<forall>c \<in> set cs. wf_call c"
  shows "(fst (run_calls get put cs s), view (snd (run_calls get put cs s))) = run_calls spec_get (spec_set p) cs (view s)
    \<and> inv (snd (run_calls get put cs s))"
  using assms
proof (induction cs arbitrary: s)
  case Nil
  then show ?case by simp
next
  case (Cons c cs)
  show ?case
  proof (cases c)
    case (Get k)
    then show ?thesis using Cons.IH [of "snd (get k s)"] get_ok [OF Cons.prems(1), of k] Cons.prems(2)
      by (auto simp: spec_get_def split: prod.splits)
  next
    case (Put k v)
    then show ?thesis using Cons.IH [of "snd (put k v s)"] put_ok [OF Cons.prems(1), of v k] Cons.prems(2)
      by (auto split: prod.splits)
  qed
qed

end

section \<open>Clamping\<close>

lemma clamp_idem [simp]: "clamp lo hi (clamp lo hi v) = clamp lo hi v"
  by (auto simp: clamp_def Let_def)

lemma clamp_within: "lo \<le> hi \<Longrightarrow> lo \<le> clamp lo hi v \<and> clamp lo hi v \<le> hi"
  by (auto simp: clamp_def Let_def)

lemma narrow_wide [simp]: "ucast (ucast (x :: u8) :: u32) = x" "ucast (ucast (y :: u16) :: u32) = y"
  by (auto intro!: bit_word_eqI simp: bit_simps)

lemma as_from [simp]:
  "as_u8 (from_u8 x) = x" "as_enum (from_enum x) = x" "as_u16 (from_u16 y) = y" "as_bool (from_bool b) = b"
  "as_colour (from_colour z) = z"
  by (simp_all add: as_u8_def from_u8_def as_enum_def from_enum_def as_u16_def from_u16_def as_bool_def from_bool_def
      as_colour_def from_colour_def)

lemma clamp_to_bounds_idem [simp]: "clamp_to_bounds d (clamp_to_bounds d v) = clamp_to_bounds d v"
  by (auto simp: clamp_to_bounds_def split: PropertyType.split)

lemma from_type [simp]:
  "pv_type (from_u8 x) = PropU8" "pv_type (from_enum x) = PropEnum" "pv_type (from_u16 y) = PropU16"
  "pv_type (from_bool b) = PropBool" "pv_type (from_colour z) = PropColour"
  by (simp_all add: from_u8_def from_enum_def from_u16_def from_bool_def from_colour_def)

lemma from_bool_as_bool: "pv_type v = PropBool \<Longrightarrow> pv_raw v \<le> 1 \<Longrightarrow> from_bool (as_bool v) = v"
proof -
  assume "pv_type v = PropBool" "pv_raw v \<le> 1"
  moreover from this have "pv_raw v = 0 \<or> pv_raw v = 1" by unat_arith
  ultimately show "from_bool (as_bool v) = v" by (cases v) (auto simp: from_bool_def as_bool_def)
qed

lemma from_colour_as_colour: "pv_type v = PropColour \<Longrightarrow> from_colour (as_colour v) = v"
  by (cases v) (simp add: from_colour_def as_colour_def)

text \<open>What a working flash gives back of a stored value.\<close>

abbreviation prefs_work :: prefs_env where
  "prefs_work \<equiv> \<lparr> pe_open_read = True, pe_open_write = True, pe_put = True \<rparr>"

lemma read_stored:
  assumes "fl (ns, k) = Some (item_of d (clamp_to_bounds d v))" and "pd_type d = pv_type v" and "wf_value v"
  shows "read_from_nvs prefs_work fl ns k d = clamp_to_bounds d v"
proof (cases "pd_type d")
  case PropBool
  then show ?thesis using assms from_bool_as_bool [of v]
    by (simp add: read_from_nvs_def item_of_def get_bool_def get_uchar_def clamp_to_bounds_def split: if_splits)
next
  case PropColour
  then show ?thesis using assms from_colour_as_colour [of v]
    by (simp add: read_from_nvs_def item_of_def get_uint_def clamp_to_bounds_def)
qed (use assms in \<open>simp_all add: read_from_nvs_def item_of_def get_uchar_def get_ushort_def clamp_to_bounds_def\<close>)

section \<open>The cache\<close>

text \<open>No key sits in two slots.\<close>

definition keys_unique :: "(string \<times> property_value) option list \<Rightarrow> bool" where
  "keys_unique c \<longleftrightarrow>
     (\<forall>i < length c. \<forall>j < length c. \<forall>k. holds_key k (c ! i) \<longrightarrow> holds_key k (c ! j) \<longrightarrow> i = j)"

lemma holds_key_simps [simp]: "\<not> holds_key k None" "holds_key k (Some (k', v)) \<longleftrightarrow> k' = k"
  by (simp_all add: holds_key_def)

lemma length_cache_put [simp]: "length (cache_put k v c) = length c"
  by (simp add: cache_put_def Let_def)

text \<open>The slot a write takes: the key's own, and otherwise one of a key that is not this one.\<close>

lemma cache_put_slot:
  assumes "keys_unique c" and "length k \<le> 15" and "c \<noteq> []"
  obtains i where "cache_put k v c = c[i := Some (k, v)]" and "i < length c"
    and "\<And>j. j < length c \<Longrightarrow> holds_key k (c ! j) \<Longrightarrow> j = i"
proof (cases "find_cache_slot k c")
  case None
  then have "\<And>j. j < length c \<Longrightarrow> \<not> holds_key k (c ! j)"
    by (simp add: find_cache_slot_def find_idx_None)
  moreover have "cache_put k v c = c[free_cache_slot c := Some (k, v)]"
    using None assms(2) by (simp add: cache_put_def)
  moreover have "free_cache_slot c < length c"
    using assms(3) by (auto simp: free_cache_slot_def dest: find_idx_lessD split: option.splits)
  ultimately show ?thesis using that by blast
next
  case (Some i)
  then have "i < length c" "holds_key k (c ! i)"
    by (simp_all add: find_cache_slot_def find_idx_SomeD)
  moreover have "\<And>j. j < length c \<Longrightarrow> holds_key k (c ! j) \<Longrightarrow> j = i"
    using assms(1) calculation unfolding keys_unique_def by blast
  moreover have "cache_put k v c = c[i := Some (k, v)]" using Some assms(2) by (simp add: cache_put_def)
  ultimately show ?thesis using that by blast
qed

lemma keys_unique_put:
  assumes "keys_unique c" and "length k \<le> 15" and "c \<noteq> []"
  shows "keys_unique (cache_put k v c)"
proof -
  obtain i where put: "cache_put k v c = c[i := Some (k, v)]" and i: "i < length c"
    and other: "\<And>j. j < length c \<Longrightarrow> holds_key k (c ! j) \<Longrightarrow> j = i"
    using cache_put_slot [OF assms, of v] by blast
  have old: "holds_key k' (c ! j)" if "holds_key k' (c[i := Some (k, v)] ! j)" "j \<noteq> i" for j k'
    using that by simp
  have new: "k' = k" if "holds_key k' (c[i := Some (k, v)] ! i)" for k'
    using that i by simp
  have "a = b" if "a < length c" "b < length c" "holds_key k' (c[i := Some (k, v)] ! a)"
    "holds_key k' (c[i := Some (k, v)] ! b)" for a b k'
  proof -
    consider "a = i" "b = i" | "a = i" "b \<noteq> i" | "a \<noteq> i" "b = i" | "a \<noteq> i" "b \<noteq> i" by blast
    then show ?thesis
    proof cases
      case 2
      then have "holds_key k (c ! b)" using that new [of k'] old [of k' b] by simp
      then show ?thesis using 2 other [OF that(2)] by simp
    next
      case 3
      then have "holds_key k (c ! a)" using that new [of k'] old [of k' a] by simp
      then show ?thesis using 3 other [OF that(1)] by simp
    next
      case 4
      then show ?thesis using that old [of k'] assms(1) unfolding keys_unique_def by blast
    qed simp
  qed
  then show ?thesis unfolding put keys_unique_def by auto
qed

text \<open>What a write leaves: the written entry, and old entries of other keys.\<close>

lemma cache_put_entry:
  assumes "keys_unique c" and "length k \<le> 15" and "Some (k', v') \<in> set (cache_put k v c)"
  shows "(k' = k \<and> v' = v) \<or> (k' \<noteq> k \<and> Some (k', v') \<in> set c)"
proof -
  have "c \<noteq> []" using assms(3) by (auto simp: cache_put_def Let_def)
  then obtain i where put: "cache_put k v c = c[i := Some (k, v)]" and i: "i < length c"
    and other: "\<And>j. j < length c \<Longrightarrow> holds_key k (c ! j) \<Longrightarrow> j = i"
    using cache_put_slot [OF assms(1,2)] by blast
  from assms(3) obtain j where j: "j < length c" "c[i := Some (k, v)] ! j = Some (k', v')"
    by (auto simp: put in_set_conv_nth)
  show ?thesis
  proof (cases "j = i")
    case True
    then show ?thesis using j i by simp
  next
    case False
    then have "c ! j = Some (k', v')" using j by simp
    moreover have "k' \<noteq> k" using other [of j] False j(1) calculation by auto
    ultimately show ?thesis using j(1) nth_mem [of j c] by simp
  qed
qed

lemma cached_entry: "cached k c = Some v \<Longrightarrow> Some (k, v) \<in> set c"
  unfolding cached_def find_cache_slot_def
  by (auto split: option.splits dest!: find_idx_SomeD) (metis holds_key_simps(2) nth_mem)

section \<open>Both builds implement the store\<close>

definition schema_ok :: "plugin \<Rightarrow> bool" where
  "schema_ok p \<longleftrightarrow> (\<forall>d \<in> set (pg_properties p). \<forall>k. pd_key d = Some k \<longrightarrow> length k \<le> 15)"

lemma find_defD: "find_def p key = Some d \<Longrightarrow> d \<in> set (pg_properties p) \<and> key \<noteq> None \<and> pd_key d = key"
  unfolding find_def_def by (auto simp: find_Some_iff split: option.splits)

lemma schema_key: "schema_ok p \<Longrightarrow> find_def p (Some k) = Some d \<Longrightarrow> length k \<le> 15"
  by (auto simp: schema_ok_def dest: find_defD)

definition bag_view :: "bag \<Rightarrow> string option \<Rightarrow> property_value" where
  "bag_view b key =
     (case find_def (bg_plugin b) key of
        None \<Rightarrow> no_property
      | Some d \<Rightarrow> read_from_nvs prefs_work (bg_flash b) (compose_namespace (bg_plugin b)) (the key) d)"

definition bag_inv :: "plugin \<Rightarrow> bag \<Rightarrow> bool" where
  "bag_inv p b \<longleftrightarrow>
     bg_plugin b = p \<and> schema_ok p \<and> length (bg_cache b) = kCacheSize \<and> keys_unique (bg_cache b) \<and>
     (\<forall>k v d. Some (k, v) \<in> set (bg_cache b) \<longrightarrow> find_def p (Some k) = Some d \<longrightarrow>
        clamp_to_bounds d v = bag_view b (Some k))"

lemma bag_new_inv: "schema_ok p \<Longrightarrow> bag_inv p (bag_new p fl)"
  by (simp add: bag_inv_def bag_new_def keys_unique_def)

text \<open>A read looks at one item of the flash.\<close>

lemma read_local: "fl (ns, k) = fl' (ns, k) \<Longrightarrow> read_from_nvs e fl ns k d = read_from_nvs e fl' ns k d"
  by (cases "pd_type d") (simp_all add: read_from_nvs_def get_bool_def get_uchar_def get_ushort_def get_uint_def)

lemma read_clamped: "clamp_to_bounds d (read_from_nvs prefs_work fl ns k d) = read_from_nvs prefs_work fl ns k d"
  by (simp add: read_from_nvs_def)

lemma bag_inv_put:
  assumes "bag_inv p b" and "find_def p (Some k) = Some d" and "b' = b\<lparr> bg_flash := fl, bg_cache := cache_put k v (bg_cache b) \<rparr>"
    and "clamp_to_bounds d v = bag_view b' (Some k)" and "\<And>k'. k' \<noteq> k \<Longrightarrow> bag_view b' (Some k') = bag_view b (Some k')"
  shows "bag_inv p b'"
proof -
  have k: "length k \<le> 15" using assms(1,2) schema_key [of p k d] by (simp add: bag_inv_def)
  have "bg_cache b \<noteq> []" using assms(1) by (auto simp: bag_inv_def)
  then have "keys_unique (bg_cache b')" using assms(1,3) k keys_unique_put by (simp add: bag_inv_def)
  moreover have "clamp_to_bounds d' v' = bag_view b' (Some k')"
    if "Some (k', v') \<in> set (bg_cache b')" "find_def p (Some k') = Some d'" for k' v' d'
    using cache_put_entry [of "bg_cache b" k k' v' v] that assms k by (auto simp: bag_inv_def)
  ultimately show ?thesis using assms(1,3) by (simp add: bag_inv_def)
qed

lemma bag_get_ok:
  assumes "bag_inv p b"
  shows "fst (bag_get prefs_work key b) = bag_view b key \<and> bag_view (snd (bag_get prefs_work key b)) = bag_view b
    \<and> bag_inv p (snd (bag_get prefs_work key b))"
proof (cases "find_def p key")
  case None
  then show ?thesis using assms by (simp add: bag_get_def bag_view_def bag_inv_def)
next
  case (Some d)
  then obtain k where k: "key = Some k" by (auto dest: find_defD)
  have p: "bg_plugin b = p" using assms by (simp add: bag_inv_def)
  show ?thesis
  proof (cases "cached k (bg_cache b)")
    case None
    define v where "v = bag_view b (Some k)"
    have get: "bag_get prefs_work key b = (v, b\<lparr> bg_cache := cache_put k v (bg_cache b) \<rparr>)"
      using None Some k p by (simp add: bag_get_def bag_view_def v_def Let_def)
    have view: "bag_view (b\<lparr> bg_cache := cache_put k v (bg_cache b) \<rparr>) = bag_view b"
      by (simp add: bag_view_def fun_eq_iff split: option.split)
    have "clamp_to_bounds d v = v" using Some k p by (simp add: v_def bag_view_def read_clamped)
    then have "bag_inv p (b\<lparr> bg_cache := cache_put k v (bg_cache b) \<rparr>)"
      using bag_inv_put [OF assms, where k = k and d = d and fl = "bg_flash b" and v = v, OF _ refl] Some k view
      by (simp add: v_def)
    then show ?thesis using get view k by (simp add: v_def)
  next
    case (Some v)
    then show ?thesis using assms \<open>find_def p key = Some d\<close> k p cached_entry [of k "bg_cache b" v]
      by (simp add: bag_get_def bag_inv_def)
  qed
qed

lemma namespace_keys_differ: "(key :: string option) \<noteq> Some k \<Longrightarrow> find_def p key = Some d \<Longrightarrow> the key \<noteq> k"
  by (auto dest: find_defD)

lemma bag_view_store:
  assumes "bg_plugin b = p" and "find_def p (Some k) = Some d" and "pd_type d = pv_type v" and "wf_value v"
    and "bg_plugin b' = p" and "bg_flash b' = (bg_flash b)((compose_namespace p, k) \<mapsto> item_of d (clamp_to_bounds d v))"
  shows "bag_view b' = (bag_view b)(Some k := clamp_to_bounds d v)"
proof
  fix key
  show "bag_view b' key = ((bag_view b)(Some k := clamp_to_bounds d v)) key"
  proof (cases "key = Some k")
    case True
    then show ?thesis using assms read_stored [of "bg_flash b'" "compose_namespace p" k d v] by (simp add: bag_view_def)
  next
    case False
    then show ?thesis using assms(1,5,6) namespace_keys_differ [of key k p]
      by (auto simp: bag_view_def intro: read_local split: option.split)
  qed
qed

lemma bag_set_ok:
  assumes "bag_inv p b" and "wf_value v"
  shows "(fst (bag_set prefs_work key v b), bag_view (snd (bag_set prefs_work key v b))) = spec_set p key v (bag_view b)
    \<and> bag_inv p (snd (bag_set prefs_work key v b))"
proof (cases "find_def p key")
  case None
  then show ?thesis using assms by (simp add: bag_set_def spec_set_def bag_inv_def)
next
  case (Some d)
  then obtain k where k: "key = Some k" by (auto dest: find_defD)
  have p: "bg_plugin b = p" "length k \<le> 15" using assms Some k schema_key [of p k d] by (simp_all add: bag_inv_def)
  show ?thesis
  proof (cases "pd_type d = pv_type v")
    case True
    define fl where "fl = (bg_flash b)((compose_namespace p, k) \<mapsto> item_of d (clamp_to_bounds d v))"
    define b' where "b' = b\<lparr> bg_flash := fl, bg_cache := cache_put k (clamp_to_bounds d v) (bg_cache b) \<rparr>"
    have set: "bag_set prefs_work key v b = (True, b')"
      using True Some k p by (simp add: bag_set_def write_to_nvs_def fl_def b'_def Let_def)
    have view: "bag_view b' = (bag_view b)(Some k := clamp_to_bounds d v)"
      using bag_view_store [of b p k d v b'] Some k p True assms(2) by (simp add: b'_def fl_def)
    then have "bag_inv p b'"
      using bag_inv_put [OF assms(1), where k = k and d = d, OF _ b'_def] Some k by simp
    then show ?thesis using set view Some True k by (simp add: spec_set_def)
  next
    case False
    then show ?thesis using assms Some p by (simp add: bag_set_def spec_set_def)
  qed
qed

lemma native_find_put [simp]:
  "native_find ns' k' (native_put ns k v es) = (if ns' = ns \<and> k' = k then Some v else native_find ns' k' es)"
  by (induction es) (auto simp: native_find_def)

lemma native_get_ok: "fst (native_get p k es, es) = native_get p k es \<and> snd (native_get p k es, es) = es"
  by simp

lemma native_set_ok:
  "(fst (native_set p key v es), (\<lambda>k. native_get p k (snd (native_set p key v es))))
    = spec_set p key v (\<lambda>k. native_get p k es)"
proof (cases "find_def p key")
  case None
  then show ?thesis by (simp add: native_set_def spec_set_def)
next
  case (Some d)
  then obtain k where k: "key = Some k" by (auto dest: find_defD)
  show ?thesis
  proof (cases "pd_type d = pv_type v")
    case True
    have "native_get p key' (native_put (compose_namespace p) k (clamp_to_bounds d v) es)
        = ((\<lambda>k. native_get p k es)(Some k := clamp_to_bounds d v)) key'" for key'
      using Some k namespace_keys_differ [of key' k p] by (auto simp: native_get_def split: option.split)
    then show ?thesis using True Some k by (simp add: native_set_def spec_set_def fun_eq_iff)
  next
    case False
    then show ?thesis using Some by (simp add: native_set_def spec_set_def)
  qed
qed

interpretation firmware: property_store p "bag_get prefs_work" "bag_set prefs_work" "bag_inv p" bag_view for p
  by unfold_locales (rule bag_get_ok bag_set_ok, assumption+)+

interpretation native: property_store p "\<lambda>k es. (native_get p k es, es)" "native_set p" "\<lambda>es. True"
    "\<lambda>es k. native_get p k es" for p
  by unfold_locales (use native_set_ok in simp_all)

section \<open>The firmware's cached bag and the native bag\<close>

definition bag_calls :: "bag_call list \<Rightarrow> bag \<Rightarrow> bag_reply list \<times> bag" where
  "bag_calls = run_calls (bag_get prefs_work) (bag_set prefs_work)"

definition native_calls :: "plugin \<Rightarrow> bag_call list \<Rightarrow> native_entry list \<Rightarrow> bag_reply list \<times> native_entry list" where
  "native_calls p = run_calls (\<lambda>k es. (native_get p k es, es)) (native_set p)"

text \<open>The first read of a key after a start comes from the flash.\<close>

lemma fresh_bag_get: "fst (bag_get e key (bag_new p fl)) = (case find_def p key of
    None \<Rightarrow> no_property | Some d \<Rightarrow> read_from_nvs e fl (compose_namespace p) (the key) d)"
proof -
  have "cached k (replicate 8 None) = None" for k
    using find_idx_None [of "holds_key k" "replicate 8 None"]
    by (simp add: cached_def find_cache_slot_def)
  then show ?thesis by (simp add: bag_get_def bag_new_def Let_def split: option.split)
qed

lemma fresh_bag_view: "fst (bag_get prefs_work key (bag_new p fl)) = bag_view (bag_new p fl) key"
  unfolding fresh_bag_get by (simp add: bag_view_def bag_new_def split: option.split)

lemma bag_view_flash: "bag_view (bag_new (bg_plugin b) (bg_flash b)) = bag_view b"
  by (simp add: bag_view_def bag_new_def fun_eq_iff split: option.split)

text \<open>C10: On a flash that works the firmware's bag, with its write-through cache of eight entries and its typed flash
  records, is the native build's plain vector: starting from contents that read the same, every run of reads and writes
  (accepted or not, of any number of keys, evicting as it likes) gets the same replies from both, and a bag built anew
  over the flash the run left, as after a restart, reads every key as the vector then holds it.\<close>

theorem bag_matches_native:
  assumes "schema_ok p" and "\<forall>c \<in> set cs. wf_call c"
    and "\<And>key. fst (bag_get prefs_work key (bag_new p fl)) = native_get p key es"
    and "bag_calls cs (bag_new p fl) = (rs, b')" and "native_calls p cs es = (rs', es')"
  shows "rs = rs' \<and> fst (bag_get prefs_work key (bag_new p (bg_flash b'))) = native_get p key es'"
proof -
  have view: "bag_view (bag_new p fl) = (\<lambda>k. native_get p k es)"
    using assms(3) by (simp add: fresh_bag_view fun_eq_iff)
  have fw: "(rs, bag_view b') = run_calls spec_get (spec_set p) cs (bag_view (bag_new p fl))" "bag_inv p b'"
    using firmware.run_refines [OF bag_new_inv [OF assms(1)] assms(2), of fl] assms(4)
    by (simp_all add: bag_calls_def)
  have "(rs', (\<lambda>k. native_get p k es')) = run_calls spec_get (spec_set p) cs (\<lambda>k. native_get p k es)"
    using native.run_refines [OF TrueI assms(2), of p es] assms(5) by (simp add: native_calls_def)
  then have "rs = rs'" "bag_view b' = (\<lambda>k. native_get p k es')"
    using fw(1) view by (metis prod.inject)+
  then show ?thesis using fw(2) bag_view_flash [of b'] by (simp add: fresh_bag_view bag_inv_def)
qed

text \<open>The plugin of \<open>beat_pulse.cpp\<close>, the primary colour of six, and eight more keys that overflow the cache.\<close>

definition colour_def :: property_def where
  "colour_def = \<lparr> pd_key = Some ''color'', pd_type = PropEnum, pd_default = from_enum 1,
     pd_min = from_enum 0, pd_max = from_enum 5 \<rparr>"

definition beat_pulse :: plugin where
  "beat_pulse = \<lparr> pg_kind = Visualisation, pg_id = Some ''beat-pulse'', pg_properties = [colour_def] \<rparr>"

definition wide_plugin :: plugin where
  "wide_plugin = \<lparr> pg_kind = Show, pg_id = Some ''wide'',
     pg_properties = colour_def # map (\<lambda>c. colour_def\<lparr> pd_key := Some [c] \<rparr>) ''abcdefgh'' \<rparr>"

definition wide_calls :: "bag_call list" where
  "wide_calls = Put (Some ''color'') (from_enum 9) # map (\<lambda>c. Get (Some [c])) ''abcdefgh''
     @ [Put (Some ''a'') (from_u8 2), Put (Some ''b'') (from_enum 3), Get (Some ''color''), Get (Some ''b''), Get None]"

lemma blank_views_agree: "fst (bag_get prefs_work key (bag_new p (\<lambda>x. None))) = native_get p key []"
  by (simp add: fresh_bag_get native_get_def native_find_def read_from_nvs_def split: option.split)

lemma wide_ok: "schema_ok wide_plugin \<and> (\<forall>c \<in> set wide_calls. wf_call c)"
  by (simp add: schema_ok_def wide_plugin_def colour_def_def wide_calls_def from_enum_def from_u8_def)

theorem bag_matches_native_witness:
  "fst (bag_calls wide_calls (bag_new wide_plugin (\<lambda>x. None))) = fst (native_calls wide_plugin wide_calls [])
   \<and> fst (bag_get prefs_work (Some ''color'') (bag_new wide_plugin (bg_flash (snd (bag_calls wide_calls (bag_new wide_plugin (\<lambda>x. None)))))))
     = native_get wide_plugin (Some ''color'') (snd (native_calls wide_plugin wide_calls []))"
  by (rule bag_matches_native [OF _ _ blank_views_agree])
    (use wide_ok in \<open>simp_all add: bag_calls_def native_calls_def\<close>)

section \<open>Every value read is of its declared type and range\<close>

fun has_type :: "property_def \<Rightarrow> property_value \<Rightarrow> bool" where
  "has_type d v \<longleftrightarrow> pv_type v = pd_type d \<and> (case pd_type d of
      PropU8 \<Rightarrow> as_u8 (pd_min d) \<le> as_u8 v \<and> as_u8 v \<le> as_u8 (pd_max d)
    | PropU16 \<Rightarrow> as_u16 (pd_min d) \<le> as_u16 v \<and> as_u16 v \<le> as_u16 (pd_max d)
    | PropEnum \<Rightarrow> as_enum (pd_min d) \<le> as_enum v \<and> as_enum v \<le> as_enum (pd_max d)
    | _ \<Rightarrow> True)"

definition schema_typed :: "plugin \<Rightarrow> bool" where
  "schema_typed p \<longleftrightarrow> schema_ok p \<and> (\<forall>d \<in> set (pg_properties p). has_type d (pd_default d))"

fun bag_run :: "(prefs_env \<times> bag_call) list \<Rightarrow> bag \<Rightarrow> bag" where
  "bag_run [] b = b"
| "bag_run ((e, Get k) # cs) b = bag_run cs (snd (bag_get e k b))"
| "bag_run ((e, Put k v) # cs) b = bag_run cs (snd (bag_set e k v b))"

lemma clamp_between: "lo \<le> (x :: 'a::linorder) \<Longrightarrow> x \<le> hi \<Longrightarrow> lo \<le> clamp lo hi v \<and> clamp lo hi v \<le> hi"
  using clamp_within [of lo hi v] by (meson order_trans)

lemma clamp_has_type:
  "has_type d w \<Longrightarrow> pv_type v = pd_type d \<Longrightarrow> has_type d (clamp_to_bounds d v)"
  by (cases "pd_type d")
    (auto simp: clamp_to_bounds_def intro: clamp_between [THEN conjunct1] clamp_between [THEN conjunct2])

lemma read_has_type:
  assumes "has_type d (pd_default d)"
  shows "has_type d (read_from_nvs e fl ns k d)"
proof (cases "pe_open_read e")
  case True
  show ?thesis unfolding read_from_nvs_def using assms True
    by (cases "pd_type d") (auto simp del: has_type.simps intro!: clamp_has_type, auto)
next
  case False
  then show ?thesis using assms by (simp add: read_from_nvs_def)
qed

definition cache_typed :: "plugin \<Rightarrow> bag \<Rightarrow> bool" where
  "cache_typed p b \<longleftrightarrow> bg_plugin b = p \<and> length (bg_cache b) = kCacheSize \<and> keys_unique (bg_cache b) \<and>
     (\<forall>k v d. Some (k, v) \<in> set (bg_cache b) \<longrightarrow> find_def p (Some k) = Some d \<longrightarrow> pv_type v = pd_type d)"

lemma cache_typed_put:
  assumes "cache_typed p b" and "schema_ok p" and "find_def p (Some k) = Some d" and "pv_type v = pd_type d"
  shows "cache_typed p (b\<lparr> bg_flash := fl, bg_cache := cache_put k v (bg_cache b) \<rparr>)"
proof -
  have k: "length k \<le> 15" using assms(2,3) schema_key by blast
  have "bg_cache b \<noteq> []" using assms(1) by (auto simp: cache_typed_def)
  then have "keys_unique (cache_put k v (bg_cache b))" using assms(1) k keys_unique_put by (simp add: cache_typed_def)
  moreover have "pv_type v' = pd_type d'"
    if "Some (k', v') \<in> set (cache_put k v (bg_cache b))" "find_def p (Some k') = Some d'" for k' v' d'
    using cache_put_entry [of "bg_cache b" k k' v' v] that assms k by (auto simp: cache_typed_def)
  ultimately show ?thesis using assms(1) by (simp add: cache_typed_def)
qed

lemma schema_default: "schema_typed p \<Longrightarrow> find_def p key = Some d \<Longrightarrow> has_type d (pd_default d)"
  by (auto simp: schema_typed_def dest: find_defD)

lemma has_typeD: "has_type d v \<Longrightarrow> pv_type v = pd_type d"
  by simp

lemma schema_typedD: "schema_typed p \<Longrightarrow> schema_ok p"
  by (simp add: schema_typed_def)

lemma bag_get_typed:
  assumes "cache_typed p b" and "schema_typed p"
  shows "cache_typed p (snd (bag_get e key b))"
    and "find_def p key = Some d \<Longrightarrow> has_type d (fst (bag_get e key b))"
proof -
  have p: "bg_plugin b = p" using assms(1) by (simp add: cache_typed_def)
  have "cache_typed p (snd (bag_get e key b)) \<and> (\<forall>d. find_def p key = Some d \<longrightarrow> has_type d (fst (bag_get e key b)))"
  proof (cases "find_def p key")
    case None
    then show ?thesis using assms(1) p by (simp add: bag_get_def)
  next
    case (Some d)
    then obtain k where k: "key = Some k" by (auto dest: find_defD)
    have d: "has_type d (pd_default d)" using schema_default [OF assms(2) Some] .
    show ?thesis
    proof (cases "cached k (bg_cache b)")
      case None
      define v where "v = read_from_nvs e (bg_flash b) (compose_namespace p) k d"
      have v: "has_type d v" unfolding v_def by (rule read_has_type [OF d])
      then have "cache_typed p (b\<lparr> bg_flash := bg_flash b, bg_cache := cache_put k v (bg_cache b) \<rparr>)"
        using cache_typed_put [OF assms(1) schema_typedD [OF assms(2)], where k = k and d = d and v = v and fl = "bg_flash b"] Some k has_typeD [OF v] by simp
      moreover have "bag_get e key b = (v, b\<lparr> bg_cache := cache_put k v (bg_cache b) \<rparr>)"
        using None Some k p by (simp add: bag_get_def v_def Let_def)
      ultimately show ?thesis using v Some by (simp del: has_type.simps)
    next
      case cached: (Some v)
      then have "pv_type v = pd_type d"
        using assms(1) cached_entry [of k "bg_cache b" v] Some k by (auto simp: cache_typed_def)
      then show ?thesis using assms(1) clamp_has_type [OF d, of v] Some cached k p
        by (simp add: bag_get_def del: has_type.simps)
    qed
  qed
  then show "cache_typed p (snd (bag_get e key b))"
    and "find_def p key = Some d \<Longrightarrow> has_type d (fst (bag_get e key b))" by blast+
qed

lemma clamp_keeps_type [simp]: "pv_type v = pd_type d \<Longrightarrow> pv_type (clamp_to_bounds d v) = pd_type d"
  by (cases "pd_type d") (simp_all add: clamp_to_bounds_def)

lemma bag_set_typed:
  assumes "cache_typed p b" and "schema_ok p"
  shows "cache_typed p (snd (bag_set e key v b))"
proof (cases "find_def p key")
  case None
  then show ?thesis using assms(1) by (simp add: bag_set_def cache_typed_def)
next
  case (Some d)
  then obtain k where k: "key = Some k" by (auto dest: find_defD)
  have p: "bg_plugin b = p" using assms(1) by (simp add: cache_typed_def)
  have flash: "cache_typed p (b\<lparr> bg_flash := fl \<rparr>)" for fl using assms(1) by (simp add: cache_typed_def)
  show ?thesis
    using assms(1) Some k p flash cache_typed_put [OF assms, of k d "clamp_to_bounds d v"]
    by (cases "write_to_nvs e (bg_flash b) (compose_namespace p) k d (clamp_to_bounds d v)")
      (auto simp: bag_set_def Let_def)
qed

lemma bag_run_typed: "cache_typed p b \<Longrightarrow> schema_typed p \<Longrightarrow> cache_typed p (bag_run cs b)"
  by (induction cs b rule: bag_run.induct)
    (simp_all add: bag_get_typed(1) bag_set_typed schema_typedD)

text \<open>C19: Whatever the flash holds under a bag's keys (nothing, records of other types, values out of range), and whatever
  opens and writes fail in between, every read of a declared property returns a value of the declared type and, where the
  type has bounds, inside them.\<close>

theorem property_typed:
  assumes "schema_typed p" and "find_def p key = Some d"
  shows "has_type d (fst (bag_get e key (bag_run cs (bag_new p fl))))"
proof -
  have "cache_typed p (bag_new p fl)" by (simp add: cache_typed_def bag_new_def keys_unique_def)
  then show ?thesis using bag_get_typed(2) [OF bag_run_typed] assms by blast
qed

lemma beat_pulse_typed: "schema_typed beat_pulse"
  by (simp add: schema_typed_def schema_ok_def beat_pulse_def colour_def_def)

theorem property_typed_witness:
  "has_type colour_def (fst (bag_get prefs_work (Some ''color'')
     (bag_run [(\<lparr> pe_open_read = False, pe_open_write = True, pe_put = False \<rparr>, Put (Some ''color'') (from_enum 200))]
       (bag_new beat_pulse [(''nv_beat-pulse'', ''color'') \<mapsto> FlashU8 77]))))"
  by (rule property_typed [OF beat_pulse_typed]) (simp add: find_def_def beat_pulse_def colour_def_def)

text \<open>A boolean write of false that the flash refused is reported as stored when nothing was stored before:
  the check after the failed write reads the default, which is false.\<close>

lemma refused_false_reported_stored:
  assumes "find_def p (Some k) = Some d" and "pd_type d = PropBool" and "bg_plugin b = p"
    and "pe_open_write e" and "\<not> pe_put e" and "bg_flash b (compose_namespace p, k) = None"
  shows "fst (bag_set e (Some k) (from_bool False) b) \<and> bg_flash (snd (bag_set e (Some k) (from_bool False) b)) = bg_flash b"
  using assms by (simp add: bag_set_def write_to_nvs_def clamp_to_bounds_def get_bool_def get_uchar_def Let_def)

text \<open>Bags of different namespaces do not see each other's writes; plugins whose kinds differ, or whose ids differ in
  their first twelve characters, have different namespaces.\<close>

lemma namespaces_apart:
  assumes "pg_id p = Some a" and "pg_id q = Some b" and "a \<noteq> []" and "b \<noteq> []"
    and "compose_namespace p = compose_namespace q"
  shows "pg_kind p = pg_kind q \<and> take 12 a = take 12 b"
  using assms by (cases "pg_kind p"; cases "pg_kind q") (auto simp: compose_namespace_def)

lemma bags_apart:
  assumes "compose_namespace (bg_plugin b) \<noteq> compose_namespace q"
  shows "fst (bag_get e key (bag_new q (bg_flash (snd (bag_set e' key' v b))))) = fst (bag_get e key (bag_new q (bg_flash b)))"
proof -
  have other: "bg_flash (snd (bag_set e' key' v b)) (compose_namespace q, k) = bg_flash b (compose_namespace q, k)" for k
    using assms by (auto simp: bag_set_def write_to_nvs_def Let_def split: option.split)
  show ?thesis unfolding fresh_bag_get by (auto intro: read_local other split: option.split)
qed

end
