(* ===== verification/CString.thy ===== *)
theory CString
  imports Noct_Prelude
begin

text \<open>
  The calls of the C library on which the configuration console (\<open>src/dal/drivers/net_config.cpp\<close>) relies, as
  functions on strings: \<open>strtok\<close> with blanks and tabs, \<open>atoi\<close>, \<open>strtol\<close> with base 16, the \<open>%u\<close>
  conversion of \<open>sscanf\<close>, all with the 32-bit \<open>long\<close> of the board, and the decimal notation they read back.
\<close>

section \<open>The C library on strings\<close>

definition is_delim :: "char \<Rightarrow> bool" where
  "is_delim c \<longleftrightarrow> c = CHR '' '' \<or> c = CHR 0x09"

text \<open>\<open>strtok\<close>: the next token and what remains behind its delimiter.\<close>

definition strtok :: "string \<Rightarrow> string option \<times> string" where
  "strtok s =
     (let s = dropWhile is_delim s in
      if s = [] then (None, [])
      else (Some (takeWhile (\<lambda>c. \<not> is_delim c) s), drop 1 (dropWhile (\<lambda>c. \<not> is_delim c) s)))"

definition digit :: "nat \<Rightarrow> char \<Rightarrow> nat option" where
  "digit base c =
     (let n = of_char c :: nat;
          d = (if 48 \<le> n \<and> n \<le> 57 then n - 48
               else if 97 \<le> n \<and> n \<le> 122 then n - 87
               else if 65 \<le> n \<and> n \<le> 90 then n - 55 else base)
      in if d < base then Some d else None)"

text \<open>The digits at the front: how many there are, their value, and the rest.\<close>

fun scan_digits :: "nat \<Rightarrow> nat \<Rightarrow> string \<Rightarrow> nat \<times> nat \<times> string" where
  "scan_digits base acc [] = (0, acc, [])"
| "scan_digits base acc (c # cs) =
     (case digit base c of
        None \<Rightarrow> (0, acc, c # cs)
      | Some d \<Rightarrow> (let (k, v, rest) = scan_digits base (acc * base + d) cs in (Suc k, v, rest)))"

definition scan_sign :: "string \<Rightarrow> bool \<times> string" where
  "scan_sign s = (case s of
      c # cs \<Rightarrow> if c = CHR ''-'' then (True, cs) else if c = CHR ''+'' then (False, cs) else (False, s)
    | [] \<Rightarrow> (False, s))"

definition saturate :: "bool \<Rightarrow> nat \<Rightarrow> int" where
  "saturate neg v = (if neg then max (- (2 ^ 31)) (- int v) else min (2 ^ 31 - 1) (int v))"

definition atoi :: "string \<Rightarrow> int" where
  "atoi s = (let (neg, s) = scan_sign s; (k, v, rest) = scan_digits 10 0 s in saturate neg v)"

definition strtol16 :: "string \<Rightarrow> int" where
  "strtol16 s =
     (let (neg, s) = scan_sign s;
          s = (if length s \<ge> 3 \<and> s ! 0 = CHR ''0'' \<and> s ! 1 \<in> {CHR ''x'', CHR ''X''} \<and> digit 16 (s ! 2) \<noteq> None
               then drop 2 s else s);
          (k, v, rest) = scan_digits 16 0 s
      in saturate neg v)"

text \<open>A \<open>%u\<close> conversion: none without a digit, and the value modulo the width of \<open>unsigned\<close> when signed.\<close>

definition scan_u :: "string \<Rightarrow> (nat \<times> string) option" where
  "scan_u s =
     (let (neg, s) = scan_sign s; (k, v, rest) = scan_digits 10 0 s in
      if k = 0 then None
      else Some (if v \<ge> 2 ^ 32 then 2 ^ 32 - 1 else if neg then (2 ^ 32 - v) mod 2 ^ 32 else v, rest))"

definition scan_dot :: "string \<Rightarrow> string option" where
  "scan_dot s = (case s of c # cs \<Rightarrow> if c = CHR ''.'' then Some cs else None | [] \<Rightarrow> None)"

section \<open>Decimal notation\<close>

fun dec :: "nat \<Rightarrow> string" where
  "dec n = (if n < 10 then [char_of (48 + n)] else dec (n div 10) @ [char_of (48 + n mod 10)])"

declare dec.simps [simp del]

lemma digit_char: "n < 10 \<Longrightarrow> digit 10 (char_of (48 + n)) = Some n"
  by (simp add: digit_def of_char_of take_bit_nat_eq_self)

lemma scan_digits_dec:
  "scan_digits 10 acc (dec n @ s) =
     (let (k, v, r) = scan_digits 10 (acc * 10 ^ length (dec n) + n) s in (length (dec n) + k, v, r))"
proof (induction n arbitrary: acc s rule: dec.induct)
  case (1 n)
  show ?case
  proof (cases "n < 10")
    case True
    then show ?thesis using digit_char [of n] by (simp add: dec.simps [of n] case_prod_beta Let_def)
  next
    case False
    have "acc * 10 ^ length (dec n) + n = (acc * 10 ^ length (dec (n div 10)) + n div 10) * 10 + n mod 10"
      using False by (simp add: dec.simps [of n] algebra_simps)
    then show ?thesis using False "1.IH" [OF False, of acc "char_of (48 + n mod 10) # s"] digit_char [of "n mod 10"]
      by (simp add: dec.simps [of n] case_prod_beta Let_def ac_simps)
  qed
qed

text \<open>A number read up to something that is no digit.\<close>

lemma dec_nonempty: "dec n \<noteq> []"
  by (simp add: dec.simps)

lemma dec_digits: "\<forall>c \<in> set (dec n). 48 \<le> (of_char c :: nat) \<and> (of_char c :: nat) \<le> 57"
proof (induction n rule: dec.induct)
  case (1 n)
  have c: "m < 10 \<Longrightarrow> of_char (char_of (48 + m) :: char) = 48 + m" for m :: nat
    by (simp add: of_char_of take_bit_nat_eq_self)
  show ?case
  proof (cases "n < 10")
    case True
    then show ?thesis using c [of n] by (simp add: dec.simps [of n])
  next
    case False
    then show ?thesis using 1 [OF False] c [of "n mod 10"] by (simp add: dec.simps [of n])
  qed
qed

lemma scan_sign_dec: "scan_sign (dec n @ s) = (False, dec n @ s)"
proof (cases "dec n")
  case Nil
  then show ?thesis using dec_nonempty by blast
next
  case (Cons c cs)
  then have "48 \<le> (of_char c :: nat)" using dec_digits [of n] by simp
  then have "c \<noteq> CHR ''-''" "c \<noteq> CHR ''+''" by auto
  then show ?thesis using Cons by (simp add: scan_sign_def)
qed

lemma scan_u_dec:
  assumes "n < 2 ^ 32" and "s = [] \<or> digit 10 (hd s) = None"
  shows "scan_u (dec n @ s) = Some (n, s)"
proof -
  have "scan_digits 10 n s = (0, n, s)" using assms(2) by (cases s) simp_all
  then show ?thesis using assms(1) dec_nonempty [of n] scan_digits_dec [of 0 n s]
    by (simp add: scan_u_def scan_sign_dec)
qed

end
