(* ===== verification/EthernetDmx.thy ===== *)
theory EthernetDmx
  imports DmxParser
begin

text \<open>
  DMX over the network (\<open>src/dal/drivers/ethernet_dmx_adapter.cpp\<close>): the adapter reads Art-Net and
  sACN (E1.31) datagrams and feeds each accepted universe through the Enttec parser as one frame. The
  Ethernet library is the list of datagrams each socket hands over in a call of \<open>poll\<close>, in order;
  what the board's 700-byte buffer cuts off is dropped, as the library drops it. Bringing up the chip
  and the sockets is not modelled beyond the configuration \<open>begin\<close> reads.
\<close>

abbreviation kArtnetOpDmx :: u16 where "kArtnetOpDmx \<equiv> 0x5000"
abbreviation kSacnUniverseHi :: nat where "kSacnUniverseHi \<equiv> 113"
abbreviation kSacnUniverseLo :: nat where "kSacnUniverseLo \<equiv> 114"
abbreviation kSacnPropCountHi :: nat where "kSacnPropCountHi \<equiv> 123"
abbreviation kSacnPropCountLo :: nat where "kSacnPropCountLo \<equiv> 124"
abbreviation kSacnStartCode :: nat where "kSacnStartCode \<equiv> 125"
abbreviation kSacnChannels :: nat where "kSacnChannels \<equiv> 126"
abbreviation kMaxChannels :: u16 where "kMaxChannels \<equiv> 512"
abbreviation kRxSize :: nat where "kRxSize \<equiv> 700"

definition kArtnetId :: bytes where
  "kArtnetId = [0x41, 0x72, 0x74, 0x2D, 0x4E, 0x65, 0x74, 0]"

definition kAcnId :: bytes where
  "kAcnId = [0x41, 0x53, 0x43, 0x2D, 0x45, 0x31, 0x2E, 0x31, 0x37, 0, 0, 0]"

definition be16 :: "u8 \<Rightarrow> u8 \<Rightarrow> u16" where
  "be16 hi lo = push_bit 8 (ucast hi) OR ucast lo"

section \<open>The adapter\<close>

record ether =
  eth_parser :: dmx_parser
  eth_active :: bool
  eth_bytes_read :: u32
  eth_artnet_universe :: u16
  eth_sacn_universe :: u16

definition ether_init :: ether where
  "ether_init = \<lparr> eth_parser = dmx_parser_init, eth_active = False, eth_bytes_read = 0,
     eth_artnet_universe = 0, eth_sacn_universe = 1 \<rparr>"

definition ether_begin :: "u16 \<Rightarrow> u16 \<Rightarrow> ether \<Rightarrow> ether" where
  "ether_begin cfg_artnet cfg_sacn s =
     (if eth_active s then s\<lparr> eth_parser := dp_reset (eth_parser s) \<rparr>
      else s\<lparr> eth_artnet_universe := cfg_artnet, eth_sacn_universe := cfg_sacn,
              eth_parser := dp_reset (eth_parser s), eth_bytes_read := 0, eth_active := True \<rparr>)"

definition ether_end :: "ether \<Rightarrow> ether" where
  "ether_end s = (if \<not> eth_active s then s else s\<lparr> eth_active := False \<rparr>)"

definition feed_universe :: "bytes \<Rightarrow> u16 \<Rightarrow> ether \<Rightarrow> ether" where
  "feed_universe channels n s =
     (let n = (if n > kMaxChannels then kMaxChannels else n);
          len = n + 1;
          frame = [kStartByte, kLabelOutputOnlySendDmx, ucast (len AND 0xFF), ucast (drop_bit 8 len AND 0xFF), 0]
                    @ take (unat n) channels @ [kEndByte]
      in s\<lparr> eth_parser := snd (feed_all frame (eth_parser s)),
            eth_bytes_read := eth_bytes_read s + (ucast len + 5) \<rparr>)"

text \<open>One datagram of each socket: the channel bytes and their count, when it is taken.\<close>

definition art_dmx :: "u16 \<Rightarrow> bytes \<Rightarrow> (bytes \<times> u16) option" where
  "art_dmx universe packet =
     (let rx = take kRxSize packet; got = length rx in
      if got < 18 then None
      else if take 8 rx \<noteq> kArtnetId then None
      else if be16 (rx ! 9) (rx ! 8) \<noteq> kArtnetOpDmx then None
      else if be16 (rx ! 15) (rx ! 14) \<noteq> universe then None
      else
        let dlen = be16 (rx ! 16) (rx ! 17);
            dlen = (if 18 + unat dlen > got then if got > 18 then of_nat (got - 18) else 0 else dlen)
        in if dlen = 0 then None else Some (drop 18 rx, dlen))"

definition sacn_dmx :: "u16 \<Rightarrow> bytes \<Rightarrow> (bytes \<times> u16) option" where
  "sacn_dmx universe packet =
     (let rx = take kRxSize packet; got = length rx in
      if got < kSacnChannels then None
      else if take 12 (drop 4 rx) \<noteq> kAcnId then None
      else if be16 (rx ! kSacnUniverseHi) (rx ! kSacnUniverseLo) \<noteq> universe then None
      else if rx ! kSacnStartCode \<noteq> 0 then None
      else
        let prop_count = be16 (rx ! kSacnPropCountHi) (rx ! kSacnPropCountLo);
            n = (if prop_count > 0 then prop_count - 1 else 0);
            n = (if kSacnChannels + unat n > got
                 then if got > kSacnChannels then of_nat (got - kSacnChannels) else 0 else n)
        in if n = 0 then None else Some (drop kSacnChannels rx, n))"

fun drain :: "(bytes \<Rightarrow> (bytes \<times> u16) option) \<Rightarrow> bytes list \<Rightarrow> nat \<times> ether \<Rightarrow> nat \<times> ether" where
  "drain decode [] fs = fs"
| "drain decode (p # ps) (frames, s) =
     (case decode p of
        None \<Rightarrow> drain decode ps (frames, s)
      | Some (chs, n) \<Rightarrow> drain decode ps (frames + 1, feed_universe chs n s))"

definition ether_poll :: "bytes list \<Rightarrow> bytes list \<Rightarrow> ether \<Rightarrow> nat \<times> ether" where
  "ether_poll artnet sacn s =
     (if \<not> eth_active s then (0, s)
      else drain (sacn_dmx (eth_sacn_universe s)) sacn
             (drain (art_dmx (eth_artnet_universe s)) artnet (0, s)))"

section \<open>A universe is one frame of the parser\<close>

lemma be16_write: "be16 (ucast (drop_bit 8 w AND 0xFF)) (ucast (w AND 0xFF)) = w"
  using read_write_le_end(1) [of w]
  by (simp add: be16_def read_u16_le_def write_u16_le_def or.commute del: ucast_drop_bit_eq)

lemma feed_universe_frame:
  assumes "unat n \<le> length chs"
  shows "feed_universe chs n s = s\<lparr>
     eth_parser := snd (feed_all (enttec_frame (kLabelOutputOnlySendDmx, 0 # take (unat (min n 512)) chs)) (eth_parser s)),
     eth_bytes_read := eth_bytes_read s + (ucast (min n 512 + 1) + 5) \<rparr>"
proof -
  define m where "m = min n 512"
  have m: "(if n > kMaxChannels then kMaxChannels else n) = m" by (auto simp: m_def min_def)
  have "unat m \<le> length chs" using assms by (auto simp: m_def min_def word_le_nat_alt)
  then have "(of_nat (length (0 # take (unat m) chs)) :: u16) = m + 1" by simp
  then have "enttec_frame (kLabelOutputOnlySendDmx, 0 # take (unat m) chs)
      = [kStartByte, kLabelOutputOnlySendDmx, ucast ((m + 1) AND 0xFF), ucast (drop_bit 8 (m + 1) AND 0xFF), 0]
          @ take (unat m) chs @ [kEndByte]"
    by (simp add: enttec_frame_def write_u16_le_def del: of_nat_Suc)
  then show ?thesis unfolding feed_universe_def m Let_def m_def [symmetric] by simp
qed

text \<open>What an accepted datagram offers: at least one channel, and no more than were received.\<close>

lemma received_count: "got \<le> 700 \<Longrightarrow> unat (of_nat (got - base) :: u16) = got - base"
  by (simp add: unsigned_of_nat take_bit_nat_eq_self del: of_nat_diff)

lemma art_dmx_fits: "art_dmx u p = Some (chs, n) \<Longrightarrow> 0 < unat n \<and> unat n \<le> length chs"
  by (auto simp: art_dmx_def Let_def unat_gt_0 received_count simp del: of_nat_diff split: if_splits)

lemma sacn_dmx_fits: "sacn_dmx u p = Some (chs, n) \<Longrightarrow> 0 < unat n \<and> unat n \<le> length chs"
  by (auto simp: sacn_dmx_def Let_def unat_gt_0 received_count simp del: of_nat_diff split: if_splits)

text \<open>The channels of an accepted datagram, cut at the 512 of a universe.\<close>

definition universe_of :: "(bytes \<times> u16) \<Rightarrow> bytes" where
  "universe_of = (\<lambda>(chs, n). take (unat (min n 512)) chs)"

lemma length_universe: "unat n \<le> length chs \<Longrightarrow> length (universe_of (chs, n)) = min (unat n) 512"
  by (auto simp: universe_of_def min_def word_le_nat_alt)

definition ether_ok :: "ether \<Rightarrow> bool" where
  "ether_ok s \<longleftrightarrow> dp_state (eth_parser s) = WaitStart \<and> dp_inv (eth_parser s)"

lemma fed_universe:
  assumes "ether_ok s" and "unat n \<le> length chs"
  shows "ether_ok (feed_universe chs n s) \<and> shows_universe (eth_parser (feed_universe chs n s)) (universe_of (chs, n))
    \<and> eth_active (feed_universe chs n s) = eth_active s"
proof -
  have "length (0 # universe_of (chs, n)) \<le> kPayloadBufSize" using length_universe [OF assms(2)] by simp
  then obtain s' where "feed_all (enttec_frame (kLabelOutputOnlySendDmx, 0 # universe_of (chs, n))) (eth_parser s)
        = ([(kLabelOutputOnlySendDmx, 0 # universe_of (chs, n))], s')" "dp_state s' = WaitStart"
    "shows_universe s' (universe_of (chs, n))"
    using parse_one_frame [of "eth_parser s" "0 # universe_of (chs, n)" kLabelOutputOnlySendDmx] assms(1)
    by (auto simp: ether_ok_def shows_universe_def)
  moreover have "dp_inv s'"
    using dp_inv_feed_all [of "eth_parser s" "enttec_frame (kLabelOutputOnlySendDmx, 0 # universe_of (chs, n))"] assms(1)
      calculation(1) by (simp add: ether_ok_def)
  ultimately show ?thesis using feed_universe_frame [OF assms(2), of s] by (simp add: ether_ok_def universe_of_def)
qed

text \<open>A drained socket: every accepted datagram was one universe, and the last one is shown.\<close>

lemma drain_ok:
  assumes "\<And>p chs n. decode p = Some (chs, n) \<Longrightarrow> unat n \<le> length chs" and "ether_ok s"
  shows "ether_ok (snd (drain decode ps (k, s)))
    \<and> fst (drain decode ps (k, s)) = k + length (List.map_filter decode ps)
    \<and> (List.map_filter decode ps = [] \<longrightarrow> snd (drain decode ps (k, s)) = s)
    \<and> (List.map_filter decode ps \<noteq> [] \<longrightarrow>
        shows_universe (eth_parser (snd (drain decode ps (k, s)))) (universe_of (last (List.map_filter decode ps))))"
  using assms(2)
proof (induction ps arbitrary: k s)
  case Nil
  then show ?case by (simp add: List.map_filter_simps)
next
  case (Cons p ps)
  show ?case
  proof (cases "decode p")
    case None
    then show ?thesis using Cons.IH [OF Cons.prems] by (simp add: List.map_filter_simps)
  next
    case (Some cn)
    obtain chs n where cn: "cn = (chs, n)" by (cases cn)
    have fed: "ether_ok (feed_universe chs n s)" "shows_universe (eth_parser (feed_universe chs n s)) (universe_of (chs, n))"
      using fed_universe [OF Cons.prems, of n chs] assms(1) [of p chs n] Some cn by simp_all
    from Cons.IH [OF fed(1), of "Suc k"] show ?thesis using Some cn fed
      by (cases "List.map_filter decode ps = []") (simp_all add: List.map_filter_simps)
  qed
qed

section \<open>A poll\<close>

definition taken :: "bytes list \<Rightarrow> bytes list \<Rightarrow> ether \<Rightarrow> (bytes \<times> u16) list" where
  "taken artnet sacn s = List.map_filter (art_dmx (eth_artnet_universe s)) artnet
     @ List.map_filter (sacn_dmx (eth_sacn_universe s)) sacn"

text \<open>
  What the bridge's loop sees of the parser: it holds the whole universe, and the copy that the loop makes
  into its own buffer \<open>out\<close> of \<open>kUniverseBufferSize\<close> channels has the universe's first 280.
\<close>

definition shown :: "ether \<Rightarrow> bytes \<Rightarrow> bytes \<Rightarrow> bool" where
  "shown s out chs \<longleftrightarrow> shows_universe (eth_parser s) chs \<and> last_was_dmx_packet (eth_parser s) \<and>
     copy_dmx_channels (eth_parser s) (Some out) kUniverseBufferSize
       = (of_nat (min (length chs) 280), Some (copy_into out (take 280 chs)))"

lemma shown_if: "shows_universe (eth_parser s) chs \<Longrightarrow> length chs \<le> 512 \<Longrightarrow> shown s out chs"
  using shown_copied [of "eth_parser s" chs kUniverseBufferSize "min (length chs) 280" out]
  by (simp add: shown_def min_def del: of_nat_min split: if_splits)

lemma taken_fits: "(chs, n) \<in> set (taken artnet sacn s) \<Longrightarrow> 0 < unat n \<and> unat n \<le> length chs"
  by (auto simp: taken_def List.map_filter_def dest: art_dmx_fits sacn_dmx_fits)

lemma length_taken_universe: "cn \<in> set (taken artnet sacn s) \<Longrightarrow> 1 \<le> length (universe_of cn) \<and> length (universe_of cn) \<le> 512"
  using taken_fits [of "fst cn" "snd cn" artnet sacn s] length_universe [of "snd cn" "fst cn"] by simp

lemma ethernet_poll_atomic_step:
  assumes "ether_ok s" and "eth_active s"
  shows "ether_ok (snd (ether_poll artnet sacn s)) \<and> fst (ether_poll artnet sacn s) = length (taken artnet sacn s)
    \<and> (if taken artnet sacn s = [] then snd (ether_poll artnet sacn s) = s
      else shown (snd (ether_poll artnet sacn s)) out (universe_of (last (taken artnet sacn s))))"
proof -
  obtain frames s' where p: "ether_poll artnet sacn s = (frames, s')" by (cases "ether_poll artnet sacn s")
  let ?a = "drain (art_dmx (eth_artnet_universe s)) artnet (0, s)"
  let ?A = "List.map_filter (art_dmx (eth_artnet_universe s)) artnet"
  let ?S = "List.map_filter (sacn_dmx (eth_sacn_universe s)) sacn"
  have a: "ether_ok (snd ?a)" "fst ?a = length ?A" "?A = [] \<Longrightarrow> snd ?a = s"
    "?A \<noteq> [] \<Longrightarrow> shows_universe (eth_parser (snd ?a)) (universe_of (last ?A))"
    using drain_ok [of "art_dmx (eth_artnet_universe s)", OF _ assms(1), of artnet 0] art_dmx_fits by auto
  have poll: "drain (sacn_dmx (eth_sacn_universe s)) sacn (fst ?a, snd ?a) = (frames, s')"
    using assms(2) p by (simp add: ether_poll_def)
  have b: "ether_ok s'" "frames = length ?A + length ?S" "?S = [] \<Longrightarrow> s' = snd ?a"
    "?S \<noteq> [] \<Longrightarrow> shows_universe (eth_parser s') (universe_of (last ?S))"
    using drain_ok [of "sacn_dmx (eth_sacn_universe s)", OF _ a(1), of sacn "fst ?a", unfolded poll] sacn_dmx_fits a(2)
    by auto
  have "shows_universe (eth_parser s') (universe_of (last (taken artnet sacn s)))" if "taken artnet sacn s \<noteq> []"
    using that a b by (cases "?S = []") (simp_all add: taken_def)
  then have "shown s' out (universe_of (last (taken artnet sacn s)))" if "taken artnet sacn s \<noteq> []"
    using that shown_if length_taken_universe [OF last_in_set [OF that]] by blast
  then show ?thesis using a b p by (simp add: taken_def)
qed

text \<open>C21: Whatever datagrams arrive, of whatever length and content, the reader of the parser never sees a torn frame: a
  poll from an idle parser leaves it idle, reports exactly the datagrams taken (right protocol, right universe, at least
  one channel received), and holds the last of them whole, 1 to 512 channels, its first 280 for the bridge to copy; when none is taken nothing changes.\<close>

theorem ethernet_poll_atomic:
  assumes "ether_ok s" and "eth_active s" and "ether_poll artnet sacn s = (frames, s')"
  shows "ether_ok s' \<and> frames = length (taken artnet sacn s)
    \<and> (if taken artnet sacn s = [] then s' = s else shown s' out (universe_of (last (taken artnet sacn s))))"
  using ethernet_poll_atomic_step [OF assms(1,2), of artnet sacn, unfolded assms(3) fst_conv snd_conv] .

section \<open>The datagrams of a lighting desk\<close>

text \<open>An ArtDmx packet, and an E1.31 data packet with whatever its fields between the ones read here hold.\<close>

definition art_packet :: "u16 \<Rightarrow> u8 \<Rightarrow> u8 \<Rightarrow> bytes \<Rightarrow> bytes" where
  "art_packet universe seq phys chs = kArtnetId @ [0x00, 0x50, 0, 14, seq, phys]
     @ write_u16_le universe @ rev (write_u16_le (of_nat (length chs))) @ chs"

definition sacn_packet :: "u16 \<Rightarrow> bytes \<Rightarrow> bytes \<Rightarrow> bytes \<Rightarrow> bytes \<Rightarrow> bytes" where
  "sacn_packet universe pre mid1 mid2 chs = pre @ kAcnId @ mid1 @ rev (write_u16_le universe)
     @ mid2 @ rev (write_u16_le (of_nat (length chs) + 1)) @ [0] @ chs"

lemma art_packet_taken:
  assumes "1 \<le> length chs" and "length chs \<le> 512"
  shows "art_dmx u (art_packet v seq phys chs) = (if u = v then Some (chs, of_nat (length chs)) else None)"
proof -
  define w :: u16 where "w = of_nat (length chs)"
  obtain a b where v: "write_u16_le v = [a, b]" "be16 b a = v"
    using be16_write [of v] by (simp add: write_u16_le_def)
  obtain c d where w: "write_u16_le w = [c, d]" "be16 d c = w"
    using be16_write [of w] by (simp add: write_u16_le_def)
  have n: "unat w = length chs" "w \<noteq> 0" using assms received_count [of "length chs" 0]
    by (auto simp: w_def unat_eq_zero [symmetric] simp del: unat_eq_zero)
  show ?thesis using assms v(2) w(2) n
    unfolding art_dmx_def art_packet_def w_def [symmetric] v(1) w(1)
    by (simp add: Let_def kArtnetId_def be16_def)
qed

lemma sacn_packet_taken:
  assumes "1 \<le> length chs" and "length chs \<le> 512"
    and "length pre = 4" and "length mid1 = 97" and "length mid2 = 8"
  shows "sacn_dmx u (sacn_packet v pre mid1 mid2 chs) = (if u = v then Some (chs, of_nat (length chs)) else None)"
proof -
  define w :: u16 where "w = of_nat (length chs) + 1"
  obtain a b where v: "write_u16_le v = [a, b]" "be16 b a = v"
    using be16_write [of v] by (simp add: write_u16_le_def)
  obtain c d where w: "write_u16_le w = [c, d]" "be16 d c = w"
    using be16_write [of w] by (simp add: write_u16_le_def)
  have n: "unat (w - 1) = length chs" "w - 1 \<noteq> 0" using assms(1,2) received_count [of "length chs" 0]
    by (auto simp: w_def unat_eq_zero [symmetric] simp del: unat_eq_zero)
  have "unat w = length chs + 1" using assms(2) received_count [of "length chs + 1" 0]
    by (simp add: w_def add.commute)
  then have w0: "w > 0" by (simp add: word_less_nat_alt)
  let ?p = "sacn_packet v pre mid1 mid2 chs"
  have len: "length ?p = 126 + length chs"
    using assms by (simp add: sacn_packet_def kAcnId_def v(1) w(1) w_def [symmetric])
  have at: "?p ! 113 = b" "?p ! 114 = a" "?p ! 123 = d" "?p ! 124 = c" "?p ! 125 = 0"
    "take 12 (drop 4 ?p) = kAcnId" "drop 126 ?p = chs"
    using assms(3-5) by (simp_all add: sacn_packet_def kAcnId_def v(1) w(1) w_def [symmetric] nth_append)
  have rx: "take kRxSize ?p = ?p" using len assms(2) by simp
  show ?thesis unfolding sacn_dmx_def rx Let_def len at using assms(1,2) n w0 v(2) w(2)
    by simp (simp add: w_def)
qed

lemma universe_whole: "length chs \<le> 512 \<Longrightarrow> universe_of (chs, of_nat (length chs)) = chs"
  using received_count [of "length chs" 0] by (simp add: universe_of_def min_def word_le_nat_alt)

lemma taken_snoc:
  "art_dmx (eth_artnet_universe s) p = Some cn \<Longrightarrow> taken (as @ [p]) [] s \<noteq> [] \<and> last (taken (as @ [p]) [] s) = cn"
  "sacn_dmx (eth_sacn_universe s) q = Some cm \<Longrightarrow> taken as (ss @ [q]) s \<noteq> [] \<and> last (taken as (ss @ [q]) s) = cm"
  by (simp_all add: taken_def List.map_filter_def)

lemma shown_last:
  assumes "ether_ok s" and "eth_active s" and "taken artnet sacn s \<noteq> [] \<and> last (taken artnet sacn s) = (chs, of_nat (length chs))"
    and "length chs \<le> 512"
  shows "shown (snd (ether_poll artnet sacn s)) out chs"
  using ethernet_poll_atomic_step [OF assms(1,2), of artnet sacn] assms(3,4) universe_whole [OF assms(4)] by auto

text \<open>C16: A universe a desk sends arrives. Whatever datagrams came before it in the same poll, an ArtDmx packet for the
  configured Art-Net universe, or an E1.31 data packet for the configured sACN universe with whatever the fields between
  those read hold, of 1 to 512 channels, ends with exactly its channels in the parser, and the copy of them that the
  bridge's loop takes into its buffer is the first 280, the channels of its seven blocks (all of them, when there are
  fewer).\<close>

theorem desk_universe_arrives:
  assumes "ether_ok s" and "eth_active s" and "1 \<le> length chs" and "length chs \<le> 512"
    and "length pre = 4" and "length mid1 = 97" and "length mid2 = 8"
  shows "shown (snd (ether_poll (artnet @ [art_packet (eth_artnet_universe s) seq phys chs]) [] s)) out chs
    \<and> shown (snd (ether_poll artnet (sacn @ [sacn_packet (eth_sacn_universe s) pre mid1 mid2 chs]) s)) out chs"
  using shown_last [OF assms(1,2) taken_snoc(1) assms(4)] shown_last [OF assms(1,2) taken_snoc(2) assms(4)]
    art_packet_taken [OF assms(3,4)] sacn_packet_taken [OF assms(3-7)] by simp

section \<open>Witnesses\<close>

definition live_ether :: ether where
  "live_ether = ether_begin 0 1 ether_init"

lemma live_ether_ok: "ether_ok live_ether \<and> eth_active live_ether"
  by (simp add: live_ether_def ether_begin_def ether_init_def ether_ok_def dp_reset_def dp_inv_def dmx_parser_init_def)

theorem desk_universe_arrives_witness:
  "shown (snd (ether_poll ([] @ [art_packet (eth_artnet_universe live_ether) 1 0 [255, 0x7E, 7]]) [] live_ether)) (replicate 280 0) [255, 0x7E, 7]"
  using desk_universe_arrives [of live_ether "[255, 0x7E, 7]" "replicate 4 0" "replicate 97 0" "replicate 8 0" "[]" 1 0 "replicate 280 0"]
    live_ether_ok by simp

theorem ethernet_poll_atomic_witness:
  "ether_ok (snd (ether_poll [[1, 2], art_packet 0 0 0 [9]] [] live_ether))
   \<and> fst (ether_poll [[1, 2], art_packet 0 0 0 [9]] [] live_ether) = 1"
proof -
  have "taken [[1, 2], art_packet 0 0 0 [9]] [] live_ether = [([9], 1)]"
    using art_packet_taken [of "[9]" 0 0 0 0]
    by (simp add: taken_def List.map_filter_simps live_ether_def ether_begin_def ether_init_def art_dmx_def [of _ "[1, 2]"])
  then show ?thesis
    using ethernet_poll_atomic [of live_ether "[[1, 2], art_packet 0 0 0 [9]]" "[]", OF _ _ surjective_pairing] live_ether_ok by simp
qed

end
