(* ===== verification/NetConsole.thy ===== *)
theory NetConsole
  imports CString EspNowDriver EthernetDmx "HOL-Library.Sublist"
begin

text \<open>
  The configuration console of the Ethernet Director (\<open>src/dal/drivers/net_config.cpp\<close>): the persisted
  network configuration, the command interpreter, and its two sessions, the USB serial port and one TCP
  client behind a password. The C library calls the commands rely on (\<open>strtok\<close>, \<open>atoi\<close>, \<open>strtol\<close>,
  \<open>sscanf\<close>) are functions on strings. A connection is what the sockets hand over in one call: the link,
  whether the client is still there, whether another one waits, and the characters received. The clock is
  read once per call. What is printed is a list of replies; the layout of the status page is not modelled.
\<close>

section \<open>The configuration\<close>

record net_config =
  nc_use_dhcp :: bool
  nc_ip :: bytes
  nc_mask :: bytes
  nc_gw :: bytes
  nc_sacn_universe :: u16
  nc_artnet_universe :: u16
  nc_wifi_channel :: u8

definition net_config_default :: net_config where
  "net_config_default = \<lparr> nc_use_dhcp = True, nc_ip = [2, 0, 0, 1], nc_mask = [255, 0, 0, 0], nc_gw = [2, 0, 0, 1],
     nc_sacn_universe = 1, nc_artnet_universe = 0, nc_wifi_channel = 1 \<rparr>"

text \<open>The namespace \<open>noctnet\<close> of the flash.\<close>

record net_flash =
  nf_dhcp :: "bool option"
  nf_ip :: "u32 option"
  nf_mask :: "u32 option"
  nf_gw :: "u32 option"
  nf_sacn :: "u16 option"
  nf_artnet :: "u16 option"
  nf_chan :: "u8 option"
  nf_pass :: "string option"

definition pack :: "bytes \<Rightarrow> u32" where
  "pack v = push_bit 24 (ucast (v ! 0)) OR push_bit 16 (ucast (v ! 1)) OR push_bit 8 (ucast (v ! 2)) OR ucast (v ! 3)"

definition unpack :: "u32 \<Rightarrow> bytes" where
  "unpack x = [ucast (drop_bit 24 x), ucast (drop_bit 16 x), ucast (drop_bit 8 x), ucast x]"

definition net_config_load :: "net_flash \<Rightarrow> net_config" where
  "net_config_load f =
     (let c = net_config_default in
      \<lparr> nc_use_dhcp = get_or (nf_dhcp f) (nc_use_dhcp c),
        nc_ip = unpack (get_or (nf_ip f) (pack (nc_ip c))),
        nc_mask = unpack (get_or (nf_mask f) (pack (nc_mask c))),
        nc_gw = unpack (get_or (nf_gw f) (pack (nc_gw c))),
        nc_sacn_universe = get_or (nf_sacn f) (nc_sacn_universe c),
        nc_artnet_universe = get_or (nf_artnet f) (nc_artnet_universe c),
        nc_wifi_channel = get_or (nf_chan f) (nc_wifi_channel c) \<rparr>)"

definition net_config_save :: "net_config \<Rightarrow> net_flash \<Rightarrow> net_flash" where
  "net_config_save c f = f\<lparr> nf_dhcp := Some (nc_use_dhcp c), nf_ip := Some (pack (nc_ip c)),
     nf_mask := Some (pack (nc_mask c)), nf_gw := Some (pack (nc_gw c)), nf_sacn := Some (nc_sacn_universe c),
     nf_artnet := Some (nc_artnet_universe c), nf_chan := Some (nc_wifi_channel c) \<rparr>"

definition parse_ip :: "string option \<Rightarrow> bytes option" where
  "parse_ip tok =
     (case tok of None \<Rightarrow> None | Some t \<Rightarrow>
      case scan_u t of None \<Rightarrow> None | Some (a, t) \<Rightarrow>
      case scan_dot t of None \<Rightarrow> None | Some t \<Rightarrow>
      case scan_u t of None \<Rightarrow> None | Some (b, t) \<Rightarrow>
      case scan_dot t of None \<Rightarrow> None | Some t \<Rightarrow>
      case scan_u t of None \<Rightarrow> None | Some (c, t) \<Rightarrow>
      case scan_dot t of None \<Rightarrow> None | Some t \<Rightarrow>
      case scan_u t of None \<Rightarrow> None | Some (d, t) \<Rightarrow>
        if a > 255 \<or> b > 255 \<or> c > 255 \<or> d > 255 then None
        else Some [of_nat a, of_nat b, of_nat c, of_nat d])"

section \<open>Sessions and the console\<close>

record session =
  se_line :: string
  se_mon :: bool
  se_mon_last :: u32

definition session_init :: session where
  "session_init = \<lparr> se_line = [], se_mon = False, se_mon_last = 0 \<rparr>"

datatype tcp_state = Closed | Auth | Open

datatype port = Usb | Net

record console =
  co_usb :: session
  co_tcp :: session
  co_was_connected :: bool
  co_loaded :: bool
  co_cfg :: net_config
  co_pass :: string
  co_server_started :: bool
  co_tcp_state :: tcp_state
  co_tcp_last_ms :: u32
  co_lockout_until :: u32
  co_flash :: net_flash
  co_driver :: driver
  co_down :: bool

text \<open>What a command prints or does to the board.\<close>

datatype reply =
    Text string
  | Help
  | Status
  | ChannelSet u8
  | DirId u8 u8
  | DirIdSet u8
  | IrTest u8
  | Restart
  | RomLoader
  | Prompt
  | Echo char

definition has_password :: "console \<Rightarrow> bool" where
  "has_password s \<longleftrightarrow> co_pass s \<noteq> []"

definition load_password :: "console \<Rightarrow> console" where
  "load_password s = s\<lparr> co_pass := take 32 (get_or (nf_pass (co_flash s)) []) \<rparr>"

definition set_password :: "string \<Rightarrow> console \<Rightarrow> console" where
  "set_password p s = s\<lparr> co_pass := take 32 p, co_flash := (co_flash s)\<lparr> nf_pass := Some (take 32 p) \<rparr> \<rparr>"

definition clear_password :: "console \<Rightarrow> console" where
  "clear_password s =
     s\<lparr> co_pass := [], co_flash := (co_flash s)\<lparr> nf_pass := None \<rparr>, co_tcp_state := Closed \<rparr>"

definition get_session :: "port \<Rightarrow> console \<Rightarrow> session" where
  "get_session p s = (case p of Usb \<Rightarrow> co_usb s | Net \<Rightarrow> co_tcp s)"

definition set_session :: "port \<Rightarrow> session \<Rightarrow> console \<Rightarrow> console" where
  "set_session p x s = (case p of Usb \<Rightarrow> s\<lparr> co_usb := x \<rparr> | Net \<Rightarrow> s\<lparr> co_tcp := x \<rparr>)"

abbreviation kIdleMs :: u32 where "kIdleMs \<equiv> 300000"
abbreviation kLockoutMs :: u32 where "kLockoutMs \<equiv> 3000"
abbreviation kLineSize :: nat where "kLineSize \<equiv> 96"

section \<open>The commands\<close>

definition quoted :: "string \<Rightarrow> string" where
  "quoted s = [CHR 0x27] @ s @ [CHR 0x27]"

definition restart_broadcast :: "build_cfg \<Rightarrow> drv_env \<Rightarrow> u8 \<Rightarrow> console \<Rightarrow> console" where
  "restart_broadcast cfg e ch s =
     s\<lparr> co_driver := snd (start_broadcast cfg e ch (stop_broadcast e (co_driver s))) \<rparr>"

definition cmd_channel :: "build_cfg \<Rightarrow> drv_env \<Rightarrow> string option \<Rightarrow> console \<Rightarrow> reply list \<times> console" where
  "cmd_channel cfg e arg s =
     (let n = (case arg of None \<Rightarrow> 0 | Some t \<Rightarrow> atoi t) in
      if n = 1 \<or> n = 6 \<or> n = 11 then
        let ch = of_int n;
            s = s\<lparr> co_cfg := (co_cfg s)\<lparr> nc_wifi_channel := ch \<rparr>,
                   co_flash := (co_flash s)\<lparr> nf_chan := Some ch \<rparr> \<rparr>
        in ([ChannelSet ch], restart_broadcast cfg e ch s)
      else ([Text ''channel must be 1, 6 or 11''], s))"

definition cmd_dirid :: "build_cfg \<Rightarrow> drv_env \<Rightarrow> string option \<Rightarrow> console \<Rightarrow> reply list \<times> console" where
  "cmd_dirid cfg e arg s =
     (let chn = nc_wifi_channel (co_cfg s) in
      case arg of
        None \<Rightarrow> ([DirId (dv_source_id (co_driver s)) chn], s)
      | Some t \<Rightarrow>
          if chn = 6 then ([Text ''ch6 Director ID is MAC-derived and not settable''], s)
          else
            let v = strtol16 t;
                ok = (if chn = 1 then v \<ge> 0 \<and> v \<le> 0x3F else v \<ge> 0x40 \<and> v \<le> 0xFE)
            in if \<not> ok then
                 ([Text (if chn = 1 then ''ch1 Director ID must be hex 00-3F (community)''
                         else ''ch11 Director ID must be hex 40-FE (performance)'')], s)
               else
                 let save = (if chn = 1 then save_director_source_id else save_director_perf_source_id);
                     s = s\<lparr> co_driver := (co_driver s)\<lparr> dv_nvs := save (of_int v) (dv_nvs (co_driver s)) \<rparr> \<rparr>
                 in ([DirIdSet (of_int v)], restart_broadcast cfg e chn s))"

text \<open>\<open>static\<close> parses its three addresses one after the other straight into the configuration.\<close>

definition cmd_static :: "string option \<Rightarrow> string option \<Rightarrow> string option \<Rightarrow> console \<Rightarrow> reply list \<times> console" where
  "cmd_static a m g s =
     (let usage = [Text ''usage: static <ip> <mask> <gw>''] in
      case parse_ip a of None \<Rightarrow> (usage, s) | Some ip \<Rightarrow>
      let s = s\<lparr> co_cfg := (co_cfg s)\<lparr> nc_ip := ip \<rparr> \<rparr> in
      case parse_ip m of None \<Rightarrow> (usage, s) | Some msk \<Rightarrow>
      let s = s\<lparr> co_cfg := (co_cfg s)\<lparr> nc_mask := msk \<rparr> \<rparr> in
      case parse_ip g of None \<Rightarrow> (usage, s) | Some gw \<Rightarrow>
      ([Text ''static set (save + reboot to apply)''],
       s\<lparr> co_cfg := (co_cfg s)\<lparr> nc_gw := gw, nc_use_dhcp := False \<rparr> \<rparr>))"

definition cmd_netpass :: "string option \<Rightarrow> console \<Rightarrow> reply list \<times> console" where
  "cmd_netpass arg s =
     (case arg of
        None \<Rightarrow> ([Text (if has_password s then ''netpass: set (hidden) - '' @ quoted ''netpass off'' @ '' to disable''
                          else ''netpass: not set (network console off)'')], s)
      | Some t \<Rightarrow>
          if t = ''off'' \<or> t = ''clear'' then ([Text ''network console disabled''], clear_password s)
          else ([Text ''network console password set (TCP port 2323)''], set_password t s))"

definition handle :: "build_cfg \<Rightarrow> drv_env \<Rightarrow> port \<Rightarrow> string \<Rightarrow> console \<Rightarrow> reply list \<times> console" where
  "handle cfg e p line s =
     (case strtok line of
        (None, r0) \<Rightarrow> ([], s)
      | (Some cmd, r0) \<Rightarrow>
          let (t1, r1) = strtok r0; (t2, r2) = strtok r1; (t3, r3) = strtok r2 in
          if cmd = ''show'' \<or> cmd = ''?'' then ([Status], s)
          else if cmd = ''help'' then ([Help], s)
          else if cmd = ''mon'' then
            ([], set_session p ((get_session p s)\<lparr> se_mon := True, se_mon_last := 0 \<rparr>) s)
          else if cmd = ''channel'' then cmd_channel cfg e t1 s
          else if cmd = ''dirid'' then cmd_dirid cfg e t1 s
          else if cmd = ''dhcp'' then
            ([Text ''dhcp set (save + reboot to apply)''], s\<lparr> co_cfg := (co_cfg s)\<lparr> nc_use_dhcp := True \<rparr> \<rparr>)
          else if cmd = ''static'' then cmd_static t1 t2 t3 s
          else if cmd = ''sacn'' then
            (case t1 of
               Some t \<Rightarrow> ([Text ''sacn set (save + reboot)''],
                 s\<lparr> co_cfg := (co_cfg s)\<lparr> nc_sacn_universe := of_int (atoi t) \<rparr> \<rparr>)
             | None \<Rightarrow> ([Text ''usage: sacn <universe>''], s))
          else if cmd = ''artnet'' then
            (case t1 of
               Some t \<Rightarrow> ([Text ''artnet set (save + reboot)''],
                 s\<lparr> co_cfg := (co_cfg s)\<lparr> nc_artnet_universe := of_int (atoi t) \<rparr> \<rparr>)
             | None \<Rightarrow> ([Text ''usage: artnet <universe>''], s))
          else if cmd = ''netpass'' then cmd_netpass t1 s
          else if cmd = ''irtest'' then
            ([IrTest (case t1 of Some t \<Rightarrow> of_int (atoi t) | None \<Rightarrow> 2), Text ''IR test done''], s)
          else if cmd = ''save'' then
            ([Text ''saved''], s\<lparr> co_flash := net_config_save (co_cfg s) (co_flash s) \<rparr>)
          else if cmd = ''reboot'' then ([Text ''rebooting...'', Restart], s\<lparr> co_down := True \<rparr>)
          else if cmd = ''bootloader'' then
            ([Text ''entering bootloader (reflash me, or power-cycle to abort)...'', RomLoader], s\<lparr> co_down := True \<rparr>)
          else ([Text (''unknown - type '' @ quoted ''help'')], s))"

section \<open>The sessions\<close>

definition printable :: "char \<Rightarrow> bool" where
  "printable c \<longleftrightarrow> 0x20 \<le> (of_char c :: nat) \<and> (of_char c :: nat) < 0x7F"

definition newline :: "char \<Rightarrow> bool" where
  "newline c \<longleftrightarrow> c = CHR 0x0A \<or> c = CHR 0x0D"

definition put_line :: "string \<Rightarrow> session \<Rightarrow> session" where
  "put_line l x = x\<lparr> se_line := l \<rparr>"

text \<open>One character of a session that takes commands. A stopped client has nothing more to read, and a board that
  restarts does not go on.\<close>

definition command_char :: "build_cfg \<Rightarrow> drv_env \<Rightarrow> port \<Rightarrow> char \<Rightarrow> console \<Rightarrow> reply list \<times> console" where
  "command_char cfg e p c s =
     (let x = get_session p s in
      if newline c then
        if se_line x \<noteq> [] then
          let (out, s1) = handle cfg e p (se_line x) s in
          (out @ [Prompt], set_session p (put_line [] (get_session p s1)) s1)
        else ([], s)
      else if printable c \<and> length (se_line x) < kLineSize - 1 then
        ([Echo c], set_session p (put_line (se_line x @ [c]) x) s)
      else ([], s))"

fun command_chars :: "build_cfg \<Rightarrow> drv_env \<Rightarrow> port \<Rightarrow> string \<Rightarrow> console \<Rightarrow> reply list \<times> console" where
  "command_chars cfg e p [] s = ([], s)"
| "command_chars cfg e p (c # cs) s =
     (if co_down s \<or> (p = Net \<and> co_tcp_state s = Closed) then ([], s)
      else
        let (out, s1) = command_char cfg e p c s; (outs, s2) = command_chars cfg e p cs s1 in (out @ outs, s2))"

definition service_session :: "build_cfg \<Rightarrow> drv_env \<Rightarrow> port \<Rightarrow> string \<Rightarrow> console \<Rightarrow> reply list \<times> console" where
  "service_session cfg e p rx s =
     (let x = get_session p s in
      if se_mon x then
        if rx \<noteq> [] then ([Prompt], set_session p (x\<lparr> se_mon := False \<rparr>) s)
        else if de_now e - se_mon_last x \<ge> 1000 then
          ([Status, Text ''(press a key to stop)''], set_session p (x\<lparr> se_mon_last := de_now e \<rparr>) s)
        else ([], s)
      else command_chars cfg e p rx s)"

definition service_usb :: "build_cfg \<Rightarrow> drv_env \<Rightarrow> bool \<Rightarrow> string \<Rightarrow> console \<Rightarrow> reply list \<times> console" where
  "service_usb cfg e host rx s =
     (if \<not> host then ([], s\<lparr> co_was_connected := False, co_usb := (co_usb s)\<lparr> se_mon := False \<rparr> \<rparr>)
      else
        let (out, s1) =
          (if \<not> co_was_connected s then
             ([Help, Status, Prompt],
              s\<lparr> co_was_connected := True, co_usb := (co_usb s)\<lparr> se_line := [], se_mon := False \<rparr> \<rparr>)
           else ([], s));
          (outs, s2) = service_session cfg e Usb rx s1
        in (out @ outs, s2))"

text \<open>What the sockets hand over: the link, the client still connected, another client waiting, and the characters
  received from the client.\<close>

record tcp_env =
  te_link :: bool
  te_connected :: bool
  te_waiting :: bool
  te_rx :: string

definition close_tcp :: "console \<Rightarrow> console" where
  "close_tcp s = s\<lparr> co_tcp_state := Closed, co_tcp := (co_tcp s)\<lparr> se_mon := False, se_line := [] \<rparr> \<rparr>"

text \<open>The password prompt: characters are collected up to the first end of a line that is not empty.\<close>

fun auth_chars :: "drv_env \<Rightarrow> string \<Rightarrow> console \<Rightarrow> reply list \<times> console" where
  "auth_chars e [] s = ([], s)"
| "auth_chars e (c # cs) s =
     (let s = s\<lparr> co_tcp_last_ms := de_now e \<rparr>; x = co_tcp s in
      if newline c then
        if se_line x = [] then auth_chars e cs s
        else
          let ok = (se_line x = co_pass s); s = s\<lparr> co_tcp := put_line [] x \<rparr> in
          if ok then ([Help, Status, Prompt], s\<lparr> co_tcp_state := Open \<rparr>)
          else ([Text ''denied''],
                s\<lparr> co_tcp_state := Closed, co_lockout_until := de_now e + kLockoutMs \<rparr>)
      else if printable c \<and> length (se_line x) < kLineSize - 1 then
        auth_chars e cs (s\<lparr> co_tcp := put_line (se_line x @ [c]) x \<rparr>)
      else auth_chars e cs s)"

definition tcp_teardown :: "drv_env \<Rightarrow> tcp_env \<Rightarrow> console \<Rightarrow> reply list \<times> console" where
  "tcp_teardown e t s =
     (if co_tcp_state s = Closed then ([], s)
      else if \<not> te_connected t then ([], close_tcp s)
      else if de_now e - co_tcp_last_ms s > kIdleMs then ([Text ''idle timeout - bye''], close_tcp s)
      else ([], s))"

definition tcp_accept :: "drv_env \<Rightarrow> tcp_env \<Rightarrow> console \<Rightarrow> reply list \<times> console" where
  "tcp_accept e t s =
     (if \<not> te_waiting t then ([], s)
      else if de_now e < co_lockout_until s then ([Text ''locked out, try again shortly''], s)
      else ([Text ''password: ''],
            s\<lparr> co_tcp_state := Auth, co_tcp := put_line [] ((co_tcp s)\<lparr> se_mon := False \<rparr>),
               co_tcp_last_ms := de_now e \<rparr>))"

definition service_tcp :: "build_cfg \<Rightarrow> drv_env \<Rightarrow> tcp_env \<Rightarrow> console \<Rightarrow> reply list \<times> console" where
  "service_tcp cfg e t s =
     (if \<not> has_password s then ([], s)
      else if \<not> co_server_started s \<and> \<not> te_link t then ([], s)
      else
        let (out, s) = tcp_teardown e t (s\<lparr> co_server_started := True \<rparr>);
            (outs, s) =
              (case co_tcp_state s of
                 Closed \<Rightarrow> tcp_accept e t s
               | Auth \<Rightarrow> auth_chars e (te_rx t) s
               | Open \<Rightarrow> service_session cfg e Net (te_rx t)
                   (if te_rx t \<noteq> [] then s\<lparr> co_tcp_last_ms := de_now e \<rparr> else s))
        in (out @ outs, s))"

text \<open>One poll of the console; the first one loads the configuration and the password.\<close>

definition net_console_load :: "console \<Rightarrow> console" where
  "net_console_load s =
     (if co_loaded s then s
      else (load_password (s\<lparr> co_cfg := net_config_load (co_flash s) \<rparr>))\<lparr> co_loaded := True \<rparr>)"

definition net_console_poll ::
    "build_cfg \<Rightarrow> drv_env \<Rightarrow> bool \<Rightarrow> string \<Rightarrow> tcp_env \<Rightarrow> console \<Rightarrow> reply list \<times> reply list \<times> console" where
  "net_console_poll cfg e host usb_rx t s =
     (let (out, s1) = service_usb cfg e host usb_rx (net_console_load s) in
      if co_down s1 then (out, [], s1)
      else let (outs, s2) = service_tcp cfg e t s1 in (out, outs, s2))"

text \<open>Power-up: RAM starts anew over the flash.\<close>

definition console_boot :: "net_flash \<Rightarrow> driver \<Rightarrow> console" where
  "console_boot f d = \<lparr> co_usb = session_init, co_tcp = session_init, co_was_connected = False, co_loaded = False,
     co_cfg = net_config_default, co_pass = [], co_server_started = False, co_tcp_state = Closed, co_tcp_last_ms = 0,
     co_lockout_until = 0, co_flash = f, co_driver = d, co_down = False \<rparr>"

section \<open>What every poll keeps\<close>

definition legal_channel :: "u8 \<Rightarrow> bool" where
  "legal_channel c \<longleftrightarrow> c = 1 \<or> c = 6 \<or> c = 11"

definition net_flash_ok :: "net_flash \<Rightarrow> bool" where
  "net_flash_ok f \<longleftrightarrow> legal_channel (get_or (nf_chan f) 1) \<and> length (get_or (nf_pass f) []) \<le> 32"

definition console_ok :: "console \<Rightarrow> bool" where
  "console_ok s \<longleftrightarrow> net_flash_ok (co_flash s) \<and> legal_channel (nc_wifi_channel (co_cfg s))
     \<and> length (nc_ip (co_cfg s)) = 4 \<and> length (nc_mask (co_cfg s)) = 4 \<and> length (nc_gw (co_cfg s)) = 4
     \<and> length (se_line (co_usb s)) < kLineSize \<and> length (se_line (co_tcp s)) < kLineSize
     \<and> (co_loaded s \<longrightarrow> co_pass s = get_or (nf_pass (co_flash s)) []) \<and> (\<not> co_loaded s \<longrightarrow> co_pass s = [])"

lemma console_okD:
  "console_ok s \<Longrightarrow> length (co_pass s) \<le> 32"
  by (cases "co_loaded s") (auto simp: console_ok_def net_flash_ok_def)

lemma get_or_Some [simp]: "get_or (Some x) d = x"
  by (simp add: get_or_def)

lemma get_set_session [simp]:
  "get_session p (set_session p x s) = x"
  "co_cfg (set_session p x s) = co_cfg s" "co_flash (set_session p x s) = co_flash s"
  "co_pass (set_session p x s) = co_pass s" "co_loaded (set_session p x s) = co_loaded s"
  "co_driver (set_session p x s) = co_driver s" "co_down (set_session p x s) = co_down s"
  "co_tcp_state (set_session p x s) = co_tcp_state s"
  by (cases p; simp add: get_session_def set_session_def)+

lemma console_ok_session:
  "console_ok s \<Longrightarrow> length (se_line x) < kLineSize \<Longrightarrow> console_ok (set_session p x s)"
  by (cases p) (auto simp: console_ok_def set_session_def)

lemma console_ok_line: "console_ok s \<Longrightarrow> length (se_line (get_session p s)) < kLineSize"
  by (cases p) (simp_all add: console_ok_def get_session_def)

lemma parse_ip_length: "parse_ip t = Some v \<Longrightarrow> length v = 4"
  by (auto simp: parse_ip_def split: option.splits if_splits)

lemma cmd_channel_ok: "console_ok s \<Longrightarrow> console_ok (snd (cmd_channel cfg e a s))"
  by (auto simp: cmd_channel_def Let_def restart_broadcast_def console_ok_def net_flash_ok_def legal_channel_def)

lemma cmd_dirid_ok: "console_ok s \<Longrightarrow> console_ok (snd (cmd_dirid cfg e a s))"
  by (auto simp: cmd_dirid_def Let_def restart_broadcast_def console_ok_def split: option.split)

lemma cmd_static_ok: "console_ok s \<Longrightarrow> console_ok (snd (cmd_static a m g s))"
  by (auto simp: cmd_static_def Let_def console_ok_def parse_ip_length split: option.split)

lemma cmd_netpass_ok: "console_ok s \<Longrightarrow> co_loaded s \<Longrightarrow> console_ok (snd (cmd_netpass a s))"
  by (auto simp: cmd_netpass_def clear_password_def set_password_def console_ok_def net_flash_ok_def get_or_def
      split: option.split)

lemma cmd_loaded [simp]:
  "co_loaded (snd (cmd_channel cfg e a s)) = co_loaded s" "co_loaded (snd (cmd_dirid cfg e a s)) = co_loaded s"
  "co_loaded (snd (cmd_static a m g s)) = co_loaded s" "co_loaded (snd (cmd_netpass a s)) = co_loaded s"
  by (auto simp: cmd_channel_def cmd_dirid_def cmd_static_def cmd_netpass_def clear_password_def
      set_password_def restart_broadcast_def Let_def split: option.split)

text \<open>The outcomes of a command line.\<close>

lemma if_cases_intro: "(P \<Longrightarrow> Q a) \<Longrightarrow> (\<not> P \<Longrightarrow> Q b) \<Longrightarrow> Q (if P then a else b)"
  by simp

lemma handle_rule:
  assumes "\<And>r. Q (r, s)"
    and "Q ([], set_session p ((get_session p s)\<lparr> se_mon := True, se_mon_last := 0 \<rparr>) s)"
    and "\<And>a. Q (cmd_channel cfg e a s)" and "\<And>a. Q (cmd_dirid cfg e a s)"
    and "\<And>r. Q (r, s\<lparr> co_cfg := (co_cfg s)\<lparr> nc_use_dhcp := True \<rparr> \<rparr>)"
    and "\<And>a m g. Q (cmd_static a m g s)"
    and "\<And>r u. Q (r, s\<lparr> co_cfg := (co_cfg s)\<lparr> nc_sacn_universe := u \<rparr> \<rparr>)"
    and "\<And>r u. Q (r, s\<lparr> co_cfg := (co_cfg s)\<lparr> nc_artnet_universe := u \<rparr> \<rparr>)"
    and "\<And>a. Q (cmd_netpass a s)"
    and "\<And>r. Q (r, s\<lparr> co_flash := net_config_save (co_cfg s) (co_flash s) \<rparr>)"
    and "\<And>r. Q (r, s\<lparr> co_down := True \<rparr>)"
  shows "Q (handle cfg e p line s)"
proof -
  obtain c r0 where c: "strtok line = (c, r0)" by (cases "strtok line")
  obtain t1 r1 where t1: "strtok r0 = (t1, r1)" by (cases "strtok r0")
  obtain t2 r2 where t2: "strtok r1 = (t2, r2)" by (cases "strtok r1")
  obtain t3 r3 where t3: "strtok r2 = (t3, r3)" by (cases "strtok r2")
  show ?thesis
  proof (cases c)
    case None
    then show ?thesis using assms(1) c by (simp add: handle_def)
  next
    case (Some cmd)
    show ?thesis unfolding handle_def c Some t1 t2 t3 Let_def prod.case option.case
      using assms by (intro if_cases_intro [where Q = Q]) (simp_all split: option.split)
  qed
qed

text \<open>Changes of the settings in RAM that keep the invariant.\<close>

lemma console_ok_fields:
  assumes "console_ok s"
  shows "console_ok (s\<lparr> co_cfg := (co_cfg s)\<lparr> nc_use_dhcp := b \<rparr> \<rparr>)"
    and "console_ok (s\<lparr> co_cfg := (co_cfg s)\<lparr> nc_sacn_universe := u \<rparr> \<rparr>)"
    and "console_ok (s\<lparr> co_cfg := (co_cfg s)\<lparr> nc_artnet_universe := u \<rparr> \<rparr>)"
    and "console_ok (s\<lparr> co_down := b \<rparr>)"
    and "console_ok (s\<lparr> co_flash := net_config_save (co_cfg s) (co_flash s) \<rparr>)"
    and "console_ok (set_session p ((get_session p s)\<lparr> se_mon := b, se_mon_last := t \<rparr>) s)"
  using assms console_ok_session [OF assms, of "(get_session p s)\<lparr> se_mon := b, se_mon_last := t \<rparr>" p]
    console_ok_line [OF assms, of p]
  by (simp_all add: console_ok_def net_flash_ok_def net_config_save_def)

definition sound :: "'a \<times> console \<Rightarrow> bool" where
  "sound x \<longleftrightarrow> console_ok (snd x) \<and> co_loaded (snd x)"

lemma handle_ok:
  assumes "console_ok s" and "co_loaded s"
  shows "sound (handle cfg e p line s)"
proof (rule handle_rule)
  note f = console_ok_fields [OF assms(1)]
  show "sound (r, s)" "sound (r, s\<lparr> co_cfg := (co_cfg s)\<lparr> nc_use_dhcp := True \<rparr> \<rparr>)"
    "sound (r, s\<lparr> co_cfg := (co_cfg s)\<lparr> nc_sacn_universe := u \<rparr> \<rparr>)"
    "sound (r, s\<lparr> co_cfg := (co_cfg s)\<lparr> nc_artnet_universe := u \<rparr> \<rparr>)"
    "sound (r, s\<lparr> co_flash := net_config_save (co_cfg s) (co_flash s) \<rparr>)" "sound (r, s\<lparr> co_down := True \<rparr>)"
    for r :: "reply list" and u
    using assms f by (simp_all add: sound_def)
  show "sound ([], set_session p ((get_session p s)\<lparr> se_mon := True, se_mon_last := 0 \<rparr>) s)"
    using assms f by (simp add: sound_def)
  show "sound (cmd_channel cfg e a s)" "sound (cmd_dirid cfg e a s)" "sound (cmd_static a m g s)" "sound (cmd_netpass a s)"
    for a m g using assms cmd_channel_ok cmd_dirid_ok cmd_static_ok cmd_netpass_ok by (simp_all add: sound_def)
qed

lemma soundI: "console_ok s \<Longrightarrow> co_loaded s \<Longrightarrow> sound (r, s)"
  by (simp add: sound_def)

lemma soundD: "sound x \<Longrightarrow> console_ok (snd x) \<and> co_loaded (snd x)"
  by (simp add: sound_def)

lemma command_char_ok:
  assumes "console_ok s" and "co_loaded s"
  shows "sound (command_char cfg e p c s)"
proof -
  let ?x = "get_session p s"
  obtain out s1 where h: "handle cfg e p (se_line ?x) s = (out, s1)" by (cases "handle cfg e p (se_line ?x) s")
  then have "console_ok s1" "co_loaded s1" using handle_ok [OF assms, of cfg e p "se_line ?x"] by (simp_all add: sound_def)
  then have "sound (out @ [Prompt], set_session p (put_line [] (get_session p s1)) s1)"
    by (intro soundI console_ok_session) (simp_all add: put_line_def)
  moreover have "sound ([Echo c], set_session p (put_line (se_line ?x @ [c]) ?x) s)" if "length (se_line ?x) < kLineSize - 1"
    using assms that by (intro soundI console_ok_session) (simp_all add: put_line_def)
  ultimately show ?thesis using assms h by (auto simp: command_char_def Let_def intro: soundI)
qed

lemma command_chars_ok: "console_ok s \<Longrightarrow> co_loaded s \<Longrightarrow> sound (command_chars cfg e p cs s)"
proof (induction cs arbitrary: s)
  case Nil
  then show ?case by (simp add: soundI)
next
  case (Cons c cs)
  have "sound (command_chars cfg e p cs (snd (command_char cfg e p c s)))"
    using Cons.IH soundD [OF command_char_ok [OF Cons.prems, of cfg e p c]] by blast
  then show ?case using Cons.prems by (auto simp: case_prod_beta sound_def)
qed

lemma service_session_ok:
  assumes "console_ok s" and "co_loaded s"
  shows "sound (service_session cfg e p rx s)"
proof -
  have "sound (r, set_session p ((get_session p s)\<lparr> se_mon := False \<rparr>) s)"
    "sound (r, set_session p ((get_session p s)\<lparr> se_mon_last := t \<rparr>) s)" for r :: "reply list" and t
    using assms console_ok_line [OF assms(1), of p] by (auto intro!: soundI console_ok_session)
  then show ?thesis using assms command_chars_ok by (auto simp: service_session_def Let_def soundI)
qed

lemma service_usb_ok:
  assumes "console_ok s" and "co_loaded s"
  shows "sound (service_usb cfg e host rx s)"
proof -
  have a: "sound ([], s\<lparr> co_was_connected := False, co_usb := (co_usb s)\<lparr> se_mon := False \<rparr> \<rparr>)"
    using assms by (simp add: sound_def console_ok_def)
  have "sound (service_session cfg e Usb rx
    (s\<lparr> co_was_connected := True, co_usb := (co_usb s)\<lparr> se_line := [], se_mon := False \<rparr> \<rparr>))"
    using assms by (intro service_session_ok) (simp_all add: console_ok_def)
  then show ?thesis using a service_session_ok [OF assms, of cfg e Usb rx]
    by (simp add: service_usb_def Let_def case_prod_beta sound_def)
qed

text \<open>The password prompt, case by case.\<close>

lemma auth_step:
  "auth_chars e (c # cs) s =
     (let s = s\<lparr> co_tcp_last_ms := de_now e \<rparr>; l = se_line (co_tcp s); quiet = s\<lparr> co_tcp := put_line [] (co_tcp s) \<rparr> in
      if newline c \<and> l = [] then auth_chars e cs s
      else if newline c \<and> l = co_pass s then ([Help, Status, Prompt], quiet\<lparr> co_tcp_state := Open \<rparr>)
      else if newline c then ([Text ''denied''],
        quiet\<lparr> co_tcp_state := Closed, co_lockout_until := de_now e + kLockoutMs \<rparr>)
      else if printable c \<and> length l < kLineSize - 1 then
        auth_chars e cs (s\<lparr> co_tcp := put_line (l @ [c]) (co_tcp s) \<rparr>)
      else auth_chars e cs s)"
  by (simp add: Let_def)

declare auth_chars.simps(2) [simp del]

lemma auth_chars_ok: "console_ok s \<Longrightarrow> co_loaded s \<Longrightarrow> sound (auth_chars e rx s)"
proof (induction rx arbitrary: s)
  case Nil
  then show ?case by (simp add: soundI)
next
  case (Cons c cs)
  let ?s = "s\<lparr> co_tcp_last_ms := de_now e \<rparr>"
  have s: "console_ok ?s" "co_loaded ?s" using Cons.prems by (simp_all add: console_ok_def)
  have l: "console_ok (?s\<lparr> co_tcp := put_line l (co_tcp s) \<rparr>)" if "length l < kLineSize" for l
    using s that by (simp add: console_ok_def put_line_def)
  have close: "console_ok (?s\<lparr> co_tcp := put_line [] (co_tcp s), co_tcp_state := st, co_lockout_until := t \<rparr>)"
    "console_ok (?s\<lparr> co_tcp := put_line [] (co_tcp s), co_tcp_state := st \<rparr>)" for st t
    using l [of "[]"] by (simp_all add: console_ok_def)
  have more: "sound (auth_chars e cs (?s\<lparr> co_tcp := put_line (se_line (co_tcp s) @ [c]) (co_tcp s) \<rparr>))"
    if "length (se_line (co_tcp s)) < kLineSize - 1"
    using that s by (intro Cons.IH l) simp_all
  show ?case unfolding auth_step Let_def
    using Cons.IH [OF s] s close more by (simp add: soundI)
qed

lemma tcp_pieces_ok:
  assumes "console_ok s" and "co_loaded s"
  shows "sound (tcp_teardown e t s)" and "sound (tcp_accept e t s)"
  using assms by (auto simp: tcp_teardown_def tcp_accept_def close_tcp_def put_line_def sound_def console_ok_def)

lemma service_tcp_ok:
  assumes "console_ok s" and "co_loaded s"
  shows "sound (service_tcp cfg e t s)"
proof -
  obtain out s1 where t: "tcp_teardown e t (s\<lparr> co_server_started := True \<rparr>) = (out, s1)"
    by (cases "tcp_teardown e t (s\<lparr> co_server_started := True \<rparr>)")
  have s1: "console_ok s1" "co_loaded s1"
    using tcp_pieces_ok(1) [of "s\<lparr> co_server_started := True \<rparr>" e t] assms t by (simp_all add: sound_def console_ok_def)
  define s2 where "s2 = (if te_rx t \<noteq> [] then s1\<lparr> co_tcp_last_ms := de_now e \<rparr> else s1)"
  have "console_ok s2" "co_loaded s2" using s1 by (auto simp: s2_def console_ok_def)
  then have "sound (service_session cfg e Net (te_rx t) s2)" by (rule service_session_ok)
  then show ?thesis
    using assms t soundD [OF tcp_pieces_ok(2) [OF s1, of e t]] soundD [OF auth_chars_ok [OF s1, of e "te_rx t"]] s1
    by (cases "te_rx t = []") (simp_all add: service_tcp_def sound_def case_prod_beta s2_def split: tcp_state.split)
qed

lemma net_console_load_ok:
  "console_ok s \<Longrightarrow> console_ok (net_console_load s) \<and> co_loaded (net_console_load s)"
  by (auto simp: net_console_load_def load_password_def console_ok_def net_flash_ok_def net_config_load_def
      net_config_default_def unpack_def Let_def get_or_def split: option.splits)

lemma net_console_poll_ok:
  assumes "console_ok s"
  shows "console_ok (snd (snd (net_console_poll cfg e host rx t s)))"
proof -
  obtain out s1 where u: "service_usb cfg e host rx (net_console_load s) = (out, s1)"
    by (cases "service_usb cfg e host rx (net_console_load s)")
  then have "console_ok s1" "co_loaded s1"
    using service_usb_ok net_console_load_ok [OF assms] by (metis sound_def snd_conv)+
  then show ?thesis using u soundD [OF service_tcp_ok, of s1 cfg e t]
    by (simp add: net_console_poll_def case_prod_beta)
qed

text \<open>A run of polls, until the board restarts.\<close>

fun console_run :: "build_cfg \<Rightarrow> (drv_env \<times> bool \<times> string \<times> tcp_env) list \<Rightarrow> console \<Rightarrow> console" where
  "console_run cfg [] s = s"
| "console_run cfg ((e, host, rx, t) # ps) s =
     (if co_down s then s else console_run cfg ps (snd (snd (net_console_poll cfg e host rx t s))))"

lemma console_run_ok: "console_ok s \<Longrightarrow> console_ok (console_run cfg ps s)"
  by (induction cfg ps s rule: console_run.induct) (simp_all add: net_console_poll_ok)

lemma console_boot_ok: "net_flash_ok f \<Longrightarrow> console_ok (console_boot f d)"
  by (simp add: console_ok_def console_boot_def session_init_def net_config_default_def legal_channel_def)

text \<open>C20: Whatever is typed on the serial port and sent to the network port, by whomever, for however long: the fleet channel
  of the console, in RAM and in the flash the next power-up reads, is 1, 6 or 11, addresses have four bytes, no line
  overruns its 96-byte buffer and the password in RAM, of at most 32 characters, is the one in the flash.\<close>

theorem console_state_legal:
  assumes "net_flash_ok f"
  shows "console_ok (console_run cfg ps (console_boot f d))"
  by (rule console_run_ok [OF console_boot_ok [OF assms]])

section \<open>Nobody gets in without the password\<close>

text \<open>Runs of the network side alone, and what must not change under them.\<close>

fun tcp_run :: "build_cfg \<Rightarrow> (drv_env \<times> tcp_env) list \<Rightarrow> console \<Rightarrow> console" where
  "tcp_run cfg [] s = s"
| "tcp_run cfg ((e, t) # xs) s = tcp_run cfg xs (snd (service_tcp cfg e t s))"

definition received :: "(drv_env \<times> tcp_env) list \<Rightarrow> string" where
  "received xs = filter printable (concat (map (\<lambda>(e, t). te_rx t) xs))"

definition same_core :: "console \<Rightarrow> console \<Rightarrow> bool" where
  "same_core s s' \<longleftrightarrow> co_cfg s' = co_cfg s \<and> co_flash s' = co_flash s \<and> co_driver s' = co_driver s
     \<and> co_pass s' = co_pass s \<and> co_usb s' = co_usb s \<and> co_down s' = co_down s"

lemma same_core_refl [simp]: "same_core s s"
  by (simp add: same_core_def)

lemma same_core_trans: "same_core a b \<Longrightarrow> same_core b c \<Longrightarrow> same_core a c"
  by (simp add: same_core_def)

lemma newline_not_printable: "newline c \<Longrightarrow> \<not> printable c"
  by (auto simp: newline_def printable_def)

text \<open>What the prompt holds is the end of what was received, unless it is too long to be the password.\<close>

definition heard_line :: "string \<Rightarrow> console \<Rightarrow> bool" where
  "heard_line h s \<longleftrightarrow> co_tcp_state s \<noteq> Open \<and> (co_tcp_state s = Auth \<longrightarrow> co_server_started s) \<and>
     (co_tcp_state s = Auth \<longrightarrow> length (se_line (co_tcp s)) < kLineSize - 1 \<longrightarrow> suffix (se_line (co_tcp s)) h)"

lemma not_sublist_suffix: "\<not> sublist p (h @ r) \<Longrightarrow> suffix p h \<Longrightarrow> False"
  unfolding suffix_def sublist_def by (metis append.assoc)

lemma auth_needs_password:
  assumes "heard_line h s" and "co_tcp_state s = Auth" and "length (co_pass s) \<le> 32"
    and "\<not> sublist (co_pass s) (h @ filter printable rx)"
  shows "same_core s (snd (auth_chars e rx s)) \<and> heard_line (h @ filter printable rx) (snd (auth_chars e rx s))"
  using assms
proof (induction rx arbitrary: s h)
  case Nil
  then show ?case by simp
next
  case (Cons c cs)
  let ?s = "s\<lparr> co_tcp_last_ms := de_now e \<rparr>" and ?l = "se_line (co_tcp s)"
  have keep: "same_core s (snd (auth_chars e cs ?s)) \<and> heard_line (h @ filter printable cs) (snd (auth_chars e cs ?s))"
    if "\<not> printable c \<or> \<not> length ?l < kLineSize - 1" "\<not> sublist (co_pass s) (h @ filter printable cs)"
    using Cons.IH [of h ?s] Cons.prems that by (auto simp: heard_line_def same_core_def)
  consider (blank) "newline c" "?l = []" | (right) "newline c" "?l \<noteq> []" "?l = co_pass s"
    | (denied) "newline c" "?l \<noteq> []" "?l \<noteq> co_pass s"
    | (more) "\<not> newline c" "printable c" "length ?l < kLineSize - 1" | (ignored) "\<not> newline c" "\<not> printable c"
    | (full) "\<not> newline c" "printable c" "\<not> length ?l < kLineSize - 1" by blast
  then show ?case
  proof cases
    case blank
    then show ?thesis using keep Cons.prems(4) newline_not_printable by (auto simp: auth_step Let_def)
  next
    case right
    then have "suffix (co_pass s) h" using Cons.prems by (simp add: heard_line_def)
    then show ?thesis using Cons.prems(4) not_sublist_suffix by blast
  next
    case denied
    then show ?thesis by (simp add: auth_step Let_def same_core_def heard_line_def)
  next
    case more
    let ?t = "?s\<lparr> co_tcp := put_line (?l @ [c]) (co_tcp s) \<rparr>"
    have "heard_line (h @ [c]) ?t" using Cons.prems(1,2) more(3)
      by (auto simp: heard_line_def put_line_def suffix_def)
    then have "same_core ?t (snd (auth_chars e cs ?t)) \<and> heard_line ((h @ [c]) @ filter printable cs) (snd (auth_chars e cs ?t))"
      using Cons.IH [of "h @ [c]" ?t] Cons.prems(2-4) more(2) by simp
    then show ?thesis using more by (simp add: auth_step Let_def same_core_def)
  next
    case ignored
    then show ?thesis using keep Cons.prems(4) by (simp add: auth_step Let_def)
  next
    case full
    have "heard_line (h @ [c]) ?s" using Cons.prems(1,2) full(3) by (simp add: heard_line_def)
    then show ?thesis using Cons.IH [of "h @ [c]" ?s] Cons.prems full by (simp add: auth_step Let_def same_core_def)
  qed
qed

lemma service_tcp_needs_password:
  assumes "heard_line h s" and "length (co_pass s) \<le> 32"
    and "co_pass s = [] \<or> \<not> sublist (co_pass s) (h @ filter printable (te_rx t))"
  shows "same_core s (snd (service_tcp cfg e t s)) \<and> heard_line (h @ filter printable (te_rx t)) (snd (service_tcp cfg e t s))
    \<or> co_pass s = [] \<and> snd (service_tcp cfg e t s) = s"
proof -
  let ?s1 = "s\<lparr> co_server_started := True \<rparr>"
  let ?s2 = "snd (tcp_teardown e t ?s1)"
  have s1: "heard_line h ?s1" using assms(1) by (simp add: heard_line_def)
  have started: "co_server_started ?s2" by (simp add: tcp_teardown_def close_tcp_def)
  have s2: "heard_line h ?s2 \<and> same_core s ?s2"
    using s1 by (auto simp: tcp_teardown_def close_tcp_def heard_line_def same_core_def)
  have acc: "same_core s (snd (tcp_accept e t ?s2)) \<and> heard_line (h @ x) (snd (tcp_accept e t ?s2))"
    if "co_tcp_state ?s2 = Closed" for x
    using s2 that started by (auto simp: tcp_accept_def heard_line_def same_core_def put_line_def)
  have auth: "same_core s (snd (auth_chars e (te_rx t) ?s2)) \<and> heard_line (h @ filter printable (te_rx t)) (snd (auth_chars e (te_rx t) ?s2))"
    if "co_tcp_state ?s2 = Auth" "co_pass s \<noteq> []"
    using auth_needs_password [of h ?s2 "te_rx t" e] s2 that assms(2,3) same_core_trans by (auto simp: same_core_def)
  have idle: "heard_line (h @ x) s" if "co_tcp_state s = Closed" for x
    using that by (simp add: heard_line_def)
  have st: "co_tcp_state ?s2 \<noteq> Open" using s2 by (simp add: heard_line_def)
  show ?thesis
  proof (cases "co_pass s \<noteq> [] \<and> (co_server_started s \<or> te_link t)")
    case True
    then show ?thesis using acc auth st
      by (cases "co_tcp_state ?s2") (auto simp: service_tcp_def has_password_def case_prod_beta)
  next
    case False
    then have "co_tcp_state s = Closed \<or> co_pass s = []"
      using assms(1) by (cases "co_tcp_state s") (auto simp: heard_line_def)
    then show ?thesis using False idle by (auto simp: service_tcp_def has_password_def)
  qed
qed

text \<open>C11: The network console is closed to whoever does not know the password. In any run of polls of the network side from
  a console without an open session, with any clients, any characters and any clock, as long as the password is not among
  the printable characters received, in one piece, no session opens and nothing but the sessions changes: configuration,
  flash, password, driver and the serial session stay as they are. Without a password nothing happens at all.\<close>

theorem network_needs_password:
  assumes "co_tcp_state s = Closed" and "length (co_pass s) \<le> 32"
    and "co_pass s = [] \<or> \<not> sublist (co_pass s) (received xs)"
  shows "same_core s (tcp_run cfg xs s) \<and> co_tcp_state (tcp_run cfg xs s) \<noteq> Open
    \<and> (co_pass s = [] \<longrightarrow> tcp_run cfg xs s = s)"
proof (cases "co_pass s = []")
  case True
  then have "tcp_run cfg xs s = s" by (induction xs) (auto simp: service_tcp_def has_password_def)
  then show ?thesis using assms(1) by simp
next
  case False
  have "same_core s (tcp_run cfg xs s') \<and> heard_line (h @ received xs) (tcp_run cfg xs s')"
    if "heard_line h s'" "same_core s s'" "\<not> sublist (co_pass s) (h @ received xs)" for h s'
    using that
  proof (induction xs arbitrary: h s')
    case Nil
    then show ?case by (simp add: received_def)
  next
    case (Cons et xs)
    obtain e t where et: "et = (e, t)" by (cases et)
    let ?h = "h @ filter printable (te_rx t)"
    have p: "co_pass s' = co_pass s" using Cons.prems(2) by (simp add: same_core_def)
    have all: "\<not> sublist (co_pass s) (?h @ received xs)" using Cons.prems(3) et by (simp add: received_def)
    then have "\<not> sublist (co_pass s) ?h" by (metis sublist_append sublist_def append.right_neutral)
    then have "same_core s' (snd (service_tcp cfg e t s')) \<and> heard_line ?h (snd (service_tcp cfg e t s'))"
      using service_tcp_needs_password [OF Cons.prems(1), of t cfg e] p False assms(2) by auto
    then show ?case using Cons.IH [of ?h "snd (service_tcp cfg e t s')"] all Cons.prems(2) et same_core_trans
      by (auto simp: received_def)
  qed
  from this [of "[]" s] False assms show ?thesis by (auto simp: heard_line_def)
qed

section \<open>The lockout after a wrong password\<close>

text \<open>A denial closes the session and starts the lockout.\<close>

lemma auth_denied:
  "Text ''denied'' \<in> set (fst (auth_chars e rx s)) \<Longrightarrow>
     co_tcp_state (snd (auth_chars e rx s)) = Closed \<and> co_lockout_until (snd (auth_chars e rx s)) = de_now e + kLockoutMs"
  by (induction rx arbitrary: s) (auto simp: auth_step Let_def split: if_splits)

lemma auth_keeps:
  "co_pass (snd (auth_chars e rx s)) = co_pass s \<and> co_server_started (snd (auth_chars e rx s)) = co_server_started s"
  by (induction rx arbitrary: s) (simp_all add: auth_step Let_def)

text \<open>While the clock reads less than the end of the lockout, nobody is let in.\<close>

definition refused :: "drv_env \<times> tcp_env \<Rightarrow> reply list" where
  "refused = (\<lambda>(e, t). if te_waiting t then [Text ''locked out, try again shortly''] else [])"

fun tcp_replies :: "build_cfg \<Rightarrow> (drv_env \<times> tcp_env) list \<Rightarrow> console \<Rightarrow> reply list list" where
  "tcp_replies cfg [] s = []"
| "tcp_replies cfg ((e, t) # xs) s =
     fst (service_tcp cfg e t s) # tcp_replies cfg xs (snd (service_tcp cfg e t s))"

lemma locked_poll:
  assumes "co_tcp_state s = Closed" and "has_password s" and "co_server_started s" and "de_now e < co_lockout_until s"
  shows "service_tcp cfg e t s = (refused (e, t), s)"
proof -
  have "s\<lparr> co_server_started := True \<rparr> = s" using assms(3) by simp
  then show ?thesis using assms
    by (simp add: service_tcp_def tcp_teardown_def tcp_accept_def refused_def)
qed

lemma locked_run:
  assumes "co_tcp_state s = Closed" and "has_password s" and "co_server_started s"
    and "\<forall>(e, t) \<in> set xs. de_now e < co_lockout_until s"
  shows "tcp_run cfg xs s = s \<and> tcp_replies cfg xs s = map refused xs"
  using assms(4)
proof (induction xs)
  case Nil
  then show ?case by simp
next
  case (Cons et xs)
  then show ?case using locked_poll [OF assms(1-3)] by (cases et) simp
qed

text \<open>C39: A wrong password closes the network port for three seconds, and then, because the end of the lockout is compared
  with the clock as it reads and is never cleared, once more when the 32-bit clock has wrapped: every client that comes
  while the clock reads less than the time of the mistake plus three seconds is refused, which for a mistake made after
  n days of uptime are the first n days after the wrap.\<close>

theorem wrong_password_lockout:
  assumes "co_tcp_state s = Auth" and "te_connected t" and "de_now e - co_tcp_last_ms s \<le> kIdleMs"
    and "has_password s" and "co_server_started s" and "service_tcp cfg e t s = (out, s')" and "Text ''denied'' \<in> set out"
    and "\<forall>(e', t') \<in> set xs. de_now e' < de_now e + kLockoutMs"
  shows "tcp_run cfg xs s' = s' \<and> tcp_replies cfg xs s' = map refused xs"
proof (rule locked_run)
  have tcp: "auth_chars e (te_rx t) s = (out, s')"
    using assms(1-6) by (cases s) (simp add: service_tcp_def tcp_teardown_def not_less [symmetric] case_prod_beta prod_eq_iff)
  have d: "co_tcp_state s' = Closed" "co_lockout_until s' = de_now e + kLockoutMs"
    using auth_denied [of e "te_rx t" s] assms(7) by (simp_all add: tcp)
  show "co_tcp_state s' = Closed" "\<forall>(e', t') \<in> set xs. de_now e' < co_lockout_until s'" using d assms(8) by simp_all
  show "has_password s'" "co_server_started s'"
    using auth_keeps [of e "te_rx t" s] assms(4,5) tcp by (simp_all add: has_password_def)
qed

section \<open>What is typed reaches the next power-up\<close>

text \<open>The notation of an address.\<close>

definition dotted :: "bytes \<Rightarrow> string" where
  "dotted v = dec (unat (v ! 0)) @ ''.'' @ dec (unat (v ! 1)) @ ''.'' @ dec (unat (v ! 2)) @ ''.'' @ dec (unat (v ! 3))"

lemma parse_dotted:
  assumes "length v = 4"
  shows "parse_ip (Some (dotted v)) = Some v"
proof -
  have b: "unat (x :: u8) < 4294967296" "unat x \<le> 255" for x using unat_u8_le [of x] by (simp_all del: unat_u8_le)
  have dot: "digit 10 CHR ''.'' = None" by (simp add: digit_def)
  obtain a b' c d where v: "v = [a, b', c, d]" using assms by (auto simp: length_numeral_conv length_one_conv)
  show ?thesis
    using b scan_u_dec [of "unat d" "[]"] dot
    by (simp add: parse_ip_def dotted_def scan_u_dec scan_dot_def v not_less)
qed

lemma bit_beyond_byte: "8 \<le> m \<Longrightarrow> \<not> bit (w :: u8) m"
  by (auto dest: bit_imp_le_length)

lemma unpack_pack: "length v = 4 \<Longrightarrow> unpack (pack v) = v"
  by (auto simp: length_convs pack_def unpack_def bit_simps bit_beyond_byte intro!: bit_word_eqI)

lemma load_save:
  assumes "length (nc_ip c) = 4" and "length (nc_mask c) = 4" and "length (nc_gw c) = 4"
  shows "net_config_load (net_config_save c f) = c"
  using assms by (simp add: net_config_load_def net_config_save_def unpack_pack)

lemma strtok_word:
  assumes "w \<noteq> []" and "\<forall>c \<in> set w. \<not> is_delim c"
  shows "strtok (w @ '' '' @ r) = (Some w, r)" and "strtok w = (Some w, [])"
proof -
  obtain c cs where w: "w = c # cs" using assms(1) by (cases w) auto
  then have "dropWhile is_delim (w @ x) = w @ x" for x using assms(2) by simp
  from this [of "[]"] this [of "'' '' @ r"]
  have f: "dropWhile is_delim w = w" "dropWhile is_delim (w @ '' '' @ r) = w @ '' '' @ r" by simp_all
  have e: "takeWhile (\<lambda>c. \<not> is_delim c) (w @ '' '' @ r) = w" "drop 1 (dropWhile (\<lambda>c. \<not> is_delim c) (w @ '' '' @ r)) = r"
    "takeWhile (\<lambda>c. \<not> is_delim c) w = w" "drop 1 (dropWhile (\<lambda>c. \<not> is_delim c) w) = []"
    using assms(2) by (auto simp: takeWhile_append2 dropWhile_append2 is_delim_def dropWhile_eq_Nil_conv [THEN iffD2])
  have n: "w @ '' '' @ r \<noteq> []" by simp
  show "strtok (w @ '' '' @ r) = (Some w, r)" unfolding strtok_def Let_def f e using n by (simp only: if_False)
  show "strtok w = (Some w, [])" unfolding strtok_def Let_def f e using assms(1) by (simp only: if_False)
qed

lemma dotted_plain: "\<forall>c \<in> set (dotted v). \<not> is_delim c \<and> printable c"
proof -
  have "\<not> is_delim c \<and> printable c" if "c \<in> set (dec n)" for c n
    using that dec_digits [of n] by (auto simp: is_delim_def printable_def)
  then show ?thesis by (auto simp: dotted_def is_delim_def printable_def)
qed

lemma dotted_nonempty: "dotted v \<noteq> []"
  by (simp add: dotted_def dec_nonempty)

lemma length_dec: "n \<le> 255 \<Longrightarrow> length (dec n) \<le> 3"
  by (simp add: dec.simps [of n] dec.simps [of "n div 10"] dec.simps [of "n div 100"] div_mult2_eq [symmetric])

lemma length_dotted: "length (dotted v) \<le> 15"
  using length_dec [of "unat (v ! 0)"] length_dec [of "unat (v ! 1)"] length_dec [of "unat (v ! 2)"]
    length_dec [of "unat (v ! 3)"] by (simp add: dotted_def)

text \<open>Typing: characters are echoed into the line, and its end runs the command.\<close>

lemma type_chars:
  assumes "\<forall>c \<in> set l. printable c" and "length (se_line (co_usb s)) + length l < kLineSize" and "\<not> co_down s"
  shows "snd (command_chars cfg e Usb (l @ r) s)
    = snd (command_chars cfg e Usb r (s\<lparr> co_usb := put_line (se_line (co_usb s) @ l) (co_usb s) \<rparr>))"
  using assms
proof (induction l arbitrary: s)
  case Nil
  then show ?case by (simp add: put_line_def)
next
  case (Cons c l)
  have "\<not> newline c" using Cons.prems(1) newline_not_printable by auto
  then have "command_char cfg e Usb c s = ([Echo c], s\<lparr> co_usb := put_line (se_line (co_usb s) @ [c]) (co_usb s) \<rparr>)"
    using Cons.prems by (simp add: command_char_def get_session_def set_session_def Let_def)
  then show ?case
    using Cons.IH [of "s\<lparr> co_usb := put_line (se_line (co_usb s) @ [c]) (co_usb s) \<rparr>"] Cons.prems
    by (simp add: case_prod_beta put_line_def)
qed

lemma type_line:
  assumes "\<forall>c \<in> set l. printable c" and "l \<noteq> []" and "length l < kLineSize" and "\<not> co_down s"
    and "se_line (co_usb s) = []"
  shows "snd (command_chars cfg e Usb (l @ [CHR 0x0A] @ r) s)
    = (let s1 = snd (handle cfg e Usb l (s\<lparr> co_usb := put_line l (co_usb s) \<rparr>))
       in snd (command_chars cfg e Usb r (s1\<lparr> co_usb := put_line [] (co_usb s1) \<rparr>)))"
  using assms type_chars [OF assms(1) _ assms(4), of cfg e "[CHR 0x0A] @ r"]
  by (simp add: command_char_def newline_def get_session_def set_session_def case_prod_beta put_line_def Let_def)

definition static_line :: "bytes \<Rightarrow> bytes \<Rightarrow> bytes \<Rightarrow> string" where
  "static_line ip msk gw = ''static'' @ '' '' @ dotted ip @ '' '' @ dotted msk @ '' '' @ dotted gw"

lemma static_line_ok:
  "(\<forall>c \<in> set (static_line ip msk gw). printable c) \<and> static_line ip msk gw \<noteq> [] \<and> length (static_line ip msk gw) < kLineSize"
  using dotted_plain length_dotted [of ip] length_dotted [of msk] length_dotted [of gw]
  by (auto simp: static_line_def printable_def)

lemma handle_static:
  assumes "length ip = 4" and "length msk = 4" and "length gw = 4"
  shows "snd (handle cfg e p (static_line ip msk gw) s)
    = s\<lparr> co_cfg := (co_cfg s)\<lparr> nc_use_dhcp := False, nc_ip := ip, nc_mask := msk, nc_gw := gw \<rparr> \<rparr>"
proof -
  have w: "strtok (dotted v @ '' '' @ r) = (Some (dotted v), r)" "strtok (dotted v) = (Some (dotted v), [])" for v r
    using strtok_word [of "dotted v"] dotted_plain [of v] dotted_nonempty [of v] by auto
  have "strtok (''static'' @ '' '' @ r) = (Some ''static'', r)" for r
    by (rule strtok_word(1)) (simp_all add: is_delim_def)
  then show ?thesis
    using parse_dotted [OF assms(1)] parse_dotted [OF assms(2)] parse_dotted [OF assms(3)]
    unfolding static_line_def handle_def Let_def
    by (simp add: w del: append_Cons) (simp add: cmd_static_def)
qed

lemma handle_save:
  "snd (handle cfg e p ''save'' s) = s\<lparr> co_flash := net_config_save (co_cfg s) (co_flash s) \<rparr>"
  by (simp add: handle_def strtok_def is_delim_def case_prod_beta)

text \<open>C15: Addresses typed on the serial console are the ones the Director comes up with. A line with three addresses in the
  usual notation, whatever their bytes, and the line \<open>save\<close>, typed at an empty prompt, leave a flash from which the next
  power-up loads the static configuration with exactly these addresses and everything else as it was configured, and the
  network adapter begins with the universes configured.\<close>

theorem typed_addresses_survive_reboot:
  assumes "length ip = 4" and "length msk = 4" and "length gw = 4"
    and "co_was_connected s" and "se_line (co_usb s) = []" and "\<not> se_mon (co_usb s)" and "\<not> co_down s"
    and "service_usb cfg e True (static_line ip msk gw @ [CHR 0x0A] @ ''save'' @ [CHR 0x0A]) s = (out, s')"
    and "boot = net_console_load (console_boot (co_flash s') d)"
  shows "co_cfg boot = (co_cfg s)\<lparr> nc_use_dhcp := False, nc_ip := ip, nc_mask := msk, nc_gw := gw \<rparr>
    \<and> eth_artnet_universe (ether_begin (nc_artnet_universe (co_cfg boot)) (nc_sacn_universe (co_cfg boot)) ether_init)
        = nc_artnet_universe (co_cfg s)"
proof -
  let ?cfg = "(co_cfg s)\<lparr> nc_use_dhcp := False, nc_ip := ip, nc_mask := msk, nc_gw := gw \<rparr>"
  define r where "r = ''save'' @ [CHR 0x0A]"
  let ?s1 = "s\<lparr> co_cfg := ?cfg, co_usb := put_line [] (co_usb s) \<rparr>"
  have "s' = snd (command_chars cfg e Usb (static_line ip msk gw @ [CHR 0x0A] @ r) s)"
    using assms(4-8) by (simp add: service_usb_def service_session_def get_session_def case_prod_beta r_def)
  also have "\<dots> = snd (command_chars cfg e Usb r ?s1)"
    using type_line [of "static_line ip msk gw" s cfg e r] static_line_ok [of ip msk gw] assms(1-3,5,7)
    by (simp add: handle_static Let_def put_line_def)
  also have "\<dots> = (let s1 = snd (handle cfg e Usb ''save'' (?s1\<lparr> co_usb := put_line ''save'' (co_usb ?s1) \<rparr>))
       in snd (command_chars cfg e Usb [] (s1\<lparr> co_usb := put_line [] (co_usb s1) \<rparr>)))"
    using type_line [of "''save''" ?s1 cfg e "[]", folded r_def] assms(7) by (simp add: printable_def put_line_def r_def)
  finally have "co_flash s' = net_config_save ?cfg (co_flash s)"
    by (simp add: handle_save Let_def)
  then show ?thesis using assms(1-3,9)
    by (simp add: net_console_load_def load_password_def console_boot_def load_save ether_begin_def ether_init_def)
qed

section \<open>Commands that do more or less than they say\<close>

text \<open>A \<open>static\<close> line whose mask does not parse is answered with the usage, but the address is already changed, and
  a later \<open>save\<close> stores it.\<close>

lemma failed_static_changes_address:
  assumes "parse_ip a = Some ip" and "parse_ip m = None"
  shows "cmd_static a m g s = ([Text ''usage: static <ip> <mask> <gw>''], s\<lparr> co_cfg := (co_cfg s)\<lparr> nc_ip := ip \<rparr> \<rparr>)"
  using assms by (simp add: cmd_static_def)

text \<open>What is not hexadecimal at all is the Director ID 0 on the community channel.\<close>

lemma dirid_garbage:
  assumes "nc_wifi_channel (co_cfg s) = 1"
  shows "fst (cmd_dirid cfg e (Some ''help'') s) = [DirIdSet 0]
    \<and> nv_mst_src_id (dv_nvs (co_driver (snd (cmd_dirid cfg e (Some ''help'') s)))) = Some 0"
  using assms
  by (simp add: cmd_dirid_def strtol16_def scan_sign_def digit_def saturate_def restart_broadcast_def start_broadcast_def
      stop_broadcast_def save_director_source_id_def Let_def load_retx_count_def split: option.split)

text \<open>A password of more than 32 characters is cut when it is set, so that typing it back is denied.\<close>

lemma auth_type:
  assumes "\<forall>c \<in> set p. printable c" and "length (se_line (co_tcp s)) + length p < kLineSize"
  shows "auth_chars e (p @ c # r) s = auth_chars e (c # r) (s\<lparr> co_tcp := put_line (se_line (co_tcp s) @ p) (co_tcp s) \<rparr>)"
  using assms
proof (induction p arbitrary: s)
  case Nil
  then show ?case by (simp add: put_line_def)
next
  case (Cons x p)
  have n: "\<not> newline x" using Cons.prems(1) newline_not_printable by auto
  let ?t = "s\<lparr> co_tcp_last_ms := de_now e, co_tcp := put_line (se_line (co_tcp s) @ [x]) (co_tcp s) \<rparr>"
  have "auth_chars e ((x # p) @ c # r) s = auth_chars e (p @ c # r) ?t"
    using Cons.prems n by (simp add: auth_step [of e x] Let_def)
  also have "\<dots> = auth_chars e (c # r) (?t\<lparr> co_tcp := put_line (se_line (co_tcp ?t) @ p) (co_tcp ?t) \<rparr>)"
    using Cons.prems by (intro Cons.IH) (simp_all add: put_line_def)
  also have "\<dots> = auth_chars e (c # r) (s\<lparr> co_tcp := put_line (se_line (co_tcp s) @ x # p) (co_tcp s) \<rparr>)"
    by (simp add: auth_step [of e c] put_line_def)
  finally show ?case .
qed

lemma long_password_denied:
  assumes "32 < length p" and "length p < kLineSize" and "\<forall>c \<in> set p. printable c"
    and "se_line (co_tcp s) = []" and "co_pass s = co_pass (set_password p s0)"
  shows "fst (auth_chars e (p @ [CHR 0x0A]) s) = [Text ''denied'']"
proof -
  have "p \<noteq> take 32 p" using assms(1) by (metis length_take min_less_iff_conj less_irrefl)
  moreover have "p \<noteq> []" using assms(1) by auto
  ultimately show ?thesis using assms(2-5) auth_type [of p s e "CHR 0x0A" "[]"]
    by (simp add: auth_step [of e "CHR 0x0A"] newline_def put_line_def set_password_def Let_def)
qed

section \<open>Witnesses\<close>

definition empty_flash :: net_flash where
  "empty_flash = \<lparr> nf_dhcp = None, nf_ip = None, nf_mask = None, nf_gw = None, nf_sacn = None, nf_artnet = None,
     nf_chan = None, nf_pass = None \<rparr>"

definition sample_console :: console where
  "sample_console = (net_console_load (console_boot (empty_flash\<lparr> nf_pass := Some ''emf'' \<rparr>) (driver_init 2 nvs_empty)))
     \<lparr> co_was_connected := True, co_server_started := True \<rparr>"

definition at_clock :: "u32 \<Rightarrow> drv_env" where
  "at_clock t = sample_env\<lparr> de_now := t \<rparr>"

definition client :: "string \<Rightarrow> tcp_env" where
  "client rx = \<lparr> te_link = True, te_connected = True, te_waiting = True, te_rx = rx \<rparr>"

lemma sample_console_simps:
  "co_pass sample_console = ''emf''" "co_tcp_state sample_console = Closed" "co_was_connected sample_console"
  "se_line (co_usb sample_console) = []" "\<not> se_mon (co_usb sample_console)" "\<not> co_down sample_console"
  "has_password sample_console" "co_server_started sample_console" "se_line (co_tcp sample_console) = []"
  by (simp_all add: sample_console_def net_console_load_def console_boot_def load_password_def empty_flash_def
      session_init_def has_password_def)

theorem console_state_legal_witness:
  "console_ok (console_run sample_cfg [(at_clock 5, True, ''channel 11'' @ [CHR 0x0A], client [])]
     (console_boot empty_flash (driver_init 2 nvs_empty)))"
  by (rule console_state_legal) (simp add: net_flash_ok_def empty_flash_def get_or_def legal_channel_def)

theorem network_needs_password_witness:
  "co_tcp_state (tcp_run sample_cfg [(at_clock 5, client []), (at_clock 6, client (''em'' @ [CHR 0x0A]))] sample_console) \<noteq> Open"
proof -
  have "\<not> sublist ''emf'' (received [(at_clock 5, client []), (at_clock 6, client (''em'' @ [CHR 0x0A]))])"
    by (auto simp: received_def client_def printable_def dest: sublist_length_le)
  then show ?thesis
    using network_needs_password [of sample_console "[(at_clock 5, client []), (at_clock 6, client (''em'' @ [CHR 0x0A]))]"]
      sample_console_simps by (simp del: tcp_run.simps)
qed

theorem wrong_password_lockout_witness:
  "tcp_replies sample_cfg [(at_clock 7, client [])]
     (snd (service_tcp sample_cfg (at_clock 4000000000) (client (''x'' @ [CHR 0x0A]))
        (sample_console\<lparr> co_tcp_state := Auth, co_tcp_last_ms := 4000000000 \<rparr>))) = [[Text ''locked out, try again shortly'']]"
proof -
  let ?s = "sample_console\<lparr> co_tcp_state := Auth, co_tcp_last_ms := 4000000000 \<rparr>"
  let ?r = "service_tcp sample_cfg (at_clock 4000000000) (client (''x'' @ [CHR 0x0A])) ?s"
  have "Text ''denied'' \<in> set (fst ?r)" using sample_console_simps
    by (simp add: service_tcp_def tcp_teardown_def client_def at_clock_def auth_step newline_def printable_def
        put_line_def has_password_def Let_def)
  then show ?thesis
    using wrong_password_lockout [of ?s "client (''x'' @ [CHR 0x0A])" "at_clock 4000000000" sample_cfg "fst ?r" "snd ?r"
        "[(at_clock 7, client [])]"] sample_console_simps
    by (simp add: client_def at_clock_def refused_def has_password_def)
qed

theorem typed_addresses_survive_reboot_witness:
  "nc_ip (co_cfg (net_console_load (console_boot (co_flash (snd (service_usb sample_cfg sample_env True
     (static_line [10, 0, 7, 255] [255, 255, 255, 0] [10, 0, 7, 1] @ [CHR 0x0A] @ ''save'' @ [CHR 0x0A]) sample_console)))
     (driver_init 2 nvs_empty)))) = [10, 0, 7, 255]"
  using typed_addresses_survive_reboot [OF _ _ _ _ _ _ _ surjective_pairing refl, of "[10, 0, 7, 255]" "[255, 255, 255, 0]"
      "[10, 0, 7, 1]" sample_console sample_cfg sample_env "driver_init 2 nvs_empty"] sample_console_simps by simp

end
