(* ===== verification/Analyser.thy ===== *)
theory Analyser
  imports Float32
begin

text \<open>
  The audio analysis of the Director (\<open>src/dal/analyser/\<close>): the onset detectors (kick, snare, hi-hat), the drop
  and breakdown detector, the continuous descriptors, and the band summaries.
  A \<open>float\<close> is a rational rounded by \<open>fl\<close>, operation by operation in source order, without contraction to
  fused operations; the square root is the rounded one, the logarithm of the descriptors is a parameter.
  Frames come one per call with the clock of the frame.
\<close>

abbreviation kSpectrumBands :: nat where "kSpectrumBands \<equiv> 32"
abbreviation kHistorySize :: nat where "kHistorySize \<equiv> 40"

section \<open>Square root\<close>

text \<open>The largest integer whose square is at most \<open>n\<close>, bit by bit from \<open>2 ^ k\<close> down.\<close>

fun isqrt_bits :: "nat \<Rightarrow> int \<Rightarrow> int \<Rightarrow> int" where
  "isqrt_bits 0 r n = r"
| "isqrt_bits (Suc k) r n = isqrt_bits k (if (r + 2 ^ k) * (r + 2 ^ k) \<le> n then r + 2 ^ k else r) n"

text \<open>\<open>std::sqrt\<close> of a nonnegative number: the argument is scaled by a power of four into \<open>[2 ^ 46, 2 ^ 48)\<close>, whose
  root has 24 bits before the point; the root of a 24-bit number never lies halfway.\<close>

fun fl_sqrt_up :: "nat \<Rightarrow> rat \<Rightarrow> rat" where
  "fl_sqrt_up n x =
     (if x < 2 ^ 46 then (case n of 0 \<Rightarrow> 0 | Suc m \<Rightarrow> fl_sqrt_up m (4 * x) / 2)
      else let r = isqrt_bits 24 0 \<lfloor>x\<rfloor> in
           of_int (if of_int (r * r + r) + 1 / 4 \<le> x then r + 1 else r))"

fun fl_sqrt_down :: "nat \<Rightarrow> rat \<Rightarrow> rat" where
  "fl_sqrt_down n x =
     (if 2 ^ 48 \<le> x then (case n of 0 \<Rightarrow> 0 | Suc m \<Rightarrow> 2 * fl_sqrt_down m (x / 4)) else fl_sqrt_up 110 x)"

definition fl_sqrt :: "flt \<Rightarrow> flt" where
  "fl_sqrt x = (if x \<le> 0 then 0 else fl_sqrt_down 60 x)"

declare fl_sqrt_up.simps [simp del] fl_sqrt_down.simps [simp del]

text \<open>Code equations with the bounds written out, for the evaluation of concrete runs.\<close>

lemma fl_up_code [code]:
  "fl_up n x = (if x < 8388608 then (case n of 0 \<Rightarrow> round_even x | Suc m \<Rightarrow> fl_up m (2 * x) / 2) else round_even x)"
  by (simp add: fl_up.simps [of n x])

lemma fl_down_code [code]:
  "fl_down n x = (if 16777216 \<le> x then (case n of 0 \<Rightarrow> round_even x | Suc m \<Rightarrow> 2 * fl_down m (x / 2)) else fl_up 149 x)"
  by (simp add: fl_down.simps [of n x])

lemma fl_code [code]: "fl x = (if x = 0 then 0 else if x < 0 then - fl_down 104 (- x) else fl_down 104 x)"
  using fl_zero by (simp add: fl_def)

lemma fl_sqrt_up_code [code]:
  "fl_sqrt_up n x =
     (if x < 70368744177664 then (case n of 0 \<Rightarrow> 0 | Suc m \<Rightarrow> fl_sqrt_up m (4 * x) / 2)
      else let r = isqrt_bits 24 0 \<lfloor>x\<rfloor> in
           of_int (if of_int (r * r + r) + 1 / 4 \<le> x then r + 1 else r))"
  by (simp add: fl_sqrt_up.simps [of n x])

lemma fl_sqrt_down_code [code]:
  "fl_sqrt_down n x =
     (if 281474976710656 \<le> x then (case n of 0 \<Rightarrow> 0 | Suc m \<Rightarrow> 2 * fl_sqrt_down m (x / 4)) else fl_sqrt_up 110 x)"
  by (simp add: fl_sqrt_down.simps [of n x])

section \<open>Onsets\<close>

record beat_cfg =
  bt_watch_start :: nat
  bt_watch_count :: nat
  bt_threshold_k :: flt
  bt_refractory_ms :: u32
  bt_warmup_frames :: nat

definition beat_cfg_default :: beat_cfg where
  "beat_cfg_default = \<lparr> bt_watch_start = 0, bt_watch_count = 8, bt_threshold_k = fl (22 / 10),
     bt_refractory_ms = 200, bt_warmup_frames = 8 \<rparr>"

record beat_detector =
  bd_cfg :: beat_cfg
  bd_history :: "flt list list"
  bd_history_idx :: nat
  bd_frames_seen :: nat
  bd_last_beat_ms :: u32
  bd_last_strength :: u8

definition beat_reset :: "beat_detector \<Rightarrow> beat_detector" where
  "beat_reset s = s\<lparr> bd_history := replicate kSpectrumBands (replicate kHistorySize 0), bd_history_idx := 0,
     bd_frames_seen := 0, bd_last_beat_ms := 0, bd_last_strength := 0 \<rparr>"

definition beat_new :: "beat_cfg \<Rightarrow> beat_detector" where
  "beat_new cfg =
     (let c = (if bt_watch_count cfg = 0 then cfg\<lparr> bt_watch_count := 8 \<rparr> else cfg);
          c = (if bt_watch_start c \<ge> kSpectrumBands then c\<lparr> bt_watch_start := 0 \<rparr> else c);
          c = (if bt_watch_start c + bt_watch_count c > kSpectrumBands
               then c\<lparr> bt_watch_count := kSpectrumBands - bt_watch_start c \<rparr> else c)
      in beat_reset \<lparr> bd_cfg = c, bd_history = [], bd_history_idx = 0, bd_frames_seen = 0, bd_last_beat_ms = 0,
           bd_last_strength = 0 \<rparr>)"

text \<open>Welford's recurrence over the window: the \<open>i\<close>-th value, the mean and the sum of squared deviations.\<close>

fun welford :: "nat \<Rightarrow> flt list \<Rightarrow> flt \<times> flt \<Rightarrow> flt \<times> flt" where
  "welford i [] mm = mm"
| "welford i (x # xs) (mean, m2) =
     (let delta = fl (x - mean);
          mean = fl (mean + fl (delta / of_nat (i + 1)));
          delta2 = fl (x - mean)
      in welford (i + 1) xs (mean, fl (m2 + fl (delta * delta2))))"

text \<open>The threshold of a band; of an empty window it is \<open>0 / 0\<close>, not a number, which no magnitude exceeds.\<close>

definition band_threshold :: "flt \<Rightarrow> flt list \<Rightarrow> flt option" where
  "band_threshold k xs =
     (if xs = [] then None
      else
        let (mean, m2) = welford 0 xs (0, 0);
            std_dev = fl_sqrt (fl (m2 / of_nat (length xs)))
        in Some (fl (mean + fl (k * std_dev))))"

definition onset_strength :: "flt \<Rightarrow> flt \<Rightarrow> u8" where
  "onset_strength mag threshold =
     (if threshold > 0 then
        let s = fl (fl (fl (mag / threshold) - 1) * 128);
            s = (if s < 0 then 0 else s);
            s = (if s > 255 then 255 else s)
        in of_int (fl_int s)
      else 255)"

fun watch_bands :: "flt \<Rightarrow> nat \<Rightarrow> flt list \<Rightarrow> flt list list \<Rightarrow> nat list \<Rightarrow> u8 option" where
  "watch_bands k window mags hist [] = None"
| "watch_bands k window mags hist (b # bs) =
     (case band_threshold k (take window (hist ! b)) of
        Some threshold \<Rightarrow>
          if mags ! b > threshold then Some (onset_strength (mags ! b) threshold) else watch_bands k window mags hist bs
      | None \<Rightarrow> watch_bands k window mags hist bs)"

definition beat_process :: "flt list \<Rightarrow> u32 \<Rightarrow> beat_detector \<Rightarrow> bool \<times> beat_detector" where
  "beat_process mags now s =
     (let cfg = bd_cfg s;
          window = (if bd_frames_seen s < kHistorySize then bd_frames_seen s else kHistorySize);
          in_refractory = (bd_last_beat_ms s \<noteq> 0 \<and> now - bd_last_beat_ms s < bt_refractory_ms cfg);
          hit = (if window \<ge> bt_warmup_frames cfg \<and> \<not> in_refractory
                 then watch_bands (bt_threshold_k cfg) window mags (bd_history s)
                        [bt_watch_start cfg ..< bt_watch_start cfg + bt_watch_count cfg]
                 else None);
          s = (case hit of Some v \<Rightarrow> s\<lparr> bd_last_strength := v \<rparr> | None \<Rightarrow> s);
          s = s\<lparr> bd_history := map2 (\<lambda>row m. row[bd_history_idx s := m]) (bd_history s) mags,
                 bd_history_idx := (bd_history_idx s + 1) mod kHistorySize,
                 bd_frames_seen := (if bd_frames_seen s < kHistorySize then bd_frames_seen s + 1 else bd_frames_seen s) \<rparr>
      in (hit \<noteq> None, if hit \<noteq> None then s\<lparr> bd_last_beat_ms := now \<rparr> else s))"

section \<open>Drops and breakdowns\<close>

datatype DropEvent = NoDrop | Drop | Breakdown | Build

record drop_cfg =
  dc_short_window_frames :: nat
  dc_long_window_frames :: nat
  dc_drop_ratio :: flt
  dc_breakdown_ratio :: flt
  dc_cooldown_ms :: u32
  dc_warmup_frames :: nat

definition drop_cfg_default :: drop_cfg where
  "drop_cfg_default = \<lparr> dc_short_window_frames = 80, dc_long_window_frames = 400, dc_drop_ratio = fl (18 / 10),
     dc_breakdown_ratio = fl (4 / 10), dc_cooldown_ms = 4000, dc_warmup_frames = 80 \<rparr>"

record drop_detector =
  dd_cfg :: drop_cfg
  dd_short_buf :: "flt list"
  dd_long_buf :: "flt list"
  dd_short_idx :: nat
  dd_long_idx :: nat
  dd_frames_seen :: nat
  dd_last_event_ms :: u32
  dd_armed_for_drop :: bool
  dd_armed_for_breakdown :: bool

definition drop_reset :: "drop_detector \<Rightarrow> drop_detector" where
  "drop_reset s = s\<lparr> dd_short_buf := replicate 80 0, dd_long_buf := replicate 400 0, dd_short_idx := 0, dd_long_idx := 0,
     dd_frames_seen := 0, dd_last_event_ms := 0, dd_armed_for_drop := True, dd_armed_for_breakdown := True \<rparr>"

definition drop_new :: "drop_cfg \<Rightarrow> drop_detector" where
  "drop_new cfg =
     (let c = (if dc_short_window_frames cfg = 0 \<or> dc_short_window_frames cfg > 80
               then cfg\<lparr> dc_short_window_frames := 80 \<rparr> else cfg);
          c = (if dc_long_window_frames c = 0 \<or> dc_long_window_frames c > 400
               then c\<lparr> dc_long_window_frames := 400 \<rparr> else c)
      in drop_reset \<lparr> dd_cfg = c, dd_short_buf = [], dd_long_buf = [], dd_short_idx = 0, dd_long_idx = 0,
           dd_frames_seen = 0, dd_last_event_ms = 0, dd_armed_for_drop = True, dd_armed_for_breakdown = True \<rparr>)"

definition window_mean :: "nat \<Rightarrow> flt list \<Rightarrow> flt" where
  "window_mean n buf = fl (foldl (\<lambda>sum x. fl (sum + x)) 0 (take n buf) / of_nat n)"

definition drop_push :: "flt \<Rightarrow> drop_detector \<Rightarrow> drop_detector" where
  "drop_push bass_energy s =
     s\<lparr> dd_short_buf := (dd_short_buf s)[dd_short_idx s := bass_energy],
        dd_long_buf := (dd_long_buf s)[dd_long_idx s := bass_energy],
        dd_short_idx := (dd_short_idx s + 1) mod dc_short_window_frames (dd_cfg s),
        dd_long_idx := (dd_long_idx s + 1) mod dc_long_window_frames (dd_cfg s),
        dd_frames_seen := (if dd_frames_seen s < dc_long_window_frames (dd_cfg s) then dd_frames_seen s + 1
                           else dd_frames_seen s) \<rparr>"

text \<open>The ratio of the two means, when the frame is past warm-up and cooldown and the long window is not silent.\<close>

definition drop_ratio :: "u32 \<Rightarrow> drop_detector \<Rightarrow> flt option" where
  "drop_ratio now s =
     (let cfg = dd_cfg s in
      if dd_frames_seen s < dc_warmup_frames cfg then None
      else if dd_last_event_ms s \<noteq> 0 \<and> now - dd_last_event_ms s < dc_cooldown_ms cfg then None
      else
        let s_window = (if dd_frames_seen s < dc_short_window_frames cfg then dd_frames_seen s else dc_short_window_frames cfg);
            l_window = (if dd_frames_seen s < dc_long_window_frames cfg then dd_frames_seen s else dc_long_window_frames cfg);
            s_mean = window_mean s_window (dd_short_buf s);
            l_mean = window_mean l_window (dd_long_buf s)
        in if l_mean \<le> 0 then None else Some (fl (s_mean / l_mean)))"

definition drop_decide :: "u32 \<Rightarrow> flt \<Rightarrow> drop_detector \<Rightarrow> DropEvent \<times> drop_detector" where
  "drop_decide now ratio s =
     (let cfg = dd_cfg s;
          s = (if ratio \<le> 1 then s\<lparr> dd_armed_for_drop := True \<rparr> else s);
          s = (if ratio \<ge> 1 then s\<lparr> dd_armed_for_breakdown := True \<rparr> else s)
      in if ratio > dc_drop_ratio cfg \<and> dd_armed_for_drop s then
           (Drop, s\<lparr> dd_armed_for_drop := False, dd_last_event_ms := now \<rparr>)
         else if ratio < dc_breakdown_ratio cfg \<and> dd_armed_for_breakdown s then
           (Breakdown, s\<lparr> dd_armed_for_breakdown := False, dd_last_event_ms := now \<rparr>)
         else (NoDrop, s))"

definition drop_process :: "flt \<Rightarrow> u32 \<Rightarrow> drop_detector \<Rightarrow> DropEvent \<times> drop_detector" where
  "drop_process bass_energy now s =
     (let s = drop_push bass_energy s in
      case drop_ratio now s of None \<Rightarrow> (NoDrop, s) | Some ratio \<Rightarrow> drop_decide now ratio s)"

section \<open>Descriptors\<close>

abbreviation kDensityRingCap :: nat where "kDensityRingCap \<equiv> 32"
abbreviation kDensityWindowMs :: u32 where "kDensityWindowMs \<equiv> 1000"

record descriptors =
  md_event_ts :: "u32 list"
  md_event_count :: nat
  md_event_head :: nat
  md_energy_smoothed :: flt
  md_centroid :: u8
  md_energy :: u8
  md_density :: u8

definition descriptors_new :: descriptors where
  "descriptors_new = \<lparr> md_event_ts = replicate kDensityRingCap 0, md_event_count = 0, md_event_head = 0,
     md_energy_smoothed = 0, md_centroid = 0, md_energy = 0, md_density = 0 \<rparr>"

definition clamp_to_u8 :: "flt \<Rightarrow> u8" where
  "clamp_to_u8 v = (if v < 0 then 0 else if v > 255 then 255 else of_int (fl_int v))"

fun centroid_sums :: "nat \<Rightarrow> flt list \<Rightarrow> flt \<times> flt \<Rightarrow> flt \<times> flt" where
  "centroid_sums i [] acc = acc"
| "centroid_sums i (m # ms) (sum_mag, sum_idx_mag) =
     centroid_sums (i + 1) ms (fl (sum_mag + m), fl (sum_idx_mag + fl (of_nat i * m)))"

definition compute_centroid_u8 :: "flt list \<Rightarrow> u8" where
  "compute_centroid_u8 spec =
     (let (sum_mag, sum_idx_mag) = centroid_sums 0 spec (0, 0) in
      if sum_mag \<le> 0 then 0
      else clamp_to_u8 (fl (fl (fl (sum_idx_mag / sum_mag) * 255) / of_nat (kSpectrumBands - 1))))"

definition descriptors_process ::
    "(flt \<Rightarrow> flt) \<Rightarrow> flt list \<Rightarrow> flt \<Rightarrow> bool \<Rightarrow> u32 \<Rightarrow> descriptors \<Rightarrow> descriptors" where
  "descriptors_process log2 spec overall_rms any_event now s =
     (let alpha = fl (5 / 100);
          smoothed = fl (fl (fl (1 - alpha) * md_energy_smoothed s) + fl (alpha * overall_rms));
          energy = (if smoothed \<le> 0 then 0
                    else clamp_to_u8 (fl (fl (fl (log2 smoothed - 9) / 5) * 255)));
          s = s\<lparr> md_centroid := compute_centroid_u8 spec, md_energy_smoothed := smoothed, md_energy := energy \<rparr>;
          s = (if any_event then
                 s\<lparr> md_event_ts := (md_event_ts s)[md_event_head s := now],
                    md_event_head := (md_event_head s + 1) mod kDensityRingCap,
                    md_event_count := (if md_event_count s < kDensityRingCap then md_event_count s + 1 else md_event_count s) \<rparr>
               else s);
          window_start = (if now > kDensityWindowMs then now - kDensityWindowMs else 0);
          in_window = length (filter (\<lambda>t. t \<ge> window_start) (take (md_event_count s) (md_event_ts s)));
          window_ms_f = (if now < kDensityWindowMs then of_nat (unat (if now = 0 then 1 else now)) else 1000);
          eps = fl (fl (of_nat in_window * 1000) / window_ms_f)
      in s\<lparr> md_density := clamp_to_u8 (fl (fl (eps / 16) * 255)) \<rparr>)"

section \<open>Band summaries\<close>

record band8 =
  b8_mud :: flt
  b8_sub_bass :: flt
  b8_bass :: flt
  b8_low_mids :: flt
  b8_midrange :: flt
  b8_high_mids :: flt
  b8_presence :: flt
  b8_air :: flt

record band3 =
  b3_bass :: flt
  b3_mid :: flt
  b3_treble :: flt

definition bin_freq_hz :: "nat \<Rightarrow> u32 \<Rightarrow> nat \<Rightarrow> flt" where
  "bin_freq_hz bin sample_rate_hz n_bins =
     fl (fl (of_nat bin) * fl (fl (of_nat (unat sample_rate_hz)) / fl (2 * fl (of_nat n_bins))))"

text \<open>The table of bin frequencies of one operating point, kept between calls.\<close>

record freq_cache =
  fc_sample_rate_hz :: u32
  fc_n_bins :: nat
  fc_values :: "flt list"

definition freq_cache_new :: freq_cache where
  "freq_cache_new = \<lparr> fc_sample_rate_hz = 0, fc_n_bins = 0, fc_values = replicate 1024 0 \<rparr>"

definition bin_freq_lut_for :: "u32 \<Rightarrow> nat \<Rightarrow> freq_cache \<Rightarrow> flt list option \<times> freq_cache" where
  "bin_freq_lut_for sample_rate_hz n_bins c =
     (if n_bins > 1024 then (None, c)
      else
        let c = (if fc_sample_rate_hz c \<noteq> sample_rate_hz \<or> fc_n_bins c \<noteq> n_bins then
                   let step = fl (fl (of_nat (unat sample_rate_hz)) / fl (2 * fl (of_nat n_bins))) in
                   \<lparr> fc_sample_rate_hz = sample_rate_hz, fc_n_bins = n_bins,
                     fc_values = map (\<lambda>i. fl (fl (of_nat i) * step)) [0 ..< n_bins] @ drop n_bins (fc_values c) \<rparr>
                 else c)
        in (Some (fc_values c), c))"

definition route_bin :: "flt \<Rightarrow> flt \<Rightarrow> band8 \<Rightarrow> band8" where
  "route_bin f m o8 =
     (if f < 20 then o8\<lparr> b8_mud := fl (b8_mud o8 + m) \<rparr>
      else if f < 60 then o8\<lparr> b8_sub_bass := fl (b8_sub_bass o8 + m) \<rparr>
      else if f < 250 then o8\<lparr> b8_bass := fl (b8_bass o8 + m) \<rparr>
      else if f < 500 then o8\<lparr> b8_low_mids := fl (b8_low_mids o8 + m) \<rparr>
      else if f < 2000 then o8\<lparr> b8_midrange := fl (b8_midrange o8 + m) \<rparr>
      else if f < 4000 then o8\<lparr> b8_high_mids := fl (b8_high_mids o8 + m) \<rparr>
      else if f < 6000 then o8\<lparr> b8_presence := fl (b8_presence o8 + m) \<rparr>
      else if f < 20000 then o8\<lparr> b8_air := fl (b8_air o8 + m) \<rparr>
      else o8)"

fun route_bins :: "(nat \<Rightarrow> flt) \<Rightarrow> nat \<Rightarrow> flt list \<Rightarrow> band8 \<Rightarrow> band8" where
  "route_bins freq i [] o8 = o8"
| "route_bins freq i (m # ms) o8 = route_bins freq (i + 1) ms (route_bin (freq i) m o8)"

definition band8_zero :: band8 where
  "band8_zero = \<lparr> b8_mud = 0, b8_sub_bass = 0, b8_bass = 0, b8_low_mids = 0, b8_midrange = 0, b8_high_mids = 0,
     b8_presence = 0, b8_air = 0 \<rparr>"

definition compute_band_summaries ::
    "flt list option \<Rightarrow> u32 \<Rightarrow> freq_cache \<Rightarrow> band8 \<times> band3 \<times> freq_cache" where
  "compute_band_summaries magnitudes sample_rate_hz c =
     (case magnitudes of
        None \<Rightarrow> (band8_zero, \<lparr> b3_bass = 0, b3_mid = 0, b3_treble = 0 \<rparr>, c)
      | Some ms \<Rightarrow>
          if length ms = 0 \<or> sample_rate_hz = 0 then (band8_zero, \<lparr> b3_bass = 0, b3_mid = 0, b3_treble = 0 \<rparr>, c)
          else
            let (lut, c) = bin_freq_lut_for sample_rate_hz (length ms) c;
                freq = (case lut of Some v \<Rightarrow> (\<lambda>i. v ! i) | None \<Rightarrow> (\<lambda>i. bin_freq_hz i sample_rate_hz (length ms)));
                o8 = route_bins freq 0 ms band8_zero
            in (o8, \<lparr> b3_bass = fl (fl (b8_mud o8 + b8_sub_bass o8) + b8_bass o8),
                      b3_mid = fl (b8_low_mids o8 + b8_midrange o8),
                      b3_treble = fl (fl (b8_high_mids o8 + b8_presence o8) + b8_air o8) \<rparr>, c))"

section \<open>The spectrum frame\<close>

abbreviation kSpectrumLoHz :: flt where "kSpectrumLoHz \<equiv> 30"

text \<open>What depends on the sample rate alone, kept between calls. \<open>std::pow\<close> and \<open>std::log\<close> are parameters.\<close>

record scalar_cache =
  xc_sample_rate_hz :: u32
  xc_ratio_per_band :: flt
  xc_log_ratio :: flt

definition scalar_cache_new :: scalar_cache where
  "scalar_cache_new = \<lparr> xc_sample_rate_hz = 0, xc_ratio_per_band = 0, xc_log_ratio = 0 \<rparr>"

definition scalar_cache_for :: "(flt \<Rightarrow> flt \<Rightarrow> flt) \<Rightarrow> (flt \<Rightarrow> flt) \<Rightarrow> u32 \<Rightarrow> scalar_cache \<Rightarrow> scalar_cache" where
  "scalar_cache_for pow lg sample_rate_hz c =
     (if xc_sample_rate_hz c \<noteq> sample_rate_hz then
        let nyquist = fl (fl (of_nat (unat sample_rate_hz)) * (1 / 2));
            ratio = pow (fl (nyquist / kSpectrumLoHz)) (fl (1 / of_nat kSpectrumBands))
        in \<lparr> xc_sample_rate_hz = sample_rate_hz, xc_ratio_per_band = ratio, xc_log_ratio = lg ratio \<rparr>
      else c)"

definition spectrum_bin :: "(flt \<Rightarrow> flt) \<Rightarrow> flt \<Rightarrow> flt \<Rightarrow> flt \<Rightarrow> flt \<Rightarrow> flt list \<Rightarrow> flt list" where
  "spectrum_bin lg log_ratio nyquist f m out =
     (if f < kSpectrumLoHz then out
      else if f \<ge> nyquist then out
      else
        let idx = fl_int (fl (lg (fl (f / kSpectrumLoHz)) / log_ratio)) in
        if idx < 0 \<or> idx \<ge> int kSpectrumBands then out
        else out[nat idx := fl (out ! nat idx + m)])"

fun spectrum_bins ::
    "(flt \<Rightarrow> flt) \<Rightarrow> flt \<Rightarrow> flt \<Rightarrow> (nat \<Rightarrow> flt) \<Rightarrow> nat \<Rightarrow> flt list \<Rightarrow> flt list \<Rightarrow> flt list" where
  "spectrum_bins lg log_ratio nyquist freq i [] out = out"
| "spectrum_bins lg log_ratio nyquist freq i (m # ms) out =
     spectrum_bins lg log_ratio nyquist freq (i + 1) ms (spectrum_bin lg log_ratio nyquist (freq i) m out)"

definition compute_spectrum_frame ::
    "(flt \<Rightarrow> flt \<Rightarrow> flt) \<Rightarrow> (flt \<Rightarrow> flt) \<Rightarrow> flt list option \<Rightarrow> u32 \<Rightarrow> freq_cache \<times> scalar_cache
      \<Rightarrow> flt list \<times> freq_cache \<times> scalar_cache" where
  "compute_spectrum_frame pow lg magnitudes sample_rate_hz caches =
     (let out = replicate kSpectrumBands 0; (c, x) = caches in
      case magnitudes of
        None \<Rightarrow> (out, c, x)
      | Some ms \<Rightarrow>
          if length ms = 0 \<or> sample_rate_hz = 0 then (out, c, x)
          else
            let nyquist = fl (fl (of_nat (unat sample_rate_hz)) * (1 / 2)) in
            if nyquist \<le> kSpectrumLoHz then (out, c, x)
            else
              let x = scalar_cache_for pow lg sample_rate_hz x;
                  (lut, c) = bin_freq_lut_for sample_rate_hz (length ms) c;
                  freq = (case lut of Some v \<Rightarrow> (\<lambda>i. v ! i) | None \<Rightarrow> (\<lambda>i. bin_freq_hz i sample_rate_hz (length ms)))
              in (spectrum_bins lg (xc_log_ratio x) nyquist freq 0 ms out, c, x))"

section \<open>The tables do not change what is computed\<close>

text \<open>A cache is sound when it holds the frequencies of the operating point it names (none, before the first call).\<close>

definition freq_cache_ok :: "freq_cache \<Rightarrow> bool" where
  "freq_cache_ok c \<longleftrightarrow> length (fc_values c) = 1024 \<and> fc_n_bins c \<le> 1024
     \<and> (\<forall>i < fc_n_bins c. fc_values c ! i = bin_freq_hz i (fc_sample_rate_hz c) (fc_n_bins c))"

definition scalar_cache_ok :: "(flt \<Rightarrow> flt \<Rightarrow> flt) \<Rightarrow> (flt \<Rightarrow> flt) \<Rightarrow> scalar_cache \<Rightarrow> bool" where
  "scalar_cache_ok pow lg x \<longleftrightarrow> xc_sample_rate_hz x = 0 \<or> x = scalar_cache_for pow lg (xc_sample_rate_hz x) scalar_cache_new"

lemma caches_new [simp]: "freq_cache_ok freq_cache_new" "scalar_cache_ok pow lg scalar_cache_new"
  by (simp_all add: freq_cache_ok_def freq_cache_new_def scalar_cache_ok_def scalar_cache_new_def)

lemma bin_freq_lut_sound:
  assumes "freq_cache_ok c" and "0 < n"
  shows "freq_cache_ok (snd (bin_freq_lut_for hz n c))"
    and "fst (bin_freq_lut_for hz n c) = Some v \<Longrightarrow> i < n \<Longrightarrow> v ! i = bin_freq_hz i hz n"
  using assms by (auto simp: bin_freq_lut_for_def freq_cache_ok_def bin_freq_hz_def Let_def nth_append split: if_splits)

lemma scalar_cache_sound:
  assumes "scalar_cache_ok pow lg x" and "hz \<noteq> 0"
  shows "scalar_cache_for pow lg hz x = scalar_cache_for pow lg hz scalar_cache_new"
    and "scalar_cache_ok pow lg (scalar_cache_for pow lg hz x)"
  using assms by (auto simp: scalar_cache_ok_def scalar_cache_for_def scalar_cache_new_def Let_def split: if_splits)

lemma spectrum_bins_cong:
  assumes "\<And>j. j < length ms \<Longrightarrow> f (i + j) = g (i + j)"
  shows "spectrum_bins lg lr ny f i ms out = spectrum_bins lg lr ny g i ms out"
  using assms
proof (induction ms arbitrary: i out)
  case (Cons m ms)
  have "f (i + 1 + j) = g (i + 1 + j)" if "j < length ms" for j using Cons.prems [of "Suc j"] that by simp
  then show ?case using Cons.IH [of "i + 1"] Cons.prems [of 0] by simp
qed simp

lemma route_bins_cong:
  assumes "\<And>j. j < length ms \<Longrightarrow> f (i + j) = g (i + j)"
  shows "route_bins f i ms o8 = route_bins g i ms o8"
  using assms
proof (induction ms arbitrary: i o8)
  case (Cons m ms)
  have "f (i + 1 + j) = g (i + 1 + j)" if "j < length ms" for j using Cons.prems [of "Suc j"] that by simp
  then show ?case using Cons.IH [of "i + 1"] Cons.prems [of 0] by simp
qed simp

text \<open>The reference: no tables at all.\<close>

definition plain_bands :: "flt list option \<Rightarrow> u32 \<Rightarrow> band8" where
  "plain_bands magnitudes hz =
     (case magnitudes of None \<Rightarrow> band8_zero
      | Some ms \<Rightarrow> if ms = [] \<or> hz = 0 then band8_zero else route_bins (\<lambda>i. bin_freq_hz i hz (length ms)) 0 ms band8_zero)"

definition plain_spectrum :: "(flt \<Rightarrow> flt \<Rightarrow> flt) \<Rightarrow> (flt \<Rightarrow> flt) \<Rightarrow> flt list option \<Rightarrow> u32 \<Rightarrow> flt list" where
  "plain_spectrum pow lg magnitudes hz =
     (case magnitudes of None \<Rightarrow> replicate kSpectrumBands 0
      | Some ms \<Rightarrow>
          let nyquist = fl (fl (of_nat (unat hz)) * (1 / 2)) in
          if ms = [] \<or> hz = 0 \<or> nyquist \<le> kSpectrumLoHz then replicate kSpectrumBands 0
          else spectrum_bins lg (lg (pow (fl (nyquist / kSpectrumLoHz)) (fl (1 / of_nat kSpectrumBands)))) nyquist
                 (\<lambda>i. bin_freq_hz i hz (length ms)) 0 ms (replicate kSpectrumBands 0))"

lemma bands_plain:
  assumes "freq_cache_ok c"
  shows "fst (compute_band_summaries ms hz c) = plain_bands ms hz"
    and "freq_cache_ok (snd (snd (compute_band_summaries ms hz c)))"
proof -
  have "fst (compute_band_summaries ms hz c) = plain_bands ms hz \<and> freq_cache_ok (snd (snd (compute_band_summaries ms hz c)))"
  proof (cases "ms = None \<or> ms = Some [] \<or> hz = 0")
    case True
    then show ?thesis using assms by (auto simp: compute_band_summaries_def plain_bands_def split: option.split)
  next
    case False
    then obtain xs where ms: "ms = Some xs" "0 < length xs" by auto
    obtain lut c' where l: "bin_freq_lut_for hz (length xs) c = (lut, c')" by (cases "bin_freq_lut_for hz (length xs) c")
    have ok: "freq_cache_ok c'" using bin_freq_lut_sound(1) [OF assms ms(2), of hz] l by simp
    have "route_bins (\<lambda>i. v ! i) 0 xs band8_zero = route_bins (\<lambda>i. bin_freq_hz i hz (length xs)) 0 xs band8_zero"
      if "lut = Some v" for v
      using bin_freq_lut_sound(2) [OF assms ms(2), of hz v] l that by (intro route_bins_cong) simp
    then show ?thesis using False ms ok l
      by (cases lut) (simp_all add: compute_band_summaries_def plain_bands_def Let_def)
  qed
  then show "fst (compute_band_summaries ms hz c) = plain_bands ms hz"
    and "freq_cache_ok (snd (snd (compute_band_summaries ms hz c)))" by simp_all
qed

lemma spectrum_plain:
  assumes "freq_cache_ok c" and "scalar_cache_ok pow lg x"
  shows "case compute_spectrum_frame pow lg ms hz (c, x) of (out, c', x') \<Rightarrow>
    out = plain_spectrum pow lg ms hz \<and> freq_cache_ok c' \<and> scalar_cache_ok pow lg x'"
proof (cases "ms = None \<or> ms = Some [] \<or> hz = 0 \<or> fl (fl (of_nat (unat hz)) * (1 / 2)) \<le> kSpectrumLoHz")
  case True
  then show ?thesis using assms
    by (auto simp: compute_spectrum_frame_def plain_spectrum_def Let_def simp del: of_nat_unat split: option.split)
next
  case False
  then obtain xs where ms: "ms = Some xs" "0 < length xs" and hz: "hz \<noteq> 0" by auto
  obtain lut c' where l: "bin_freq_lut_for hz (length xs) c = (lut, c')" by (cases "bin_freq_lut_for hz (length xs) c")
  have ok: "freq_cache_ok c'" using bin_freq_lut_sound(1) [OF assms(1) ms(2), of hz] l by simp
  have "spectrum_bins lg lr ny (\<lambda>i. v ! i) 0 xs out = spectrum_bins lg lr ny (\<lambda>i. bin_freq_hz i hz (length xs)) 0 xs out"
    if "lut = Some v" for v lr ny out
    using bin_freq_lut_sound(2) [OF assms(1) ms(2), of hz v] l that by (intro spectrum_bins_cong) simp
  moreover have "xc_log_ratio (scalar_cache_for pow lg hz scalar_cache_new) =
      lg (pow (fl (fl (fl (of_nat (unat hz)) * (1 / 2)) / kSpectrumLoHz)) (fl (1 / of_nat kSpectrumBands)))"
    using hz by (simp add: scalar_cache_for_def scalar_cache_new_def Let_def)
  ultimately show ?thesis using False ms ok l scalar_cache_sound [OF assms(2) hz]
    by (cases lut) (simp_all add: compute_spectrum_frame_def plain_spectrum_def Let_def del: of_nat_unat)
qed

text \<open>The analysis calls of one session, on the tables they share.\<close>

fun analyse_run ::
    "(flt \<Rightarrow> flt \<Rightarrow> flt) \<Rightarrow> (flt \<Rightarrow> flt) \<Rightarrow> (flt list option \<times> u32) list \<Rightarrow> freq_cache \<times> scalar_cache
      \<Rightarrow> (band8 \<times> flt list) list" where
  "analyse_run pow lg [] caches = []"
| "analyse_run pow lg ((ms, hz) # fs) (c, x) =
     (let (o8, o3, c) = compute_band_summaries ms hz c;
          (out, c, x) = compute_spectrum_frame pow lg ms hz (c, x)
      in (o8, out) # analyse_run pow lg fs (c, x))"

lemma analyse_plain:
  "freq_cache_ok c \<Longrightarrow> scalar_cache_ok pow lg x \<Longrightarrow>
     analyse_run pow lg fs (c, x) = map (\<lambda>(ms, hz). (plain_bands ms hz, plain_spectrum pow lg ms hz)) fs"
proof (induction fs arbitrary: c x)
  case (Cons f fs)
  obtain ms hz where f: "f = (ms, hz)" by (cases f)
  obtain o8 o3 c1 where b: "compute_band_summaries ms hz c = (o8, o3, c1)" by (cases "compute_band_summaries ms hz c")
  have c1: "o8 = plain_bands ms hz" "freq_cache_ok c1" using bands_plain [OF Cons.prems(1), of ms hz] b by simp_all
  obtain out c2 x2 where s: "compute_spectrum_frame pow lg ms hz (c1, x) = (out, c2, x2)"
    by (cases "compute_spectrum_frame pow lg ms hz (c1, x)")
  then have "out = plain_spectrum pow lg ms hz" "freq_cache_ok c2" "scalar_cache_ok pow lg x2"
    using spectrum_plain [OF c1(2) Cons.prems(2), of ms hz] by simp_all
  then show ?case using Cons.IH [of c2 x2] f b s c1 by simp
qed simp

text \<open>C14: The frequency tables are only an optimisation. Whatever sequence of frames a session analyses, at whatever mix of sample
  rates and frame lengths (empty, absent or longer than the table included), the eight band sums and the thirty-two spectrum
  bands of every frame are those computed from the frame alone without any table: a table left by an earlier operating point
  is never used for another.\<close>

theorem tables_transparent:
  "analyse_run pow lg fs (freq_cache_new, scalar_cache_new)
     = map (\<lambda>(ms, hz). (plain_bands ms hz, plain_spectrum pow lg ms hz)) fs"
  by (rule analyse_plain) simp_all

section \<open>The square root is the nearest one\<close>

lemma isqrt_bits:
  "r * r \<le> n \<Longrightarrow> n < (r + 2 ^ k) * (r + 2 ^ k) \<Longrightarrow>
     isqrt_bits k r n * isqrt_bits k r n \<le> n \<and> n < (isqrt_bits k r n + 1) * (isqrt_bits k r n + 1)"
proof (induction k arbitrary: r)
  case 0
  then show ?case by simp
next
  case (Suc k)
  have e: "r + 2 ^ Suc k = (r + 2 ^ k) + 2 ^ k" by simp
  show ?case
  proof (cases "(r + 2 ^ k) * (r + 2 ^ k) \<le> n")
    case True
    then show ?thesis using Suc.IH [OF True] Suc.prems(2) unfolding e by simp
  next
    case False
    then show ?thesis using Suc.IH [OF Suc.prems(1)] by simp
  qed
qed

lemma isqrt_bits_nonneg: "0 \<le> r \<Longrightarrow> 0 \<le> isqrt_bits k r n"
  by (induction k arbitrary: r) auto

lemma fl_sqrt_base:
  assumes "2 ^ 46 \<le> x" and "x < 2 ^ 48"
  shows "(2 * fl_sqrt_up n x - 1) * (2 * fl_sqrt_up n x - 1) \<le> 4 * x \<and> 4 * x < (2 * fl_sqrt_up n x + 1) * (2 * fl_sqrt_up n x + 1)"
proof -
  define r where "r = isqrt_bits 24 0 \<lfloor>x\<rfloor>"
  have "\<lfloor>x\<rfloor> < 2 ^ 48" using assms(2) by (simp add: floor_less_iff)
  moreover have pos: "2 ^ 46 \<le> \<lfloor>x\<rfloor>" using assms(1) by (simp add: le_floor_iff)
  ultimately have r: "r * r \<le> \<lfloor>x\<rfloor>" "\<lfloor>x\<rfloor> < (r + 1) * (r + 1)" using isqrt_bits [of 0 "\<lfloor>x\<rfloor>" 24] by (simp_all add: r_def)
  have "of_int (r * r) \<le> x" using r(1) by (simp only: le_floor_iff)
  then have r1: "of_int r * of_int r \<le> x" by simp
  have "x < of_int ((r + 1) * (r + 1))" using r(2) by (simp only: floor_less_iff)
  then have r2: "x < (of_int r + 1) * (of_int r + 1)" by simp
  have up: "fl_sqrt_up n x = of_int (if of_int (r * r + r) + 1 / 4 \<le> x then r + 1 else r)"
    unfolding fl_sqrt_up.simps [of n x] Let_def r_def [symmetric] using assms(1) by simp
  have "r \<ge> 0" unfolding r_def by (rule isqrt_bits_nonneg) simp
  moreover have "r \<noteq> 0" using r(2) pos by auto
  ultimately have "1 \<le> r" by simp
  then have "1 \<le> (of_int r :: rat)" by simp
  then show ?thesis using r1 r2 by (auto simp: up algebra_simps)
qed

section \<open>Onsets keep their distance\<close>

fun beat_run :: "(flt list \<times> u32) list \<Rightarrow> beat_detector \<Rightarrow> bool list" where
  "beat_run [] s = []"
| "beat_run ((mags, now) # fs) s = (let (fired, s) = beat_process mags now s in fired # beat_run fs s)"

lemma length_beat_run [simp]: "length (beat_run fs s) = length fs"
  by (induction fs arbitrary: s) (auto simp: case_prod_beta)

lemma beat_process_simps [simp]:
  "bd_cfg (snd (beat_process mags now s)) = bd_cfg s"
  "bd_last_beat_ms (snd (beat_process mags now s)) = (if fst (beat_process mags now s) then now else bd_last_beat_ms s)"
  "bd_frames_seen (snd (beat_process mags now s)) = (if bd_frames_seen s < kHistorySize then bd_frames_seen s + 1 else bd_frames_seen s)"
  by (simp_all add: beat_process_def Let_def split: option.split)

lemma beat_processD:
  assumes "fst (beat_process mags now s)"
  shows "bd_last_beat_ms s = 0 \<or> bt_refractory_ms (bd_cfg s) \<le> now - bd_last_beat_ms s"
    and "bt_warmup_frames (bd_cfg s) \<le> min (bd_frames_seen s) kHistorySize"
  using assms by (auto simp: beat_process_def Let_def not_less split: if_splits)

lemma next_beat:
  assumes "j < length fs" and "beat_run fs s ! j" and "\<forall>k < j. \<not> beat_run fs s ! k" and "bd_last_beat_ms s \<noteq> 0"
  shows "bt_refractory_ms (bd_cfg s) \<le> snd (fs ! j) - bd_last_beat_ms s"
  using assms
proof (induction fs arbitrary: s j)
  case (Cons f fs)
  obtain mags now where f: "f = (mags, now)" by (cases f)
  show ?case
  proof (cases j)
    case 0
    then show ?thesis using Cons.prems f beat_processD(1) [of mags now s] by (simp add: case_prod_beta)
  next
    case (Suc j')
    let ?s = "snd (beat_process mags now s)"
    have "\<not> fst (beat_process mags now s)" using Cons.prems(3) Suc f by (auto simp: case_prod_beta)
    moreover have "\<forall>k < j'. \<not> beat_run fs ?s ! k" using Cons.prems(3) Suc f by (auto simp: case_prod_beta)
    ultimately show ?thesis using Cons.IH [of j' ?s] Cons.prems Suc f by (simp add: case_prod_beta)
  qed
qed simp

lemma beats_spaced:
  assumes "i < j" and "j < length fs" and "beat_run fs s ! i" and "beat_run fs s ! j"
    and "\<forall>k. i < k \<and> k < j \<longrightarrow> \<not> beat_run fs s ! k" and "snd (fs ! i) \<noteq> 0"
  shows "bt_refractory_ms (bd_cfg s) \<le> snd (fs ! j) - snd (fs ! i)"
  using assms
proof (induction fs arbitrary: s i j)
  case (Cons f fs)
  obtain mags now where f: "f = (mags, now)" by (cases f)
  let ?s = "snd (beat_process mags now s)"
  obtain j' where j: "j = Suc j'" using Cons.prems(1) by (cases j) auto
  show ?case
  proof (cases i)
    case 0
    have "\<forall>k < j'. \<not> beat_run fs ?s ! k" using Cons.prems(5) 0 j f by (auto simp: case_prod_beta)
    then show ?thesis using next_beat [of j' fs ?s] Cons.prems 0 j f by (simp add: case_prod_beta)
  next
    case (Suc i')
    have "\<forall>k. i' < k \<and> k < j' \<longrightarrow> \<not> beat_run fs ?s ! k" using Cons.prems(5) Suc j f by (auto simp: case_prod_beta)
    then show ?thesis using Cons.IH [of i' j' ?s] Cons.prems Suc j f by (simp add: case_prod_beta)
  qed
qed simp

lemma beat_warm:
  "i < length fs \<Longrightarrow> beat_run fs s ! i \<Longrightarrow> bd_frames_seen s \<le> kHistorySize \<Longrightarrow>
     bt_warmup_frames (bd_cfg s) \<le> bd_frames_seen s + i"
proof (induction fs arbitrary: s i)
  case (Cons f fs)
  obtain mags now where f: "f = (mags, now)" by (cases f)
  let ?s = "snd (beat_process mags now s)"
  show ?case
  proof (cases i)
    case 0
    then show ?thesis using Cons.prems f beat_processD(2) [of mags now s] by (simp add: case_prod_beta)
  next
    case (Suc i')
    then have "bt_warmup_frames (bd_cfg ?s) \<le> bd_frames_seen ?s + i'"
      using Cons.IH [of i' ?s] Cons.prems f by (simp add: case_prod_beta)
    then show ?thesis using Suc by (simp split: if_splits)
  qed
qed simp

lemma beat_new_simps [simp]:
  "bd_frames_seen (beat_new cfg) = 0" "bt_refractory_ms (bd_cfg (beat_new cfg)) = bt_refractory_ms cfg"
  "bt_warmup_frames (bd_cfg (beat_new cfg)) = bt_warmup_frames cfg"
  by (simp_all add: beat_new_def beat_reset_def Let_def)

text \<open>C17: Whatever the microphone hears, onsets come neither too early nor too fast: every onset, alone or not, comes
  after the warm-up frames; and it is at least the refractory period, 200 ms for the kick, after the onset before it
  (in the 32-bit clock's arithmetic), unless that one came in the millisecond where the clock reads 0, which the
  detector takes for no onset at all.\<close>

theorem onsets_spaced:
  assumes "j < length fs" and "beat_run fs (beat_new cfg) ! j"
  shows "bt_warmup_frames cfg \<le> j
    \<and> (\<forall>i < j. beat_run fs (beat_new cfg) ! i \<longrightarrow> (\<forall>k. i < k \<and> k < j \<longrightarrow> \<not> beat_run fs (beat_new cfg) ! k)
        \<longrightarrow> snd (fs ! i) \<noteq> 0 \<longrightarrow> bt_refractory_ms cfg \<le> snd (fs ! j) - snd (fs ! i))"
  using beats_spaced [of _ j fs "beat_new cfg"] beat_warm [of j fs "beat_new cfg"] assms by simp

section \<open>Drops re-arm\<close>

text \<open>A run, each frame with its event and the ratio it compared, if it got that far.\<close>

fun drop_run :: "(flt \<times> u32) list \<Rightarrow> drop_detector \<Rightarrow> (DropEvent \<times> flt option) list" where
  "drop_run [] s = []"
| "drop_run ((bass, now) # fs) s =
     (fst (drop_process bass now s), drop_ratio now (drop_push bass s)) # drop_run fs (snd (drop_process bass now s))"

lemma drop_push_simps [simp]:
  "dd_cfg (drop_push b s) = dd_cfg s" "dd_last_event_ms (drop_push b s) = dd_last_event_ms s"
  "dd_armed_for_drop (drop_push b s) = dd_armed_for_drop s"
  by (simp_all add: drop_push_def)

lemma drop_process_simps [simp]:
  "dd_cfg (snd (drop_process b now s)) = dd_cfg s"
  "dd_last_event_ms (snd (drop_process b now s)) = (if fst (drop_process b now s) = NoDrop then dd_last_event_ms s else now)"
  by (auto simp: drop_process_def drop_decide_def Let_def split: option.split)

text \<open>Firing a drop disarms; a drop needs to be armed; only a ratio of at most one arms.\<close>

lemma drop_fires:
  assumes "fst (drop_process b now s) = Drop"
  shows "\<not> dd_armed_for_drop (snd (drop_process b now s))"
    and "dc_drop_ratio (dd_cfg s) \<ge> 1 \<Longrightarrow> dd_armed_for_drop s \<and> (\<exists>r > 1. drop_ratio now (drop_push b s) = Some r)"
  using assms by (auto simp: drop_process_def drop_decide_def Let_def split: option.splits if_splits)

lemma drop_stays_disarmed:
  assumes "\<not> dd_armed_for_drop s" and "dd_armed_for_drop (snd (drop_process b now s))"
  shows "\<exists>r \<le> 1. drop_ratio now (drop_push b s) = Some r"
  using assms by (auto simp: drop_process_def drop_decide_def Let_def split: option.splits if_splits)

lemma drop_event_late:
  "fst (drop_process b now s) \<noteq> NoDrop \<Longrightarrow> dd_last_event_ms s \<noteq> 0 \<Longrightarrow> dc_cooldown_ms (dd_cfg s) \<le> now - dd_last_event_ms s"
  by (auto simp: drop_process_def drop_ratio_def Let_def not_less split: option.splits if_splits)

lemma next_drop:
  assumes "j < length fs" and "fst (drop_run fs s ! j) = Drop" and "\<not> dd_armed_for_drop s" and "dc_drop_ratio (dd_cfg s) \<ge> 1"
  shows "\<exists>k < j. \<exists>r \<le> 1. snd (drop_run fs s ! k) = Some r"
  using assms
proof (induction fs arbitrary: s j)
  case (Cons f fs)
  obtain b now where f: "f = (b, now)" by (cases f)
  show ?case
  proof (cases j)
    case 0
    then show ?thesis using Cons.prems f drop_fires(2) [of b now s] by simp
  next
    case (Suc j')
    show ?thesis
    proof (cases "dd_armed_for_drop (snd (drop_process b now s))")
      case True
      then have "\<exists>r \<le> 1. drop_ratio now (drop_push b s) = Some r"
        using drop_stays_disarmed Cons.prems(3) by blast
      then show ?thesis using Suc f by (intro exI [of _ 0]) simp
    next
      case False
      then obtain k r where "k < j'" "r \<le> 1" "snd (drop_run fs (snd (drop_process b now s)) ! k) = Some r"
        using Cons.IH [of j' "snd (drop_process b now s)"] Cons.prems Suc f by auto
      then show ?thesis using Suc f by (intro exI [of _ "Suc k"]) auto
    qed
  qed
qed simp

lemma two_drops:
  assumes "i < j" and "j < length fs" and "fst (drop_run fs s ! i) = Drop" and "fst (drop_run fs s ! j) = Drop"
    and "dc_drop_ratio (dd_cfg s) \<ge> 1"
  shows "\<exists>k. i < k \<and> k < j \<and> (\<exists>r \<le> 1. snd (drop_run fs s ! k) = Some r)"
  using assms
proof (induction fs arbitrary: s i j)
  case (Cons f fs)
  obtain b now where f: "f = (b, now)" by (cases f)
  let ?s = "snd (drop_process b now s)"
  obtain j' where j: "j = Suc j'" using Cons.prems(1) by (cases j) auto
  have "\<exists>k. i \<le> k \<and> k < j' \<and> (\<exists>r \<le> 1. snd (drop_run fs ?s ! k) = Some r)"
  proof (cases i)
    case 0
    then show ?thesis using next_drop [of j' fs ?s] drop_fires(1) [of b now s] Cons.prems j f by auto
  next
    case (Suc i')
    then obtain k r where "i' < k" "k < j'" "r \<le> 1" "snd (drop_run fs ?s ! k) = Some r"
      using Cons.IH [of i' j' ?s] Cons.prems j f by auto
    then show ?thesis using Suc by (intro exI [of _ k]) auto
  qed
  then obtain k r where "i \<le> k" "k < j'" "r \<le> 1" "snd (drop_run fs ?s ! k) = Some r" by blast
  then show ?case using j f by (intro exI [of _ "Suc k"]) auto
qed simp

lemma drop_new_cfg [simp]:
  "dc_drop_ratio (dd_cfg (drop_new cfg)) = dc_drop_ratio cfg" "dc_cooldown_ms (dd_cfg (drop_new cfg)) = dc_cooldown_ms cfg"
  by (simp_all add: drop_new_def drop_reset_def Let_def)

text \<open>C18: A loud passage is announced once. Between two drops of any run, however long and loud the music stays, there is a
  frame on which the short-term level, compared with the long-term one, had come back to it or below, so that a level that
  only stays up never fires again.\<close>

theorem drop_rearms_at_baseline:
  assumes "i < j" and "j < length fs" and "fst (drop_run fs (drop_new cfg) ! i) = Drop"
    and "fst (drop_run fs (drop_new cfg) ! j) = Drop" and "dc_drop_ratio cfg \<ge> 1"
  shows "\<exists>k. i < k \<and> k < j \<and> (\<exists>r \<le> 1. snd (drop_run fs (drop_new cfg) ! k) = Some r)"
  using two_drops [OF assms(1-4)] assms(5) by simp

text \<open>Witnesses: a band that wakes up after one quiet frame, with the warm-up cut to that frame and one band watched; and a
  drop detector with windows of one and two frames and no cooldown.\<close>

definition onset_cfg :: beat_cfg where
  "onset_cfg = beat_cfg_default\<lparr> bt_watch_count := 1, bt_threshold_k := 2, bt_warmup_frames := 1 \<rparr>"

definition onset_frames :: "(flt list \<times> u32) list" where
  "onset_frames = map (\<lambda>(v, t). (v # replicate 31 0, t)) [(1048576, 100), (3145728, 150), (8388608, 400)]"

definition onset_state :: beat_detector where
  "onset_state = snd (beat_process (3145728 # replicate 31 0) 150 (snd (beat_process (1048576 # replicate 31 0) 100 (beat_new onset_cfg))))"

lemma onset_state_window: "take 2 (bd_history onset_state ! 0) = [1048576, 3145728] \<and> bd_frames_seen onset_state = 2"
  by code_simp

lemma onset_threshold: "band_threshold 2 [1048576, 3145728] = Some 4194304"
  by code_simp

lemma onset_first: "\<not> fst (beat_process (1048576 # replicate 31 0) 100 (beat_new onset_cfg))
    \<and> fst (beat_process (3145728 # replicate 31 0) 150 (snd (beat_process (1048576 # replicate 31 0) 100 (beat_new onset_cfg))))"
  by code_simp

lemma onset_last: "fst (beat_process (8388608 # replicate 31 0) 400 onset_state)"
proof -
  have "bd_cfg onset_state = onset_cfg" by (simp add: onset_state_def) code_simp
  moreover have "bd_last_beat_ms onset_state = 150" using onset_first by (simp add: onset_state_def)
  ultimately show ?thesis using onset_state_window onset_threshold
    by (simp add: beat_process_def Let_def onset_cfg_def beat_cfg_default_def)
qed

lemma onset_run: "beat_run onset_frames (beat_new onset_cfg) = [False, True, True]"
  using onset_first onset_last by (simp add: onset_frames_def case_prod_beta onset_state_def)

lemma onsets_spaced_witness:
  "beat_run onset_frames (beat_new onset_cfg) = [False, True, True]
   \<and> bt_refractory_ms onset_cfg \<le> snd (onset_frames ! 2) - snd (onset_frames ! 1) \<and> bt_warmup_frames onset_cfg \<le> 2"
proof -
  have l: "length onset_frames = 3" "snd (onset_frames ! 1) \<noteq> 0" by (simp_all add: onset_frames_def)
  have o: "2 < length onset_frames" "beat_run onset_frames (beat_new onset_cfg) ! 2" using l by (simp_all add: onset_run)
  have "\<not> (1 < k \<and> k < 2)" for k :: nat by arith
  with onsets_spaced [OF o] l onset_run show ?thesis by (auto dest: spec [of _ 1])
qed

definition short_drop_cfg :: drop_cfg where
  "short_drop_cfg = \<lparr> dc_short_window_frames = 1, dc_long_window_frames = 2, dc_drop_ratio = 3 / 2,
     dc_breakdown_ratio = 1 / 2, dc_cooldown_ms = 0, dc_warmup_frames = 1 \<rparr>"

definition drop_frames :: "(flt \<times> u32) list" where
  "drop_frames = [(2097152, 25), (16777216, 50), (2097152, 75), (16777216, 100)]"

lemma drop_events: "map fst (drop_run drop_frames (drop_new short_drop_cfg)) = [NoDrop, Drop, Breakdown, Drop]"
  unfolding drop_frames_def short_drop_cfg_def by code_simp

lemma drop_rearms_at_baseline_witness:
  "fst (drop_run drop_frames (drop_new short_drop_cfg) ! 1) = Drop \<and> fst (drop_run drop_frames (drop_new short_drop_cfg) ! 3) = Drop
   \<and> (\<exists>k. 1 < k \<and> k < 3 \<and> (\<exists>r \<le> 1. snd (drop_run drop_frames (drop_new short_drop_cfg) ! k) = Some r))"
proof -
  have len: "length (drop_run drop_frames (drop_new short_drop_cfg)) = 4"
    using arg_cong [OF drop_events, of length] by simp
  have d: "fst (drop_run drop_frames (drop_new short_drop_cfg) ! 1) = Drop"
      "fst (drop_run drop_frames (drop_new short_drop_cfg) ! 3) = Drop"
    using arg_cong [OF drop_events, of "\<lambda>l. l ! 1"] arg_cong [OF drop_events, of "\<lambda>l. l ! 3"] len by simp_all
  have "length drop_frames = 4" "dc_drop_ratio short_drop_cfg \<ge> 1" by (simp_all add: drop_frames_def short_drop_cfg_def)
  then show ?thesis using d drop_rearms_at_baseline [of 1 3 drop_frames short_drop_cfg] by simp
qed

end
