(* ===== verification/Sections.thy ===== *)
theory Sections
  imports Analyser
begin

text \<open>
  The section state machine of the audio analysis (\<open>src/dal/analyser/section_detector.cpp\<close>): averages of the
  descriptors, the drop latch, the breakdown streak and the hysteresis. The frame counter is a \<open>size_t\<close>, 32 bits
  wide on the ESP32; after 2^32 frames it wraps and the warm-up comes again.
\<close>

section \<open>Sections\<close>

datatype SectionType = SecUnknown | SecVerse | SecChorus | SecBuildUp | SecBreakdown | SecVocalsOnly
  | SecInstrumentalBreak | SecDrop

record section_cfg =
  sc_fast_alpha :: flt
  sc_slow_alpha :: flt
  sc_energy_low :: u8
  sc_energy_high :: u8
  sc_density_low :: u8
  sc_density_high :: u8
  sc_rising_slope :: u8
  sc_transition_frames :: nat
  sc_breakdown_sustain_frames :: nat
  sc_drop_hold_frames :: nat
  sc_warmup_frames :: nat

definition kFastAlpha :: flt where
  "kFastAlpha = fl (5 / 100)"

definition kSlowAlpha :: flt where
  "kSlowAlpha = fl (1 / 100)"

definition section_cfg_default :: section_cfg where
  "section_cfg_default = \<lparr> sc_fast_alpha = kFastAlpha, sc_slow_alpha = kSlowAlpha, sc_energy_low = 64,
     sc_energy_high = 160, sc_density_low = 32, sc_density_high = 96, sc_rising_slope = 16, sc_transition_frames = 8,
     sc_breakdown_sustain_frames = 80, sc_drop_hold_frames = 40, sc_warmup_frames = 80 \<rparr>"

record iir =
  ii_fast :: flt
  ii_slow :: flt

definition iir_update :: "flt \<Rightarrow> flt \<Rightarrow> flt \<Rightarrow> iir \<Rightarrow> iir" where
  "iir_update x fa sa s =
     \<lparr> ii_fast = fl (fl (fa * x) + fl (fl (1 - fa) * ii_fast s)), ii_slow = fl (fl (sa * x) + fl (fl (1 - sa) * ii_slow s)) \<rparr>"

definition slope :: "iir \<Rightarrow> flt" where
  "slope s = fl (ii_fast s - ii_slow s)"

record section_detector =
  sd_centroid_iir :: iir
  sd_energy_iir :: iir
  sd_density_iir :: iir
  sd_frames_seen :: u32
  sd_current :: SectionType
  sd_candidate :: SectionType
  sd_candidate_streak :: nat
  sd_breakdown_streak :: nat
  sd_drop_hold_remaining :: nat

definition section_new :: section_detector where
  "section_new = \<lparr> sd_centroid_iir = \<lparr> ii_fast = 0, ii_slow = 0 \<rparr>, sd_energy_iir = \<lparr> ii_fast = 0, ii_slow = 0 \<rparr>,
     sd_density_iir = \<lparr> ii_fast = 0, ii_slow = 0 \<rparr>, sd_frames_seen = 0, sd_current = SecUnknown, sd_candidate = SecUnknown,
     sd_candidate_streak = 0, sd_breakdown_streak = 0, sd_drop_hold_remaining = 0 \<rparr>"

definition evaluate_candidate :: "section_cfg \<Rightarrow> section_detector \<Rightarrow> SectionType" where
  "evaluate_candidate cfg s =
     (let u = (\<lambda>v :: u8. of_nat (unat v) :: flt);
          energy_level = ii_slow (sd_energy_iir s);
          density_level = ii_slow (sd_density_iir s)
      in if slope (sd_energy_iir s) > u (sc_rising_slope cfg) \<and> slope (sd_density_iir s) > u (sc_rising_slope cfg)
         then SecBuildUp
         else if energy_level \<ge> u (sc_energy_high cfg) \<and> density_level \<ge> u (sc_density_high cfg) then SecChorus
         else if energy_level \<ge> u (sc_energy_low cfg) \<and> density_level < u (sc_density_high cfg) then SecVerse
         else SecUnknown)"

text \<open>The hysteresis: what a candidate does to the current section.\<close>

definition settle :: "section_cfg \<Rightarrow> SectionType \<Rightarrow> section_detector \<Rightarrow> section_detector" where
  "settle cfg candidate s =
     (if candidate = sd_current s then s\<lparr> sd_candidate := sd_current s, sd_candidate_streak := 0 \<rparr>
      else if candidate = sd_candidate s then
        let s = s\<lparr> sd_candidate_streak := sd_candidate_streak s + 1 \<rparr> in
        if sd_candidate_streak s \<ge> sc_transition_frames cfg \<or> candidate = SecBreakdown
        then s\<lparr> sd_current := candidate, sd_candidate_streak := 0 \<rparr> else s
      else
        let s = s\<lparr> sd_candidate := candidate, sd_candidate_streak := 1 \<rparr> in
        if candidate = SecBreakdown then s\<lparr> sd_current := candidate, sd_candidate_streak := 0 \<rparr> else s)"

definition section_process ::
    "section_cfg \<Rightarrow> u8 \<Rightarrow> u8 \<Rightarrow> u8 \<Rightarrow> bool \<Rightarrow> section_detector \<Rightarrow> SectionType \<times> section_detector" where
  "section_process cfg centroid energy density drop_event_fired s =
     (let u = (\<lambda>v :: u8. of_nat (unat v) :: flt);
          upd = (\<lambda>v. iir_update (u v) (sc_fast_alpha cfg) (sc_slow_alpha cfg));
          s = s\<lparr> sd_centroid_iir := upd centroid (sd_centroid_iir s), sd_energy_iir := upd energy (sd_energy_iir s),
                 sd_density_iir := upd density (sd_density_iir s), sd_frames_seen := sd_frames_seen s + 1 \<rparr>;
          s = (if drop_event_fired then s\<lparr> sd_drop_hold_remaining := sc_drop_hold_frames cfg \<rparr> else s)
      in if sd_drop_hold_remaining s > 0 then
           (SecDrop, s\<lparr> sd_drop_hold_remaining := sd_drop_hold_remaining s - 1, sd_current := SecDrop,
              sd_candidate := SecDrop, sd_candidate_streak := 0, sd_breakdown_streak := 0 \<rparr>)
         else if unat (sd_frames_seen s) < sc_warmup_frames cfg then (sd_current s, s)
         else
           let below = (ii_fast (sd_energy_iir s) < u (sc_energy_low cfg) \<and> ii_fast (sd_density_iir s) < u (sc_density_low cfg));
               s = (if below then
                      if sd_breakdown_streak s < sc_breakdown_sustain_frames cfg
                      then s\<lparr> sd_breakdown_streak := sd_breakdown_streak s + 1 \<rparr> else s
                    else s\<lparr> sd_breakdown_streak := 0 \<rparr>);
               candidate = (if sd_breakdown_streak s \<ge> sc_breakdown_sustain_frames cfg then SecBreakdown
                            else evaluate_candidate cfg s);
               s = settle cfg candidate s
           in (sd_current s, s))"

section \<open>The averages\<close>

text \<open>One silent frame: the fast average falls by a twentieth, up to rounding.\<close>

definition decayed :: "nat \<Rightarrow> nat" where
  "decayed n = (19 * n + 19) div 20"

lemma fast_keep: "0 \<le> fl (1 - kFastAlpha) \<and> fl (1 - kFastAlpha) \<le> 19 / 20"
  unfolding kFastAlpha_def by code_simp

lemma fast_full: "fl (fl (kFastAlpha * 255) + fl (fl (1 - kFastAlpha) * 255)) \<le> 255 \<and> 0 \<le> kFastAlpha"
  unfolding kFastAlpha_def by code_simp

lemma decayed_ge: "19 / 20 * of_nat n \<le> (of_nat (decayed n) :: rat)"
proof -
  have "19 * n \<le> 20 * decayed n" 
    using dividend_less_div_times [of 20 "19 * n + 19"] by (simp add: decayed_def)
  then have "of_nat (19 * n) \<le> (of_nat (20 * decayed n) :: rat)" by (rule of_nat_mono)
  then have "19 * of_nat n \<le> (20 * of_nat (decayed n) :: rat)" unfolding of_nat_mult by simp
  then show ?thesis by simp
qed

lemma iir_silent:
  assumes "ii_fast s \<le> of_nat n" and "0 \<le> ii_fast s" and "n < 2 ^ 24"
  shows "ii_fast (iir_update 0 kFastAlpha sa s) \<le> of_nat (decayed n) \<and> 0 \<le> ii_fast (iir_update 0 kFastAlpha sa s)"
proof -
  let ?k = "fl (1 - kFastAlpha)"
  have "?k * ii_fast s \<le> 19 / 20 * of_nat n" using fast_keep assms(1,2) by (intro mult_mono) auto
  also have "\<dots> \<le> of_nat (decayed n)" by (rule decayed_ge)
  finally have "fl (?k * ii_fast s) \<le> fl (of_nat (decayed n))" by (rule fl_mono)
  moreover have d: "fl (of_nat (decayed n)) = of_nat (decayed n)"
    using assms(3) by (intro fl.whole_nat) (simp add: decayed_def)
  ultimately have "fl (fl (?k * ii_fast s)) \<le> of_nat (decayed n)"
    using fl_mono [of "fl (?k * ii_fast s)" "of_nat (decayed n)"] by simp
  moreover have "0 \<le> fl (fl (?k * ii_fast s))" using fast_keep assms(2) by (intro fl.nonneg) simp
  ultimately show ?thesis by (simp add: iir_update_def)
qed

lemma iir_bounded:
  assumes "0 \<le> x" and "x \<le> 255" and "0 \<le> ii_fast s" and "ii_fast s \<le> 255"
  shows "0 \<le> ii_fast (iir_update x kFastAlpha sa s) \<and> ii_fast (iir_update x kFastAlpha sa s) \<le> 255"
proof -
  let ?k = "fl (1 - kFastAlpha)"
  have "kFastAlpha * x \<le> kFastAlpha * 255" "?k * ii_fast s \<le> ?k * 255" "0 \<le> kFastAlpha * x" "0 \<le> ?k * ii_fast s"
    using assms fast_keep fast_full by (simp_all add: mult_left_mono)
  then have m: "fl (kFastAlpha * x) \<le> fl (kFastAlpha * 255)" "fl (?k * ii_fast s) \<le> fl (?k * 255)"
    and nonneg: "0 \<le> fl (kFastAlpha * x)" "0 \<le> fl (?k * ii_fast s)"
    by (auto intro: fl_mono fl.nonneg)
  have "fl (fl (kFastAlpha * x) + fl (?k * ii_fast s)) \<le> fl (fl (kFastAlpha * 255) + fl (?k * 255))"
    by (rule fl_mono [OF add_mono [OF m]])
  moreover have "0 \<le> fl (fl (kFastAlpha * x) + fl (?k * ii_fast s))"
    using nonneg by (intro fl.nonneg) simp
  ultimately show ?thesis using fast_full by (simp add: iir_update_def)
qed

abbreviation cfg0 :: section_cfg where "cfg0 \<equiv> section_cfg_default"

text \<open>The invariant of the detector: averages in the range of a byte, counters inside their limits, and
  the breakdown on as soon as, and as long as, its streak is full.\<close>

definition section_ok :: "section_detector \<Rightarrow> bool" where
  "section_ok s \<longleftrightarrow> 0 \<le> ii_fast (sd_energy_iir s) \<and> ii_fast (sd_energy_iir s) \<le> 255
     \<and> 0 \<le> ii_fast (sd_density_iir s) \<and> ii_fast (sd_density_iir s) \<le> 255
     \<and> sd_drop_hold_remaining s \<le> 40 \<and> sd_breakdown_streak s \<le> 80
     \<and> (sd_breakdown_streak s = 80 \<longrightarrow> sd_current s = SecBreakdown)"

lemma settle_simps [simp]:
  "sd_energy_iir (settle cfg c s) = sd_energy_iir s" "sd_density_iir (settle cfg c s) = sd_density_iir s"
  "sd_drop_hold_remaining (settle cfg c s) = sd_drop_hold_remaining s"
  "sd_breakdown_streak (settle cfg c s) = sd_breakdown_streak s" "sd_frames_seen (settle cfg c s) = sd_frames_seen s"
  by (auto simp: settle_def Let_def)

lemma settle_breakdown [simp]: "sd_current (settle cfg SecBreakdown s) = SecBreakdown"
  by (auto simp: settle_def Let_def)

lemma section_process_simps:
  "sd_energy_iir (snd (section_process cfg0 c en de ev s)) = iir_update (of_nat (unat en)) kFastAlpha kSlowAlpha (sd_energy_iir s)"
  "sd_density_iir (snd (section_process cfg0 c en de ev s)) = iir_update (of_nat (unat de)) kFastAlpha kSlowAlpha (sd_density_iir s)"
  "sd_drop_hold_remaining (snd (section_process cfg0 c en de ev s)) = (if ev then 40 else sd_drop_hold_remaining s) - 1"
  "sd_frames_seen (snd (section_process cfg0 c en de ev s)) = sd_frames_seen s + 1"
  "sd_current (snd (section_process cfg0 c en de ev s)) = fst (section_process cfg0 c en de ev s)"
  by (auto simp: section_process_def section_cfg_default_def Let_def simp del: of_nat_unat)

lemma section_streak:
  "sd_breakdown_streak (snd (section_process cfg0 c en de ev s)) =
     (let s' = snd (section_process cfg0 c en de ev s);
          low = (ii_fast (sd_energy_iir s') < 64 \<and> ii_fast (sd_density_iir s') < 32)
      in if ev \<or> sd_drop_hold_remaining s > 0 then 0
         else if unat (sd_frames_seen s + 1) < 80 then sd_breakdown_streak s
         else if low then min 80 (max (sd_breakdown_streak s) (sd_breakdown_streak s + 1)) else 0)"
  if "sd_breakdown_streak s \<le> 80"
  using that by (auto simp: section_process_def section_cfg_default_def Let_def simp del: of_nat_unat)

lemma section_breakdown:
  assumes "sd_breakdown_streak s = 80 \<longrightarrow> sd_current s = SecBreakdown"
    and "sd_breakdown_streak (snd (section_process cfg0 c en de ev s)) = 80"
  shows "sd_current (snd (section_process cfg0 c en de ev s)) = SecBreakdown"
  using assms by (auto simp: section_process_def section_cfg_default_def Let_def split: if_splits)

lemma section_process_ok: "section_ok s \<Longrightarrow> section_ok (snd (section_process cfg0 c en de ev s))"
  using unat_u8_le [of en] unat_u8_le [of de]
    iir_bounded [of "of_nat (unat en)" "sd_energy_iir s" "kSlowAlpha"]
    iir_bounded [of "of_nat (unat de)" "sd_density_iir s" "kSlowAlpha"] section_breakdown [of s c en de ev]
  by (auto simp add: section_ok_def section_process_simps section_streak Let_def simp del: unat_u8_le of_nat_unat)
text \<open>A run: what the detector reports frame by frame.\<close>

type_synonym section_frame = "u8 \<times> u8 \<times> u8 \<times> bool"

fun section_reports :: "section_cfg \<Rightarrow> section_frame list \<Rightarrow> section_detector \<Rightarrow> SectionType list" where
  "section_reports cfg [] s = []"
| "section_reports cfg ((c, en, de, ev) # fs) s =
     fst (section_process cfg c en de ev s) # section_reports cfg fs (snd (section_process cfg c en de ev s))"

fun section_after :: "section_cfg \<Rightarrow> section_frame list \<Rightarrow> section_detector \<Rightarrow> section_detector" where
  "section_after cfg [] s = s"
| "section_after cfg ((c, en, de, ev) # fs) s = section_after cfg fs (snd (section_process cfg c en de ev s))"

lemma length_section_reports [simp]: "length (section_reports cfg fs s) = length fs"
  by (induction cfg fs s rule: section_reports.induct) (auto simp: case_prod_beta)

lemma section_reports_append:
  "section_reports cfg (fs @ gs) s = section_reports cfg fs s @ section_reports cfg gs (section_after cfg fs s)"
  by (induction cfg fs s rule: section_reports.induct) (auto simp: case_prod_beta)

lemma section_after_append: "section_after cfg (fs @ gs) s = section_after cfg gs (section_after cfg fs s)"
  by (induction cfg fs s rule: section_after.induct) auto

lemma section_after_ok: "section_ok s \<Longrightarrow> section_ok (section_after cfg0 fs s)"
  by (induction cfg0 fs s rule: section_after.induct) (auto intro: section_process_ok)

lemma section_new_ok [simp]: "section_ok section_new"
  by (simp add: section_ok_def section_new_def)

text \<open>Silence, frame by frame: \<open>n\<close> silent frames after any good state.\<close>

definition silent :: "section_frame \<Rightarrow> bool" where
  "silent f \<longleftrightarrow> (case f of (c, en, de, ev) \<Rightarrow> en = 0 \<and> de = 0 \<and> \<not> ev)"

lemma decayed_le: "n \<le> 255 \<Longrightarrow> decayed n \<le> 255"
  by (simp add: decayed_def)

lemma decayed_chain_le: "(decayed ^^ k) 255 \<le> 255"
  by (induction k) (simp_all add: decayed_le)

lemma funpow_num: "(f ^^ numeral k) x = (f ^^ pred_numeral k) (f x)"
  by (simp add: numeral_eq_Suc funpow_swap1)

lemma decayed_low: "60 \<le> k \<Longrightarrow> (decayed ^^ k) 255 \<le> 31"
proof (induction k rule: dec_induct)
  case base
  show ?case by (simp add: funpow_num decayed_def)
next
  case (step k)
  then show ?case by (simp add: decayed_def)
qed

lemma section_after_frames:
  "sd_frames_seen (section_after cfg0 fs s) = sd_frames_seen s + of_nat (length fs)"
  by (induction cfg0 fs s rule: section_after.induct) (simp_all add: section_process_simps)

lemma section_reports_current:
  "i < length fs \<Longrightarrow> section_reports cfg0 fs s ! i = sd_current (section_after cfg0 (take (Suc i) fs) s)"
proof (induction cfg0 fs s arbitrary: i rule: section_reports.induct)
  case (2 c en de ev fs s)
  then show ?case by (cases i) (simp_all add: section_process_simps)
qed simp

text \<open>
  Of the frames after the sixtieth silent one, those that fall into a warm-up, when \<open>n\<close> frames were seen
  before the silence.
\<close>

definition cold :: "nat \<Rightarrow> nat \<Rightarrow> nat set" where
  "cold n k = {i \<in> {60..<k}. unat (of_nat (n + i + 1) :: u32) < 80}"

lemma finite_cold [simp]: "finite (cold n k)"
  by (simp add: cold_def)

lemma cold_Suc: "60 \<le> k \<Longrightarrow> cold n (Suc k) = (if unat (of_nat (n + k + 1) :: u32) < 80 then insert k (cold n k) else cold n k)"
  by (auto simp: cold_def less_Suc_eq simp del: of_nat_add)

lemma not_cold: "k \<notin> cold n k"
  by (simp add: cold_def)

text \<open>The counter takes a value below 80 at most eighty times in a turn.\<close>

lemma card_cold: "k \<le> 220 \<Longrightarrow> card (cold n k) \<le> 80"
proof -
  assume k: "k \<le> 220"
  have "inj_on (\<lambda>i. unat (of_nat (n + i + 1) :: u32)) (cold n k)"
  proof (rule inj_onI)
    fix i j
    assume ij: "i \<in> cold n k" "j \<in> cold n k" and eq: "unat (of_nat (n + i + 1) :: u32) = unat (of_nat (n + j + 1) :: u32)"
    have "(of_nat (n + i + 1) :: u32) = of_nat (n + j + 1)" using eq by (simp only: word_unat_eq_iff)
    then have "(of_nat i :: u32) = of_nat j" by simp
    then have "unat (of_nat i :: u32) = unat (of_nat j :: u32)" by simp
    then show "i = j" using ij k by (simp add: cold_def unat_of_nat)
  qed
  then have "card (cold n k) = card ((\<lambda>i. unat (of_nat (n + i + 1) :: u32)) ` cold n k)" by (rule card_image [symmetric])
  also have "\<dots> \<le> card {..<80 :: nat}" by (rule card_mono) (auto simp: cold_def simp del: of_nat_add)
  finally show ?thesis by simp
qed

text \<open>Before the first turn of the counter only the frames of the first warm-up count.\<close>

lemma card_cold_early: "n + k < 2 ^ 32 \<Longrightarrow> card (cold n k) \<le> 19"
proof -
  assume n: "n + k < 2 ^ 32"
  have "i < 79" if "i \<in> cold n k" for i
  proof -
    have "n + i + 1 < 2 ^ 32" using that n by (simp add: cold_def)
    then have "unat (of_nat (n + i + 1) :: u32) = n + i + 1" unfolding unat_of_nat by (intro mod_less) simp
    with that show ?thesis by (simp add: cold_def del: of_nat_add)
  qed
  then have "cold n k \<subseteq> {60..<79}" by (auto simp: cold_def)
  then have "card (cold n k) \<le> card {60..<79 :: nat}" by (intro card_mono) simp_all
  then show ?thesis by simp
qed

definition silent_ok :: "nat \<Rightarrow> nat \<Rightarrow> section_detector \<Rightarrow> bool" where
  "silent_ok n k s \<longleftrightarrow> section_ok s \<and> ii_fast (sd_energy_iir s) \<le> of_nat ((decayed ^^ k) 255)
     \<and> ii_fast (sd_density_iir s) \<le> of_nat ((decayed ^^ k) 255)
     \<and> sd_drop_hold_remaining s \<le> 40 - k \<and> sd_frames_seen s = of_nat (n + k)
     \<and> (\<forall>j \<le> k. min 80 (j - 60 - card (cold n j)) \<le> sd_breakdown_streak s)"

lemma silent_start: "section_ok s \<Longrightarrow> sd_frames_seen s = of_nat n \<Longrightarrow> silent_ok n 0 s"
  by (simp add: silent_ok_def section_ok_def)

lemma silent_step:
  assumes "silent_ok n k s"
  shows "silent_ok n (Suc k) (snd (section_process cfg0 c 0 0 False s))"
proof -
  let ?s = "snd (section_process cfg0 c 0 0 False s)"
  have "(decayed ^^ k) 255 < 2 ^ 24" using decayed_chain_le [of k] by simp
  then have e: "ii_fast (sd_energy_iir ?s) \<le> of_nat ((decayed ^^ Suc k) 255)"
      "ii_fast (sd_density_iir ?s) \<le> of_nat ((decayed ^^ Suc k) 255)"
    using assms iir_silent [of "sd_energy_iir s" "(decayed ^^ k) 255" kSlowAlpha]
      iir_silent [of "sd_density_iir s" "(decayed ^^ k) 255" kSlowAlpha]
    by (simp_all add: silent_ok_def section_ok_def section_process_simps)
  have ok: "section_ok s" using assms by (simp add: silent_ok_def)
  have seen: "sd_frames_seen s + 1 = of_nat (n + k + 1)" using assms by (simp add: silent_ok_def)
  have streak: "min 80 (j - 60 - card (cold n j)) \<le> sd_breakdown_streak ?s" if "j \<le> Suc k" for j
  proof (cases "60 \<le> k")
    case True
    then have "(of_nat ((decayed ^^ Suc k) 255) :: rat) \<le> of_nat 31" using decayed_low [of "Suc k"] by (intro of_nat_mono) simp
    then have low: "ii_fast (sd_energy_iir ?s) < 64 \<and> ii_fast (sd_density_iir ?s) < 32" using e by simp
    have "sd_drop_hold_remaining s = 0" using assms True by (simp add: silent_ok_def)
    then have st: "sd_breakdown_streak ?s = (if unat (of_nat (n + k + 1) :: u32) < 80 then sd_breakdown_streak s
        else min 80 (sd_breakdown_streak s + 1))"
      using section_streak [of s c 0 0 False] ok low by (simp add: section_ok_def seen Let_def)
    have old: "min 80 (i - 60 - card (cold n i)) \<le> sd_breakdown_streak s" if "i \<le> k" for i
      using assms that by (simp add: silent_ok_def)
    have "sd_breakdown_streak s \<le> 80" using ok by (simp add: section_ok_def)
    then have mono: "sd_breakdown_streak s \<le> sd_breakdown_streak ?s" unfolding st by (simp add: min_def)
    show ?thesis
    proof (cases "j = Suc k")
      case True
      have more: "min 80 (Suc x - 60 - d) \<le> min 80 (y + 1)" "Suc x - 60 - Suc d = x - 60 - d"
        if "min 80 (x - 60 - d) \<le> y" for x d y :: nat
        using that by arith+
      show ?thesis
      proof (cases "unat (of_nat (n + k + 1) :: u32) < 80")
        case cold: True
        then have "card (cold n (Suc k)) = Suc (card (cold n k))"
          unfolding cold_Suc [OF \<open>60 \<le> k\<close>] by (simp only: if_True card_insert_disjoint [OF finite_cold not_cold])
        with more(2) [OF old [OF order_refl]] old [of k] True cold st show ?thesis by (simp only: if_True)
      next
        case False
        then have "cold n (Suc k) = cold n k" unfolding cold_Suc [OF \<open>60 \<le> k\<close>] by (simp only: if_False)
        with more(1) [OF old [OF order_refl]] True False st show ?thesis by (simp only: if_False)
      qed
    next
      case False
      then show ?thesis using old [of j] mono that by simp
    qed
  next
    case False
    then show ?thesis using that by simp
  qed
  show ?thesis
    using e streak assms section_process_ok [OF ok, of c 0 0 False]
    by (auto simp: silent_ok_def section_process_simps)
qed

lemma silent_after:
  "silent_ok n k s \<Longrightarrow> \<forall>f \<in> set fs. silent f \<Longrightarrow> silent_ok n (k + length fs) (section_after cfg0 fs s)"
proof (induction fs arbitrary: s k)
  case (Cons f fs)
  obtain c where f: "f = (c, 0, 0, False)" using Cons.prems(2) by (cases f) (auto simp: silent_def)
  from Cons.IH [OF silent_step [OF Cons.prems(1), of c]] Cons.prems(2) show ?case by (simp add: f)
qed simp

lemma silent_full:
  assumes "silent_ok n k s" and "220 \<le> k \<or> 160 \<le> k \<and> n + k < 2 ^ 32"
  shows "sd_current s = SecBreakdown"
proof -
  have bound: "min 80 (j - 60 - card (cold n j)) \<le> sd_breakdown_streak s" if "j \<le> k" for j
    using assms(1) that by (simp add: silent_ok_def)
  have "80 \<le> sd_breakdown_streak s"
  proof (cases "220 \<le> k")
    case True
    with bound [of 220] card_cold [of 220 n] show ?thesis by simp
  next
    case False
    then have "160 \<le> k" "card (cold n k) \<le> 19" using assms(2) card_cold_early by simp_all
    then have "80 \<le> k - 60 - card (cold n k)" by arith
    then show ?thesis using bound [of k] by simp
  qed
  then show ?thesis using assms(1) by (simp add: silent_ok_def section_ok_def)
qed

text \<open>C13: Silence ends every section. After any history at all, and wherever the 32-bit frame counter stands, 220 frames of
  silence (five and a half seconds at 40 frames a second) bring the detector to the breakdown section, and it stays there
  for as long as the silence lasts: the longest drop latch has run out, the rounded averages have decayed below both
  thresholds, the warm-up, which a wrap of the counter can start anew, is over, and the streak has filled. Until the counter
  first wraps, 160 frames are enough.\<close>

theorem silence_reaches_breakdown:
  assumes "\<forall>f \<in> set quiet. silent f" and "i < length quiet"
    and "219 \<le> i \<or> 159 \<le> i \<and> length before + i + 1 < 2 ^ 32"
  shows "section_reports section_cfg_default (before @ quiet) section_new ! (length before + i) = SecBreakdown"
proof -
  let ?s = "section_after cfg0 before section_new"
  have "sd_frames_seen ?s = of_nat (length before)" by (simp add: section_after_frames) (simp add: section_new_def)
  from silent_start [OF section_after_ok [OF section_new_ok] this]
  have "silent_ok (length before) (0 + length (take (Suc i) quiet)) (section_after cfg0 (take (Suc i) quiet) ?s)"
    by (rule silent_after) (use assms(1) in \<open>auto dest: in_set_takeD\<close>)
  then have "silent_ok (length before) (Suc i) (section_after cfg0 (take (Suc i) quiet) ?s)" using assms(2) by simp
  from silent_full [OF this] assms(3) have "sd_current (section_after cfg0 (take (Suc i) quiet) ?s) = SecBreakdown" by simp
  then show ?thesis using assms(2) section_reports_current [OF assms(2)] by (simp add: section_reports_append nth_append)
qed

text \<open>The drop latch.\<close>

lemma drop_hold_reports:
  assumes "i < length fs" and "i < sd_drop_hold_remaining s" and "sd_drop_hold_remaining s \<le> sc_drop_hold_frames cfg"
  shows "section_reports cfg fs s ! i = SecDrop"
  using assms
proof (induction fs arbitrary: s i)
  case (Cons f fs)
  obtain c en de ev where f: "f = (c, en, de, ev)" by (cases f)
  have p: "fst (section_process cfg c en de ev s) = SecDrop"
      "sd_drop_hold_remaining (snd (section_process cfg c en de ev s)) =
         (if ev then sc_drop_hold_frames cfg else sd_drop_hold_remaining s) - 1"
    using Cons.prems(2,3) by (auto simp: section_process_def Let_def)
  show ?case
  proof (cases i)
    case 0
    then show ?thesis using p f by (simp add: case_prod_beta)
  next
    case (Suc i')
    then have "i' < sd_drop_hold_remaining (snd (section_process cfg c en de ev s))"
        "sd_drop_hold_remaining (snd (section_process cfg c en de ev s)) \<le> sc_drop_hold_frames cfg"
      using Cons.prems(2,3) p(2) by (auto split: if_splits)
    then show ?thesis using Cons.IH [of i' "snd (section_process cfg c en de ev s)"] Cons.prems(1) Suc f by simp
  qed
qed simp

lemma drop_latched:
  assumes "fst (section_process cfg c en de True s) = r" and "0 < sc_drop_hold_frames cfg"
  shows "r = SecDrop \<and> sd_drop_hold_remaining (snd (section_process cfg c en de True s)) = sc_drop_hold_frames cfg - 1"
  using assms by (auto simp: section_process_def Let_def)

text \<open>A drop is shown for its whole latch. From the frame on which the drop detector fires, the reported section is the
  drop for as many frames as the latch is configured for, whatever the averages say meanwhile and whatever went before.\<close>

theorem drop_held:
  assumes "fs ! k = (c, en, de, True)" and "k \<le> i" and "i < k + sc_drop_hold_frames cfg" and "i < length fs"
  shows "section_reports cfg fs s ! i = SecDrop"
proof -
  let ?s = "section_after cfg (take k fs) s" and ?rest = "drop (Suc k) fs"
  have split: "fs = take k fs @ (c, en, de, True) # ?rest"
    using id_take_nth_drop [of k fs] assms(1,2,4) by simp
  have len: "length (take k fs) = k" using assms(2,4) by simp
  have "section_reports cfg fs s ! i = section_reports cfg ((c, en, de, True) # ?rest) ?s ! (i - k)"
    using assms(2) len by (subst split) (simp add: section_reports_append nth_append)
  also have "\<dots> = SecDrop"
  proof (cases "i - k")
    case 0
    then show ?thesis using assms(3) drop_latched [of cfg c en de ?s] assms(2) by (simp add: case_prod_beta)
  next
    case (Suc j)
    then have "j < length ?rest" "j < sc_drop_hold_frames cfg - 1" "0 < sc_drop_hold_frames cfg" using assms by auto
    then show ?thesis using Suc drop_latched [of cfg c en de ?s]
        drop_hold_reports [of j ?rest "snd (section_process cfg c en de True ?s)" cfg]
      by (simp add: case_prod_beta)
  qed
  finally show ?thesis .
qed

lemma silence_reaches_breakdown_witness:
  "list_all silent (replicate 220 (0, 0, 0, False))
   \<and> section_reports section_cfg_default ([(9, 200, 100, True)] @ replicate 220 (0, 0, 0, False)) section_new
         ! (length [(9 :: u8, 200 :: u8, 100 :: u8, True)] + 159) = SecBreakdown"
proof -
  have q: "\<forall>f \<in> set (replicate 220 (0, 0, 0, False)). silent f" by (simp add: silent_def)
  then show ?thesis using silence_reaches_breakdown [OF q, of 159 "[(9, 200, 100, True)]"] by (simp add: list_all_iff)
qed

lemma drop_held_witness:
  "section_reports section_cfg_default [(0, 0, 0, False), (1, 90, 90, True), (1, 2, 3, False), (7, 0, 0, False)] section_new ! 3 = SecDrop"
  by (rule drop_held [of _ 1 1 90 90]) (simp_all add: section_cfg_default_def)

end
