(* ===== verification/Spec2Isabelle.thy ===== *)
theory Spec2Isabelle
  imports Frames ConfigApply ConfigChannel PairRegister Telemetry DmxParser DmxMapper EspNowDriver Repeater DmxBridge LumeScan LumeStrip PixMobIr PropertyBag NetConsole Sections
begin

text \<open>
  A verification library for the NocturNation firmware: handheld light controllers (Directors), light
  receivers (Lumes) and headless relays (repeaters) that talk over ESP-NOW radio frames, and the infrared
  bracelets, LED strips and lighting desks around them. File names below are under \<open>src/src\<close> of the
  repository. Each theory has one record per class, with its member variables, and one definition per
  member function or handler; what a call does outside (radio frames, log lines, infrared bursts) is the list of events it
  returns, and what it reads (clock, random numbers, radio answers, MAC address) is an environment record, fixed for the call.
  Integers have their width (\<open>u8\<close>, \<open>u16\<close>, \<open>u32\<close>, \<open>u64\<close> are words; a 32-bit clock wraps). Buffers are byte lists.

  Frames and trust. A Director encodes light events into frames (\<open>Wire\<close>, \<open>Codec\<close>, \<open>Frames\<close>: \<open>transport/espnow/frame.cpp\<close>;
  the locale \<open>payload_codec\<close> states what an encoder and its decoder owe each other and is interpreted for every payload);
  a receiver follows one Director at a time (\<open>Tofu\<close>: \<open>tofu_lock.cpp\<close>) and estimates the link (\<open>Telemetry\<close>: \<open>quality.cpp\<close>,
  \<open>repeater_census.cpp\<close>, \<open>wifi_scanner.cpp\<close>). Relays remember the latest sixteen frame numbers (\<open>Dedup\<close>, locale \<open>seen_memory\<close>).

  Configuration travels in signed frames: a property bag
  (\<open>Tlv\<close>: \<open>property_bag_tlv.cpp\<close>) inside a CONFIG_WRITE (\<open>ConfigChannel\<close>: \<open>ble/config_tx.cpp\<close>,
  \<open>ble/config_rx.cpp\<close>), protected by a truncated HMAC (\<open>Crypto\<close>: \<open>hmac_sha256.cpp\<close>) and a replay table
  (\<open>Numonce\<close>: \<open>numonce_lru.cpp\<close>), and applied to flash settings (\<open>ConfigApply\<close>:
  \<open>config_apply.cpp\<close>, \<open>Settings\<close>: \<open>persistence.cpp\<close>). The Director remembers paired devices
  (\<open>PairRegister\<close>: \<open>pair_register.cpp\<close>). Plugins keep properties in flash behind a cache (\<open>PropertyBag\<close>: \<open>plugins/property_bag.cpp\<close>).

  The sender. \<open>EspNowDriver\<close> (\<open>dal/drivers/espnow_broadcast_driver.cpp\<close>) is the Director's radio: start-up listening, numbering,
  airtime cap, retransmissions, heartbeat. \<open>Dal\<close> (\<open>dal/dal.cpp\<close>) turns \<open>Events\<close> into sends and refreshes active washes.
  \<open>RateLimit\<close> has timed runs and the locale of a rate limiter, interpreted for the airtime cap and the DMX mapper.
  A lighting desk drives a Director through Enttec frames (\<open>DmxParser\<close>: \<open>dmx_input_parser.cpp\<close>) or Art-Net and sACN datagrams
  (\<open>EthernetDmx\<close>: \<open>ethernet_dmx_adapter.cpp\<close>) that are mapped to events (\<open>DmxMapper\<close>:
  \<open>dmx_channel_mapper.cpp\<close>) in the bridge mode (\<open>DmxBridge\<close>: \<open>modes/dmx_bridge_mode.cpp\<close>, its Stick build). \<open>NetConsole\<close>, with \<open>CString\<close> for the
  C library's strings, is the serial and network console of \<open>dal/drivers/net_config.cpp\<close>.

  The receivers. \<open>LumeMode\<close> (\<open>modes/lume_mode.cpp\<close>) is the receive path and the main loop; \<open>LumeRun\<close> has the theorems on its runs and
  \<open>LumeScan\<close> those on its channel hunt. \<open>Repeater\<close> (\<open>modes/repeater_mode.cpp\<close>) is the relay, with \<open>ChannelScan\<close>
  the interface of its hunt. \<open>LedStrip\<close> (\<open>dal/drivers/led_strip_driver.cpp\<close>) renders pulses and washes on a strip, with the float operations of
  \<open>Float32\<close>; \<open>LumeStrip\<close> connects it to the receiver. Bracelets receive infrared pulse trains (\<open>PixMob\<close>: \<open>pixmob_protocol.h\<close>) from
  \<open>PixMobIr\<close> (\<open>dal/drivers/pixmob_ir_driver.cpp\<close>).

  The music analysis. \<open>Analyser\<close> (\<open>dal/analyser\<close>: band summaries, beat and drop detectors) and \<open>Sections\<close> (\<open>section_detector.cpp\<close>).

  What the lemmas show. Codecs: round trips, and soundness of what a decoder accepts. State machines: an invariant that
  every operation keeps, and theorems on whole runs (lists of timed calls, in any order) by induction: following one
  Director, relaying, the fallback wash, the airtime cap, the replay table, the consoles. Refinements: the driver against an
  abstract broadcaster (\<open>promised\<close>), the padded hash against FIPS 180-4, the property cache against the native store, the cached tables of the analyser
  against recomputation. Theorems of this root theory span components: desk to strip, console to flash, driver to meter.

  Bounds. The only step counts are those of the float helpers: rounding scales its argument by at most 149 halvings (down to the
  subnormals) and the square root by at most 110 quadruplings or 60 quarterings, which cover every float32; all other loops of the code are
  structural recursions or have a measure. Theorems on 32-bit counters state the bound they need
  (fewer than 2^32 events) or hold across the wrap. Float32 values are rationals that each operation rounds to 24
  bits, subnormals included; infinities and NaN do not occur. \<open>log\<close>, \<open>pow\<close>, \<open>cos\<close> of the C library, the radio, the flash, the
  network stack and the infrared transmitter are parameters or environment.

  Not modelled: the BLE service and the pairing window, the HAL backends, everything that draws,
  the shows and effects, the config, menu, test, boot and Director modes and the switching of modes, the Stick's local display driver, the ticks
  of output bindings other than the strip's, the relay of pulses from a Lume to its own infrared driver beyond the call, and enum
  bytes out of range in the infrared driver.
\<close>

section \<open>From the Director's driver to the Lume's meter\<close>

lemma numbered_in_order:
  "numbered src q bs q' \<Longrightarrow> bs \<noteq> [] \<Longrightarrow>
    frame_seq (hd bs) = q \<and> in_order q (map frame_seq (tl bs)) \<and> (\<forall>b \<in> set bs. frame_src b = src)"
proof (induction bs arbitrary: q)
  case Nil
  then show ?case by simp
next
  case (Cons b bs)
  show ?case
  proof (cases bs)
    case Nil
    with Cons.prems show ?thesis by simp
  next
    case (Cons c cs)
    with Cons.IH [of "seq_after q"] Cons.prems show ?thesis by simp
  qed
qed

text \<open>A Director's stream reads as a perfect link. Take any run of an active driver (whatever is sent,
  refused, repeated or beaten, passthrough frames under the Director's own identity included) and let a
  Lume that starts from a reset meter receive every first transmission, in order, at any times: the
  numbering of the driver never looks like loss to the meter, so it shows no bars yet or all four.\<close>

theorem director_stream_full_bars:
  assumes "drv_live s" and "dv_seq_num s \<noteq> 0"
    and "\<forall>((c, e), t) \<in> set calls. de_radio e \<and> \<not> foreign c"
    and "drv_run calls s = (sent, s')" and "length arrivals = length (first_tx (map snd sent))"
  shows "bars (foldl (\<lambda>m (b, t). note_frame (ucast (frame_src b)) (frame_seq b) t m) sq_reset
      (zip (first_tx (map snd sent)) arrivals)) \<in> {- 1, 4}"
proof (cases "first_tx (map snd sent)")
  case Nil
  then show ?thesis by (simp add: bars_def sq_reset_def)
next
  case (Cons b bs)
  let ?src = "ucast (dv_source_id s) :: u16"
  have "bcast_run (drv_abs s) calls sent (drv_abs s')"
    using drv_run_refines [OF assms(1) _ assms(4)] assms(3) by fastforce
  from run_numbered [OF this] assms(3)
  have "numbered ?src (dv_seq_num s) (b # bs) (bc_seq (drv_abs s'))"
    using Cons by (fastforce simp: drv_abs_def)
  from numbered_in_order [OF this]
  have b: "frame_seq b = dv_seq_num s" "in_order (dv_seq_num s) (map frame_seq bs)"
    "\<forall>x \<in> set (b # bs). frame_src x = ?src" by simp_all
  obtain t ts where arr: "arrivals = t # ts" "length ts = length bs" using assms(5) Cons by (cases arrivals) auto
  let ?step = "\<lambda>m (q, t). note_frame (ucast ?src) q t m"
  have fold: "foldl (\<lambda>m (b, t). note_frame (ucast (frame_src b)) (frame_seq b) t m) m (zip xs us)
      = foldl ?step m (zip (map frame_seq xs) us)" if "\<forall>x \<in> set xs. frame_src x = ?src" for m xs us
    using that
  proof (induction xs arbitrary: m us)
    case Nil
    then show ?case by simp
  next
    case (Cons x xs)
    then show ?case by (cases us) simp_all
  qed
  have "in_order (dv_seq_num s) (map fst (zip (map frame_seq bs) ts))" using b(2) arr(2) by simp
  from lossless_from_reset [OF assms(2) this, of "ucast ?src" t] show ?thesis
    using fold [OF b(3), of sq_reset arrivals] b(1) arr(1) bars_lossless Cons by simp
qed

theorem director_stream_full_bars_witness:
  "bars (foldl (\<lambda>m (b, t). note_frame (ucast (frame_src b)) (frame_seq b) t m) sq_reset
      (zip (first_tx (map snd (fst (drv_run
        [((CallWashEnd 0 1 5, sample_env), 100), ((CallLoop, sample_env), 1200)] sample_driver))))
        [101, 1201])) \<in> {- 1, 4}"
proof -
  let ?calls = "[((CallWashEnd 0 1 5, sample_env), 100), ((CallLoop, sample_env), 1200)]"
  have q: "dv_seq_num sample_driver \<noteq> 0" by (simp add: drv_eval)
  have e: "\<forall>((c, e), t) \<in> set ?calls. de_radio e \<and> \<not> foreign c" by (simp add: drv_eval)
  have two: "length [101, 1201 :: u32] = length (first_tx (map snd (fst (drv_run ?calls sample_driver))))"
    by (simp add: drv_eval)
  show ?thesis by (rule director_stream_full_bars [OF sample_driver_live q e surjective_pairing two])
qed

section \<open>From a repeater to the Director's census\<close>

text \<open>The Director counts the repeaters it hears, and no Lume is fooled by them. A census beacon that a
  repeater broadcasts is noted by every driver in its range under the repeater's own id with its
  channel, its count of relayed frames and its uptime; the same beacon is refused by every receiver's
  Director lock, which it leaves as it was, and no other repeater relays it.\<close>

theorem director_counts_repeater:
  assumes "Census m \<in> set (fst (emit_census e r))" and "rm_uid r = [u0, u1, u2]" and "dv_recv_cb d"
  shows "dv_census (drv_on_recv e' m d) = census_note (u0, u1, u2) (rm_active_channel r) (rm_relayed_count r)
      (rep_uptime_s (rn_now e - rm_boot_ms r)) (de_now e') (dv_census d)
    \<and> (\<exists>h. decode_header m h0 = (Ok, h) \<and> tofu_admit (h_message_type h) (h_source_id h) ch now lock = (False, lock))
    \<and> relay_key m = None"
proof -
  let ?hdr = "empty_header\<lparr> h_source_id := kBroadcastSourceId \<rparr>"
  let ?p = "\<lparr> rh_uid = rm_uid r, rh_channel = rm_active_channel r,
    rh_uptime_s = rep_uptime_s (rn_now e - rm_boot_ms r), rh_relayed_count = rm_relayed_count r \<rparr>"
  let ?h = "sent_header ?hdr RepeaterHeartbeat 10"
  have m: "m = write_header ?hdr RepeaterHeartbeat 10 @ repeater_heartbeat_wire ?p"
    using census_bytes [OF assms(1)] assms(2) by simp
  have len: "length (repeater_heartbeat_wire ?p) = 10"
    using assms(2) by (simp add: repeater_heartbeat_wire_def write_u16_le_def write_u32_le_def)
  have hdr: "decode_header m x = (Ok, ?h)" for x unfolding m by (rule decode_write_header) (simp add: len)
  have shape: "repeater_heartbeat_shape ?p" "repeater_heartbeat_shape out" if "length (rh_uid out) = 3" for out
    using assms(2) that by (simp_all add: repeater_heartbeat_shape_def)
  have dec: "decode_repeater_heartbeat ?h (repeater_heartbeat_wire ?p) out = (Ok, ?p)" if "length (rh_uid out) = 3" for out
    using repeater_heartbeat.decode_wire [OF shape [OF that], of ?h] len by simp
  have pl: "take (unat (h_payload_len ?h)) (drop kHeaderSize m) = repeater_heartbeat_wire ?p"
    unfolding m by (simp add: len)
  have census: "feed_census e' m x = x\<lparr> dv_census := census_note (u0, u1, u2) (rm_active_channel r) (rm_relayed_count r)
      (rep_uptime_s (rn_now e - rm_boot_ms r)) (de_now e') (dv_census x) \<rparr>" for x
    using hdr [of hb_out] dec pl assms(2) by (simp add: feed_census_def empty_header_def)
  have listen: "on_listen_recv m x = x" for x using hdr by (simp add: on_listen_recv_def)
  have "relay_key m = None" using hdr by (simp add: relay_key_def)
  then show ?thesis using assms(3) census listen hdr by (simp add: drv_on_recv_def tofu_admit_def empty_header_def)
qed

theorem director_counts_repeater_witness:
  "\<exists>m. fst (emit_census (rep_env_at 5000) (snd (start_radio (rep_env_at 0) 6
        (repeater_init nvs_empty\<lparr> rm_channel_setting := 6 \<rparr>)))) = [Census m]
    \<and> dv_census (drv_on_recv sample_env m sample_driver)
      = census_note (0, 0, 0) 6 0 5 0 (dv_census sample_driver)"
proof -
  let ?r = "snd (start_radio (rep_env_at 0) 6 (repeater_init nvs_empty\<lparr> rm_channel_setting := 6 \<rparr>))"
  have uid: "rm_uid ?r = [0, 0, 0]" and st: "rm_active_channel ?r = 6" "rm_relayed_count ?r = 0" "rm_boot_ms ?r = 0"
    by (simp_all add: start_radio_def repeater_init_def rep_env_at_def)
  obtain m where m: "fst (emit_census (rep_env_at 5000) ?r) = [Census m]"
    by (simp add: emit_census_def start_radio_def repeater_init_def rep_env_at_def
        encode_repeater_heartbeat_def Let_def)
  have cb: "dv_recv_cb sample_driver" by (simp add: drv_eval)
  have up: "rep_uptime_s (rn_now (rep_env_at 5000) - 0) = 5" by (simp add: rep_uptime_s_def rep_env_at_def)
  have now: "de_now sample_env = 0" by (simp add: sample_env_def)
  from director_counts_repeater [OF _ uid cb, of m "rep_env_at 5000" sample_env] m st up now show ?thesis by auto
qed

section \<open>From the lighting desk to the strip\<close>

lemma recv_wash_renders:
  assumes "decode_header b zero_header = (Ok, h)" and "h_hop_count h = 0"
    and "decode_light_wash h (drop kHeaderSize b) zero_light_wash = (Ok, p)"
    and "admitted e h l" and "fresh_key h l"
  shows "\<exists>pre t. fst (lume_on_recv e b l) = pre @ fan_out_light_wash p t
    \<and> lm_bindings t = lm_bindings l \<and> lm_group t = lm_group l
    \<and> lm_tofu (snd (lume_on_recv e b l))
      = \<lparr> tl_has_lock = True, tl_locked_id = h_source_id h, tl_last_frame_ms = le_now e \<rparr>"
proof -
  have t: "h_message_type h = LightWash" "length b = kHeaderSize + kLightWashPayloadLen"
    using assms(3) by (auto simp: decode_light_wash_def split: if_splits)
  have fr: "show_frame b h" using assms(1,2) t(1) by (simp add: show_frame_def)
  let ?s = "accepted_state e h b l"
  have "dispatch_pulse h b ?s = ([], ?s)" using t(1) by (simp add: dispatch_pulse_def)
  then have "fst (dispatch e h b ?s) = fan_out_light_wash p ?s"
    using t assms(3) by (simp add: dispatch_def dispatch_wash_def dispatch_display_def when_ok_def)
  then show ?thesis using assms(4,5)
    by (intro exI [of _ "fst (note_alive e h (lock_on e h l))"] exI [of _ ?s])
      (simp add: on_recv_show [OF fr] on_show_frame_eq)
qed

lemma fan_out_wash_events: "\<forall>ev \<in> set (fan_out_light_wash p t). \<exists>i. ev = Render i (lw_target_class p) (ucast (lw_target_group p)) (OnLightWash p)"
  by (auto simp: fan_out_light_wash_def fan_out_def)

text \<open>C3: From the fader to the pixels. A bridge's session begins: its mappers are fresh, its parser is idle, its radio
  is up and the airtime cap open. The bytes of the session's first DMX packet arrive in one poll, 280 to 599 channels of which
  all seven blocks are quiet (effects mode, no trigger, no strobe). What goes on the air reaches a Lume
  with an LED strip, of whatever group, that holds no other Director (and is not on channel 11 unless
  the bridge has a performance id), and whose duplicate ring does not have the bridge's next
  sequence number. Then exactly one frame goes on the air, the Lume locks on the bridge, and hands its
  strip driver the wash of the desk's first block. If that wash does not drift, then after its attack and before its time to live
  the driver computes for the strip exactly the colour of the bridge's own preview, though one dims with
  floats and the other with integers.\<close>

theorem desk_lights_strip:
  assumes "first_universe e (take 280 chs) s" and "280 \<le> length chs" and "length chs \<le> 599"
    and "br_adapter_active s" and "dp_state (br_parser s) = WaitStart" and "dp_inv (br_parser s)"
    and "length (br_universe s) = 280"
    and "tl_has_lock (lm_tofu l) \<longrightarrow> tl_locked_id (lm_tofu l) = ucast (dv_source_id (dl_driver (br_dal s)))"
    and "lm_listen_chan l = 11 \<longrightarrow> is_performance_range (ucast (dv_source_id (dl_driver (br_dal s))))"
    and "\<not> seen_recently (ucast (dv_source_id (dl_driver (br_dal s))), dv_seq_num (dl_driver (br_dal s))) (lm_dedup l)"
    and "i < length (lm_bindings l)" and "lm_bindings l ! i = led_strip_binding"
    and "strip_ok board st" and "sd_enabled st"
  shows "\<exists>b. on_wire (fst (bridge_loop_tick e ok (enttec_frame (kLabelOutputOnlySendDmx, 0 # chs)) s)) = [OnAir WASH b]
    \<and> tl_has_lock (lm_tofu (snd (lume_on_recv le b l)))
    \<and> tl_locked_id (lm_tofu (snd (lume_on_recv le b l))) = ucast (dv_source_id (dl_driver (br_dal s)))
    \<and> sd_wash (deliver_strip (lm_bindings l) (le_now le) (fst (lume_on_recv le b l)) st)
      = fresh_wash (strip_wash_event (wash_payload 0 0 (block_wash (take 40 chs)))) (le_now le) st
    \<and> (\<forall>cosf now. ew_cycle_ms (block_wash (take 40 chs)) = 0
         \<and> units100_to_ms (ew_attack (block_wash (take 40 chs))) \<le> now - le_now le
         \<and> (ew_ttl_seconds (block_wash (take 40 chs)) = 0
             \<or> now - le_now le < ucast (ew_ttl_seconds (block_wash (take 40 chs))) * 1000)
       \<longrightarrow> baseline cosf now (deliver_strip (lm_bindings l) (le_now le) (fst (lume_on_recv le b l)) st)
         = preview_rgb (take 40 chs))"
proof -
  let ?src = "ucast (dv_source_id (dl_driver (br_dal s))) :: u16"
  let ?p = "wash_payload 0 0 (block_wash (take 40 chs))"
  obtain b h p where r: "on_wire (fst (bridge_loop_tick e ok (enttec_frame (kLabelOutputOnlySendDmx, 0 # chs)) s)) = [OnAir WASH b]"
    "decode_header b zero_header = (Ok, h)" "h_source_id h = ?src"
    "h_sequence_number h = dv_seq_num (dl_driver (br_dal s))" "h_hop_count h = 0"
    "decode_light_wash h (drop kHeaderSize b) zero_light_wash = (Ok, p)" "lw_target_class p = 0" "lw_target_group p = 0"
    "preview_rgb (take 40 chs) = (scale_byte (lw_r1 p) (lw_intensity p),
        scale_byte (lw_g1 p) (lw_intensity p), scale_byte (lw_b1 p) (lw_intensity p))" and p: "p = ?p"
    using desk_wash_reaches_receivers [OF assms(1-7), of ok zero_header zero_light_wash] by blast
  have "unat ?src < 256" using unat_u8_le [of "dv_source_id (dl_driver (br_dal s))"]
    by (simp add: unat_ucast_up del: unat_u8_le)
  then have "?src \<noteq> kBroadcastSourceId" by auto
  then have adm: "admitted le h l" using assms(8,9) r(3) by (auto simp: admitted_def tofu_admit_def)
  have fresh: "fresh_key h l" using assms(10) r(3,4) by (simp add: fresh_key_def)
  obtain pre t where recv: "fst (lume_on_recv le b l) = pre @ fan_out_light_wash p t" "lm_bindings t = lm_bindings l"
    "lm_tofu (snd (lume_on_recv le b l)) = \<lparr> tl_has_lock = True, tl_locked_id = h_source_id h, tl_last_frame_ms = le_now le \<rparr>"
    using recv_wash_renders [OF r(2,5,6) adm fresh] by blast
  have "Render i (lw_target_class p) (ucast (lw_target_group p)) (OnLightWash p) \<in> set (fan_out_light_wash p t)"
    using assms(11,12) by (auto simp: fan_out_light_wash_def fan_out_iff wanted_def class_ok_def group_ok_def recv(2)
        led_strip_binding_def r(7,8))
  note wash = deliver_wash [OF deliver_strip_ok [OF assms(13)] _ fan_out_wash_events this assms(11,12)]
  have w: "sd_wash (deliver_strip (lm_bindings l) (le_now le) (fst (lume_on_recv le b l)) st)
      = fresh_wash (strip_wash_event p) (le_now le) st"
    using wash [of "lm_bindings l" "le_now le" pre "le_now le"] assms(13,14)
    by (simp add: recv(1) deliver_strip_append deliver_strip_enabled fresh_wash_def strip_send_wash_def
        strip_ok_def deliver_strip_ok [OF assms(13), unfolded strip_ok_def])
  have q: "lw_cycle_ms p = ew_cycle_ms (block_wash (take 40 chs))" "lw_attack p = ew_attack (block_wash (take 40 chs))"
    "lw_ttl_seconds p = ew_ttl_seconds (block_wash (take 40 chs))"
    by (simp_all add: p wash_payload_def)
  show ?thesis
    unfolding p [symmetric] q [symmetric]
    using r(1,3,9) recv(3) w assms(13,14)
    by (intro exI [of _ b])
      (auto simp: baseline_def fresh_wash_def strip_send_wash_def strip_wash_event_def strip_ok_def steady_baseline
        float_dim_is_scale_byte)
qed

theorem desk_lights_strip_witness:
  "\<exists>b. on_wire (fst (bridge_loop_tick (sample_env\<lparr> de_now := 5000 \<rparr>) True
        (enttec_frame (kLabelOutputOnlySendDmx, 0 # sample_universe)) sample_bridge)) = [OnAir WASH b]
    \<and> baseline (\<lambda>x. x) 109 (deliver_strip (lm_bindings lume_sample) 9
            (fst (lume_on_recv (lume_env_at 9) b lume_sample)) sample_strip) = (0, 40, 0)"
proof -
  have len: "length sample_universe = 280" by (simp add: sample_universe_def)
  have fu: "first_universe (sample_env\<lparr> de_now := 5000 \<rparr>) (take 280 sample_universe) sample_bridge"
    using sample_first_universe len by simp
  have p: "dp_state (br_parser sample_bridge) = WaitStart" "dp_inv (br_parser sample_bridge)"
    using dp_inv_init by (simp_all add: sample_bridge_def bridge_init_def dmx_parser_init_def)
  have u: "br_adapter_active sample_bridge" "length (br_universe sample_bridge) = 280"
    by (simp_all add: sample_bridge_def bridge_init_def)
  have v: "preview_rgb (take 40 sample_universe) = (0, 40, 0)"
    by (simp add: preview_rgb_def sample_universe_def scale_byte_def Let_def)
  have l: "\<not> tl_has_lock (lm_tofu lume_sample)" "lm_listen_chan lume_sample \<noteq> 11" "lm_dedup lume_sample = dedup_init"
    "lm_bindings lume_sample ! 1 = led_strip_binding" "1 < length (lm_bindings lume_sample)"
    by (simp_all add: lume_sample_def lume_init_def)
  have q: "dv_seq_num (dl_driver (br_dal sample_bridge)) \<noteq> 0" by (simp add: sample_bridge_def bridge_init_def dal_of_def drv_eval)
  have s: "\<not> seen_recently (x, dv_seq_num (dl_driver (br_dal sample_bridge))) (lm_dedup lume_sample)" for x
    using q by (simp add: l(3) seen_recently_def dedup_init_def list_ex_iff)
  have t: "le_now (lume_env_at 9) = 9" by (simp add: lume_env_at_def)
  have w: "ew_cycle_ms (block_wash (take 40 sample_universe)) = 0" "ew_attack (block_wash (take 40 sample_universe)) = 0"
    "ew_ttl_seconds (block_wash (take 40 sample_universe)) = 0"
    by (simp_all add: block_wash_def wash_event_of_def wash_of_block_def sample_universe_def)
  from desk_lights_strip [OF fu _ _ u(1) p u(2) _ _ s l(5,4) sample_strip_ok, of True "lume_env_at 9"] l(1,2)
  show ?thesis unfolding t by (auto simp: len v w units100_to_ms_def)
qed

section \<open>From the Director's configuration screen to the Lume's flash\<close>

lemma accepted_config_write:
  assumes "rd_result (fst (process_config_write m uid secret f nl ctx)) = Accepted"
  shows "lume_on_recv e m l = on_config_write e m l"
  using assms by (auto simp: process_config_write_def lume_on_recv_def rx_detail_def split: prod.splits if_splits)

lemma counted_bag_keeps_identity:
  assumes "decode_property_bag bag (Some (counting_cb (Some (apply_config_entry cfg)))) (ctx, 0) = (err, ctx', walked)"
  shows "load_device_uid (ac_nvs ctx') = load_device_uid (ac_nvs ctx)"
proof -
  let ?cb = "counting_cb (Some (apply_config_entry cfg))"
  let ?P = "\<lambda>c. protected (ac_nvs (fst c)) = protected (ac_nvs ctx)"
  have step: "fst (?cb en c) \<and> ?P (snd (?cb en c))" if "?P c" for en c
  proof -
    obtain c1 w where c: "c = (c1, w)" by (cases c)
    obtain c' where c': "apply_config_entry cfg en c1 = (True, c')" and ef: "effect_ok cfg c1 c'"
      using apply_config_entry_effect by blast
    from effect_ok_frame(2) [OF ef] that show ?thesis by (simp add: c counting_cb_def c' Let_def)
  qed
  have "?P (snd (decode_entries n bag off ?cb (ctx, 0)))" for n off
    by (rule walk_inv [where P = ?P, OF step, THEN conjunct2]) simp_all
  from this [of "unat (bag ! 0)" 1] have "protected (ac_nvs ctx') = protected (ac_nvs ctx)"
    using assms by (auto simp: decode_property_bag_def split: if_splits)
  then show ?thesis by (simp add: protected_def load_device_uid_def)
qed

text \<open>C4: A Lume obeys its Director's command and says so. If the Director's builder signs a bag for the uid and
  secret in a Lume's flash, with a number the Lume has not seen from that Director, then the Lume, in
  whatever state of the show and whoever holds its lock, applies exactly that bag to its flash,
  leaves the show alone, and broadcasts one acknowledgement: it decodes to the Lume's uid, the
  command's number, the count of entries walked, and 0x82 if a value was out of range, else 0.\<close>

theorem director_configures_lume:
  assumes "build_signed_config_write buf src (load_device_uid (lm_nvs l)) (load_device_secret (lm_nvs l))
      (Some bag) bag_len numonce = (n, buf')"
    and "n \<noteq> 0" and "length bag = unat bag_len"
    and "check_and_update (lm_numonces l) src numonce = (True, g)"
    and "decode_property_bag bag (Some (counting_cb (Some (apply_config_entry (le_cfg e)))))
      (\<lparr> ac_role = Lume, ac_value_out_of_range = False, ac_nvs = lm_nvs l \<rparr>, 0) = (TlvOk, ctx', walked)"
    and "le_radio e" and "config_ack_shape out"
  shows "\<exists>ack h q. lume_on_recv e (take n buf') l = ([AckTx ack], snd (lume_on_recv e (take n buf') l))
    \<and> decode_header ack h0 = (Ok, h) \<and> decode_config_ack h (drop kHeaderSize ack) out = (Ok, q)
    \<and> ca_responder_uid q = load_device_uid (lm_nvs l) \<and> read_u64_le (ca_responder_numonce q) = numonce
    \<and> ca_applied_keys q = walked \<and> ca_status q = (if ac_value_out_of_range ctx' then 0x82 else 0)
    \<and> lm_nvs (snd (lume_on_recv e (take n buf') l)) = ac_nvs ctx'
    \<and> show_view (snd (lume_on_recv e (take n buf') l)) = show_view l"
proof -
  let ?m = "take n buf'" and ?st = "if ac_value_out_of_range ctx' then 0x82 else 0 :: u8"
  note rx = rx_accepts_built [OF assms(1-5)]
  have on: "lume_on_recv e ?m l = on_config_write e ?m l"
    by (rule accepted_config_write [of ?m "load_device_uid (lm_nvs l)" "load_device_secret (lm_nvs l)"
          "Some (apply_config_entry (le_cfg e))" "lm_numonces l"
          "\<lparr> ac_role = Lume, ac_value_out_of_range = False, ac_nvs = lm_nvs l \<rparr>"]) (simp add: rx)
  let ?s = "l\<lparr> lm_numonces := g, lm_nvs := ac_nvs ctx' \<rparr>"
  let ?p = "\<lparr> ca_responder_uid = load_device_uid (ac_nvs ctx'), ca_responder_numonce = write_u64_le numonce,
    ca_status = ?st, ca_applied_keys = walked \<rparr>"
  let ?hdr = "zero_header\<lparr> h_source_id := ucast (load_device_uid (ac_nvs ctx')), h_sequence_number := next_config_seq ?s, h_hop_count := 0 \<rparr>"
  obtain k ab where enc: "encode_config_ack (replicate (kHeaderSize + kConfigAckPayloadLen) 0) ?hdr ?p = (k, ab)" by fastforce
  have shape: "config_ack_shape ?p" by (simp add: config_ack_shape_def)
  have k: "k \<noteq> 0" using enc by (auto simp: encode_config_ack_def)
  have "emit_config_ack e numonce ?st walked ?s = ([AckTx (take k ab)], ?s\<lparr> lm_config_tx_seq := next_config_seq ?s \<rparr>)"
    using enc k assms(6) by (simp add: emit_config_ack_def Let_def)
  then have ocw: "on_config_write e ?m l = ([AckTx (take k ab)],
      ?s\<lparr> lm_config_tx_seq := next_config_seq ?s, lm_ack_flash_end_ms := le_now e + kAckFlashDurationMs \<rparr>)"
    by (simp add: on_config_write_def rx Let_def)
  obtain h q where "decode_header (take k ab) h0 = (Ok, h)" "decode_config_ack h (drop kHeaderSize (take k ab)) out = (Ok, q)" "q = ?p"
    using config_ack.roundtrip [OF shape assms(7) enc k, of h0] by auto
  moreover have "load_device_uid (ac_nvs ctx') = load_device_uid (lm_nvs l)"
    using counted_bag_keeps_identity [OF assms(5)] by simp
  moreover have "show_view (snd (on_config_write e ?m l)) = show_view l" using on_config_write_show by blast
  ultimately show ?thesis unfolding on by (auto simp: ocw)
qed

definition group_bag :: bytes where
  "group_bag = [1, 5, 103, 114, 111, 117, 112, 0, 1, 9]"

theorem director_configures_lume_witness:
  "lm_nvs (snd (lume_on_recv (lume_env_at 3) (take 40 (snd (build_signed_config_write (replicate 60 0) 7
      (load_device_uid nvs_empty) (load_device_secret nvs_empty) (Some group_bag) 10 42))) lume_sample))
    = nvs_empty\<lparr> nv_slv_group := Some 9 \<rparr>"
proof -
  let ?b = "build_signed_config_write (replicate 60 0) 7 (load_device_uid nvs_empty) (load_device_secret nvs_empty)
    (Some group_bag) 10 42"
  let ?ctx = "\<lparr> ac_role = Lume, ac_value_out_of_range = False, ac_nvs = nvs_empty \<rparr>"
  have l: "lm_nvs lume_sample = nvs_empty" "lm_numonces lume_sample = numonce_init"
    by (simp_all add: lume_sample_def lume_init_def)
  have b: "?b = (40, snd ?b)" by (simp add: build_signed_eq)
  have g: "check_and_update numonce_init 7 42 = (True, snd (check_and_update numonce_init 7 42))"
    using fresh_guard_accepts [of 42 7] by (simp add: prod_eq_iff)
  have w: "decode_property_bag group_bag (Some (counting_cb (Some (apply_config_entry (le_cfg (lume_env_at 3)))))) (?ctx, 0)
      = (TlvOk, ?ctx\<lparr> ac_nvs := nvs_empty\<lparr> nv_slv_group := Some 9 \<rparr> \<rparr>, 1)"
    by (simp add: group_bag_def decode_property_bag_def parse_entry_def counting_cb_def Let_def apply_defs
        key_cstr_def kGroup_def read_u8_def save_lume_group_def)
  have len: "length group_bag = unat (10 :: u8)" by (simp add: group_bag_def)
  have e: "le_radio (lume_env_at 3)" by (simp add: lume_env_at_def)
  have o: "config_ack_shape \<lparr> ca_responder_uid = 0, ca_responder_numonce = replicate 8 0, ca_status = 0, ca_applied_keys = 0 \<rparr>"
    by (simp add: config_ack_shape_def)
  show ?thesis
    using director_configures_lume [of "replicate 60 0" 7 lume_sample group_bag 10 42 40 "snd ?b" _ "lume_env_at 3", unfolded l,
        OF b _ len g w e o, of zero_header] by auto
qed

end
